(* ===== verification/Prelude.thy ===== *)
theory Prelude
  imports Main "HOL-Library.AList"
begin

text \<open>
  Shared vocabulary of the development.

  A Go map that the program ranges over is an association list with distinct keys, whose
  order stands for the iteration order the Go runtime picks for that map; a theorem about
  every association list is a theorem about every iteration order. A Go map that is only
  looked up and updated is a HOL map. A nil map and an empty map read the same way, so both
  are the empty list.

  The theory also holds the generic facts about association lists, option-valued lookups
  and lists that the components share.
\<close>

section \<open>Named collections\<close>

named_theorems gomap_simps \<open>lookups in updated and deleted Go maps\<close>
named_theorems graph_inv_simps \<open>effect of the graph operations on edges and nodes\<close>
named_theorems scan_simps \<open>effect of the scanner operations on the scanner state\<close>

section \<open>Go maps as association lists\<close>

type_synonym ('k, 'v) gomap = "('k \<times> 'v) list"

definition map_put :: "'k \<Rightarrow> 'v \<Rightarrow> ('k, 'v) gomap \<Rightarrow> ('k, 'v) gomap" where
  "map_put k v m = AList.update k v m"

definition map_del :: "'k \<Rightarrow> ('k, 'v) gomap \<Rightarrow> ('k, 'v) gomap" where
  "map_del k m = AList.delete k m"

definition map_keys :: "('k, 'v) gomap \<Rightarrow> 'k list" where
  "map_keys m = map fst m"

definition map_wf :: "('k, 'v) gomap \<Rightarrow> bool" where
  "map_wf m \<longleftrightarrow> distinct (map fst m)"

lemma map_of_map_put [simp, gomap_simps]: "map_of (map_put k v m) = (map_of m)(k \<mapsto> v)"
  by (simp add: map_put_def update_conv')

lemma map_of_map_del [simp, gomap_simps]: "map_of (map_del k m) = (map_of m)(k := None)"
  by (simp add: map_del_def delete_conv')

lemma map_put_same: "map_of m k = Some v \<Longrightarrow> map_put k v m = m"
  by (simp add: map_put_def update_triv)

lemma map_del_put_fresh: "map_of m k = None \<Longrightarrow> map_del k (map_put k v m) = m"
  by (induction m) (auto simp: map_put_def map_del_def split: if_splits)

lemma map_put_put [simp]: "map_put k w (map_put k v m) = map_put k w m"
  by (induction m) (auto simp: map_put_def)

lemma map_put_nonempty [simp]: "map_put k v m \<noteq> []"
  by (cases m) (auto simp: map_put_def)

lemma in_set_map_put: "e \<in> set (map_put k v m) \<Longrightarrow> e = (k, v) \<or> e \<in> set m"
  by (induction m) (auto simp: map_put_def split: if_splits)

lemma in_set_map_del: "e \<in> set (map_del k m) \<longleftrightarrow> e \<in> set m \<and> fst e \<noteq> k"
  by (induction m) (auto simp: map_del_def)

lemma map_put_new: "k \<notin> fst ` set m \<Longrightarrow> map_put k v m = m @ [(k, v)]"
  by (induction m) (auto simp: map_put_def)

lemma map_wf_Nil [simp]: "map_wf []"
  by (simp add: map_wf_def)

lemma map_wf_put [simp]: "map_wf m \<Longrightarrow> map_wf (map_put k v m)"
  by (simp add: map_wf_def map_put_def distinct_update)

lemma map_wf_del [simp]: "map_wf m \<Longrightarrow> map_wf (map_del k m)"
  by (simp add: map_wf_def map_del_def distinct_delete)

lemma map_wf_map_values [simp]: "map_wf (map (\<lambda>(k, v). (k, f v)) m) = map_wf m"
  by (simp add: map_wf_def comp_def case_prod_beta)

lemma map_of_map_values [simp]:
  "map_of (map (\<lambda>(k, v). (k, f v)) m) k = map_option f (map_of m k)"
  by (induction m) auto

lemma map_wf_in_set: "map_wf m \<Longrightarrow> (k, v) \<in> set m \<longleftrightarrow> map_of m k = Some v"
  by (auto simp: map_wf_def)

section \<open>Lists\<close>

lemma last_butlast_snoc: "xs \<noteq> [] \<Longrightarrow> butlast xs @ [last xs] = xs"
  by simp

lemma set_butlast_last: "xs \<noteq> [] \<Longrightarrow> set xs = insert (last xs) (set (butlast xs))"
  by (metis append_butlast_last_id list.set(1,2) set_append Un_insert_right sup_bot_right)

section \<open>Strings\<close>

text \<open>\<open>strings.Join\<close>.\<close>

fun join :: "string list \<Rightarrow> string \<Rightarrow> string" where
  "join [] sep = []"
| "join [v] sep = v"
| "join (v # w # vs) sep = v @ sep @ join (w # vs) sep"

lemma join_Cons: "vs \<noteq> [] \<Longrightarrow> join (v # vs) sep = v @ sep @ join vs sep"
  by (cases vs) auto

text \<open>\<open>strings.Split\<close> at a separator of one character.\<close>

fun split_on :: "char \<Rightarrow> string \<Rightarrow> string list" where
  "split_on c [] = [[]]"
| "split_on c (x # xs) =
     (if x = c then [] # split_on c xs
      else case split_on c xs of [] \<Rightarrow> [[x]] | w # ws \<Rightarrow> (x # w) # ws)"

lemma split_on_nonempty [simp]: "split_on c xs \<noteq> []"
  by (induction xs) (auto split: list.splits)

lemma split_on_plain: "c \<notin> set w \<Longrightarrow> split_on c w = [w]"
  by (induction w) auto

lemma split_on_append: "c \<notin> set w \<Longrightarrow> split_on c (w @ c # xs) = w # split_on c xs"
  by (induction w) auto

lemma split_on_join:
  "ws \<noteq> [] \<Longrightarrow> \<forall>w \<in> set ws. c \<notin> set w \<Longrightarrow> split_on c (join ws [c]) = ws"
proof (induction ws)
  case (Cons w ws)
  then show ?case by (cases ws) (simp_all add: split_on_plain split_on_append)
qed simp

lemma join_inject:
  assumes "vs \<noteq> []" "ws \<noteq> []" "\<forall>w \<in> set (vs @ ws). c \<notin> set w"
  shows "join vs [c] = join ws [c] \<longleftrightarrow> vs = ws"
proof -
  have "split_on c (join vs [c]) = vs" "split_on c (join ws [c]) = ws"
    using assms by (intro split_on_join; simp)+
  then show ?thesis by metis
qed

section \<open>Results\<close>

text \<open>Go code that may panic returns the panic or a result; what follows a panic is not run.\<close>

definition res_bind :: "'e + 'a \<Rightarrow> ('a \<Rightarrow> 'e + 'b) \<Rightarrow> 'e + 'b" where
  "res_bind m f = (case m of Inl e \<Rightarrow> Inl e | Inr x \<Rightarrow> f x)"

lemma res_bind_simps [simp]: "res_bind (Inl e) f = Inl e" "res_bind (Inr x) f = f x"
  by (simp_all add: res_bind_def)

lemma res_bind_Inr: "res_bind m f = Inr y \<longleftrightarrow> (\<exists>x. m = Inr x \<and> f x = Inr y)"
  by (cases m) auto

text \<open>A loop over a list whose body may panic.\<close>

fun res_fold :: "('a \<Rightarrow> 's \<Rightarrow> 'e + 's) \<Rightarrow> 'a list \<Rightarrow> 's \<Rightarrow> 'e + 's" where
  "res_fold f [] s = Inr s"
| "res_fold f (x # xs) s = res_bind (f x s) (res_fold f xs)"

lemma res_fold_append: "res_fold f (xs @ ys) s = res_bind (res_fold f xs s) (res_fold f ys)"
  by (induction xs arbitrary: s) (auto simp: res_bind_def split: sum.splits)

lemma res_fold_invariant:
  assumes "\<And>x s s'. x \<in> set xs \<Longrightarrow> I s \<Longrightarrow> f x s = Inr s' \<Longrightarrow> I s'"
  shows "I s \<Longrightarrow> res_fold f xs s = Inr s' \<Longrightarrow> I s'"
  using assms
proof (induction xs arbitrary: s)
  case (Cons x xs)
  then obtain s1 where "f x s = Inr s1" "res_fold f xs s1 = Inr s'" by (auto simp: res_bind_Inr)
  with Cons show ?case by (metis list.set_intros)
qed simp

end
