(* ===== verification/Dag_Graph.thy ===== *)
theory Dag_Graph
  imports Prelude
begin

text \<open>
  The directed graph of \<^verbatim>\<open>internal/dag/dag.go\<close>: node sets, the graph record with its
  four maps, every operation on it, the representation invariant and the abstract graph
  (a set of vertices and a set of edges) that the operations implement.
\<close>

section \<open>Nodes and node sets\<close>

text \<open>
  A Go \<open>Node\<close> is an interface value compared by identity; its \<open>NodeID\<close> is fixed. Here a
  node is its address together with its identifier.
\<close>

datatype node = Node (addr: nat) (NodeID: string)

type_synonym node_set = "node list"

definition ns_Add :: "node \<Rightarrow> node_set \<Rightarrow> node_set" where
  "ns_Add n ns = (if n \<in> set ns then ns else ns @ [n])"

definition ns_Remove :: "node \<Rightarrow> node_set \<Rightarrow> node_set" where
  "ns_Remove n ns = removeAll n ns"

definition ns_Has :: "node_set \<Rightarrow> node \<Rightarrow> bool" where
  "ns_Has ns n \<longleftrightarrow> n \<in> set ns"

definition ns_Clone :: "node_set \<Rightarrow> node_set" where
  "ns_Clone ns = foldl (\<lambda>newSet node. ns_Add node newSet) [] ns"

text \<open>The contract of a node set: an abstraction to sets, kept by every operation.\<close>

locale set_interface =
  fixes add :: "'a \<Rightarrow> 's \<Rightarrow> 's"
    and remove :: "'a \<Rightarrow> 's \<Rightarrow> 's"
    and has :: "'s \<Rightarrow> 'a \<Rightarrow> bool"
    and elems :: "'s \<Rightarrow> 'a set"
    and invar :: "'s \<Rightarrow> bool"
  assumes elems_add: "invar s \<Longrightarrow> elems (add x s) = insert x (elems s)"
    and elems_remove: "invar s \<Longrightarrow> elems (remove x s) = elems s - {x}"
    and has_elems: "invar s \<Longrightarrow> has s x \<longleftrightarrow> x \<in> elems s"
    and invar_add: "invar s \<Longrightarrow> invar (add x s)"
    and invar_remove: "invar s \<Longrightarrow> invar (remove x s)"
begin

lemma has_add: "invar s \<Longrightarrow> has (add x s) y \<longleftrightarrow> y = x \<or> has s y"
  by (simp add: has_elems elems_add invar_add)

lemma has_remove: "invar s \<Longrightarrow> has (remove x s) y \<longleftrightarrow> y \<noteq> x \<and> has s y"
  by (auto simp: has_elems elems_remove invar_remove)

lemma fold_add:
  "invar s \<Longrightarrow> invar (foldl (\<lambda>s x. add x s) s xs) \<and>
    elems (foldl (\<lambda>s x. add x s) s xs) = elems s \<union> set xs"
  by (induction xs arbitrary: s) (auto simp: invar_add elems_add)

end

interpretation ns: set_interface ns_Add ns_Remove ns_Has set distinct
  by unfold_locales (auto simp: ns_Add_def ns_Remove_def ns_Has_def distinct_removeAll)

lemma set_ns_Add [simp]: "set (ns_Add n ns) = insert n (set ns)"
  by (auto simp: ns_Add_def)

lemma distinct_ns_Add [simp]: "distinct (ns_Add n ns) = distinct ns"
  by (auto simp: ns_Add_def)

lemma set_ns_Remove [simp]: "set (ns_Remove n ns) = set ns - {n}"
  by (auto simp: ns_Remove_def)

lemma distinct_ns_Remove [simp]: "distinct ns \<Longrightarrow> distinct (ns_Remove n ns)"
  by (simp add: ns_Remove_def distinct_removeAll)

lemma ns_Clone_id: "distinct ns \<Longrightarrow> ns_Clone ns = ns"
proof -
  have "distinct (ms @ ns) \<Longrightarrow> foldl (\<lambda>newSet node. ns_Add node newSet) ms ns = ms @ ns" for ms
    by (induction ns arbitrary: ms) (auto simp: ns_Add_def)
  from this [of "[]"] show "distinct ns \<Longrightarrow> ns_Clone ns = ns"
    by (simp add: ns_Clone_def)
qed

section \<open>The graph\<close>

record graph =
  nodeByID :: "(string, node) gomap"
  nodes :: node_set
  outEdges :: "(node, node_set) gomap"
  inEdges :: "(node, node_set) gomap"

datatype edge = Edge (From: node) (To: node)

text \<open>A Go panic of this package.\<close>

datatype graph_panic = NodeIDInUse string | UnknownEndpoint

text \<open>The zero value of \<open>Graph\<close>; \<open>init\<close> only replaces nil maps by empty ones.\<close>

definition empty_graph :: graph where
  "empty_graph = \<lparr>nodeByID = [], nodes = [], outEdges = [], inEdges = []\<rparr>"

text \<open>Reading \<open>m[n]\<close> for a missing key gives the nil set.\<close>

definition edge_set :: "(node, node_set) gomap \<Rightarrow> node \<Rightarrow> node_set" where
  "edge_set m n = (case map_of m n of None \<Rightarrow> [] | Some ns \<Rightarrow> ns)"

definition Add :: "node \<Rightarrow> graph \<Rightarrow> graph_panic + graph" where
  "Add n g =
     (case map_of (nodeByID g) (NodeID n) of
        Some other \<Rightarrow>
          (if other \<noteq> n then Inl (NodeIDInUse (NodeID n))
           else Inr (g\<lparr>nodes := ns_Add n (nodes g),
                       nodeByID := map_put (NodeID n) n (nodeByID g)\<rparr>))
      | None \<Rightarrow> Inr (g\<lparr>nodes := ns_Add n (nodes g),
                       nodeByID := map_put (NodeID n) n (nodeByID g)\<rparr>))"

definition GetByID :: "graph \<Rightarrow> string \<Rightarrow> node option" where
  "GetByID g i = map_of (nodeByID g) i"

definition Remove :: "node \<Rightarrow> graph \<Rightarrow> graph" where
  "Remove n g =
     (if \<not> ns_Has (nodes g) n then g
      else g\<lparr>nodeByID := map_del (NodeID n) (nodeByID g),
             nodes := ns_Remove n (nodes g),
             outEdges := map_del n (outEdges g),
             inEdges := map (\<lambda>(k, ns). (k, ns_Remove n ns)) (inEdges g)\<rparr>)"

definition AddEdge :: "edge \<Rightarrow> graph \<Rightarrow> graph_panic + graph" where
  "AddEdge e g =
     (if \<not> ns_Has (nodes g) (From e) \<or> \<not> ns_Has (nodes g) (To e) then Inl UnknownEndpoint
      else Inr (g\<lparr>inEdges := map_put (To e) (ns_Add (From e) (edge_set (inEdges g) (To e))) (inEdges g),
                  outEdges := map_put (From e) (ns_Add (To e) (edge_set (outEdges g) (From e))) (outEdges g)\<rparr>))"

definition RemoveEdge :: "edge \<Rightarrow> graph \<Rightarrow> graph" where
  "RemoveEdge e g =
     (let inE = (case map_of (inEdges g) (To e) of
                   None \<Rightarrow> inEdges g
                 | Some inSet \<Rightarrow> map_put (To e) (ns_Remove (From e) inSet) (inEdges g));
          outE = (case map_of (outEdges g) (From e) of
                   None \<Rightarrow> outEdges g
                 | Some outSet \<Rightarrow> map_put (From e) (ns_Remove (To e) outSet) (outEdges g))
      in g\<lparr>inEdges := inE, outEdges := outE\<rparr>)"

definition Nodes :: "graph \<Rightarrow> node list" where
  "Nodes g = foldl (\<lambda>ns n. ns @ [n]) [] (nodes g)"

definition Edges :: "graph \<Rightarrow> edge list" where
  "Edges g = concat (map (\<lambda>(from, tos). map (\<lambda>to. Edge from to) tos) (outEdges g))"

definition Dependants :: "graph \<Rightarrow> node \<Rightarrow> node list" where
  "Dependants g n = foldl (\<lambda>ds d. ds @ [d]) [] (edge_set (inEdges g) n)"

definition Dependencies :: "graph \<Rightarrow> node \<Rightarrow> node list" where
  "Dependencies g n = foldl (\<lambda>ds d. ds @ [d]) [] (edge_set (outEdges g) n)"

definition Roots :: "graph \<Rightarrow> node list" where
  "Roots g = filter (\<lambda>n. length (edge_set (inEdges g) n) = 0) (nodes g)"

definition Leaves :: "graph \<Rightarrow> node list" where
  "Leaves g = filter (\<lambda>n. length (edge_set (outEdges g) n) = 0) (nodes g)"

definition Clone :: "graph \<Rightarrow> graph" where
  "Clone g = \<lparr>nodeByID = foldl (\<lambda>m (k, v). map_put k v m) [] (nodeByID g),
              nodes = ns_Clone (nodes g),
              outEdges = foldl (\<lambda>m (k, s). map_put k (ns_Clone s) m) [] (outEdges g),
              inEdges = foldl (\<lambda>m (k, s). map_put k (ns_Clone s) m) [] (inEdges g)\<rparr>"

definition Len :: "graph \<Rightarrow> nat" where
  "Len g = length (nodes g)"

section \<open>Invariant and abstraction\<close>

abbreviation succs :: "graph \<Rightarrow> node \<Rightarrow> node list" where
  "succs g n \<equiv> edge_set (outEdges g) n"

abbreviation preds :: "graph \<Rightarrow> node \<Rightarrow> node list" where
  "preds g n \<equiv> edge_set (inEdges g) n"

definition edge_map_wf :: "(node, node_set) gomap \<Rightarrow> bool" where
  "edge_map_wf m \<longleftrightarrow> map_wf m \<and> (\<forall>k. distinct (edge_set m k))"

text \<open>The abstract graph: its vertices and its edges.\<close>

definition vertices :: "graph \<Rightarrow> node set" where
  "vertices g = set (nodes g)"

definition edge_rel :: "graph \<Rightarrow> (node \<times> node) set" where
  "edge_rel g = {(a, b). b \<in> set (succs g a)}"

definition ids_wf :: "graph \<Rightarrow> bool" where
  "ids_wf g \<longleftrightarrow> map_wf (nodeByID g) \<and> distinct (nodes g) \<and>
     (\<forall>i n. map_of (nodeByID g) i = Some n \<longleftrightarrow> n \<in> set (nodes g) \<and> NodeID n = i)"

definition edges_wf :: "graph \<Rightarrow> bool" where
  "edges_wf g \<longleftrightarrow> edge_map_wf (outEdges g) \<and> edge_map_wf (inEdges g) \<and>
     (\<forall>a b. b \<in> set (succs g a) \<longleftrightarrow> a \<in> set (preds g b))"

text \<open>The representation invariant: identifiers, edges in both directions, no dangling edge.\<close>

definition graph_inv :: "graph \<Rightarrow> bool" where
  "graph_inv g \<longleftrightarrow> ids_wf g \<and> edges_wf g \<and> edge_rel g \<subseteq> vertices g \<times> vertices g"

section \<open>Laws of the operations\<close>

lemma foldl_snoc [simp]: "foldl (\<lambda>ns n. ns @ [n]) acc xs = acc @ xs"
  by (induction xs arbitrary: acc) auto

lemma Nodes_eq [simp]: "Nodes g = nodes g"
  by (simp add: Nodes_def)

lemma Dependencies_eq [simp]: "Dependencies g n = succs g n"
  by (simp add: Dependencies_def)

lemma Dependants_eq [simp]: "Dependants g n = preds g n"
  by (simp add: Dependants_def)

lemma edge_set_put [simp]: "edge_set (map_put k ns m) n = (if n = k then ns else edge_set m n)"
  by (simp add: edge_set_def)

lemma edge_set_del [simp]: "edge_set (map_del k m) n = (if n = k then [] else edge_set m n)"
  by (simp add: edge_set_def)

lemma edge_set_remove_all [simp]:
  "set (edge_set (map (\<lambda>(k, ns). (k, ns_Remove a ns)) m) n) = set (edge_set m n) - {a}"
  by (auto simp: edge_set_def split: option.splits)

lemma distinct_edge_set_remove_all:
  "distinct (edge_set m n) \<Longrightarrow> distinct (edge_set (map (\<lambda>(k, ns). (k, ns_Remove a ns)) m) n)"
  by (auto simp: edge_set_def split: option.splits)

lemma edge_set_Nil [simp]: "edge_set [] n = []"
  by (simp add: edge_set_def)

lemma edge_map_wf_Nil [simp]: "edge_map_wf []"
  by (simp add: edge_map_wf_def)

lemma distinct_edge_set: "edge_map_wf m \<Longrightarrow> distinct (edge_set m n)"
  by (simp add: edge_map_wf_def)

lemma edge_map_wf_put: "edge_map_wf m \<Longrightarrow> distinct ns \<Longrightarrow> edge_map_wf (map_put k ns m)"
  by (auto simp: edge_map_wf_def)

lemma edge_map_wf_del: "edge_map_wf m \<Longrightarrow> edge_map_wf (map_del k m)"
  by (auto simp: edge_map_wf_def)

lemma edge_map_wf_remove_all:
  "edge_map_wf m \<Longrightarrow> edge_map_wf (map (\<lambda>(k, ns). (k, ns_Remove a ns)) m)"
  by (simp add: edge_map_wf_def distinct_edge_set_remove_all)

lemmas edge_map_wf_intros = edge_map_wf_put edge_map_wf_del edge_map_wf_remove_all

lemma edge_rel_iff [simp]: "(a, b) \<in> edge_rel g \<longleftrightarrow> b \<in> set (succs g a)"
  by (simp add: edge_rel_def)

lemma edge_set_in_map: "map_wf m \<Longrightarrow> (k, ns) \<in> set m \<Longrightarrow> edge_set m k = ns"
  by (simp add: edge_set_def map_wf_in_set)

lemma in_edge_set_iff: "map_wf m \<Longrightarrow> b \<in> set (edge_set m a) \<longleftrightarrow> (\<exists>ns. (a, ns) \<in> set m \<and> b \<in> set ns)"
  by (cases "map_of m a") (auto simp: edge_set_def map_wf_in_set)

lemma set_Edges:
  assumes "edge_map_wf (outEdges g)"
  shows "Edge a b \<in> set (Edges g) \<longleftrightarrow> (a, b) \<in> edge_rel g"
proof -
  have "map_wf (outEdges g)" using assms by (simp add: edge_map_wf_def)
  then show ?thesis by (auto simp: Edges_def in_edge_set_iff)
qed

lemma graph_inv_converse: "graph_inv g \<Longrightarrow> b \<in> set (preds g a) \<longleftrightarrow> (b, a) \<in> edge_rel g"
  by (auto simp: graph_inv_def edges_wf_def)

lemma graph_inv_distinct:
  assumes "graph_inv g"
  shows "distinct (nodes g)" "distinct (succs g n)" "distinct (preds g n)"
  using assms by (auto simp: graph_inv_def ids_wf_def edges_wf_def intro: distinct_edge_set)

lemma graph_inv_endpoints: "graph_inv g \<Longrightarrow> (a, b) \<in> edge_rel g \<Longrightarrow> a \<in> vertices g \<and> b \<in> vertices g"
  unfolding graph_inv_def by blast

lemma finite_edge_rel: "graph_inv g \<Longrightarrow> finite (edge_rel g)"
  by (rule finite_subset [of _ "vertices g \<times> vertices g"]) (auto simp: graph_inv_def vertices_def)

lemma graph_inv_empty: "graph_inv empty_graph"
  by (auto simp: graph_inv_def ids_wf_def edges_wf_def empty_graph_def edge_rel_def)

lemma GetByID_iff: "graph_inv g \<Longrightarrow> GetByID g i = Some n \<longleftrightarrow> n \<in> vertices g \<and> NodeID n = i"
  by (simp add: graph_inv_def ids_wf_def GetByID_def vertices_def)

subsection \<open>Adding\<close>

lemma Add_panics_iff:
  assumes "graph_inv g"
  shows "Add n g = Inl p \<longleftrightarrow>
    p = NodeIDInUse (NodeID n) \<and> (\<exists>m \<in> vertices g. NodeID m = NodeID n \<and> m \<noteq> n)"
proof (cases "GetByID g (NodeID n)")
  case None
  then have "m \<notin> vertices g" if "NodeID m = NodeID n" for m
    using GetByID_iff [OF assms, of "NodeID n" m] that by auto
  with None show ?thesis by (auto simp: Add_def GetByID_def)
next
  case (Some m)
  then have "m' = m" if "m' \<in> vertices g" "NodeID m' = NodeID n" for m'
    using GetByID_iff [OF assms, of "NodeID n" m'] that by auto
  with Some show ?thesis
    using GetByID_iff [OF assms, of "NodeID n" m] by (auto simp: Add_def GetByID_def)
qed

lemma Add_Inr:
  "Add n g = Inr g' \<Longrightarrow>
    g' = g\<lparr>nodes := ns_Add n (nodes g), nodeByID := map_put (NodeID n) n (nodeByID g)\<rparr> \<and>
    (map_of (nodeByID g) (NodeID n) = None \<or> map_of (nodeByID g) (NodeID n) = Some n)"
  by (auto simp: Add_def split: option.splits if_splits)

lemma Add_abs:
  "Add n g = Inr g' \<Longrightarrow> vertices g' = insert n (vertices g) \<and> edge_rel g' = edge_rel g"
  by (auto dest!: Add_Inr simp: vertices_def edge_rel_def)

lemma Add_ids_wf: "ids_wf g \<Longrightarrow> Add n g = Inr g' \<Longrightarrow> ids_wf g'"
  by (drule Add_Inr) (auto simp: ids_wf_def, metis option.simps(3), metis option.inject)

lemma Add_inv: "graph_inv g \<Longrightarrow> Add n g = Inr g' \<Longrightarrow> graph_inv g'"
  using Add_abs [of n g g'] Add_ids_wf [of g n g']
  by (auto simp: graph_inv_def edges_wf_def dest!: Add_Inr)

subsection \<open>Edges\<close>

lemma AddEdge_panics_iff:
  "AddEdge e g = Inl p \<longleftrightarrow> p = UnknownEndpoint \<and> \<not> (From e \<in> vertices g \<and> To e \<in> vertices g)"
  by (auto simp: AddEdge_def ns_Has_def vertices_def)

lemma AddEdge_abs:
  "AddEdge e g = Inr g' \<Longrightarrow>
    vertices g' = vertices g \<and> edge_rel g' = insert (From e, To e) (edge_rel g) \<and>
    From e \<in> vertices g \<and> To e \<in> vertices g"
  by (auto simp: AddEdge_def vertices_def ns_Has_def edge_rel_def split: if_splits)

lemma AddEdge_edges_wf: "edges_wf g \<Longrightarrow> AddEdge e g = Inr g' \<Longrightarrow> edges_wf g'"
  by (auto simp: AddEdge_def edges_wf_def intro!: edge_map_wf_intros distinct_edge_set split: if_splits)

lemma AddEdge_inv: "graph_inv g \<Longrightarrow> AddEdge e g = Inr g' \<Longrightarrow> graph_inv g'"
  using AddEdge_abs [of e g g'] AddEdge_edges_wf [of g e g']
  by (auto simp: graph_inv_def ids_wf_def AddEdge_def split: if_splits)

lemma RemoveEdge_abs:
  "vertices (RemoveEdge e g) = vertices g \<and>
   edge_rel (RemoveEdge e g) = edge_rel g - {(From e, To e)}"
  by (auto simp: RemoveEdge_def Let_def vertices_def edge_rel_def edge_set_def split: option.splits if_splits)

lemma RemoveEdge_edges_wf:
  assumes "edges_wf g"
  shows "edges_wf (RemoveEdge e g)"
proof -
  have "edge_map_wf (outEdges (RemoveEdge e g)) \<and> edge_map_wf (inEdges (RemoveEdge e g))"
    using assms distinct_edge_set [of "outEdges g" "From e"] distinct_edge_set [of "inEdges g" "To e"]
    by (auto simp: edges_wf_def RemoveEdge_def Let_def edge_set_def intro!: edge_map_wf_intros split: option.splits)
  moreover have "b \<in> set (succs (RemoveEdge e g) a) \<longleftrightarrow> b \<in> set (succs g a) \<and> (a, b) \<noteq> (From e, To e)" for a b
    using RemoveEdge_abs [of e g] by (auto simp: edge_rel_def)
  moreover have "a \<in> set (preds (RemoveEdge e g) b) \<longleftrightarrow> a \<in> set (preds g b) \<and> (a, b) \<noteq> (From e, To e)" for a b
    by (auto simp: RemoveEdge_def Let_def edge_set_def split: option.splits if_splits)
  ultimately show ?thesis
    using assms by (auto simp: edges_wf_def)
qed

lemma RemoveEdge_inv: "graph_inv g \<Longrightarrow> graph_inv (RemoveEdge e g)"
  using RemoveEdge_abs [of e g] RemoveEdge_edges_wf [of g e]
  by (auto simp: graph_inv_def ids_wf_def RemoveEdge_def Let_def)

subsection \<open>Removing a node\<close>

lemma Remove_absent: "n \<notin> vertices g \<Longrightarrow> Remove n g = g"
  by (simp add: Remove_def ns_Has_def vertices_def)

lemma Remove_abs:
  "n \<in> vertices g \<Longrightarrow>
    vertices (Remove n g) = vertices g - {n} \<and> edge_rel (Remove n g) = {(a, b) \<in> edge_rel g. a \<noteq> n}"
  by (auto simp: Remove_def ns_Has_def vertices_def edge_rel_def split: if_splits)

lemma Remove_ids_edges_wf:
  assumes "graph_inv g"
  shows "ids_wf (Remove n g) \<and> edges_wf (Remove n g)"
proof (cases "n \<in> vertices g")
  case True
  from assms have ids: "map_of (nodeByID g) i = Some m \<longleftrightarrow> m \<in> set (nodes g) \<and> NodeID m = i" for i m
    by (simp add: graph_inv_def ids_wf_def)
  then have "m = n" if "m \<in> set (nodes g)" "NodeID m = NodeID n" for m
    using that True by (metis option.inject vertices_def)
  with assms True ids have "ids_wf (Remove n g)"
    by (auto simp: Remove_def graph_inv_def ids_wf_def ns_Has_def vertices_def)
  moreover from assms True have "edges_wf (Remove n g)"
    by (auto simp: Remove_def ns_Has_def vertices_def graph_inv_def edges_wf_def intro!: edge_map_wf_intros)
  ultimately show ?thesis ..
qed (use assms in \<open>simp add: Remove_absent graph_inv_def\<close>)

subsection \<open>Copying\<close>

lemma foldl_map_put_id:
  assumes "distinct (map fst (ms @ xs))"
  shows "foldl (\<lambda>m (k, v). map_put k v m) ms xs = ms @ xs"
  using assms
proof (induction xs arbitrary: ms)
  case (Cons x xs)
  obtain k v where x: "x = (k, v)" by (cases x)
  from Cons.prems have "k \<notin> fst ` set ms" by (auto simp: x)
  then have "map_put k v ms = ms @ [(k, v)]"
    by (simp add: map_put_def) (induction ms; auto)
  with Cons show ?case by (simp add: x)
qed simp

lemma foldl_clone_sets:
  assumes "edge_map_wf xs"
  shows "foldl (\<lambda>m (k, s). map_put k (ns_Clone s) m) [] xs = xs"
proof -
  have "foldl (\<lambda>m (k, s). map_put k (ns_Clone s) m) [] xs = foldl (\<lambda>m (k, s). map_put k s m) [] xs"
  proof (rule foldl_cong)
    fix m x assume "x \<in> set xs"
    then obtain k s where x: "x = (k, s)" "(k, s) \<in> set xs" by (metis surj_pair)
    then have "s = edge_set xs k" using assms by (simp add: edge_map_wf_def edge_set_in_map)
    then have "distinct s" using assms by (simp add: edge_map_wf_def)
    then show "(\<lambda>(k, s). map_put k (ns_Clone s) m) x = (\<lambda>(k, s). map_put k s m) x"
      by (simp add: x ns_Clone_id)
  qed simp_all
  also have "\<dots> = xs"
    using assms foldl_map_put_id [of "[]" xs] by (simp add: edge_map_wf_def map_wf_def)
  finally show ?thesis .
qed

lemma Clone_eq: "graph_inv g \<Longrightarrow> Clone g = g"
  by (simp add: Clone_def foldl_clone_sets ns_Clone_id graph_inv_def edges_wf_def ids_wf_def
      foldl_map_put_id [of "[]", simplified] map_wf_def)

section \<open>Refinement of the abstract graph\<close>

text \<open>
  A client's use of a graph as a sequence of calls. The abstract graph is a set of vertices and
  a set of edges; an abstract call panics exactly where the documentation says the Go call does.
\<close>

datatype graph_call = CallAdd node | CallAddEdge edge | CallRemoveEdge edge | CallClone

fun graph_call_step :: "graph_call \<Rightarrow> graph \<Rightarrow> graph_panic + graph" where
  "graph_call_step (CallAdd n) g = Add n g"
| "graph_call_step (CallAddEdge e) g = AddEdge e g"
| "graph_call_step (CallRemoveEdge e) g = Inr (RemoveEdge e g)"
| "graph_call_step CallClone g = Inr (Clone g)"

fun graph_calls :: "graph_call list \<Rightarrow> graph \<Rightarrow> graph_panic + graph" where
  "graph_calls [] g = Inr g"
| "graph_calls (c # cs) g = (case graph_call_step c g of Inl p \<Rightarrow> Inl p | Inr g' \<Rightarrow> graph_calls cs g')"

type_synonym abs_graph = "node set \<times> (node \<times> node) set"

fun abs_call_step :: "graph_call \<Rightarrow> abs_graph \<Rightarrow> graph_panic + abs_graph" where
  "abs_call_step (CallAdd n) (V, E) =
     (if \<exists>m \<in> V. NodeID m = NodeID n \<and> m \<noteq> n then Inl (NodeIDInUse (NodeID n)) else Inr (insert n V, E))"
| "abs_call_step (CallAddEdge e) (V, E) =
     (if From e \<in> V \<and> To e \<in> V then Inr (V, insert (From e, To e) E) else Inl UnknownEndpoint)"
| "abs_call_step (CallRemoveEdge e) (V, E) = Inr (V, E - {(From e, To e)})"
| "abs_call_step CallClone (V, E) = Inr (V, E)"

fun abs_calls :: "graph_call list \<Rightarrow> abs_graph \<Rightarrow> graph_panic + abs_graph" where
  "abs_calls [] A = Inr A"
| "abs_calls (c # cs) A = (case abs_call_step c A of Inl p \<Rightarrow> Inl p | Inr A' \<Rightarrow> abs_calls cs A')"

definition graph_abs :: "graph \<Rightarrow> abs_graph" where
  "graph_abs g = (vertices g, edge_rel g)"

lemma graph_call_step_refines:
  assumes "graph_inv g"
  shows "abs_call_step c (graph_abs g) = map_sum id graph_abs (graph_call_step c g)"
proof (cases c)
  case (CallAdd n)
  show ?thesis
  proof (cases "Add n g")
    case (Inl p)
    then have "p = NodeIDInUse (NodeID n)" "\<exists>m \<in> vertices g. NodeID m = NodeID n \<and> m \<noteq> n"
      using Add_panics_iff [OF assms, of n p] by blast+
    with Inl show ?thesis by (simp add: CallAdd graph_abs_def)
  next
    case (Inr g')
    then have "\<not> (\<exists>m \<in> vertices g. NodeID m = NodeID n \<and> m \<noteq> n)"
      using Add_panics_iff [OF assms, of n "NodeIDInUse (NodeID n)"] by simp
    then show ?thesis using Add_abs [OF Inr] Inr by (simp add: CallAdd graph_abs_def)
  qed
next
  case (CallAddEdge e)
  show ?thesis
  proof (cases "AddEdge e g")
    case (Inl p)
    then show ?thesis using AddEdge_panics_iff [of e g p] by (auto simp: CallAddEdge graph_abs_def)
  next
    case (Inr g')
    then show ?thesis using AddEdge_abs [OF Inr] by (simp add: CallAddEdge graph_abs_def)
  qed
next
  case (CallRemoveEdge e)
  then show ?thesis using RemoveEdge_abs [of e g] by (simp add: graph_abs_def)
qed (simp add: graph_abs_def Clone_eq [OF assms])

lemma graph_call_step_inv: "graph_inv g \<Longrightarrow> graph_call_step c g = Inr g' \<Longrightarrow> graph_inv g'"
  by (cases c) (auto simp: Clone_eq intro: Add_inv AddEdge_inv RemoveEdge_inv)

lemma graph_calls_refine:
  assumes "graph_inv g"
  shows "abs_calls cs (graph_abs g) = map_sum id graph_abs (graph_calls cs g) \<and>
    (\<forall>g'. graph_calls cs g = Inr g' \<longrightarrow> graph_inv g')"
  using assms
proof (induction cs arbitrary: g)
  case (Cons c cs)
  note step = graph_call_step_refines [OF Cons.prems, of c]
  show ?case
  proof (cases "graph_call_step c g")
    case (Inr g')
    with Cons.IH graph_call_step_inv [OF Cons.prems Inr] step show ?thesis by simp
  qed (use step in simp)
qed simp

lemma graph_calls_inv: "graph_calls cs empty_graph = Inr g \<Longrightarrow> graph_inv g"
  using graph_calls_refine [OF graph_inv_empty] by blast

text \<open>
  C18: a graph that starts empty and is changed by any sequence of calls of \<open>Add\<close>, \<open>AddEdge\<close>,
  \<open>RemoveEdge\<close> and \<open>Clone\<close> implements the abstract graph: it panics exactly when and as the
  abstract graph does, its vertices and edges are those of the abstract graph, and its four maps
  satisfy the representation invariant.
\<close>

theorem graph_calls_refine_abstract:
  "case graph_calls cs empty_graph of
     Inl p \<Rightarrow> abs_calls cs ({}, {}) = Inl p
   | Inr g \<Rightarrow> graph_inv g \<and> abs_calls cs ({}, {}) = Inr (vertices g, edge_rel g)"
proof -
  have "graph_abs empty_graph = ({}, {})"
    by (simp add: graph_abs_def vertices_def edge_rel_def empty_graph_def)
  then show ?thesis
    using graph_calls_refine [OF graph_inv_empty, of cs] by (auto simp: graph_abs_def split: sum.split)
qed

section \<open>Queries and removal\<close>

text \<open>A graph of three nodes in a chain, for the witnesses.\<close>

abbreviation na :: node where "na \<equiv> Node 1 ''a''"
abbreviation nb :: node where "nb \<equiv> Node 2 ''b''"
abbreviation nc :: node where "nc \<equiv> Node 3 ''c''"

definition chain_graph :: graph where
  "chain_graph = \<lparr>nodeByID = [(''a'', na), (''b'', nb), (''c'', nc)], nodes = [na, nb, nc],
     outEdges = [(na, [nb]), (nb, [nc])], inEdges = [(nb, [na]), (nc, [nb])]\<rparr>"

lemma chain_graph_inv: "graph_inv chain_graph"
  by (rule graph_calls_inv [of "[CallAdd na, CallAdd nb, CallAdd nc, CallAddEdge (Edge na nb),
      CallAddEdge (Edge nb nc)]"])
    (simp add: Add_def AddEdge_def empty_graph_def chain_graph_def map_put_def ns_Add_def ns_Has_def edge_set_def)

lemma chain_graph_edges: "edge_rel chain_graph = {(na, nb), (nb, nc)}"
  by (auto simp: edge_rel_def chain_graph_def edge_set_def split: if_splits)

lemma chain_graph_vertices: "vertices chain_graph = {na, nb, nc}"
  by (simp add: vertices_def chain_graph_def)

lemma chain_graph_acyclic: "acyclic (edge_rel chain_graph)"
proof (rule acyclic_subset)
  show "acyclic (measure addr)" by (simp add: wf_acyclic)
qed (simp add: chain_graph_edges)

text \<open>
  The queries of a well-formed graph answer for the abstract graph: lookup by identifier,
  the node and edge lists (without repetition of nodes), the dependencies and dependants of a
  node, the roots, the leaves and the number of nodes.
\<close>

theorem graph_queries_correct:
  assumes "graph_inv g"
  shows "(GetByID g i = Some n \<longleftrightarrow> n \<in> vertices g \<and> NodeID n = i) \<and>
    distinct (Nodes g) \<and> set (Nodes g) = vertices g \<and> Len g = card (vertices g) \<and>
    (Edge a b \<in> set (Edges g) \<longleftrightarrow> (a, b) \<in> edge_rel g) \<and>
    set (Dependencies g n) = {m. (n, m) \<in> edge_rel g} \<and>
    set (Dependants g n) = {m. (m, n) \<in> edge_rel g} \<and>
    set (Roots g) = {n \<in> vertices g. \<forall>m. (m, n) \<notin> edge_rel g} \<and>
    set (Leaves g) = {n \<in> vertices g. \<forall>m. (n, m) \<notin> edge_rel g}"
proof -
  have "edge_map_wf (outEdges g)" using assms by (simp add: graph_inv_def edges_wf_def)
  note edges = set_Edges [OF this]
  have roots: "preds g n = [] \<longleftrightarrow> (\<forall>m. (m, n) \<notin> edge_rel g)" for n
    using graph_inv_converse [OF assms, of _ n] by (cases "preds g n") auto
  have leaves: "succs g n = [] \<longleftrightarrow> (\<forall>m. (n, m) \<notin> edge_rel g)" for n
    by (cases "succs g n") auto
  show ?thesis
    using graph_inv_distinct(1) [OF assms] graph_inv_converse [OF assms]
    by (auto simp: GetByID_iff [OF assms] edges Roots_def Leaves_def roots leaves vertices_def Len_def
        distinct_card simp del: edge_rel_iff) (auto simp: edge_rel_def)
qed

theorem graph_queries_correct_witness:
  "graph_inv chain_graph \<and> GetByID chain_graph ''b'' = Some nb \<and>
   set (Roots chain_graph) = {n \<in> vertices chain_graph. \<forall>m. (m, n) \<notin> edge_rel chain_graph} \<and>
   Roots chain_graph = [na] \<and> Leaves chain_graph = [nc]"
proof (intro conjI)
  note q = graph_queries_correct [OF chain_graph_inv, of "''b''" nb na nb]
  show "graph_inv chain_graph" by (rule chain_graph_inv)
  show "set (Roots chain_graph) = {n \<in> vertices chain_graph. \<forall>m. (m, n) \<notin> edge_rel chain_graph}"
    using q by blast
  have "nb \<in> vertices chain_graph" by (simp add: vertices_def chain_graph_def)
  then show "GetByID chain_graph ''b'' = Some nb" using q by simp
qed (simp_all add: chain_graph_def Roots_def Leaves_def edge_set_def)

text \<open>
  C22: removing a node of a well-formed graph drops the node, its identifier and its outgoing
  edges, but keeps every edge that points to it: the result is well formed exactly when no other
  node had an edge to the removed one.
\<close>

theorem Remove_keeps_incoming:
  assumes "graph_inv g" and "n \<in> vertices g"
  shows "vertices (Remove n g) = vertices g - {n} \<and> GetByID (Remove n g) (NodeID n) = None \<and>
    edge_rel (Remove n g) = {(a, b) \<in> edge_rel g. a \<noteq> n} \<and>
    (graph_inv (Remove n g) \<longleftrightarrow> (\<forall>a. (a, n) \<in> edge_rel g \<longrightarrow> a = n))"
proof -
  have "GetByID (Remove n g) (NodeID n) = None"
    using assms(2) by (simp add: GetByID_def Remove_def ns_Has_def vertices_def)
  moreover have "graph_inv (Remove n g) \<longleftrightarrow>
      {(a, b) \<in> edge_rel g. a \<noteq> n} \<subseteq> (vertices g - {n}) \<times> (vertices g - {n})"
    using Remove_ids_edges_wf [OF assms(1), of n] Remove_abs [OF assms(2)]
    by (simp add: graph_inv_def [of "Remove n g"])
  then have "graph_inv (Remove n g) \<longleftrightarrow> (\<forall>a. (a, n) \<in> edge_rel g \<longrightarrow> a = n)"
    using graph_inv_endpoints [OF assms(1)] by blast
  ultimately show ?thesis using Remove_abs [OF assms(2)] by blast
qed

theorem Remove_keeps_incoming_witness:
  "graph_inv chain_graph \<and> nb \<in> vertices chain_graph \<and> (na, nb) \<in> edge_rel (Remove nb chain_graph) \<and>
   \<not> graph_inv (Remove nb chain_graph)"
proof -
  have "nb \<in> vertices chain_graph" "(na, nb) \<in> edge_rel chain_graph"
    by (simp_all add: vertices_def chain_graph_def edge_set_def)
  with Remove_keeps_incoming [OF chain_graph_inv this(1)] chain_graph_inv show ?thesis by auto
qed

end
