(* ===== verification/Dag_Walk.thy ===== *)
theory Dag_Walk
  imports Dag_Graph
begin

text \<open>
  The walks of \<^verbatim>\<open>internal/dag/walk.go\<close>. A \<open>WalkFunc\<close> is a step that reads and updates a
  caller's state and may return an error: \<open>node \<Rightarrow> 's \<Rightarrow> 'e option \<times> 's\<close>. The slices the
  loops use as stacks keep the Go order, the top of the stack last.
\<close>

type_synonym ('e, 's) walk_func = "node \<Rightarrow> 's \<Rightarrow> 'e option \<times> 's"

section \<open>Visiting a list of nodes\<close>

text \<open>The reference behaviour of a walk: call the function along a list, stop at an error.\<close>

fun visit_all :: "('e, 's) walk_func \<Rightarrow> node list \<Rightarrow> 's \<Rightarrow> 'e option \<times> 's" where
  "visit_all fn [] s = (None, s)"
| "visit_all fn (n # ns) s =
     (case fn n s of (Some e, s') \<Rightarrow> (Some e, s') | (None, s') \<Rightarrow> visit_all fn ns s')"

text \<open>The function that never fails and records the nodes it is given.\<close>

definition record_node :: "(unit, node list) walk_func" where
  "record_node n tr = (None, tr @ [n])"

lemma visit_all_append:
  "visit_all fn (xs @ ys) s =
    (case visit_all fn xs s of (Some e, s') \<Rightarrow> (Some e, s') | (None, s') \<Rightarrow> visit_all fn ys s')"
  by (induction xs arbitrary: s) (auto split: prod.splits option.splits)

lemma visit_all_record [simp]: "visit_all record_node xs tr = (None, tr @ xs)"
  by (induction xs arbitrary: tr) (auto simp: record_node_def)

section \<open>Depth-first walk\<close>

text \<open>All nodes that can be pushed: the targets of the edge map.\<close>

definition edge_targets :: "(node, node_set) gomap \<Rightarrow> node set" where
  "edge_targets m = (\<Union>(k, ns) \<in> set m. set ns)"

lemma finite_edge_targets [simp]: "finite (edge_targets m)"
  by (auto simp: edge_targets_def)

lemma edge_set_targets: "set (edge_set m n) \<subseteq> edge_targets m"
  by (cases "map_of m n") (auto simp: edge_set_def edge_targets_def dest!: map_of_SomeD)

text \<open>The nodes a worklist loop may still visit.\<close>

definition pending :: "(node, node_set) gomap \<Rightarrow> node list \<Rightarrow> node list \<Rightarrow> node set" where
  "pending m visited unchecked = (edge_targets m \<union> set unchecked) - set visited"

lemma finite_pending [simp]: "finite (pending m visited unchecked)"
  by (simp add: pending_def)

lemma pending_skip:
  "unchecked \<noteq> [] \<Longrightarrow> card (pending m visited (butlast unchecked)) \<le> card (pending m visited unchecked)"
  by (rule card_mono) (auto simp: pending_def dest: in_set_butlastD)

lemma pending_visit:
  assumes "unchecked \<noteq> []" "last unchecked \<notin> set visited" "set new \<subseteq> edge_targets m \<union> set unchecked"
  shows "card (pending m (visited @ [last unchecked]) new) < card (pending m visited unchecked)"
  using assms by (intro psubset_card_mono) (auto simp: pending_def)

function walk_loop ::
  "graph \<Rightarrow> ('e, 's) walk_func \<Rightarrow> node list \<Rightarrow> node list \<Rightarrow> 's \<Rightarrow> 'e option \<times> 's" where
  "walk_loop g fn visited unchecked s =
     (if unchecked = [] then (None, s)
      else let check = last unchecked; rest = butlast unchecked in
        if ns_Has visited check then walk_loop g fn visited rest s
        else case fn check s of
            (Some err, s') \<Rightarrow> (Some err, s')
          | (None, s') \<Rightarrow> walk_loop g fn (visited @ [check]) (rest @ succs g check) s')"
  by pat_completeness auto
termination
proof (relation "measures [\<lambda>(g, fn, visited, unchecked, s). card (pending (outEdges g) visited unchecked),
    \<lambda>(g, fn, visited, unchecked, s). length unchecked]", goal_cases)
  case (2 g fn visited u s check rest)
  then show ?case using pending_skip [of u "outEdges g" visited] by force
next
  case (3 g fn visited u s check rest res s')
  then show ?case
    using edge_set_targets [of "outEdges g" check] in_set_butlastD [of _ u]
    by (auto simp: ns_Has_def intro!: pending_visit)
qed simp

declare walk_loop.simps [simp del]

definition Walk :: "graph \<Rightarrow> node list \<Rightarrow> ('e, 's) walk_func \<Rightarrow> 's \<Rightarrow> 'e option \<times> 's" where
  "Walk g start fn s = walk_loop g fn [] ([] @ start) s"

definition walk_order :: "graph \<Rightarrow> node list \<Rightarrow> node list" where
  "walk_order g start = snd (Walk g start record_node [])"

text \<open>The direct dependants of a node, in the order of the incoming set.\<close>

fun walk_incoming_loop :: "('e, 's) walk_func \<Rightarrow> node list \<Rightarrow> 's \<Rightarrow> 'e option \<times> 's" where
  "walk_incoming_loop fn [] s = (None, s)"
| "walk_incoming_loop fn (n # ns) s =
     (case fn n s of (Some err, s') \<Rightarrow> (Some err, s') | (None, s') \<Rightarrow> walk_incoming_loop fn ns s')"

definition WalkIncomingNodes :: "graph \<Rightarrow> node \<Rightarrow> ('e, 's) walk_func \<Rightarrow> 's \<Rightarrow> 'e option \<times> 's" where
  "WalkIncomingNodes g start fn s = walk_incoming_loop fn (preds g start) s"

section \<open>Topological walk\<close>

text \<open>
  The inner loop over the incoming edges of the node just visited: it counts down the
  remaining dependencies of each dependant and queues it when the count reaches zero.
\<close>

fun topo_push ::
  "graph \<Rightarrow> node list \<Rightarrow> (node \<rightharpoonup> int) \<Rightarrow> node list \<Rightarrow> (node \<rightharpoonup> int) \<times> node list" where
  "topo_push g [] remainingDeps unchecked = (remainingDeps, unchecked)"
| "topo_push g (n # ns) remainingDeps unchecked =
     (let d = (case remainingDeps n of None \<Rightarrow> int (length (succs g n)) | Some d \<Rightarrow> d) - 1;
          remainingDeps' = remainingDeps(n \<mapsto> d)
      in topo_push g ns remainingDeps' (if d = 0 then unchecked @ [n] else unchecked))"

lemma topo_push_unchecked:
  "\<exists>new. snd (topo_push g ns rd u) = u @ new \<and> set new \<subseteq> set ns"
proof (induction ns arbitrary: rd u)
  case (Cons n ns)
  define d where "d = (case rd n of None \<Rightarrow> int (length (succs g n)) | Some d \<Rightarrow> d) - 1"
  obtain new where "snd (topo_push g ns (rd(n \<mapsto> d)) (if d = 0 then u @ [n] else u)) =
      (if d = 0 then u @ [n] else u) @ new" "set new \<subseteq> set ns"
    using Cons.IH by blast
  then have "snd (topo_push g (n # ns) rd u) = u @ (if d = 0 then n # new else new)"
    by (simp add: d_def [symmetric])
  with \<open>set new \<subseteq> set ns\<close> show ?case
    by (intro exI [of _ "if d = 0 then n # new else new"]) auto
qed simp

function topo_loop ::
  "graph \<Rightarrow> ('e, 's) walk_func \<Rightarrow> node list \<Rightarrow> (node \<rightharpoonup> int) \<Rightarrow> node list \<Rightarrow> 's \<Rightarrow> 'e option \<times> 's" where
  "topo_loop g fn visited remainingDeps unchecked s =
     (if unchecked = [] then (None, s)
      else let check = last unchecked; rest = butlast unchecked in
        if ns_Has visited check then topo_loop g fn visited remainingDeps rest s
        else case fn check s of
            (Some err, s') \<Rightarrow> (Some err, s')
          | (None, s') \<Rightarrow>
              (case topo_push g (preds g check) remainingDeps rest of
                 (remainingDeps', unchecked') \<Rightarrow>
                   topo_loop g fn (visited @ [check]) remainingDeps' unchecked' s'))"
  by pat_completeness auto
termination
proof (relation "measures [\<lambda>(g, fn, visited, rd, unchecked, s). card (pending (inEdges g) visited unchecked),
    \<lambda>(g, fn, visited, rd, unchecked, s). length unchecked]", goal_cases)
  case (2 g fn visited rd u s check rest)
  then show ?case using pending_skip [of u "inEdges g" visited] by force
next
  case (3 g fn visited rd u s check rest res s' rd' u')
  obtain new where "u' = rest @ new" "set new \<subseteq> set (preds g check)"
    using topo_push_unchecked [of g "preds g check" rd rest] 3(7) by (metis snd_conv)
  then have "set u' \<subseteq> edge_targets (inEdges g) \<union> set u"
    using edge_set_targets [of "inEdges g" check] in_set_butlastD [of _ u] 3 by auto
  with 3 have "card (pending (inEdges g) (visited @ [check]) u') < card (pending (inEdges g) visited u)"
    by (auto simp: ns_Has_def intro!: pending_visit)
  then show ?case by simp
qed simp

declare topo_loop.simps [simp del]

definition WalkTopological :: "graph \<Rightarrow> node list \<Rightarrow> ('e, 's) walk_func \<Rightarrow> 's \<Rightarrow> 'e option \<times> 's" where
  "WalkTopological g start fn s = topo_loop g fn [] Map.empty ([] @ start) s"

definition topo_order :: "graph \<Rightarrow> node list \<Rightarrow> node list" where
  "topo_order g start = snd (WalkTopological g start record_node [])"

section \<open>Correctness of the depth-first walk\<close>

text \<open>The order in which the loop reaches the nodes, without the callback.\<close>

function walk_nodes :: "graph \<Rightarrow> node list \<Rightarrow> node list \<Rightarrow> node list" where
  "walk_nodes g V U =
     (if U = [] then []
      else if last U \<in> set V then walk_nodes g V (butlast U)
      else last U # walk_nodes g (V @ [last U]) (butlast U @ succs g (last U)))"
  by pat_completeness auto
termination
proof (relation "measures [\<lambda>(g, V, U). card (pending (outEdges g) V U), \<lambda>(g, V, U). length U]", goal_cases)
  case (2 g V U)
  then show ?case using pending_skip [of U "outEdges g" V] by force
next
  case (3 g V U)
  then show ?case
    using edge_set_targets [of "outEdges g" "last U"] in_set_butlastD [of _ U]
    by (auto intro!: pending_visit)
qed simp

declare walk_nodes.simps [simp del]

lemma walk_loop_eq: "walk_loop g fn V U s = visit_all fn (walk_nodes g V U) s"
proof (induction g fn V U s rule: walk_loop.induct)
  case (1 g fn V U s)
  then show ?case
    by (simp add: walk_loop.simps [of g fn V U s] walk_nodes.simps [of g V U] ns_Has_def Let_def
        split: prod.split option.split)
qed

lemma walk_order_eq: "walk_order g start = walk_nodes g [] start"
  by (simp add: walk_order_def Walk_def walk_loop_eq)

lemma walk_nodes_distinct: "distinct V \<Longrightarrow> distinct (V @ walk_nodes g V U)"
proof (induction g V U rule: walk_nodes.induct)
  case (1 g V U)
  then show ?case by (auto simp: walk_nodes.simps [of g V U])
qed

lemma walk_nodes_start: "set U \<subseteq> set V \<union> set (walk_nodes g V U)"
proof (induction g V U rule: walk_nodes.induct)
  case (1 g V U)
  then show ?case
    by (cases "U = []") (auto simp: walk_nodes.simps [of g V U] set_butlast_last)
qed

lemma walk_nodes_closed:
  assumes "edge_rel g `` set V \<subseteq> set V \<union> set U"
  shows "edge_rel g `` (set V \<union> set (walk_nodes g V U)) \<subseteq> set V \<union> set (walk_nodes g V U)"
  using assms
proof (induction g V U rule: walk_nodes.induct)
  case (1 g V U)
  show ?case
  proof (cases "U = []")
    case True
    with 1(3) show ?thesis by (simp add: walk_nodes.simps)
  next
    case False
    note U = set_butlast_last [OF False]
    show ?thesis
    proof (cases "last U \<in> set V")
      case True
      have "edge_rel g `` set V \<subseteq> set V \<union> set (butlast U)"
        using 1(3) True by (auto simp: U)
      from 1(1) [OF False True this] show ?thesis
        by (simp add: walk_nodes.simps [of g V U] False True)
    next
      case notin: False
      have "edge_rel g `` set (V @ [last U]) \<subseteq> set (V @ [last U]) \<union> set (butlast U @ succs g (last U))"
        using 1(3) by (auto simp: U)
      from 1(2) [OF False notin this] show ?thesis
        by (simp add: walk_nodes.simps [of g V U] False notin)
    qed
  qed
qed

lemma walk_nodes_reach: "set (walk_nodes g V U) \<subseteq> (edge_rel g)\<^sup>* `` set U"
proof (induction g V U rule: walk_nodes.induct)
  case (1 g V U)
  show ?case
  proof (cases "U = [] \<or> last U \<in> set V")
    case True
    with 1(1) show ?thesis
      by (auto simp: walk_nodes.simps [of g V U] dest!: in_set_butlastD)
  next
    case False
    have "(edge_rel g)\<^sup>* `` set (succs g (last U)) \<subseteq> (edge_rel g)\<^sup>* `` {last U}"
      by (auto simp del: edge_rel_iff simp: edge_rel_iff [symmetric] intro: converse_rtrancl_into_rtrancl)
    then have "(edge_rel g)\<^sup>* `` set (butlast U @ succs g (last U)) \<subseteq> (edge_rel g)\<^sup>* `` set U"
      using False set_butlast_last [of U] by auto
    with 1(2) False show ?thesis
      by (auto simp: walk_nodes.simps [of g V U])
  qed
qed

lemma Image_rtrancl_subset: "r `` X \<subseteq> X \<Longrightarrow> A \<subseteq> X \<Longrightarrow> r\<^sup>* `` A \<subseteq> X"
  by (metis Image_closed_trancl Image_mono subset_refl)

lemma set_walk_nodes: "set (walk_nodes g [] start) = (edge_rel g)\<^sup>* `` set start"
  using walk_nodes_closed [of g "[]" start] walk_nodes_start [of start "[]" g]
    walk_nodes_reach [of g "[]" start] Image_rtrancl_subset [of "edge_rel g" "set (walk_nodes g [] start)" "set start"]
  by auto

text \<open>
  A depth-first walk is the callback run along a list of nodes, stopped at its first
  error; that list holds every node reachable from the start nodes, each once.
\<close>

theorem Walk_visits_reachable:
  "Walk g start fn s = visit_all fn (walk_order g start) s \<and>
   distinct (walk_order g start) \<and> set (walk_order g start) = (edge_rel g)\<^sup>* `` set start"
  using walk_nodes_distinct [of "[]" g start]
  by (simp add: walk_order_eq set_walk_nodes Walk_def walk_loop_eq)

section \<open>Correctness of the topological walk\<close>

function topo_nodes :: "graph \<Rightarrow> node list \<Rightarrow> (node \<rightharpoonup> int) \<Rightarrow> node list \<Rightarrow> node list" where
  "topo_nodes g V rd U =
     (if U = [] then []
      else if last U \<in> set V then topo_nodes g V rd (butlast U)
      else last U # (case topo_push g (preds g (last U)) rd (butlast U) of
                       (rd', U') \<Rightarrow> topo_nodes g (V @ [last U]) rd' U'))"
  by pat_completeness auto
termination
proof (relation "measures [\<lambda>(g, V, rd, U). card (pending (inEdges g) V U), \<lambda>(g, V, rd, U). length U]", goal_cases)
  case (2 g V rd U)
  then show ?case using pending_skip [of U "inEdges g" V] by force
next
  case (3 g V rd U rd' U')
  obtain new where "U' = butlast U @ new" "set new \<subseteq> set (preds g (last U))"
    using topo_push_unchecked [of g "preds g (last U)" rd "butlast U"] 3(3) by (metis snd_conv)
  then have "set U' \<subseteq> edge_targets (inEdges g) \<union> set U"
    using edge_set_targets [of "inEdges g" "last U"] in_set_butlastD [of _ U] by auto
  with 3 have "card (pending (inEdges g) (V @ [last U]) U') < card (pending (inEdges g) V U)"
    by (auto intro!: pending_visit)
  then show ?case by simp
qed simp

declare topo_nodes.simps [simp del]

lemma topo_loop_eq: "topo_loop g fn V rd U s = visit_all fn (topo_nodes g V rd U) s"
proof (induction g fn V rd U s rule: topo_loop.induct)
  case (1 g fn V rd U s)
  then show ?case
    by (simp add: topo_loop.simps [of g fn V rd U s] topo_nodes.simps [of g V rd U] ns_Has_def Let_def
        split: prod.split option.split)
qed

lemma topo_order_eq: "topo_order g start = topo_nodes g [] Map.empty start"
  by (simp add: topo_order_def WalkTopological_def topo_loop_eq)

text \<open>The remaining-dependency counters are exact.\<close>

definition deps_exact :: "graph \<Rightarrow> node set \<Rightarrow> (node \<rightharpoonup> int) \<Rightarrow> node \<Rightarrow> bool" where
  "deps_exact g V rd n \<longleftrightarrow>
     rd n = (if set (succs g n) \<inter> V = {} then None else Some (int (card (set (succs g n) - V))))"

lemma deps_exact_count:
  assumes "deps_exact g V rd n" "distinct (succs g n)" "c \<in> set (succs g n)" "c \<notin> V"
  shows "(case rd n of None \<Rightarrow> int (length (succs g n)) | Some d \<Rightarrow> d) - 1 =
    int (card (set (succs g n) - insert c V))"
proof -
  have count: "(case rd n of None \<Rightarrow> int (length (succs g n)) | Some d \<Rightarrow> d) = int (card (set (succs g n) - V))"
  proof (cases "set (succs g n) \<inter> V = {}")
    case True
    from assms(1) True have "rd n = None" unfolding deps_exact_def by (metis (full_types))
    then show ?thesis unfolding Diff_triv [OF True] distinct_card [OF assms(2)] by simp
  next
    case False
    from assms(1) False have "rd n = Some (int (card (set (succs g n) - V)))"
      unfolding deps_exact_def by (metis (full_types))
    then show ?thesis by simp
  qed
  have "set (succs g n) - V = insert c (set (succs g n) - insert c V)"
    using assms(3,4) by blast
  then have "card (set (succs g n) - V) = Suc (card (set (succs g n) - insert c V))"
    by (metis DiffD2 card_insert_disjoint finite_Diff insertI1 List.finite_set)
  then show ?thesis by (simp add: count)
qed

lemma topo_push_spec:
  assumes "distinct ns" "c \<notin> V"
    and "\<And>n. n \<in> set ns \<Longrightarrow> distinct (succs g n) \<and> c \<in> set (succs g n) \<and> deps_exact g V rd n"
  shows "topo_push g ns rd U =
    (\<lambda>n. if n \<in> set ns then Some (int (card (set (succs g n) - insert c V))) else rd n,
     U @ filter (\<lambda>n. set (succs g n) \<subseteq> insert c V) ns)"
  using assms
proof (induction ns arbitrary: rd U)
  case (Cons n ns)
  define d where "d = int (card (set (succs g n) - insert c V))"
  have d: "(case rd n of None \<Rightarrow> int (length (succs g n)) | Some d \<Rightarrow> d) - 1 = d"
    using Cons.prems deps_exact_count [of g V rd n c] by (simp add: d_def)
  have zero: "d = 0 \<longleftrightarrow> set (succs g n) \<subseteq> insert c V"
    by (auto simp: d_def)
  have "topo_push g ns (rd(n \<mapsto> d)) U' =
     (\<lambda>m. if m \<in> set ns then Some (int (card (set (succs g m) - insert c V))) else (rd(n \<mapsto> d)) m,
      U' @ filter (\<lambda>n. set (succs g n) \<subseteq> insert c V) ns)" for U'
    using Cons.prems by (intro Cons.IH) (auto simp: deps_exact_def)
  then show ?case
    using Cons.prems zero by (auto simp: d Let_def d_def)
qed auto

text \<open>
  Each node of the list comes after its dependencies, unless it is one of the start nodes.
\<close>

fun deps_first :: "graph \<Rightarrow> node set \<Rightarrow> node set \<Rightarrow> node list \<Rightarrow> bool" where
  "deps_first g S seen [] = True"
| "deps_first g S seen (n # ns) =
     ((n \<in> S \<or> set (succs g n) \<subseteq> seen) \<and> deps_first g S (insert n seen) ns)"

definition ready :: "graph \<Rightarrow> node set \<Rightarrow> node set" where
  "ready g V = {n. succs g n \<noteq> [] \<and> set (succs g n) \<subseteq> V}"

lemma ready_mono: "V \<subseteq> W \<Longrightarrow> ready g V \<subseteq> ready g W"
  by (auto simp: ready_def)

lemma ready_insert:
  assumes "graph_inv g"
  shows "ready g (insert c V) = ready g V \<union> {n \<in> set (preds g c). set (succs g n) \<subseteq> insert c V}"
  using graph_inv_converse [OF assms] by (auto simp: ready_def)

definition topo_inv :: "graph \<Rightarrow> node set \<Rightarrow> node list \<Rightarrow> (node \<rightharpoonup> int) \<Rightarrow> node list \<Rightarrow> bool" where
  "topo_inv g S V rd U \<longleftrightarrow> (\<forall>n. deps_exact g (set V) rd n) \<and>
     set V \<union> set U = S \<union> ready g (set V)"

lemma topo_inv_visit:
  assumes g: "graph_inv g" and inv: "topo_inv g S V rd U" and U: "U \<noteq> []" "last U \<notin> set V"
    and push: "topo_push g (preds g (last U)) rd (butlast U) = (rd', U')"
  shows "topo_inv g S (V @ [last U]) rd' U'"
proof -
  let ?c = "last U"
  have spec: "topo_push g (preds g ?c) rd (butlast U) =
    (\<lambda>n. if n \<in> set (preds g ?c) then Some (int (card (set (succs g n) - insert ?c (set V)))) else rd n,
     butlast U @ filter (\<lambda>n. set (succs g n) \<subseteq> insert ?c (set V)) (preds g ?c))"
    using g U inv graph_inv_distinct [OF g] graph_inv_converse [OF g]
    by (intro topo_push_spec) (auto simp: topo_inv_def)
  have "deps_exact g (set (V @ [?c])) rd' n" for n
  proof (cases "n \<in> set (preds g ?c)")
    case True
    then show ?thesis
      using push graph_inv_converse [OF g, of n ?c] by (auto simp: spec deps_exact_def)
  next
    case False
    moreover from this have "set (succs g n) \<inter> insert ?c (set V) = set (succs g n) \<inter> set V"
      "set (succs g n) - insert ?c (set V) = set (succs g n) - set V"
      using graph_inv_converse [OF g, of n ?c] by auto
    moreover have "deps_exact g (set V) rd n" using inv by (simp add: topo_inv_def)
    ultimately show ?thesis using push unfolding spec deps_exact_def by force
  qed
  moreover have "set (V @ [?c]) \<union> set U' = S \<union> ready g (set (V @ [?c]))"
    using inv push set_butlast_last [OF U(1)] ready_insert [OF g, of ?c "set V"]
    by (auto simp: spec topo_inv_def)
  ultimately show ?thesis by (simp add: topo_inv_def)
qed

lemma topo_nodes_props:
  assumes "graph_inv g" "topo_inv g S V rd U" "distinct V"
  shows "distinct (V @ topo_nodes g V rd U) \<and> deps_first g S (set V) (topo_nodes g V rd U) \<and>
    (let X = set V \<union> set (topo_nodes g V rd U) in X = S \<union> ready g X)"
  using assms
proof (induction g V rd U rule: topo_nodes.induct)
  case (1 g V rd U)
  show ?case
  proof (cases "U = []")
    case True
    with 1(4) show ?thesis using 1(5) by (simp add: topo_nodes.simps [of g V rd "[]"] topo_inv_def Let_def)
  next
    case U: False
    show ?thesis
    proof (cases "last U \<in> set V")
      case True
      then have "topo_inv g S V rd (butlast U)"
        using 1(4) set_butlast_last [OF U] by (simp add: topo_inv_def insert_absorb)
      from 1(1) [OF U True 1(3) this 1(5)] show ?thesis
        by (simp add: topo_nodes.simps [of g V rd U] U True)
    next
      case new: False
      obtain rd' U' where push: "topo_push g (preds g (last U)) rd (butlast U) = (rd', U')"
        by fastforce
      have "topo_inv g S (V @ [last U]) rd' U'"
        by (rule topo_inv_visit [OF 1(3,4) U new push])
      moreover have "last U \<in> S \<or> set (succs g (last U)) \<subseteq> set V"
        using 1(4) U by (auto simp: topo_inv_def ready_def dest: last_in_set)
      moreover have "distinct (V @ [last U])" using 1(5) new by simp
      ultimately show ?thesis
        using 1(2) [OF U new push [symmetric] 1(3)] new
        by (simp add: topo_nodes.simps [of g V rd U] U push Let_def)
    qed
  qed
qed

lemma topo_inv_start: "topo_inv g (set start) [] Map.empty start"
  by (auto simp: topo_inv_def deps_exact_def ready_def)

lemmas topo_order_props =
  topo_nodes_props [of _ "set start" "[]" Map.empty start for start, OF _ topo_inv_start,
    simplified, folded topo_order_eq]

text \<open>
  C21: for a graph in which every edge is registered in both directions, a topological walk is
  the callback run along a list without repetitions in which every node that is not a start
  node comes after all of its dependencies.
\<close>

theorem WalkTopological_deps_first:
  assumes "graph_inv g"
  shows "WalkTopological g start fn s = visit_all fn (topo_order g start) s \<and>
    distinct (topo_order g start) \<and> deps_first g (set start) {} (topo_order g start)"
  using topo_order_props [OF assms, of start]
  by (simp add: WalkTopological_def topo_loop_eq topo_order_eq)

theorem WalkTopological_deps_first_witness:
  "graph_inv chain_graph \<and> WalkTopological chain_graph [nc] record_node [] = (None, [nc, nb, na]) \<and>
   deps_first chain_graph {nc} {} [nc, nb, na]"
proof -
  have order: "topo_order chain_graph [nc] = [nc, nb, na]"
    by (simp add: topo_order_eq topo_nodes.simps chain_graph_def edge_set_def)
  show ?thesis
    using WalkTopological_deps_first [OF chain_graph_inv, of "[nc]" record_node "[]"] chain_graph_inv
    by (simp add: order record_node_def)
qed

lemma deps_first_split:
  "deps_first g S seen (xs @ n # ys) \<Longrightarrow> n \<in> S \<or> set (succs g n) \<subseteq> seen \<union> set xs"
  by (induction xs arbitrary: seen) auto

lemma acyclic_closed_all:
  assumes g: "graph_inv g" and ac: "acyclic (edge_rel g)" and X: "X = set (Leaves g) \<union> ready g X"
  shows "X = vertices g"
proof
  show "X \<subseteq> vertices g"
  proof
    fix n assume "n \<in> X"
    with X consider "n \<in> set (Leaves g)" | "n \<in> ready g X" by blast
    then show "n \<in> vertices g"
    proof cases
      case 2
      then obtain m where "(n, m) \<in> edge_rel g" by (cases "succs g n") (auto simp: ready_def)
      with g show ?thesis by (rule graph_inv_endpoints [THEN conjunct1])
    qed (simp add: Leaves_def vertices_def)
  qed
  have wf: "wf ((edge_rel g)\<inverse>)"
    using finite_edge_rel [OF g] ac by (rule finite_acyclic_wf_converse)
  show "vertices g \<subseteq> X"
  proof
    fix n assume "n \<in> vertices g"
    with wf show "n \<in> X"
    proof (induction n rule: wf_induct_rule)
      case (less n)
      then have "set (succs g n) \<subseteq> X"
        using graph_inv_endpoints [OF g, of n] by auto
      with less.prems have "n \<in> set (Leaves g) \<union> ready g X"
        by (cases "succs g n = []") (auto simp: Leaves_def ready_def vertices_def)
      with X show ?case by blast
    qed
  qed
qed

text \<open>
  Evaluating an acyclic graph from its leaves visits every node of the graph exactly once,
  and never a node before all the nodes it depends on.
\<close>

theorem WalkTopological_from_leaves:
  assumes "graph_inv g" and "acyclic (edge_rel g)"
  shows "set (topo_order g (Leaves g)) = vertices g \<and> distinct (topo_order g (Leaves g)) \<and>
    (\<forall>xs n ys. topo_order g (Leaves g) = xs @ n # ys \<longrightarrow> set (Dependencies g n) \<subseteq> set xs)"
proof (intro conjI allI impI)
  note props = topo_order_props [OF assms(1), of "Leaves g"]
  show "set (topo_order g (Leaves g)) = vertices g"
    using props by (intro acyclic_closed_all [OF assms]) (simp add: Let_def)
  show "distinct (topo_order g (Leaves g))"
    using props by simp
  fix xs n ys
  assume "topo_order g (Leaves g) = xs @ n # ys"
  then have "n \<in> set (Leaves g) \<or> set (succs g n) \<subseteq> set xs"
    using props deps_first_split [of g _ "{}" xs n ys] by simp
  then show "set (Dependencies g n) \<subseteq> set xs"
    by (auto simp: Leaves_def)
qed

theorem WalkTopological_from_leaves_witness:
  "graph_inv chain_graph \<and> acyclic (edge_rel chain_graph) \<and>
   set (topo_order chain_graph (Leaves chain_graph)) = {na, nb, nc}"
  using WalkTopological_from_leaves [OF chain_graph_inv chain_graph_acyclic]
    chain_graph_inv chain_graph_acyclic
  by (simp add: chain_graph_vertices)

end
