(* ===== verification/Dag_Tarjan.thy ===== *)
theory Dag_Tarjan
  imports Dag_Walk
begin

text \<open>
  Strongly connected components (\<^verbatim>\<open>internal/dag/tarjan.go\<close>) and the cycle check built on
  them (\<^verbatim>\<open>internal/dag/ops.go\<close>). The recursive search is written with a fuel argument
  that bounds the depth of the recursion; one unit per node of the graph is proved to be
  enough, so the search always returns.
\<close>

section \<open>The search\<close>

text \<open>
  Reading a missing key of the Go maps \<open>nodes\<close> and \<open>lowLink\<close> gives 0, so both are total
  functions with default 0. The stack keeps the Go order, its top last.
\<close>

record tarjan =
  index :: nat
  num :: "node \<Rightarrow> nat"
  lowLink :: "node \<Rightarrow> nat"
  stack :: "node list"
  sccs :: "node list list"

definition tarjan_init :: tarjan where
  "tarjan_init = \<lparr>index = 0, num = (\<lambda>_. 0), lowLink = (\<lambda>_. 0), stack = [], sccs = []\<rparr>"

definition visit :: "node \<Rightarrow> tarjan \<Rightarrow> tarjan" where
  "visit n t = t\<lparr>index := index t + 1,
                 num := (num t)(n := index t + 1),
                 lowLink := (lowLink t)(n := index t + 1),
                 stack := stack t @ [n]\<rparr>"

definition pop :: "tarjan \<Rightarrow> node option \<times> tarjan" where
  "pop t = (if length (stack t) = 0 then (None, t)
            else (Some (stack t ! (length (stack t) - 1)), t\<lparr>stack := take (length (stack t) - 1) (stack t)\<rparr>))"

definition onStack :: "tarjan \<Rightarrow> node \<Rightarrow> bool" where
  "onStack t n \<longleftrightarrow> n \<in> set (stack t)"

text \<open>
  The loop that pops a component. Popping an empty stack gives the nil node, which is never
  the wanted one, and the loop would not end: that case is \<open>None\<close>.
\<close>

function pop_loop :: "node \<Rightarrow> tarjan \<Rightarrow> node list \<Rightarrow> (node list \<times> tarjan) option" where
  "pop_loop n t scc =
     (case pop t of
        (None, _) \<Rightarrow> None
      | (Some s, t') \<Rightarrow>
          (if s = n then Some (scc @ [s], t') else pop_loop n t' (scc @ [s])))"
  by pat_completeness auto
termination
  by (relation "measure (\<lambda>(n, t, scc). length (stack t))") (auto simp: pop_def split: if_splits)

declare pop_loop.simps [simp del]

definition lower_link :: "node \<Rightarrow> nat \<Rightarrow> tarjan \<Rightarrow> tarjan" where
  "lower_link n v t = t\<lparr>lowLink := (lowLink t)(n := min (lowLink t n) v)\<rparr>"

fun tarjan_dfs :: "nat \<Rightarrow> graph \<Rightarrow> node \<Rightarrow> tarjan \<Rightarrow> tarjan option"
and tarjan_succs :: "nat \<Rightarrow> graph \<Rightarrow> node \<Rightarrow> node list \<Rightarrow> tarjan \<Rightarrow> tarjan option" where
  "tarjan_dfs 0 g n t = None"
| "tarjan_dfs (Suc fuel) g n t =
     (case tarjan_succs fuel g n (succs g n) (visit n t) of
        None \<Rightarrow> None
      | Some t1 \<Rightarrow>
          (if lowLink t1 n = num t1 n
           then (case pop_loop n t1 [] of
                   None \<Rightarrow> None
                 | Some (scc, t2) \<Rightarrow> Some (t2\<lparr>sccs := sccs t2 @ [scc]\<rparr>))
           else Some t1))"
| "tarjan_succs fuel g n [] t = Some t"
| "tarjan_succs fuel g n (s # ss) t =
     (if num t s = 0
      then (case tarjan_dfs fuel g s t of
              None \<Rightarrow> None
            | Some t1 \<Rightarrow> tarjan_succs fuel g n ss (lower_link n (lowLink t1 s) t1))
      else if onStack t s then tarjan_succs fuel g n ss (lower_link n (num t s) t)
      else tarjan_succs fuel g n ss t)"

fun scc_loop :: "nat \<Rightarrow> graph \<Rightarrow> node list \<Rightarrow> tarjan \<Rightarrow> tarjan option" where
  "scc_loop fuel g [] t = Some t"
| "scc_loop fuel g (n # ns) t =
     (if num t n = 0
      then (case tarjan_dfs fuel g n t of None \<Rightarrow> None | Some t' \<Rightarrow> scc_loop fuel g ns t')
      else scc_loop fuel g ns t)"

definition StronglyConnectedComponents :: "graph \<Rightarrow> node list list option" where
  "StronglyConnectedComponents g = map_option sccs (scc_loop (Len g) g (Nodes g) tarjan_init)"

text \<open>
  The components of the nodes with the given identifiers, in that order. The caller has to
  give identifiers of the graph; \<open>None\<close> also stands for a call outside that contract.
\<close>

definition StronglyConnectedComponentsOrdered :: "graph \<Rightarrow> string list \<Rightarrow> node list list option" where
  "StronglyConnectedComponentsOrdered g order =
     (if list_all (\<lambda>i. GetByID g i \<noteq> None) order
      then map_option sccs (scc_loop (Len g) g (map (\<lambda>i. the (GetByID g i)) order) tarjan_init)
      else None)"

section \<open>The cycle check\<close>

datatype validate_error = Cycle "string list" | SelfReference string

definition Validate :: "graph \<Rightarrow> validate_error list option" where
  "Validate g =
     (case StronglyConnectedComponents g of
        None \<Rightarrow> None
      | Some cycles \<Rightarrow>
          Some (map (\<lambda>cycle. Cycle (map NodeID cycle)) (filter (\<lambda>cycle. length cycle > 1) cycles) @
                map (\<lambda>e. SelfReference (NodeID (From e))) (filter (\<lambda>e. From e = To e) (Edges g))))"

section \<open>Invariant of the search\<close>

declare edge_rel_iff [simp del]

lemma visit_simps [simp]:
  "index (visit n t) = Suc (index t)"
  "num (visit n t) = (num t)(n := Suc (index t))"
  "lowLink (visit n t) = (lowLink t)(n := Suc (index t))"
  "stack (visit n t) = stack t @ [n]"
  "sccs (visit n t) = sccs t"
  by (simp_all add: visit_def)

lemma lower_link_simps [simp]:
  "index (lower_link n v t) = index t"
  "num (lower_link n v t) = num t"
  "lowLink (lower_link n v t) = (lowLink t)(n := min (lowLink t n) v)"
  "stack (lower_link n v t) = stack t"
  "sccs (lower_link n v t) = sccs t"
  by (simp_all add: lower_link_def)

lemma pop_loop_segment:
  assumes "stack t = st @ n # seg" "n \<notin> set seg"
  shows "pop_loop n t acc = Some (acc @ rev seg @ [n], t\<lparr>stack := st\<rparr>)"
  using assms
proof (induction seg arbitrary: t acc rule: rev_induct)
  case Nil
  then show ?case by (simp add: pop_loop.simps [of n t] pop_def)
next
  case (snoc x seg)
  have "pop t = (Some x, t\<lparr>stack := st @ n # seg\<rparr>)"
    using snoc.prems by (simp add: pop_def nth_append)
  moreover have "x \<noteq> n" using snoc.prems by auto
  ultimately show ?case
    using snoc.IH [of "t\<lparr>stack := st @ n # seg\<rparr>" "acc @ [x]"] snoc.prems
    by (simp add: pop_loop.simps [of n t])
qed

text \<open>The nodes of the components found so far.\<close>

definition found :: "tarjan \<Rightarrow> node set" where
  "found t = set (concat (sccs t))"

definition is_scc :: "('a \<times> 'a) set \<Rightarrow> 'a set \<Rightarrow> bool" where
  "is_scc r C \<longleftrightarrow> C \<noteq> {} \<and> (\<forall>x \<in> C. C = {y. (x, y) \<in> r\<^sup>* \<and> (y, x) \<in> r\<^sup>*})"

text \<open>
  Between two steps of the search with the nodes \<open>G\<close> in progress: the stack is ordered by
  visit number; visited nodes are on the stack or in a component; components are strongly
  connected components closed under edges; a finished node on the stack has only visited
  successors; earlier stack nodes reach later ones, and every stack node reaches a node in
  progress at or below it.
\<close>

definition search_inv :: "graph \<Rightarrow> node set \<Rightarrow> tarjan \<Rightarrow> bool" where
  "search_inv g G t \<longleftrightarrow>
     sorted_wrt (\<lambda>x y. num t x < num t y) (stack t) \<and>
     (\<forall>x. num t x \<le> index t) \<and> (\<forall>x. num t x \<noteq> 0 \<longrightarrow> x \<in> vertices g) \<and>
     (\<forall>x. num t x \<noteq> 0 \<longleftrightarrow> x \<in> set (stack t) \<union> found t) \<and>
     set (stack t) \<inter> found t = {} \<and>
     distinct (concat (sccs t)) \<and> (\<forall>c \<in> set (sccs t). is_scc (edge_rel g) (set c)) \<and>
     edge_rel g `` found t \<subseteq> found t \<and>
     G \<subseteq> set (stack t) \<and>
     (\<forall>x \<in> set (stack t) - G. \<forall>y. (x, y) \<in> edge_rel g \<longrightarrow> num t y \<noteq> 0) \<and>
     sorted_wrt (\<lambda>x y. (x, y) \<in> (edge_rel g)\<^sup>*) (stack t) \<and>
     (\<forall>y \<in> set (stack t). \<exists>x \<in> G. num t x \<le> num t y \<and> (y, x) \<in> (edge_rel g)\<^sup>*)"

text \<open>What a step leaves alone: numbers, links of the nodes already visited, the stack below.\<close>

definition extends :: "tarjan \<Rightarrow> tarjan \<Rightarrow> bool" where
  "extends t t' \<longleftrightarrow> (\<forall>x. num t x \<noteq> 0 \<longrightarrow> num t' x = num t x) \<and> index t \<le> index t' \<and>
     (\<exists>seg. stack t' = stack t @ seg) \<and> (\<exists>cs. sccs t' = sccs t @ cs)"

lemma extends_refl [simp]: "extends t t"
  by (simp add: extends_def)

lemma extends_trans: "extends t1 t2 \<Longrightarrow> extends t2 t3 \<Longrightarrow> extends t1 t3"
  unfolding extends_def by (metis append_assoc le_trans)

lemma search_invD:
  assumes "search_inv g G t"
  shows "sorted_wrt (\<lambda>x y. num t x < num t y) (stack t)" and "num t x \<le> index t"
    and "num t x \<noteq> 0 \<longleftrightarrow> x \<in> set (stack t) \<union> found t"
    and "set (stack t) \<inter> found t = {}"
    and "edge_rel g `` found t \<subseteq> found t" and "G \<subseteq> set (stack t)"
    and "sorted_wrt (\<lambda>x y. (x, y) \<in> (edge_rel g)\<^sup>*) (stack t)"
    and "x \<in> set (stack t) - G \<Longrightarrow> (x, y) \<in> edge_rel g \<Longrightarrow> num t y \<noteq> 0"
    and "x \<in> set (stack t) \<Longrightarrow> \<exists>z \<in> G. num t z \<le> num t x \<and> (x, z) \<in> (edge_rel g)\<^sup>*"
    and "num t x \<noteq> 0 \<Longrightarrow> x \<in> vertices g"
  using assms unfolding search_inv_def by blast+

lemma sorted_num_distinct: "sorted_wrt (\<lambda>x y. f x < (f y :: nat)) xs \<Longrightarrow> distinct xs"
  by (induction xs) auto

lemma distinct_stack: "search_inv g G t \<Longrightarrow> distinct (stack t)"
  by (rule sorted_num_distinct [OF search_invD(1)])

text \<open>Visiting a fresh node that every node in progress reaches.\<close>

lemma search_inv_visit:
  assumes inv: "search_inv g G t" and fresh: "num t n = 0" and reach: "\<forall>x \<in> G. (x, n) \<in> (edge_rel g)\<^sup>*"
    and "n \<in> vertices g"
  shows "search_inv g (insert n G) (visit n t)"
proof -
  have n: "n \<notin> set (stack t)" "n \<notin> found t"
    using search_invD(3) [OF inv, of n] fresh by auto
  have old: "x \<noteq> n" "num t x \<le> index t" if "x \<in> set (stack t)" for x
    using n that search_invD(2) [OF inv] by auto
  have "found (visit n t) = found t" by (simp add: found_def)
  moreover have "sorted_wrt (\<lambda>x y. num (visit n t) x < num (visit n t) y) (stack t @ [n])"
  proof -
    have "sorted_wrt (\<lambda>x y. num (visit n t) x < num (visit n t) y) (stack t)"
      by (rule sorted_wrt_mono_rel [OF _ search_invD(1) [OF inv]]) (use old in auto)
    then show ?thesis using old by (auto simp: sorted_wrt_append le_imp_less_Suc)
  qed
  moreover have "sorted_wrt (\<lambda>x y. (x, y) \<in> (edge_rel g)\<^sup>*) (stack t @ [n])"
    using search_invD(7,9) [OF inv] reach by (fastforce simp: sorted_wrt_append intro: rtrancl_trans)
  moreover have "\<exists>z \<in> insert n G. num (visit n t) z \<le> num (visit n t) y \<and> (y, z) \<in> (edge_rel g)\<^sup>*"
    if "y \<in> set (stack t @ [n])" for y
  proof (cases "y = n")
    case False
    with that have "y \<in> set (stack t)" by simp
    from search_invD(9) [OF inv this] obtain z where "z \<in> G" "num t z \<le> num t y" "(y, z) \<in> (edge_rel g)\<^sup>*" by blast
    moreover from this have "z \<noteq> n" using search_invD(6) [OF inv] n by auto
    ultimately show ?thesis using False by auto
  qed auto
  moreover have "num (visit n t) y \<noteq> 0"
    if "x \<in> set (stack t @ [n]) - insert n G" "(x, y) \<in> edge_rel g" for x y
    using search_invD(8) [OF inv, of x y] that by auto
  ultimately show ?thesis
    using inv n \<open>n \<in> vertices g\<close> unfolding search_inv_def by (auto simp: le_SucI)
qed

section \<open>The loop over the successors\<close>

definition succs_inv ::
  "graph \<Rightarrow> node set \<Rightarrow> node \<Rightarrow> node list \<Rightarrow> node set \<Rightarrow> tarjan \<Rightarrow> bool" where
  "succs_inv g G n st ds t \<longleftrightarrow>
     search_inv g (insert n G) t \<and> G \<subseteq> set st \<and> (\<forall>x \<in> G. (x, n) \<in> (edge_rel g)\<^sup>*) \<and>
     (\<forall>y \<in> ds. num t y \<noteq> 0) \<and> lowLink t n \<le> num t n \<and>
     (\<exists>y \<in> insert n (set st). num t y = lowLink t n \<and> (n, y) \<in> (edge_rel g)\<^sup>*) \<and>
     (\<exists>seg. stack t = st @ n # seg \<and>
        (\<forall>x \<in> insert n (set seg). \<forall>y \<in> set st.
           (x, y) \<in> edge_rel g \<and> (x = n \<longrightarrow> y \<in> ds) \<longrightarrow> lowLink t n \<le> num t y))"

text \<open>What a finished call for \<open>n\<close> gives its caller.\<close>

definition dfs_post :: "graph \<Rightarrow> node set \<Rightarrow> node \<Rightarrow> tarjan \<Rightarrow> tarjan \<Rightarrow> bool" where
  "dfs_post g G n t t' \<longleftrightarrow>
     search_inv g G t' \<and> extends t t' \<and> num t' n \<noteq> 0 \<and>
     (\<forall>x. num t x \<noteq> 0 \<longrightarrow> lowLink t' x = lowLink t x) \<and>
     (\<exists>seg. stack t' = stack t @ seg \<and>
        (\<forall>x \<in> set seg. \<forall>y \<in> set (stack t). (x, y) \<in> edge_rel g \<longrightarrow> lowLink t' n \<le> num t y)) \<and>
     ((\<forall>y \<in> set (stack t). num t y < lowLink t' n) \<or>
      (\<exists>y \<in> set (stack t). num t y = lowLink t' n \<and> (n, y) \<in> (edge_rel g)\<^sup>*))"

lemma succs_inv_visit:
  assumes "search_inv g G t" "num t n = 0" "\<forall>x \<in> G. (x, n) \<in> (edge_rel g)\<^sup>*" "n \<in> vertices g"
  shows "succs_inv g G n (stack t) {} (visit n t)"
  using assms search_inv_visit [OF assms] search_invD(6) [OF assms(1)]
  by (auto simp: succs_inv_def)

lemma search_inv_lower_link [simp]: "search_inv g G (lower_link n v t) = search_inv g G t"
  by (simp add: search_inv_def found_def)

lemma below_on_stack:
  assumes "search_inv g G t" "stack t = st @ n # seg" "y \<in> set (stack t)"
  shows "num t y < num t n \<longleftrightarrow> y \<in> set st"
  using search_invD(1) [OF assms(1)] assms(2,3) by (auto simp: sorted_wrt_append)

lemma succs_inv_dfs:
  assumes inv: "succs_inv g G n st ds t" and e: "(n, s) \<in> edge_rel g" and fresh: "num t s = 0"
    and post: "dfs_post g (insert n G) s t t1"
  shows "succs_inv g G n st (insert s ds) (lower_link n (lowLink t1 s) t1)"
proof -
  obtain seg where seg: "stack t = st @ n # seg"
    and bound: "\<And>x y. x \<in> insert n (set seg) \<Longrightarrow> y \<in> set st \<Longrightarrow> (x, y) \<in> edge_rel g \<Longrightarrow>
      (x = n \<longrightarrow> y \<in> ds) \<Longrightarrow> lowLink t n \<le> num t y"
    using inv unfolding succs_inv_def by blast
  obtain seg1 where seg1: "stack t1 = stack t @ seg1"
    and bound1: "\<And>x y. x \<in> set seg1 \<Longrightarrow> y \<in> set (stack t) \<Longrightarrow> (x, y) \<in> edge_rel g \<Longrightarrow> lowLink t1 s \<le> num t y"
    using post unfolding dfs_post_def by blast
  have t: "search_inv g (insert n G) t" using inv by (simp add: succs_inv_def)
  have kept: "num t1 x = num t x" "lowLink t1 x = lowLink t x" if "num t x \<noteq> 0" for x
    using post that by (auto simp: dfs_post_def extends_def)
  have vis: "num t x \<noteq> 0" if "x \<in> set (stack t)" for x
    using search_invD(3) [OF t, of x] that by blast
  have st: "num t1 x = num t x" if "x \<in> insert n (set st)" for x
    using that kept(1) [OF vis] by (auto simp: seg)
  have n: "lowLink t1 n = lowLink t n" "num t n \<noteq> 0"
    using kept(2) [OF vis, of n] vis [of n] by (auto simp: seg)
  let ?low = "min (lowLink t n) (lowLink t1 s)"
  have low: "\<exists>y \<in> insert n (set st). num t y = ?low \<and> (n, y) \<in> (edge_rel g)\<^sup>*"
  proof (cases "lowLink t n \<le> lowLink t1 s")
    case False
    then have "lowLink t1 s < num t n" using inv by (auto simp: succs_inv_def)
    then have "\<not> (\<forall>y \<in> set (stack t). num t y < lowLink t1 s)" by (auto simp: seg)
    then obtain y where y: "y \<in> set (stack t)" "num t y = lowLink t1 s" "(s, y) \<in> (edge_rel g)\<^sup>*"
      using post unfolding dfs_post_def by blast
    then have "y \<in> set st" using below_on_stack [OF t seg y(1)] \<open>lowLink t1 s < num t n\<close> by simp
    moreover have "(n, y) \<in> (edge_rel g)\<^sup>*" using e y(3) by (rule converse_rtrancl_into_rtrancl)
    ultimately show ?thesis using y False by (auto simp: min_def)
  qed (use inv in \<open>auto simp: succs_inv_def min_def\<close>)
  have bnd: "?low \<le> num t y"
    if "x \<in> insert n (set (seg @ seg1))" "y \<in> set st" "(x, y) \<in> edge_rel g" "x = n \<longrightarrow> y \<in> insert s ds" for x y
  proof (cases "x \<in> set seg1")
    case True
    then show ?thesis using bound1 [of x y] that by (auto simp: seg)
  next
    case False
    moreover have "y \<noteq> s" using fresh vis [of y] that(2) by (auto simp: seg)
    ultimately show ?thesis using bound [of x y] that by auto
  qed
  show ?thesis
    unfolding succs_inv_def
  proof (intro conjI)
    show "search_inv g (insert n G) (lower_link n (lowLink t1 s) t1)"
      using post by (simp add: dfs_post_def)
    show "\<forall>y \<in> insert s ds. num (lower_link n (lowLink t1 s) t1) y \<noteq> 0"
      using inv post kept(1) by (auto simp: succs_inv_def dfs_post_def)
    show "lowLink (lower_link n (lowLink t1 s) t1) n \<le> num (lower_link n (lowLink t1 s) t1) n"
      using inv kept(1) [OF n(2)] by (auto simp: succs_inv_def n)
    show "\<exists>y \<in> insert n (set st). num (lower_link n (lowLink t1 s) t1) y =
        lowLink (lower_link n (lowLink t1 s) t1) n \<and> (n, y) \<in> (edge_rel g)\<^sup>*"
      using low st by (simp add: n)
    show "\<exists>sg. stack (lower_link n (lowLink t1 s) t1) = st @ n # sg \<and>
        (\<forall>x \<in> insert n (set sg). \<forall>y \<in> set st. (x, y) \<in> edge_rel g \<and> (x = n \<longrightarrow> y \<in> insert s ds) \<longrightarrow>
           lowLink (lower_link n (lowLink t1 s) t1) n \<le> num (lower_link n (lowLink t1 s) t1) y)"
      using bnd st by (intro exI [of _ "seg @ seg1"]) (simp add: seg seg1 n)
  qed (use inv in \<open>auto simp: succs_inv_def\<close>)
qed

lemma succs_inv_onStack:
  assumes inv: "succs_inv g G n st ds t" and e: "(n, s) \<in> edge_rel g" and s: "s \<in> set (stack t)"
  shows "succs_inv g G n st (insert s ds) (lower_link n (num t s) t)"
proof -
  have t: "search_inv g (insert n G) t" using inv by (simp add: succs_inv_def)
  obtain seg where seg: "stack t = st @ n # seg"
    and bound: "\<And>x y. x \<in> insert n (set seg) \<Longrightarrow> y \<in> set st \<Longrightarrow> (x, y) \<in> edge_rel g \<Longrightarrow>
      (x = n \<longrightarrow> y \<in> ds) \<Longrightarrow> lowLink t n \<le> num t y"
    using inv unfolding succs_inv_def by blast
  have low: "\<exists>y \<in> insert n (set st). num t y = min (lowLink t n) (num t s) \<and> (n, y) \<in> (edge_rel g)\<^sup>*"
  proof (cases "lowLink t n \<le> num t s")
    case False
    then have "num t s < num t n" using inv by (auto simp: succs_inv_def)
    then have "s \<in> set st" using below_on_stack [OF t seg s] by simp
    with False e show ?thesis by auto
  qed (use inv in \<open>auto simp: succs_inv_def min_def\<close>)
  have bnd: "min (lowLink t n) (num t s) \<le> num t y"
    if "x \<in> insert n (set seg)" "y \<in> set st" "(x, y) \<in> edge_rel g" "x = n \<longrightarrow> y \<in> insert s ds" for x y
    using bound [of x y] that by (cases "x = n \<and> y = s") auto
  have "num t s \<noteq> 0" using search_invD(3) [OF t, of s] s by blast
  then show ?thesis
    using inv low bnd seg unfolding succs_inv_def by (auto simp: t)
qed

lemma succs_inv_found:
  assumes inv: "succs_inv g G n st ds t" and "num t s \<noteq> 0" "s \<notin> set (stack t)"
  shows "succs_inv g G n st (insert s ds) t"
  using assms unfolding succs_inv_def by (auto 0 4)

section \<open>Finishing a node\<close>

text \<open>Without a link below \<open>n\<close>, no edge leaves the segment of \<open>n\<close> but into found components.\<close>

lemma segment_closed:
  assumes inv: "succs_inv g G n st ds t" and ds: "edge_rel g `` {n} \<subseteq> ds" and root: "lowLink t n = num t n"
    and seg: "stack t = st @ n # seg"
  shows "edge_rel g `` (insert n (set seg) \<union> found t) \<subseteq> insert n (set seg) \<union> found t"
proof -
  have t: "search_inv g (insert n G) t" using inv by (simp add: succs_inv_def)
  have "y \<in> insert n (set seg) \<union> found t" if x: "x \<in> insert n (set seg)" and e: "(x, y) \<in> edge_rel g" for x y
  proof -
    have "set seg \<inter> insert n G = {}"
      using distinct_stack [OF t] inv by (auto simp: seg succs_inv_def)
    then have "num t y \<noteq> 0"
      using x e ds inv search_invD(8) [OF t, of x y] by (auto simp: seg succs_inv_def)
    then have "y \<in> set (stack t) \<union> found t" using search_invD(3) [OF t, of y] by blast
    moreover have "y \<notin> set st"
    proof
      assume "y \<in> set st"
      moreover have "x = n \<longrightarrow> y \<in> ds" using e ds by auto
      ultimately have "lowLink t n \<le> num t y"
        using inv x e unfolding succs_inv_def seg by blast
      with root \<open>y \<in> set st\<close> show False using below_on_stack [OF t seg, of y] by (simp add: seg)
    qed
    ultimately show ?thesis by (auto simp: seg)
  qed
  then show ?thesis using search_invD(5) [OF t] by auto
qed

lemma segment_is_scc:
  assumes inv: "succs_inv g G n st ds t" and ds: "edge_rel g `` {n} \<subseteq> ds" and root: "lowLink t n = num t n"
    and seg: "stack t = st @ n # seg"
  shows "is_scc (edge_rel g) (insert n (set seg))"
proof -
  let ?C = "insert n (set seg)" and ?R = "(edge_rel g)\<^sup>*"
  have t: "search_inv g (insert n G) t" using inv by (simp add: succs_inv_def)
  have disj: "set (stack t) \<inter> found t = {}" "distinct (stack t)"
    using search_invD(4) [OF t] distinct_stack [OF t] by auto
  have closed: "y \<in> ?C \<union> found t" if "x \<in> ?C" "(x, y) \<in> ?R" for x y
    using Image_rtrancl_subset [OF segment_closed [OF assms], of "{x}"] that by auto
  have down: "(n, y) \<in> ?R" if "y \<in> ?C" for y
    using search_invD(7) [OF t] that by (auto simp: seg sorted_wrt_append)
  have up: "(y, n) \<in> ?R" if y: "y \<in> ?C" for y
  proof -
    from y obtain z where z: "z \<in> insert n G" "(y, z) \<in> ?R"
      using search_invD(9) [OF t, of y] by (auto simp: seg)
    from closed [OF y z(2)] z(1) disj inv have "z = n"
      by (auto simp: succs_inv_def seg)
    with z show ?thesis by simp
  qed
  have "?C = {y. (x, y) \<in> ?R \<and> (y, x) \<in> ?R}" if x: "x \<in> ?C" for x
  proof
    show "?C \<subseteq> {y. (x, y) \<in> ?R \<and> (y, x) \<in> ?R}"
      using down up x by (blast intro: rtrancl_trans)
    show "{y. (x, y) \<in> ?R \<and> (y, x) \<in> ?R} \<subseteq> ?C"
    proof
      fix y assume y: "y \<in> {y. (x, y) \<in> ?R \<and> (y, x) \<in> ?R}"
      have "y \<notin> found t"
      proof
        assume "y \<in> found t"
        then have "x \<in> found t"
          using y Image_rtrancl_subset [OF search_invD(5) [OF t], of "{y}"] by auto
        with x disj show False by (auto simp: seg)
      qed
      with closed [OF x, of y] y show "y \<in> ?C" by blast
    qed
  qed
  then show ?thesis by (simp add: is_scc_def)
qed

lemma search_inv_pop:
  assumes inv: "succs_inv g G n st ds t" and ds: "edge_rel g `` {n} \<subseteq> ds" and root: "lowLink t n = num t n"
    and seg: "stack t = st @ n # seg"
  shows "search_inv g G (t\<lparr>stack := st, sccs := sccs t @ [rev seg @ [n]]\<rparr>)" (is "search_inv g G ?t")
proof -
  have t: "search_inv g (insert n G) t" using inv by (simp add: succs_inv_def)
  have found: "found ?t = insert n (set seg) \<union> found t" by (auto simp: found_def)
  have dist: "distinct (stack t)" "set (stack t) \<inter> found t = {}"
    using distinct_stack [OF t] search_invD(4) [OF t] by auto
  have st: "num t x < num t n" if "x \<in> set st" for x
    using below_on_stack [OF t seg, of x] that by (simp add: seg)
  have "sorted_wrt (\<lambda>x y. num ?t x < num ?t y) (stack ?t)"
    using search_invD(1) [OF t] by (simp add: seg sorted_wrt_append)
  moreover have "num ?t x \<le> index ?t" for x
    using search_invD(2) [OF t] by simp
  moreover have "x \<in> vertices g" if "num ?t x \<noteq> 0" for x
    using search_invD(10) [OF t] that by simp
  moreover have "num ?t x \<noteq> 0 \<longleftrightarrow> x \<in> set (stack ?t) \<union> found ?t" for x
    using search_invD(3) [OF t, of x] by (auto simp: seg found)
  moreover have "set (stack ?t) \<inter> found ?t = {}"
    using dist by (auto simp: seg found)
  moreover have "distinct (concat (sccs ?t))"
    using t dist by (auto simp: search_inv_def seg found_def)
  moreover have "\<forall>c \<in> set (sccs ?t). is_scc (edge_rel g) (set c)"
    using t segment_is_scc [OF assms] by (auto simp: search_inv_def)
  moreover have "edge_rel g `` found ?t \<subseteq> found ?t"
    unfolding found by (rule segment_closed [OF assms])
  moreover have "G \<subseteq> set (stack ?t)" using inv by (simp add: succs_inv_def)
  moreover have "num ?t y \<noteq> 0" if "x \<in> set (stack ?t) - G" "(x, y) \<in> edge_rel g" for x y
    using search_invD(8) [OF t, of x y] that dist by (auto simp: seg)
  moreover have "sorted_wrt (\<lambda>x y. (x, y) \<in> (edge_rel g)\<^sup>*) (stack ?t)"
    using search_invD(7) [OF t] by (simp add: seg sorted_wrt_append)
  moreover have "\<exists>x \<in> G. num ?t x \<le> num ?t y \<and> (y, x) \<in> (edge_rel g)\<^sup>*" if "y \<in> set (stack ?t)" for y
    using search_invD(9) [OF t, of y] st [of y] that by (auto simp: seg)
  ultimately show ?thesis unfolding search_inv_def by blast
qed

lemma search_inv_keep:
  assumes inv: "succs_inv g G n st ds t" and ds: "edge_rel g `` {n} \<subseteq> ds" and link: "lowLink t n \<noteq> num t n"
  shows "search_inv g G t" and "\<exists>y \<in> set st. num t y = lowLink t n \<and> (n, y) \<in> (edge_rel g)\<^sup>*"
proof -
  have t: "search_inv g (insert n G) t" using inv by (simp add: succs_inv_def)
  obtain seg where seg: "stack t = st @ n # seg" using inv by (auto simp: succs_inv_def)
  show low: "\<exists>y \<in> set st. num t y = lowLink t n \<and> (n, y) \<in> (edge_rel g)\<^sup>*"
    using inv link by (auto simp: succs_inv_def)
  then obtain w where w: "w \<in> set st" "(n, w) \<in> (edge_rel g)\<^sup>*" by blast
  then have wn: "num t w < num t n" using below_on_stack [OF t seg, of w] by (simp add: seg)
  obtain z where z: "z \<in> G" "num t z \<le> num t w" "(w, z) \<in> (edge_rel g)\<^sup>*"
    using search_invD(9) [OF t, of w] w wn by (auto simp: seg)
  have A: "\<exists>x \<in> G. num t x \<le> num t y \<and> (y, x) \<in> (edge_rel g)\<^sup>*" if y: "y \<in> set (stack t)" for y
  proof -
    obtain x where x: "x \<in> insert n G" "num t x \<le> num t y" "(y, x) \<in> (edge_rel g)\<^sup>*"
      using search_invD(9) [OF t y] by blast
    show ?thesis
    proof (cases "x = n")
      case True
      have "(y, z) \<in> (edge_rel g)\<^sup>*" using x(3) w(2) z(3) True by (meson rtrancl_trans)
      moreover have "num t z \<le> num t y" using z(2) wn x(2) True by simp
      ultimately show ?thesis using z(1) by blast
    qed (use x in blast)
  qed
  have "num t y \<noteq> 0" if "x \<in> set (stack t) - G" "(x, y) \<in> edge_rel g" for x y
    using search_invD(8) [OF t, of x y] that ds inv by (cases "x = n") (auto simp: succs_inv_def)
  then have B: "\<forall>x \<in> set (stack t) - G. \<forall>y. (x, y) \<in> edge_rel g \<longrightarrow> num t y \<noteq> 0" by blast
  from t A show "search_inv g G t"
    unfolding search_inv_def by (intro conjI B) simp_all
qed

section \<open>The search is correct\<close>

definition unvisited :: "graph \<Rightarrow> tarjan \<Rightarrow> node set" where
  "unvisited g t = {x \<in> vertices g. num t x = 0}"

lemma finite_unvisited [simp]: "finite (unvisited g t)"
  by (simp add: unvisited_def vertices_def)

lemma card_unvisited_visit:
  assumes "n \<in> vertices g" "num t n = 0" "card (unvisited g t) \<le> Suc fuel"
  shows "card (unvisited g (visit n t)) \<le> fuel"
proof -
  have "unvisited g (visit n t) = unvisited g t - {n}" by (auto simp: unvisited_def)
  then show ?thesis using assms by (simp add: unvisited_def)
qed

lemma card_unvisited_extends: "extends t t' \<Longrightarrow> card (unvisited g t') \<le> card (unvisited g t)"
  by (rule card_mono [OF finite_unvisited]) (auto simp: unvisited_def extends_def)

lemma dfs_post_pop:
  assumes inv: "succs_inv g G n (stack t) ds t1" and ds: "edge_rel g `` {n} \<subseteq> ds"
    and root: "lowLink t1 n = num t1 n" and seg: "stack t1 = stack t @ n # seg" and fresh: "num t n = 0"
    and ext: "extends (visit n t) t1"
    and links: "\<forall>x. num (visit n t) x \<noteq> 0 \<and> x \<noteq> n \<longrightarrow> lowLink t1 x = lowLink (visit n t) x"
  shows "dfs_post g G n t (t1\<lparr>stack := stack t, sccs := sccs t1 @ [rev seg @ [n]]\<rparr>)"
proof -
  have t1: "search_inv g (insert n G) t1" using inv by (simp add: succs_inv_def)
  have keep: "num t1 x = num t x" "lowLink t1 x = lowLink t x" if "num t x \<noteq> 0" for x
    using ext links that fresh by (auto simp: extends_def)
  have old: "num t y < num t1 n" if "y \<in> set (stack t)" for y
  proof -
    have "num t1 y < num t1 n" using below_on_stack [OF t1 seg, of y] that by (simp add: seg)
    moreover have "num t1 y \<noteq> 0" using search_invD(3) [OF t1, of y] that by (auto simp: seg)
    ultimately show ?thesis using keep(1) [of y] by (cases "num t y = 0") auto
  qed
  have "extends t (t1\<lparr>stack := stack t, sccs := sccs t1 @ [rev seg @ [n]]\<rparr>)"
    using ext keep by (auto simp: extends_def)
  moreover have "num t1 n \<noteq> 0" using search_invD(3) [OF t1, of n] by (simp add: seg)
  ultimately show ?thesis
    using search_inv_pop [OF inv ds root seg] old keep root
    unfolding dfs_post_def by auto
qed

lemma dfs_post_keep:
  assumes inv: "succs_inv g G n (stack t) ds t1" and ds: "edge_rel g `` {n} \<subseteq> ds"
    and link: "lowLink t1 n \<noteq> num t1 n" and fresh: "num t n = 0" and t: "search_inv g G t"
    and ext: "extends (visit n t) t1"
    and links: "\<forall>x. num (visit n t) x \<noteq> 0 \<and> x \<noteq> n \<longrightarrow> lowLink t1 x = lowLink (visit n t) x"
  shows "dfs_post g G n t t1"
proof -
  have keep: "num t1 x = num t x" "lowLink t1 x = lowLink t x" if "num t x \<noteq> 0" for x
    using ext links that fresh by (auto simp: extends_def)
  have vis: "num t x \<noteq> 0" if "x \<in> set (stack t)" for x
    using search_invD(3) [OF t, of x] that by blast
  obtain seg where seg: "stack t1 = stack t @ n # seg" and
    bound: "\<And>x y. x \<in> insert n (set seg) \<Longrightarrow> y \<in> set (stack t) \<Longrightarrow> (x, y) \<in> edge_rel g \<Longrightarrow>
      (x = n \<longrightarrow> y \<in> ds) \<Longrightarrow> lowLink t1 n \<le> num t1 y"
    using inv unfolding succs_inv_def by blast
  have "lowLink t1 n \<le> num t y"
    if "x \<in> set (n # seg)" "y \<in> set (stack t)" "(x, y) \<in> edge_rel g" for x y
    using bound [of x y] that ds keep(1) [OF vis, of y] by auto
  moreover have "extends t t1" using ext keep by (auto simp: extends_def)
  moreover have "num t1 n \<noteq> 0" using ext by (auto simp: extends_def)
  moreover have "\<exists>y \<in> set (stack t). num t y = lowLink t1 n \<and> (n, y) \<in> (edge_rel g)\<^sup>*"
    using search_inv_keep(2) [OF inv ds link] keep(1) [OF vis] by auto
  ultimately show ?thesis
    using search_inv_keep(1) [OF inv ds link] keep(2) seg unfolding dfs_post_def by blast
qed

lemma tarjan_correct:
  shows "graph_inv g \<Longrightarrow> search_inv g G t \<Longrightarrow> num t n = 0 \<Longrightarrow> n \<in> vertices g \<Longrightarrow>
      \<forall>x \<in> G. (x, n) \<in> (edge_rel g)\<^sup>* \<Longrightarrow> card (unvisited g t) \<le> fuel \<Longrightarrow>
      \<exists>t'. tarjan_dfs fuel g n t = Some t' \<and> dfs_post g G n t t'"
    and "graph_inv g' \<Longrightarrow> succs_inv g' H m st ds u \<Longrightarrow> (\<And>s. s \<in> set ss \<Longrightarrow> (m, s) \<in> edge_rel g') \<Longrightarrow>
      card (unvisited g' u) \<le> fuel' \<Longrightarrow>
      \<exists>t'. tarjan_succs fuel' g' m ss u = Some t' \<and> succs_inv g' H m st (ds \<union> set ss) t' \<and> extends u t' \<and>
        (\<forall>x. num u x \<noteq> 0 \<and> x \<noteq> m \<longrightarrow> lowLink t' x = lowLink u x)"
proof (induction fuel g n t and fuel' g' m ss u arbitrary: G and H ds st
    rule: tarjan_dfs_tarjan_succs.induct)
  case (1 g n t)
  then have "n \<in> unvisited g t" by (simp add: unvisited_def)
  then have "card (unvisited g t) \<noteq> 0" by auto
  with 1 show ?case by simp
next
  case (2 fuel g n t)
  have ds: "edge_rel g `` {n} \<subseteq> {} \<union> set (succs g n)" by (auto simp: edge_rel_iff)
  have "succs_inv g G n (stack t) {} (visit n t)" "card (unvisited g (visit n t)) \<le> fuel"
    using succs_inv_visit [of g G t n] card_unvisited_visit [of n g t fuel] 2 by auto
  from 2(1) [OF \<open>graph_inv g\<close> this(1) _ this(2)]
  obtain t1 where t1: "tarjan_succs fuel g n (succs g n) (visit n t) = Some t1"
    and inv: "succs_inv g G n (stack t) ({} \<union> set (succs g n)) t1" and ext: "extends (visit n t) t1"
    and links: "\<forall>x. num (visit n t) x \<noteq> 0 \<and> x \<noteq> n \<longrightarrow> lowLink t1 x = lowLink (visit n t) x"
    by (auto simp: edge_rel_iff)
  show ?case
  proof (cases "lowLink t1 n = num t1 n")
    case True
    obtain seg where seg: "stack t1 = stack t @ n # seg" using inv by (auto simp: succs_inv_def)
    moreover have "distinct (stack t1)" using inv by (auto simp: succs_inv_def dest: distinct_stack)
    ultimately have "pop_loop n t1 [] = Some (rev seg @ [n], t1\<lparr>stack := stack t\<rparr>)"
      using pop_loop_segment [of t1 "stack t" n seg "[]"] by simp
    then show ?thesis
      using t1 True dfs_post_pop [OF inv ds True seg \<open>num t n = 0\<close> ext links] by simp
  next
    case False
    then show ?thesis
      using t1 dfs_post_keep [OF inv ds False \<open>num t n = 0\<close> \<open>search_inv g G t\<close> ext links] by simp
  qed
next
  case (3 fuel g n t)
  then show ?case by simp
next
  case (4 fuel g n s ss t)
  have e: "(n, s) \<in> edge_rel g" using 4 by simp
  have rest: "\<exists>t'. tarjan_succs fuel g n ss t1 = Some t' \<and> succs_inv g H n st (ds \<union> set (s # ss)) t' \<and>
      extends t1 t' \<and> (\<forall>x. num t1 x \<noteq> 0 \<and> x \<noteq> n \<longrightarrow> lowLink t' x = lowLink t1 x)"
    if "\<And>H ds st. succs_inv g H n st ds t1 \<Longrightarrow>
        \<exists>t'. tarjan_succs fuel g n ss t1 = Some t' \<and> succs_inv g H n st (ds \<union> set ss) t' \<and>
          extends t1 t' \<and> (\<forall>x. num t1 x \<noteq> 0 \<and> x \<noteq> n \<longrightarrow> lowLink t' x = lowLink t1 x)"
      "succs_inv g H n st (insert s ds) t1" for t1
    using that(1) [OF that(2)] by simp
  show ?case
  proof (cases "num t s = 0")
    case True
    have "search_inv g (insert n H) t" "\<forall>x \<in> insert n H. (x, s) \<in> (edge_rel g)\<^sup>*"
      using 4(6) e by (auto simp: succs_inv_def intro: rtrancl_into_rtrancl)
    moreover have "s \<in> vertices g" using graph_inv_endpoints [OF \<open>graph_inv g\<close> e] by simp
    ultimately obtain t1 where t1: "tarjan_dfs fuel g s t = Some t1" and post: "dfs_post g (insert n H) s t t1"
      using 4(1) [OF True \<open>graph_inv g\<close> _ True] 4(8) by blast
    let ?t1 = "lower_link n (lowLink t1 s) t1"
    have ext: "extends t t1" using post by (simp add: dfs_post_def)
    then have "extends t ?t1" by (simp add: extends_def)
    then have "card (unvisited g ?t1) \<le> fuel" using card_unvisited_extends [of t ?t1 g] 4(8) by simp
    then obtain t' where "tarjan_succs fuel g n ss ?t1 = Some t'" "succs_inv g H n st (ds \<union> set (s # ss)) t'"
      "extends ?t1 t'" "\<forall>x. num ?t1 x \<noteq> 0 \<and> x \<noteq> n \<longrightarrow> lowLink t' x = lowLink ?t1 x"
      using rest [OF _ succs_inv_dfs [OF 4(6) e True post]] 4(2) [OF True t1 \<open>graph_inv g\<close>] 4(7) by auto
    moreover have "\<forall>x. num t x \<noteq> 0 \<longrightarrow> num t1 x \<noteq> 0 \<and> lowLink t1 x = lowLink t x"
      using post by (auto simp: dfs_post_def extends_def)
    ultimately show ?thesis
      using True t1 extends_trans [OF \<open>extends t ?t1\<close>] by auto
  next
    case vis: False
    show ?thesis
    proof (cases "s \<in> set (stack t)")
      case True
      let ?t1 = "lower_link n (num t s) t"
      have "extends t ?t1" "card (unvisited g ?t1) \<le> fuel" using 4(8) by (auto simp: extends_def unvisited_def)
      then show ?thesis
        using rest [OF _ succs_inv_onStack [OF 4(6) e True]] 4(3) [OF vis _ \<open>graph_inv g\<close>] 4(7) True vis
          extends_trans [OF \<open>extends t ?t1\<close>] by (auto simp: onStack_def)
    next
      case False
      then show ?thesis
        using rest [OF _ succs_inv_found [OF 4(6) vis False]] 4(4) [OF vis _ \<open>graph_inv g\<close>] 4(7,8) vis
        by (auto simp: onStack_def)
    qed
  qed
qed

section \<open>The components\<close>

lemma search_inv_init: "search_inv g {} tarjan_init"
  by (simp add: search_inv_def tarjan_init_def found_def)

lemma search_inv_idle: "search_inv g {} t \<Longrightarrow> stack t = []"
  using search_invD(9) [of g "{}" t "hd (stack t)"] by (cases "stack t") auto

lemma scc_loop_correct:
  assumes "graph_inv g" "search_inv g {} t" "set ns \<subseteq> vertices g" "card (unvisited g t) \<le> fuel"
  shows "\<exists>t'. scc_loop fuel g ns t = Some t' \<and> search_inv g {} t' \<and> found t \<union> set ns \<subseteq> found t'"
  using assms
proof (induction fuel g ns t rule: scc_loop.induct)
  case (1 fuel g t)
  then show ?case by auto
next
  case (2 fuel g n ns t)
  show ?case
  proof (cases "num t n = 0")
    case True
    obtain t1 where t1: "tarjan_dfs fuel g n t = Some t1" and post: "dfs_post g {} n t t1"
      using tarjan_correct(1) [OF \<open>graph_inv g\<close> \<open>search_inv g {} t\<close> True, of fuel] 2(5,6) by auto
    have inv: "search_inv g {} t1" and ext: "extends t t1" and "num t1 n \<noteq> 0"
      using post by (simp_all add: dfs_post_def)
    then have n: "n \<in> found t1" using search_invD(3) [OF inv, of n] search_inv_idle [OF inv] by simp
    have "found t \<subseteq> found t1" using ext by (auto simp: extends_def found_def)
    moreover obtain t' where "scc_loop fuel g ns t1 = Some t'" "search_inv g {} t'" "found t1 \<union> set ns \<subseteq> found t'"
      using 2(1) [OF True t1 \<open>graph_inv g\<close> inv] 2(5,6) card_unvisited_extends [OF ext, of g] by auto
    ultimately show ?thesis using n t1 True by auto
  next
    case False
    then have "n \<in> found t"
      using search_invD(3) [OF \<open>search_inv g {} t\<close>, of n] search_inv_idle [OF \<open>search_inv g {} t\<close>] by simp
    moreover obtain t' where "scc_loop fuel g ns t = Some t'" "search_inv g {} t'" "found t \<union> set ns \<subseteq> found t'"
      using 2(2) [OF False \<open>graph_inv g\<close> \<open>search_inv g {} t\<close>] 2(5,6) by auto
    ultimately show ?thesis using False by auto
  qed
qed

lemma SCC_loop_result:
  assumes "graph_inv g" "set ns \<subseteq> vertices g"
  obtains t where "scc_loop (Len g) g ns tarjan_init = Some t" "search_inv g {} t"
    "set ns \<subseteq> found t" "found t \<subseteq> vertices g"
proof -
  have "unvisited g tarjan_init = vertices g" by (auto simp: unvisited_def tarjan_init_def)
  then have "card (unvisited g tarjan_init) \<le> Len g"
    using graph_inv_distinct(1) [OF assms(1)] by (simp add: Len_def vertices_def distinct_card)
  from scc_loop_correct [OF assms(1) search_inv_init assms(2) this] obtain t where
    t: "scc_loop (Len g) g ns tarjan_init = Some t" "search_inv g {} t" "set ns \<subseteq> found t" by auto
  moreover have "found t \<subseteq> vertices g"
    using search_invD(3,10) [OF t(2)] by blast
  ultimately show thesis using that by blast
qed

text \<open>
  C19: for every graph built with the package's operations the search returns, and what it
  returns is exactly the strongly connected components: they partition the nodes of the
  graph, and each is the set of nodes that reach, and are reached from, any of its members.
\<close>

theorem StronglyConnectedComponents_correct:
  assumes "graph_inv g"
  shows "\<exists>cs. StronglyConnectedComponents g = Some cs \<and> distinct (concat cs) \<and>
    set (concat cs) = vertices g \<and>
    (\<forall>c \<in> set cs. c \<noteq> [] \<and>
       (\<forall>x \<in> set c. set c = {y. (x, y) \<in> (edge_rel g)\<^sup>* \<and> (y, x) \<in> (edge_rel g)\<^sup>*}))"
proof -
  obtain t where t: "scc_loop (Len g) g (Nodes g) tarjan_init = Some t" "search_inv g {} t"
    "set (Nodes g) \<subseteq> found t" "found t \<subseteq> vertices g"
    using SCC_loop_result [OF assms, of "Nodes g"] by (auto simp: vertices_def)
  have "set (concat (sccs t)) = vertices g"
    using t(3,4) by (auto simp: vertices_def found_def)
  moreover have "distinct (concat (sccs t))" "\<forall>c \<in> set (sccs t). is_scc (edge_rel g) (set c)"
    using t(2) by (simp_all add: search_inv_def)
  ultimately show ?thesis
    using t(1) by (intro exI [of _ "sccs t"]) (simp add: StronglyConnectedComponents_def is_scc_def)
qed

theorem StronglyConnectedComponents_correct_witness:
  "graph_inv chain_graph \<and>
   (\<exists>cs. StronglyConnectedComponents chain_graph = Some cs \<and> set (concat cs) = {na, nb, nc})"
  using StronglyConnectedComponents_correct [OF chain_graph_inv] chain_graph_inv
  unfolding chain_graph_vertices by blast

text \<open>
  For identifiers of nodes of the graph the ordered search returns; every node asked for is in
  exactly one component, and every component is a strongly connected component of the graph.
\<close>

theorem StronglyConnectedComponentsOrdered_correct:
  assumes "graph_inv g" and "set order \<subseteq> NodeID ` vertices g"
  shows "\<exists>cs. StronglyConnectedComponentsOrdered g order = Some cs \<and> distinct (concat cs) \<and>
    {n \<in> vertices g. NodeID n \<in> set order} \<subseteq> set (concat cs) \<and> set (concat cs) \<subseteq> vertices g \<and>
    (\<forall>c \<in> set cs. c \<noteq> [] \<and>
       (\<forall>x \<in> set c. set c = {y. (x, y) \<in> (edge_rel g)\<^sup>* \<and> (y, x) \<in> (edge_rel g)\<^sup>*}))"
proof -
  let ?ns = "map (\<lambda>i. the (GetByID g i)) order"
  have get: "GetByID g (NodeID n) = Some n" if "n \<in> vertices g" for n
    using that GetByID_iff [OF assms(1)] by blast
  have valid: "list_all (\<lambda>i. GetByID g i \<noteq> None) order"
    using assms(2) get by (fastforce simp: list_all_iff)
  have sub: "set ?ns \<subseteq> vertices g" using assms(2) get by fastforce
  obtain t where t: "scc_loop (Len g) g ?ns tarjan_init = Some t" "search_inv g {} t"
    "set ?ns \<subseteq> found t" "found t \<subseteq> vertices g"
    using SCC_loop_result [OF assms(1) sub] by blast
  have "n \<in> set ?ns" if "n \<in> vertices g" "NodeID n \<in> set order" for n
    using get [OF that(1)] that(2) by (metis (no_types, lifting) image_eqI list.set_map option.sel)
  then have "{n \<in> vertices g. NodeID n \<in> set order} \<subseteq> set (concat (sccs t))"
    using t(3) by (auto simp: found_def)
  moreover have "set (concat (sccs t)) \<subseteq> vertices g" using t(4) by (simp add: found_def)
  moreover have "distinct (concat (sccs t))" "\<forall>c \<in> set (sccs t). is_scc (edge_rel g) (set c)"
    using t(2) by (simp_all add: search_inv_def)
  ultimately show ?thesis
    using t(1) valid
    by (intro exI [of _ "sccs t"]) (simp add: StronglyConnectedComponentsOrdered_def is_scc_def)
qed

theorem StronglyConnectedComponentsOrdered_correct_witness:
  "graph_inv chain_graph \<and> set [''b'', ''a''] \<subseteq> NodeID ` vertices chain_graph \<and>
   (\<exists>cs. StronglyConnectedComponentsOrdered chain_graph [''b'', ''a''] = Some cs \<and> nb \<in> set (concat cs))"
proof -
  have ids: "set [''b'', ''a''] \<subseteq> NodeID ` vertices chain_graph"
    by (simp add: chain_graph_vertices)
  have "nb \<in> {n \<in> vertices chain_graph. NodeID n \<in> set [''b'', ''a'']}"
    by (simp add: chain_graph_vertices)
  with StronglyConnectedComponentsOrdered_correct [OF chain_graph_inv ids] ids chain_graph_inv
  show ?thesis by blast
qed

lemma sccs_of_graph:
  assumes "graph_inv g"
  obtains cs where "StronglyConnectedComponents g = Some cs" "distinct (concat cs)"
    "set (concat cs) = vertices g" "\<forall>c \<in> set cs. is_scc (edge_rel g) (set c)"
proof -
  obtain t where t: "scc_loop (Len g) g (Nodes g) tarjan_init = Some t" "search_inv g {} t"
    "set (Nodes g) \<subseteq> found t" "found t \<subseteq> vertices g"
    using SCC_loop_result [OF assms, of "Nodes g"] by (auto simp: vertices_def)
  then show thesis
    using that [of "sccs t"]
    by (auto simp: StronglyConnectedComponents_def search_inv_def vertices_def found_def)
qed

section \<open>The cycle check is exact\<close>

lemma cyclic_iff_scc:
  assumes c: "is_scc r (set c)" "distinct c" "n \<in> set c"
  shows "(n, n) \<in> r\<^sup>+ \<longleftrightarrow> (n, n) \<in> r \<or> length c > 1"
proof
  assume "(n, n) \<in> r\<^sup>+"
  then obtain m where m: "(n, m) \<in> r" "(m, n) \<in> r\<^sup>*" by (meson tranclD)
  show "(n, n) \<in> r \<or> length c > 1"
  proof (cases "m = n")
    case False
    have "m \<in> set c" using c m by (auto simp: is_scc_def)
    then have "card {m, n} \<le> card (set c)" using c(3) by (intro card_mono) auto
    with False show ?thesis using distinct_card [OF c(2)] by simp
  qed (use m in simp)
next
  assume "(n, n) \<in> r \<or> length c > 1"
  then show "(n, n) \<in> r\<^sup>+"
  proof
    assume "length c > 1"
    then have "\<not> set c \<subseteq> {n}"
      using distinct_card [OF c(2)] card_mono [of "{n}" "set c"] by auto
    then obtain y where "y \<in> set c" "y \<noteq> n" by auto
    then have "(n, y) \<in> r\<^sup>*" "(y, n) \<in> r\<^sup>*" using c by (auto simp: is_scc_def)
    with \<open>y \<noteq> n\<close> show ?thesis by (metis rtranclD trancl_rtrancl_trancl)
  qed simp
qed

lemma NodeID_inj: "graph_inv g \<Longrightarrow> inj_on NodeID (vertices g)"
  by (rule inj_onI) (metis GetByID_iff option.inject)

text \<open>What the check reports about a node, by its identifier.\<close>

definition reported :: "validate_error list \<Rightarrow> string \<Rightarrow> bool" where
  "reported errs i \<longleftrightarrow> (\<exists>ids. Cycle ids \<in> set errs \<and> i \<in> set ids) \<or> SelfReference i \<in> set errs"

lemma Validate_reported:
  assumes g: "graph_inv g"
  obtains errs where "Validate g = Some errs"
    "\<And>n. n \<in> vertices g \<Longrightarrow> reported errs (NodeID n) \<longleftrightarrow> (n, n) \<in> (edge_rel g)\<^sup>+"
    "errs \<noteq> [] \<Longrightarrow> \<exists>n \<in> vertices g. reported errs (NodeID n)"
proof -
  obtain cs where cs: "StronglyConnectedComponents g = Some cs" "distinct (concat cs)"
    "set (concat cs) = vertices g" "\<forall>c \<in> set cs. is_scc (edge_rel g) (set c)"
    using sccs_of_graph [OF g] .
  define errs where "errs = map (\<lambda>cycle. Cycle (map NodeID cycle)) (filter (\<lambda>cycle. length cycle > 1) cs) @
    map (\<lambda>e. SelfReference (NodeID (From e))) (filter (\<lambda>e. From e = To e) (Edges g))"
  have V: "Validate g = Some errs" by (simp add: Validate_def cs errs_def)
  have dist: "distinct c" if "c \<in> set cs" for c
    using cs(2) that by (auto simp: distinct_concat_iff)
  have self: "SelfReference i \<in> set errs \<longleftrightarrow> (\<exists>m. NodeID m = i \<and> (m, m) \<in> edge_rel g)" for i
  proof -
    have "edge_map_wf (outEdges g)" using g by (simp add: graph_inv_def edges_wf_def)
    note E = set_Edges [OF this]
    have "SelfReference i \<in> set errs \<longleftrightarrow> (\<exists>e \<in> set (Edges g). From e = To e \<and> NodeID (From e) = i)"
      by (auto simp: errs_def)
    also have "\<dots> \<longleftrightarrow> (\<exists>m. Edge m m \<in> set (Edges g) \<and> NodeID m = i)"
      by (metis edge.collapse edge.sel)
    finally show ?thesis by (auto simp: E)
  qed
  have cyc: "Cycle ids \<in> set errs \<longleftrightarrow> (\<exists>c \<in> set cs. ids = map NodeID c \<and> length c > 1)" for ids
    by (auto simp: errs_def)
  have rep: "reported errs (NodeID n) \<longleftrightarrow> (n, n) \<in> (edge_rel g)\<^sup>+" if n: "n \<in> vertices g" for n
  proof -
    have inj: "NodeID m = NodeID n \<longleftrightarrow> m = n" if "m \<in> vertices g" for m
      using NodeID_inj [OF g] n that by (auto simp: inj_on_def)
    obtain c where c: "c \<in> set cs" "n \<in> set c" using cs(3) n by auto
    have uniq: "d = c" if "d \<in> set cs" "n \<in> set d" for d
      using cs(2) c that unfolding distinct_concat_iff by blast
    have mem: "NodeID n \<in> set (map NodeID d) \<longleftrightarrow> n \<in> set d" if "d \<in> set cs" for d
      using inj cs(3) that by fastforce
    have "(\<exists>ids. Cycle ids \<in> set errs \<and> NodeID n \<in> set ids) \<longleftrightarrow> (\<exists>d \<in> set cs. length d > 1 \<and> n \<in> set d)"
      unfolding cyc using mem by blast
    also have "\<dots> \<longleftrightarrow> length c > 1" using c uniq by blast
    finally have "(\<exists>ids. Cycle ids \<in> set errs \<and> NodeID n \<in> set ids) \<longleftrightarrow> length c > 1" .
    moreover have "SelfReference (NodeID n) \<in> set errs \<longleftrightarrow> (n, n) \<in> edge_rel g"
      using inj graph_inv_endpoints [OF g] by (auto simp: self)
    ultimately show ?thesis
      using cyclic_iff_scc [of "edge_rel g" c n] cs(4) c dist by (auto simp: reported_def)
  qed
  have "\<exists>n \<in> vertices g. reported errs (NodeID n)" if "errs \<noteq> []"
  proof -
    obtain e where e: "e \<in> set errs" using \<open>errs \<noteq> []\<close> by (cases errs) auto
    show ?thesis
    proof (cases e)
      case (Cycle ids)
      with e obtain c where "c \<in> set cs" "ids = map NodeID c" "length c > 1" by (auto simp: cyc)
      then have "c \<noteq> []" by auto
      then obtain a where "a \<in> set c" by (meson list.set_sel(1))
      with \<open>c \<in> set cs\<close> \<open>ids = map NodeID c\<close> have "a \<in> vertices g" "NodeID a \<in> set ids"
        using cs(3) by auto
      with e Cycle show ?thesis unfolding reported_def by blast
    next
      case (SelfReference i)
      with e obtain m where "NodeID m = i" "(m, m) \<in> edge_rel g" by (auto simp: self)
      with e SelfReference graph_inv_endpoints [OF g] show ?thesis by (auto simp: reported_def)
    qed
  qed
  with V rep that show thesis by blast
qed

lemma Validate_acyclic:
  assumes "graph_inv g"
  shows "\<exists>errs. Validate g = Some errs \<and> (errs = [] \<longleftrightarrow> acyclic (edge_rel g)) \<and>
    (\<forall>n \<in> vertices g. reported errs (NodeID n) \<longleftrightarrow> (n, n) \<in> (edge_rel g)\<^sup>+)"
proof -
  obtain errs where errs: "Validate g = Some errs"
    "\<And>n. n \<in> vertices g \<Longrightarrow> reported errs (NodeID n) \<longleftrightarrow> (n, n) \<in> (edge_rel g)\<^sup>+"
    "errs \<noteq> [] \<Longrightarrow> \<exists>n \<in> vertices g. reported errs (NodeID n)"
    using Validate_reported [OF assms] by metis
  have "errs = [] \<longleftrightarrow> acyclic (edge_rel g)"
  proof
    assume "errs = []"
    then have none: "\<not> reported errs i" for i by (simp add: reported_def)
    have "(n, n) \<notin> (edge_rel g)\<^sup>+" for n
    proof
      assume cyc: "(n, n) \<in> (edge_rel g)\<^sup>+"
      then obtain z where "(n, z) \<in> edge_rel g" by (meson tranclD)
      then have "n \<in> vertices g" using graph_inv_endpoints [OF assms] by blast
      with cyc none errs(2) show False by blast
    qed
    then show "acyclic (edge_rel g)" by (simp add: acyclic_def)
  qed (use errs(2,3) in \<open>auto simp: acyclic_def\<close>)
  with errs show ?thesis by blast
qed

text \<open>
  C20: the validation of a graph returns, reports an error exactly when the graph has a cycle,
  and the nodes its errors name are exactly the nodes that lie on a cycle.
\<close>

theorem Validate_exact:
  assumes "graph_inv g"
  shows "\<exists>errs. Validate g = Some errs \<and> (errs = [] \<longleftrightarrow> acyclic (edge_rel g)) \<and>
    (\<forall>n \<in> vertices g. reported errs (NodeID n) \<longleftrightarrow> (n, n) \<in> (edge_rel g)\<^sup>+)"
  by (rule Validate_acyclic [OF assms])

theorem Validate_exact_witness:
  "graph_inv chain_graph \<and> Validate chain_graph = Some []"
  using Validate_exact [OF chain_graph_inv] chain_graph_inv chain_graph_acyclic by auto

end
