(* ===== verification/Dag_Weak.thy ===== *)
theory Dag_Weak
  imports Dag_Walk
begin

text \<open>
  Weakly connected components, \<^verbatim>\<open>internal/dag/weak.go\<close>: a breadth-first search that
  ignores the direction of the edges, with a filter for the nodes a component lists.
\<close>

section \<open>The algorithm\<close>

type_synonym filter_func = "graph \<Rightarrow> node \<Rightarrow> bool"

definition FilterAllFunc :: filter_func where
  "FilterAllFunc g n = True"

definition FilterLeavesFunc :: filter_func where
  "FilterLeavesFunc g n \<longleftrightarrow> length (edge_set (outEdges g) n) = 0"

definition FilterRootsFunc :: filter_func where
  "FilterRootsFunc g n \<longleftrightarrow> length (edge_set (inEdges g) n) = 0"

definition neighbors :: "graph \<Rightarrow> node \<Rightarrow> node list" where
  "neighbors g n = foldl (\<lambda>out nb. out @ [nb])
     (foldl (\<lambda>out nb. out @ [nb]) [] (edge_set (outEdges g) n)) (edge_set (inEdges g) n)"

text \<open>The loop over the neighbours: unseen ones are marked and queued.\<close>

fun weak_push :: "node_set \<Rightarrow> node list \<Rightarrow> node list \<Rightarrow> node_set \<times> node list" where
  "weak_push visited queue [] = (visited, queue)"
| "weak_push visited queue (neighbor # ns) =
     (if ns_Has visited neighbor then weak_push visited queue ns
      else weak_push (ns_Add neighbor visited) (queue @ [neighbor]) ns)"

lemma weak_push_spec:
  "\<exists>new. weak_push visited queue ns = (visited @ new, queue @ new) \<and> distinct new \<and>
    set new = set ns - set visited"
proof (induction ns arbitrary: visited queue)
  case (Cons n ns)
  show ?case
  proof (cases "n \<in> set visited")
    case True
    with Cons.IH [of visited queue] show ?thesis by (auto simp: ns_Has_def insert_Diff_if)
  next
    case False
    obtain new where "weak_push (visited @ [n]) (queue @ [n]) ns = ((visited @ [n]) @ new, (queue @ [n]) @ new)"
      "distinct new" "set new = set ns - set (visited @ [n])"
      using Cons.IH by blast
    with False show ?thesis
      by (intro exI [of _ "n # new"]) (auto simp: ns_Has_def ns_Add_def)
  qed
qed simp

definition neighbor_universe :: "graph \<Rightarrow> node set" where
  "neighbor_universe g = edge_targets (outEdges g) \<union> edge_targets (inEdges g)"

lemma neighbors_eq: "neighbors g n = succs g n @ preds g n"
  by (simp add: neighbors_def)

lemma neighbors_universe: "set (neighbors g n) \<subseteq> neighbor_universe g"
  using edge_set_targets by (auto simp: neighbors_eq neighbor_universe_def)

function weak_bfs ::
  "graph \<Rightarrow> filter_func \<Rightarrow> node_set \<Rightarrow> node list \<Rightarrow> node list \<Rightarrow> node_set \<times> node list" where
  "weak_bfs g f visited queue component =
     (if queue = [] then (visited, component)
      else let curr = hd queue; queue' = tl queue;
               component' = (if f g curr then component @ [curr] else component)
           in case weak_push visited queue' (neighbors g curr) of
                (visited', queue'') \<Rightarrow> weak_bfs g f visited' queue'' component')"
  by pat_completeness auto
termination
proof (relation "measures [\<lambda>(g, f, visited, queue, c). card (neighbor_universe g - set visited),
    \<lambda>(g, f, visited, queue, c). length queue]", goal_cases)
  case (2 g f visited queue c curr queue' c' visited' queue'')
  obtain new where new: "weak_push visited queue' (neighbors g curr) = (visited @ new, queue' @ new)"
    "set new = set (neighbors g curr) - set visited"
    using weak_push_spec by blast
  have fin: "finite (neighbor_universe g - set visited)" by (simp add: neighbor_universe_def)
  show ?case
  proof (cases "new = []")
    case True
    with 2 new show ?thesis by (cases queue) auto
  next
    case False
    then obtain x where "x \<in> set new" by (meson list.set_sel(1))
    then have "neighbor_universe g - set (visited @ new) \<subset> neighbor_universe g - set visited"
      using new(2) neighbors_universe [of g curr] by auto
    then have "card (neighbor_universe g - set (visited @ new)) < card (neighbor_universe g - set visited)"
      by (rule psubset_card_mono [OF fin])
    with 2 new show ?thesis by simp
  qed
qed simp

declare weak_bfs.simps [simp del]

fun weak_loop :: "graph \<Rightarrow> filter_func \<Rightarrow> node list \<Rightarrow> node_set \<Rightarrow> node list list \<Rightarrow> node list list" where
  "weak_loop g f [] visited components = components"
| "weak_loop g f (n # ns) visited components =
     (if ns_Has visited n then weak_loop g f ns visited components
      else case weak_bfs g f (ns_Add n visited) [n] [] of
             (visited', component) \<Rightarrow>
               weak_loop g f ns visited'
                 (if length component > 0 then components @ [component] else components))"

definition WeaklyConnectedComponents :: "graph \<Rightarrow> filter_func \<Rightarrow> node list list" where
  "WeaklyConnectedComponents g f = weak_loop g f (Nodes g) [] []"

section \<open>Correctness\<close>

text \<open>Two nodes are adjacent when an edge joins them in either direction.\<close>

definition adjacent :: "graph \<Rightarrow> (node \<times> node) set" where
  "adjacent g = edge_rel g \<union> (edge_rel g)\<inverse>"

lemma sym_adjacent: "sym (adjacent g)"
  by (auto simp: adjacent_def sym_def)

lemma neighbors_iff: "graph_inv g \<Longrightarrow> b \<in> set (neighbors g a) \<longleftrightarrow> (a, b) \<in> adjacent g"
  using graph_inv_converse by (auto simp: neighbors_eq adjacent_def)

text \<open>What one breadth-first search does: it pops the nodes \<open>P\<close>.\<close>

definition bfs_pops :: "graph \<Rightarrow> node_set \<Rightarrow> node list \<Rightarrow> node list \<Rightarrow> bool" where
  "bfs_pops g V Q P \<longleftrightarrow> distinct P \<and> set Q \<subseteq> set P \<and> set P \<inter> (set V - set Q) = {} \<and>
     adjacent g `` set P \<subseteq> set V \<union> set P \<and> set P \<subseteq> (adjacent g)\<^sup>* `` set Q"

lemma bfs_pops_step:
  assumes "bfs_pops g (V @ new) (Q @ new) P" "distinct (c # Q)" "set (c # Q) \<subseteq> set V"
    and "set new = adjacent g `` {c} - set V"
  shows "bfs_pops g V (c # Q) (c # P)"
proof -
  have "(adjacent g)\<^sup>* `` set (Q @ new) \<subseteq> (adjacent g)\<^sup>* `` set (c # Q)"
    using assms(4) by (auto intro: converse_rtrancl_into_rtrancl)
  then show ?thesis
    using assms unfolding bfs_pops_def by auto
qed

lemma weak_bfs_spec:
  assumes "graph_inv g" "distinct queue" "set queue \<subseteq> set visited"
  shows "\<exists>P. bfs_pops g visited queue P \<and> set (fst (weak_bfs g f visited queue cp)) = set visited \<union> set P \<and>
    snd (weak_bfs g f visited queue cp) = cp @ filter (f g) P"
  using assms
proof (induction g f visited queue cp rule: weak_bfs.induct)
  case (1 g f visited queue cp)
  show ?case
  proof (cases queue)
    case Nil
    then show ?thesis
      by (intro exI [of _ "[]"]) (simp add: weak_bfs.simps [of g f visited "[]"] bfs_pops_def)
  next
    case (Cons c Q)
    obtain new where new: "weak_push visited Q (neighbors g c) = (visited @ new, Q @ new)" "distinct new"
      "set new = set (neighbors g c) - set visited"
      using weak_push_spec by blast
    let ?cp = "if f g c then cp @ [c] else cp"
    let ?r = "weak_bfs g f (visited @ new) (Q @ new) ?cp"
    have eq: "weak_bfs g f visited queue cp = ?r"
      unfolding weak_bfs.simps [of g f visited queue] by (simp add: Cons new Let_def)
    have ne: "queue \<noteq> []" by (simp add: Cons)
    have "\<exists>P. bfs_pops g (visited @ new) (Q @ new) P \<and> set (fst ?r) = set (visited @ new) \<union> set P \<and>
        snd ?r = ?cp @ filter (f g) P"
    proof (rule 1(1) [OF ne, of c Q ?cp "visited @ new" "Q @ new"])
      show "distinct (Q @ new)" "set (Q @ new) \<subseteq> set (visited @ new)"
        using 1(3,4) new Cons by auto
    qed (use Cons new 1(2) in simp_all)
    then obtain P where P: "bfs_pops g (visited @ new) (Q @ new) P"
      "set (fst ?r) = set (visited @ new) \<union> set P" "snd ?r = ?cp @ filter (f g) P"
      by blast
    have "bfs_pops g visited queue (c # P)"
      using P(1) 1(3,4) new neighbors_iff [OF 1(2)] unfolding Cons by (intro bfs_pops_step) auto
    moreover have "set new \<subseteq> set P" using P(1) by (simp add: bfs_pops_def)
    moreover have "c \<in> set visited" using 1(4) Cons by simp
    ultimately show ?thesis
      using P by (intro exI [of _ "c # P"]) (auto simp: eq)
  qed
qed

lemma bfs_pops_class:
  assumes "bfs_pops g (ns_Add n V) [n] P" "n \<notin> set V" "adjacent g `` set V \<subseteq> set V"
  shows "set P = (adjacent g)\<^sup>* `` {n}" "set P \<inter> set V = {}"
proof -
  show disj: "set P \<inter> set V = {}" using assms by (auto simp: bfs_pops_def)
  have "adjacent g `` set P \<subseteq> set P"
  proof
    fix b assume "b \<in> adjacent g `` set P"
    then obtain a where a: "a \<in> set P" "(a, b) \<in> adjacent g" by blast
    then have "b \<notin> set V" using assms(3) disj sym_adjacent [of g] by (blast dest: symD)
    with a assms(1) show "b \<in> set P" by (auto simp: bfs_pops_def)
  qed
  then show "set P = (adjacent g)\<^sup>* `` {n}"
    using assms(1) Image_rtrancl_subset [of "adjacent g" "set P" "{n}"] by (auto simp: bfs_pops_def)
qed

text \<open>The components found so far, for the set of visited nodes.\<close>

definition weak_inv :: "graph \<Rightarrow> filter_func \<Rightarrow> node set \<Rightarrow> node list list \<Rightarrow> bool" where
  "weak_inv g f V cs \<longleftrightarrow> adjacent g `` V \<subseteq> V \<and> V \<subseteq> vertices g \<and> distinct (concat cs) \<and>
     set (concat cs) = {n \<in> V. f g n} \<and>
     (\<forall>c \<in> set cs. c \<noteq> [] \<and> (\<forall>a \<in> set c. set c = {b. f g b \<and> (a, b) \<in> (adjacent g)\<^sup>*}))"

lemma rtrancl_sym_class:
  assumes "sym r" "(n, a) \<in> r\<^sup>*"
  shows "r\<^sup>* `` {n} = r\<^sup>* `` {a}"
  using assms sym_rtrancl [OF assms(1)] by (auto dest: symD intro: rtrancl_trans)

lemma weak_inv_step:
  assumes g: "graph_inv g" and inv: "weak_inv g f (set V) cs" and n: "n \<in> vertices g" "n \<notin> set V"
    and P: "bfs_pops g (ns_Add n V) [n] P"
  shows "weak_inv g f (set V \<union> set P) (if filter (f g) P \<noteq> [] then cs @ [filter (f g) P] else cs)"
proof -
  have V: "adjacent g `` set V \<subseteq> set V" using inv by (simp add: weak_inv_def)
  note cls = bfs_pops_class [OF P n(2) V]
  have adj: "adjacent g \<subseteq> vertices g \<times> vertices g"
    using g by (auto simp: adjacent_def graph_inv_def)
  then have "adjacent g `` vertices g \<subseteq> vertices g" by blast
  then have "set P \<subseteq> vertices g"
    unfolding cls(1) by (rule Image_rtrancl_subset) (use n in simp)
  moreover have "adjacent g `` set P \<subseteq> set P" unfolding cls(1) by (auto intro: rtrancl_into_rtrancl)
  moreover have "set (filter (f g) P) = {b. f g b \<and> (a, b) \<in> (adjacent g)\<^sup>*}" if "a \<in> set P" for a
    using rtrancl_sym_class [OF sym_adjacent, of n a g] that cls(1) by auto
  moreover have "distinct P" using P by (simp add: bfs_pops_def)
  moreover have "set (concat cs) = {x \<in> set V. f g x}" using inv by (simp add: weak_inv_def)
  ultimately show ?thesis
    using inv cls(2) unfolding weak_inv_def by (auto simp: filter_empty_conv)
qed

lemma weak_loop_spec:
  assumes "graph_inv g" "weak_inv g f (set V) cs" "set ns \<subseteq> vertices g"
  shows "\<exists>W. weak_inv g f W (weak_loop g f ns V cs) \<and> set V \<union> set ns \<subseteq> W"
  using assms
proof (induction ns arbitrary: V cs)
  case (Cons n ns)
  show ?case
  proof (cases "n \<in> set V")
    case True
    obtain W where "weak_inv g f W (weak_loop g f ns V cs)" "set V \<union> set ns \<subseteq> W"
      using Cons.IH [OF Cons.prems(1,2)] Cons.prems(3) by auto
    with True show ?thesis by (auto simp: ns_Has_def)
  next
    case False
    let ?r = "weak_bfs g f (ns_Add n V) [n] []"
    obtain P where P: "bfs_pops g (ns_Add n V) [n] P" "set (fst ?r) = set (ns_Add n V) \<union> set P"
      "snd ?r = [] @ filter (f g) P"
      using weak_bfs_spec [OF Cons.prems(1), of "[n]" "ns_Add n V" f "[]"] by auto
    have "n \<in> set P" using P(1) by (simp add: bfs_pops_def)
    then have V': "set (fst ?r) = set V \<union> set P" using P(2) by auto
    have "weak_inv g f (set (fst ?r)) (if filter (f g) P \<noteq> [] then cs @ [filter (f g) P] else cs)"
      unfolding V' using Cons.prems False by (intro weak_inv_step [OF _ _ _ _ P(1)]) auto
    then obtain W where "weak_inv g f W (weak_loop g f ns (fst ?r)
        (if filter (f g) P \<noteq> [] then cs @ [filter (f g) P] else cs))" "set (fst ?r) \<union> set ns \<subseteq> W"
      using Cons.IH [OF Cons.prems(1)] Cons.prems(3) by (meson list.set_intros(2) subset_iff)
    then show ?thesis using False V' \<open>n \<in> set P\<close> P(3)
      by (intro exI [of _ W]) (auto simp: ns_Has_def case_prod_beta)
  qed
qed auto

lemma WeaklyConnectedComponents_inv:
  assumes "graph_inv g"
  shows "weak_inv g f (vertices g) (WeaklyConnectedComponents g f)"
proof -
  have "weak_inv g f (set []) []" by (simp add: weak_inv_def)
  from weak_loop_spec [OF assms this, of "nodes g"] obtain W
    where "weak_inv g f W (WeaklyConnectedComponents g f)" "vertices g \<subseteq> W"
    by (auto simp: WeaklyConnectedComponents_def vertices_def)
  then show ?thesis by (metis subset_antisym weak_inv_def)
qed

text \<open>
  Splitting a graph into weakly connected components puts every node the filter accepts
  into exactly one component, and the component of a node lists exactly the accepted nodes
  that are connected to it by edges taken in either direction.
\<close>

theorem WeaklyConnectedComponents_partition:
  assumes "graph_inv g"
  shows "distinct (concat (WeaklyConnectedComponents g f)) \<and>
    set (concat (WeaklyConnectedComponents g f)) = {n \<in> vertices g. f g n} \<and>
    (\<forall>c \<in> set (WeaklyConnectedComponents g f). c \<noteq> [] \<and>
       (\<forall>a \<in> set c. set c = {b. f g b \<and> (a, b) \<in> (edge_rel g \<union> (edge_rel g)\<inverse>)\<^sup>*}))"
  using WeaklyConnectedComponents_inv [OF assms, of f] by (simp add: weak_inv_def adjacent_def)

theorem WeaklyConnectedComponents_partition_witness:
  "graph_inv chain_graph \<and>
   set (concat (WeaklyConnectedComponents chain_graph FilterAllFunc)) = {na, nb, nc}"
  using WeaklyConnectedComponents_partition [OF chain_graph_inv, of FilterAllFunc] chain_graph_inv
  by (auto simp: FilterAllFunc_def chain_graph_vertices)

end
