(* ===== verification/Token.thy ===== *)
theory Token
  imports Prelude
begin

text \<open>
  The lexical tokens of the configuration language, \<^verbatim>\<open>syntax/token/token.go\<close>. The Go type is
  an integer counted up by \<open>iota\<close>; the unexported markers \<open>literalBeg\<close> to \<open>operatorEnd\<close> are
  values of it too and delimit the classes of tokens.
\<close>

section \<open>Tokens and their order\<close>

datatype Token =
  ILLEGAL | LITERAL | EOF | COMMENT
| literalBeg | IDENT | NUMBER | FLOAT | STRING | literalEnd
| keywordBeg | BOOL | NULL | keywordEnd
| operatorBeg | OR | AND | NOT | ASSIGN | EQ | NEQ | LT | LTE | GT | GTE
| ADD | SUB | MUL | DIV | MOD | POW
| LCURLY | RCURLY | LPAREN | RPAREN | LBRACK | RBRACK | COMMA | DOT | operatorEnd
| TERMINATOR

fun token_int :: "Token \<Rightarrow> nat" where
  "token_int ILLEGAL = 0" | "token_int LITERAL = 1" | "token_int EOF = 2" | "token_int COMMENT = 3"
| "token_int literalBeg = 4" | "token_int IDENT = 5" | "token_int NUMBER = 6" | "token_int FLOAT = 7"
| "token_int STRING = 8" | "token_int literalEnd = 9" | "token_int keywordBeg = 10" | "token_int BOOL = 11"
| "token_int NULL = 12" | "token_int keywordEnd = 13" | "token_int operatorBeg = 14" | "token_int OR = 15"
| "token_int AND = 16" | "token_int NOT = 17" | "token_int ASSIGN = 18" | "token_int EQ = 19"
| "token_int NEQ = 20" | "token_int LT = 21" | "token_int LTE = 22" | "token_int GT = 23" | "token_int GTE = 24"
| "token_int ADD = 25" | "token_int SUB = 26" | "token_int MUL = 27" | "token_int DIV = 28"
| "token_int MOD = 29" | "token_int POW = 30" | "token_int LCURLY = 31" | "token_int RCURLY = 32"
| "token_int LPAREN = 33" | "token_int RPAREN = 34" | "token_int LBRACK = 35" | "token_int RBRACK = 36"
| "token_int COMMA = 37" | "token_int DOT = 38" | "token_int operatorEnd = 39" | "token_int TERMINATOR = 40"

text \<open>The tokens in the order of their integers.\<close>

definition all_tokens :: "Token list" where
  "all_tokens = [ILLEGAL, LITERAL, EOF, COMMENT, literalBeg, IDENT, NUMBER, FLOAT, STRING, literalEnd,
     keywordBeg, BOOL, NULL, keywordEnd, operatorBeg, OR, AND, NOT, ASSIGN, EQ, NEQ, LT, LTE, GT, GTE,
     ADD, SUB, MUL, DIV, MOD, POW, LCURLY, RCURLY, LPAREN, RPAREN, LBRACK, RBRACK, COMMA, DOT,
     operatorEnd, TERMINATOR]"

lemma all_tokens_nth: "all_tokens ! token_int t = t"
  by (cases t) (simp_all add: all_tokens_def)

lemma token_int_inject: "token_int t = token_int u \<longleftrightarrow> t = u"
  by (metis all_tokens_nth)

instantiation Token :: linorder
begin

definition less_eq_Token :: "Token \<Rightarrow> Token \<Rightarrow> bool" where
  "less_eq_Token t u \<longleftrightarrow> token_int t \<le> token_int u"

definition less_Token :: "Token \<Rightarrow> Token \<Rightarrow> bool" where
  "less_Token t u \<longleftrightarrow> token_int t < token_int u"

instance
  by standard (auto simp: less_eq_Token_def less_Token_def token_int_inject)

end

section \<open>Names and classes\<close>

text \<open>The array of names; the markers have no entry and read as the empty string.\<close>

fun tokenNames :: "Token \<Rightarrow> string" where
  "tokenNames ILLEGAL = ''ILLEGAL''"
| "tokenNames LITERAL = ''LITERAL''"
| "tokenNames EOF = ''EOF''"
| "tokenNames COMMENT = ''COMMENT''"
| "tokenNames IDENT = ''IDENT''"
| "tokenNames NUMBER = ''NUMBER''"
| "tokenNames FLOAT = ''FLOAT''"
| "tokenNames STRING = ''STRING''"
| "tokenNames BOOL = ''BOOL''"
| "tokenNames NULL = ''NULL''"
| "tokenNames OR = ''||''"
| "tokenNames AND = ''&&''"
| "tokenNames NOT = ''!''"
| "tokenNames ASSIGN = ''=''"
| "tokenNames EQ = ''==''"
| "tokenNames NEQ = ''!=''"
| "tokenNames LT = ''<''"
| "tokenNames LTE = ''<=''"
| "tokenNames GT = ''>''"
| "tokenNames GTE = ''>=''"
| "tokenNames ADD = ''+''"
| "tokenNames SUB = ''-''"
| "tokenNames MUL = ''*''"
| "tokenNames DIV = ''/''"
| "tokenNames MOD = ''%''"
| "tokenNames POW = ''^''"
| "tokenNames LCURLY = ''{''"
| "tokenNames RCURLY = ''}''"
| "tokenNames LPAREN = ''(''"
| "tokenNames RPAREN = '')''"
| "tokenNames LBRACK = ''[''"
| "tokenNames RBRACK = '']''"
| "tokenNames COMMA = '',''"
| "tokenNames DOT = ''.''"
| "tokenNames TERMINATOR = ''TERMINATOR''"
| "tokenNames literalBeg = ''''"
| "tokenNames literalEnd = ''''"
| "tokenNames keywordBeg = ''''"
| "tokenNames keywordEnd = ''''"
| "tokenNames operatorBeg = ''''"
| "tokenNames operatorEnd = ''''"

definition Lookup :: "string \<Rightarrow> Token" where
  "Lookup ident = (if ident = ''true'' \<or> ident = ''false'' then BOOL
                   else if ident = ''null'' then NULL
                   else IDENT)"

text \<open>\<open>String\<close> and \<open>GoString\<close>; the range check of the Go code cannot fail for a declared token.\<close>

definition Token_String :: "Token \<Rightarrow> string" where
  "Token_String t = (if token_int t \<ge> length all_tokens then ''ILLEGAL''
     else let name = tokenNames t in if name = '''' then ''ILLEGAL'' else name)"

definition Token_GoString :: "Token \<Rightarrow> string" where
  "Token_GoString t = Token_String t"

definition IsKeyword :: "Token \<Rightarrow> bool" where
  "IsKeyword t \<longleftrightarrow> t > keywordBeg \<and> t < keywordEnd"

definition IsLiteral :: "Token \<Rightarrow> bool" where
  "IsLiteral t \<longleftrightarrow> t > literalBeg \<and> t < literalEnd"

definition IsOperator :: "Token \<Rightarrow> bool" where
  "IsOperator t \<longleftrightarrow> t > operatorBeg \<and> t < operatorEnd"

definition LowestPrecedence :: int where "LowestPrecedence = 0"
definition UnaryPrecedence :: int where "UnaryPrecedence = 7"
definition HighestPrecedence :: int where "HighestPrecedence = 8"

definition BinaryPrecedence :: "Token \<Rightarrow> int" where
  "BinaryPrecedence t =
     (case t of
        OR \<Rightarrow> 1
      | AND \<Rightarrow> 2
      | EQ \<Rightarrow> 3 | NEQ \<Rightarrow> 3 | LT \<Rightarrow> 3 | LTE \<Rightarrow> 3 | GT \<Rightarrow> 3 | GTE \<Rightarrow> 3
      | ADD \<Rightarrow> 4 | SUB \<Rightarrow> 4
      | MUL \<Rightarrow> 5 | DIV \<Rightarrow> 5 | MOD \<Rightarrow> 5
      | POW \<Rightarrow> 6
      | _ \<Rightarrow> LowestPrecedence)"

section \<open>Properties\<close>

lemma IsOperator_iff: "IsOperator t \<longleftrightarrow> 14 < token_int t \<and> token_int t < 39"
  by (simp add: IsOperator_def less_Token_def)

lemma IsKeyword_iff: "IsKeyword t \<longleftrightarrow> t = BOOL \<or> t = NULL"
  by (cases t) (simp_all add: IsKeyword_def less_Token_def)

lemma IsLiteral_iff: "IsLiteral t \<longleftrightarrow> t = IDENT \<or> t = NUMBER \<or> t = FLOAT \<or> t = STRING"
  by (cases t) (simp_all add: IsLiteral_def less_Token_def)

text \<open>The token a printed operator stands for.\<close>

definition operator_tokens :: "Token list" where
  "operator_tokens = filter IsOperator all_tokens"

lemma operator_tokens_eq: "operator_tokens =
  [OR, AND, NOT, ASSIGN, EQ, NEQ, LT, LTE, GT, GTE, ADD, SUB, MUL, DIV, MOD, POW,
   LCURLY, RCURLY, LPAREN, RPAREN, LBRACK, RBRACK, COMMA, DOT]"
  by (simp add: operator_tokens_def all_tokens_def IsOperator_iff)

lemma all_tokens_complete: "t \<in> set all_tokens"
  by (cases t) (simp_all add: all_tokens_def)

lemma distinct_operator_names: "distinct (map tokenNames operator_tokens)"
  by (simp add: operator_tokens_eq)

lemma operator_names_inj: "IsOperator t \<Longrightarrow> IsOperator u \<Longrightarrow> tokenNames t = tokenNames u \<Longrightarrow> t = u"
  using distinct_operator_names all_tokens_complete
  by (simp add: distinct_map operator_tokens_def inj_on_def)

lemma Token_String_operator: "IsOperator t \<Longrightarrow> Token_String t = tokenNames t \<and> length (tokenNames t) \<le> 2"
  by (cases t) (simp_all add: IsOperator_iff Token_String_def all_tokens_def)

text \<open>
  No two operator tokens print the same text, every operator is at most two characters long,
  and the binary operators, and only operators, have a precedence above the lowest one, which
  always stays below the precedence of unary operators.
\<close>

theorem operator_table_correct:
  "(IsOperator t \<and> IsOperator u \<longrightarrow> Token_String t = Token_String u \<longrightarrow> t = u) \<and>
   (IsOperator t \<longrightarrow> length (Token_String t) \<le> 2) \<and>
   (BinaryPrecedence t > LowestPrecedence \<longrightarrow> IsOperator t) \<and>
   LowestPrecedence \<le> BinaryPrecedence t \<and> BinaryPrecedence t < UnaryPrecedence"
proof (intro conjI impI)
  show "t = u" if "IsOperator t \<and> IsOperator u" "Token_String t = Token_String u"
    using that operator_names_inj Token_String_operator by simp
  show "length (Token_String t) \<le> 2" if "IsOperator t"
    using Token_String_operator [OF that] by simp
  show "IsOperator t" if "BinaryPrecedence t > LowestPrecedence"
    using that by (cases t) (simp_all add: BinaryPrecedence_def IsOperator_iff)
  show "LowestPrecedence \<le> BinaryPrecedence t" "BinaryPrecedence t < UnaryPrecedence"
    by (cases t; simp add: BinaryPrecedence_def LowestPrecedence_def UnaryPrecedence_def)+
qed

theorem operator_table_correct_witness:
  "IsOperator LTE \<and> length (Token_String LTE) \<le> 2 \<and> BinaryPrecedence LTE > LowestPrecedence \<and>
   BinaryPrecedence LTE < UnaryPrecedence"
  using operator_table_correct [of LTE LTE]
  by (simp add: IsOperator_iff BinaryPrecedence_def LowestPrecedence_def UnaryPrecedence_def)

end
