(* ===== verification/Token_File.thy ===== *)
theory Token_File
  imports Prelude
begin

text \<open>
  Positions and line tables, \<^verbatim>\<open>syntax/token/file.go\<close>. A \<open>*File\<close> is the address of a file
  in a heap of files, so that a position keeps naming a file whose line table grows. A nil
  pointer is \<open>None\<close>; using it where the Go code would dereference it is the error \<open>NilFile\<close>.
\<close>

section \<open>Decimal numbers\<close>

text \<open>\<open>strconv.Itoa\<close> and the \<open>%d\<close> verb.\<close>

fun nat_digits :: "nat \<Rightarrow> string" where
  "nat_digits n = (if n < 10 then [char_of (48 + n)]
     else nat_digits (n div 10) @ [char_of (48 + n mod 10)])"

declare nat_digits.simps [simp del]

definition Itoa :: "int \<Rightarrow> string" where
  "Itoa i = (if i < 0 then CHR ''-'' # nat_digits (nat (- i)) else nat_digits (nat i))"

section \<open>Binary search\<close>

text \<open>
  \<open>sort.Search\<close>: the smallest index in \<open>[i, j)\<close> whose predicate holds, when the predicate is
  false and then true along the range; \<open>j\<close> when it is false everywhere.
\<close>

function Search :: "nat \<Rightarrow> nat \<Rightarrow> (nat \<Rightarrow> bool) \<Rightarrow> nat" where
  "Search i j f = (if i < j then let h = (i + j) div 2 in
       if \<not> f h then Search (h + 1) j f else Search i h f
     else i)"
  by pat_completeness auto
termination by (relation "measure (\<lambda>(i, j, f). j - i)") auto

declare Search.simps [simp del]

section \<open>Files and positions\<close>

record File =
  filename :: string
  lines :: "int list"

record Pos =
  pos_file :: "nat option"
  off :: int

record Position =
  Filename :: string
  Offset :: int
  Line :: int
  Column :: int

type_synonym files = "nat \<rightharpoonup> File"

datatype pos_panic = IllegalOffset | NilFile

definition NoPos :: Pos where
  "NoPos = \<lparr>pos_file = None, off = 0\<rparr>"

definition Pos_String :: "Pos \<Rightarrow> string" where
  "Pos_String p = Itoa (off p)"

definition Pos_File :: "Pos \<Rightarrow> nat option" where
  "Pos_File p = pos_file p"

definition Pos_Add :: "Pos \<Rightarrow> int \<Rightarrow> Pos" where
  "Pos_Add p n = \<lparr>pos_file = pos_file p, off = off p + n\<rparr>"

definition Pos_Offset :: "Pos \<Rightarrow> int" where
  "Pos_Offset p = off p"

definition Pos_Valid :: "Pos \<Rightarrow> bool" where
  "Pos_Valid p \<longleftrightarrow> p \<noteq> NoPos"

definition Position_Valid :: "Position \<Rightarrow> bool" where
  "Position_Valid pos \<longleftrightarrow> Line pos > 0"

definition Position_String :: "Position \<Rightarrow> string" where
  "Position_String pos =
     (let s = Filename pos;
          s = (if Position_Valid pos then
                 (let s = (if s \<noteq> [] then s @ '':'' else s);
                      s = s @ Itoa (Line pos)
                  in if Column pos \<noteq> 0 then s @ '':'' @ Itoa (Column pos) else s)
               else s)
      in if s = [] then ''-'' else s)"

definition NewFile :: "string \<Rightarrow> File" where
  "NewFile name = \<lparr>filename = name, lines = [0]\<rparr>"

text \<open>The position at an offset of the file with address \<open>f\<close>.\<close>

definition File_Pos :: "nat \<Rightarrow> int \<Rightarrow> pos_panic + Pos" where
  "File_Pos f n = (if n < 0 then Inl IllegalOffset else Inr \<lparr>pos_file = Some f, off = n\<rparr>)"

definition File_Name :: "File \<Rightarrow> string" where
  "File_Name f = filename f"

definition AddLine :: "int \<Rightarrow> File \<Rightarrow> File" where
  "AddLine offset f =
     (let n = length (lines f) in
      if lines f ! (n - 1) < offset then f\<lparr>lines := lines f @ [offset]\<rparr> else f)"

definition searchInts :: "int list \<Rightarrow> int \<Rightarrow> int" where
  "searchInts a x = int (Search 0 (length a) (\<lambda>i. a ! i > x)) - 1"

definition PositionFor :: "files \<Rightarrow> nat option \<Rightarrow> Pos \<Rightarrow> pos_panic + Position" where
  "PositionFor h f p =
     (if p = NoPos then Inr \<lparr>Filename = [], Offset = 0, Line = 0, Column = 0\<rparr>
      else case f of
          None \<Rightarrow> Inl NilFile
        | Some a \<Rightarrow> (case h a of
            None \<Rightarrow> Inl NilFile
          | Some fl \<Rightarrow>
              (let i = searchInts (lines fl) (off p);
                   (line, column) = (if i \<ge> 0 then (i + 1, off p - lines fl ! nat i + 1) else (0, 0))
               in Inr \<lparr>Filename = filename fl, Offset = off p, Line = line, Column = column\<rparr>)))"

definition Pos_Position :: "files \<Rightarrow> Pos \<Rightarrow> pos_panic + Position" where
  "Pos_Position h p = PositionFor h (pos_file p) p"

section \<open>Line tables\<close>

text \<open>A line table starts with offset 0 and increases strictly.\<close>

definition lines_wf :: "int list \<Rightarrow> bool" where
  "lines_wf ls \<longleftrightarrow> ls \<noteq> [] \<and> ls ! 0 = 0 \<and> sorted_wrt (<) ls"

lemma lines_wf_NewFile [simp]: "lines_wf (lines (NewFile name))"
  by (simp add: lines_wf_def NewFile_def)

lemma lines_AddLine:
  "lines f \<noteq> [] \<Longrightarrow> lines (AddLine n f) = (if last (lines f) < n then lines f @ [n] else lines f)"
  by (simp add: AddLine_def Let_def last_conv_nth)

lemma lines_wf_AddLine: "lines_wf (lines f) \<Longrightarrow> lines_wf (lines (AddLine n f))"
proof -
  assume wf: "lines_wf (lines f)"
  then have ne: "lines f \<noteq> []" by (simp add: lines_wf_def)
  have "sorted_wrt (<) (butlast (lines f) @ [last (lines f)])" using wf ne by (simp add: lines_wf_def)
  then have "x \<le> last (lines f)" if "x \<in> set (lines f)" for x
    using that set_butlast_last [OF ne] unfolding sorted_wrt_append by auto
  then have "x < n" if "last (lines f) < n" "x \<in> set (lines f)" for x
    using that by fastforce
  with wf ne show ?thesis by (auto simp: lines_AddLine lines_wf_def sorted_wrt_append nth_append)
qed

lemma Search_correct:
  assumes "i \<le> j" "\<And>a b. a \<le> b \<Longrightarrow> b < j \<Longrightarrow> f a \<Longrightarrow> f b"
  shows "i \<le> Search i j f \<and> Search i j f \<le> j \<and>
    (\<forall>k. i \<le> k \<and> k < Search i j f \<longrightarrow> \<not> f k) \<and> (\<forall>k. Search i j f \<le> k \<and> k < j \<longrightarrow> f k)"
  using assms
proof (induction i j f rule: Search.induct)
  case (1 i j f)
  show ?case
  proof (cases "i < j")
    case True
    define h where "h = (i + j) div 2"
    have h: "i \<le> h" "h < j" using True by (auto simp: h_def)
    show ?thesis
    proof (cases "f h")
      case f: True
      have eq: "Search i j f = Search i h f"
        by (subst Search.simps) (simp add: True h_def [symmetric] Let_def f)
      have "f b" if "a \<le> b" "b < h" "f a" for a b using that 1(4) h by (meson less_trans)
      from 1(2) [OF True h_def _ _ this] f h(1) have
        IH: "i \<le> Search i h f" "Search i h f \<le> h" "\<forall>k. i \<le> k \<and> k < Search i h f \<longrightarrow> \<not> f k"
          "\<forall>k. Search i h f \<le> k \<and> k < h \<longrightarrow> f k"
        by simp_all
      have "f k" if "Search i h f \<le> k" "k < j" for k
        using that IH(4) f 1(4) [of h k] by (cases "k < h") auto
      with IH h show ?thesis by (simp add: eq)
    next
      case f: False
      have eq: "Search i j f = Search (h + 1) j f"
        by (subst Search.simps) (simp add: True h_def [symmetric] Let_def f)
      from 1(1) [OF True h_def f _ 1(4)] h(2) have
        IH: "h + 1 \<le> Search (h + 1) j f" "Search (h + 1) j f \<le> j"
          "\<forall>k. h + 1 \<le> k \<and> k < Search (h + 1) j f \<longrightarrow> \<not> f k" "\<forall>k. Search (h + 1) j f \<le> k \<and> k < j \<longrightarrow> f k"
        by simp_all
      have "\<not> f k" if "i \<le> k" "k < Search (h + 1) j f" for k
        using that IH(3) f 1(4) [of k h] h(2) by (cases "k \<le> h") auto
      with IH h show ?thesis by (simp add: eq)
    qed
  next
    case False
    then have "Search i j f = i" by (subst Search.simps) simp
    with False 1(3) show ?thesis by auto
  qed
qed

text \<open>The binary search finds the last line that starts at or before an offset.\<close>

lemma searchInts_correct:
  assumes "lines_wf ls" "0 \<le> x"
  shows "\<exists>i < length ls. searchInts ls x = int i \<and> ls ! i \<le> x \<and> (i + 1 < length ls \<longrightarrow> x < ls ! (i + 1))"
proof -
  have ls: "ls \<noteq> []" "ls ! 0 = 0" "sorted_wrt (<) ls" using assms(1) by (simp_all add: lines_wf_def)
  let ?s = "Search 0 (length ls) (\<lambda>i. ls ! i > x)"
  have mono: "ls ! b > x" if "a \<le> b" "b < length ls" "ls ! a > x" for a b
    using sorted_wrt_nth_less [OF ls(3), of a b] that by (cases "a = b") auto
  have "0 \<le> ?s \<and> ?s \<le> length ls \<and> (\<forall>k. 0 \<le> k \<and> k < ?s \<longrightarrow> \<not> x < ls ! k) \<and>
      (\<forall>k. ?s \<le> k \<and> k < length ls \<longrightarrow> x < ls ! k)"
    by (rule Search_correct) (use mono in blast)+
  then have s: "?s \<le> length ls" "\<And>k. k < ?s \<Longrightarrow> \<not> x < ls ! k" "\<And>k. ?s \<le> k \<Longrightarrow> k < length ls \<Longrightarrow> x < ls ! k"
    by blast+
  have "?s \<noteq> 0" using s(3) [of 0] ls(1,2) assms(2) by auto
  then obtain i where i: "?s = Suc i" by (cases ?s) auto
  have "i < length ls" using s(1) unfolding i by simp
  moreover have "ls ! i \<le> x" using s(2) [of i] unfolding i by simp
  moreover have "i + 1 < length ls \<longrightarrow> x < ls ! (i + 1)" using s(3) [of "i + 1"] unfolding i by simp
  ultimately show ?thesis by (auto simp: searchInts_def i)
qed

text \<open>
  For every offset of a file with a well-formed line table, the position of the offset is
  valid: its line is the last one that starts at or before the offset and its column is the
  1-based distance from the start of that line.
\<close>

theorem PositionFor_correct:
  assumes "h a = Some f" and "lines_wf (lines f)" and "File_Pos a n = Inr p"
  shows "\<exists>i < length (lines f). Pos_Position h p =
      Inr \<lparr>Filename = filename f, Offset = n, Line = int i + 1, Column = n - lines f ! i + 1\<rparr> \<and>
    lines f ! i \<le> n \<and> (i + 1 < length (lines f) \<longrightarrow> n < lines f ! (i + 1))"
proof -
  from assms(3) have n: "0 \<le> n" "p = \<lparr>pos_file = Some a, off = n\<rparr>"
    by (auto simp: File_Pos_def split: if_splits)
  from searchInts_correct [OF assms(2) n(1)] obtain i where
    "i < length (lines f)" "searchInts (lines f) n = int i" "lines f ! i \<le> n"
    "i + 1 < length (lines f) \<longrightarrow> n < lines f ! (i + 1)" by blast
  with n assms(1) show ?thesis
    by (intro exI [of _ i]) (simp add: Pos_Position_def PositionFor_def NoPos_def)
qed

theorem PositionFor_correct_witness:
  "Pos_Position [0 \<mapsto> AddLine 7 (AddLine 4 (NewFile ''a.alloy''))] \<lparr>pos_file = Some 0, off = 5\<rparr> =
     Inr \<lparr>Filename = ''a.alloy'', Offset = 5, Line = 2, Column = 2\<rparr>"
proof -
  let ?f = "AddLine 7 (AddLine 4 (NewFile ''a.alloy''))"
  have f: "lines ?f = [0, 4, 7]" "filename ?f = ''a.alloy''"
    by (simp_all add: AddLine_def NewFile_def)
  have wf: "lines_wf (lines ?f)" by (intro lines_wf_AddLine) simp
  have pos: "File_Pos 0 5 = Inr \<lparr>pos_file = Some 0, off = 5\<rparr>" by (simp add: File_Pos_def)
  obtain i where i: "i < 3" "Pos_Position [0 \<mapsto> ?f] \<lparr>pos_file = Some 0, off = 5\<rparr> =
      Inr \<lparr>Filename = ''a.alloy'', Offset = 5, Line = int i + 1, Column = 5 - [0, 4, 7] ! i + 1\<rparr>"
    "[0, 4, 7] ! i \<le> (5::int)" "i + 1 < 3 \<longrightarrow> (5::int) < [0, 4, 7] ! (i + 1)"
    using PositionFor_correct [of "[0 \<mapsto> ?f]" 0 ?f, OF _ wf pos] by (auto simp: f)
  from i(1,3,4) have "i = 1" by (auto simp: less_Suc_eq numeral_eq_Suc)
  with i(2) show ?thesis by simp
qed

end
