(* ===== verification/Utf8.thy ===== *)
theory Utf8
  imports Prelude
begin

text \<open>
  Bytes, runes and UTF-8, as the Go language and its standard library define them: decoding the
  first rune of a byte slice (\<open>utf8.DecodeRune\<close>), the conversion of a rune to a string, and
  ranging over a string. Bytes are values of type \<open>char\<close>, runes are integers, and an
  undecodable byte reads as \<open>RuneError\<close> of width 1.
\<close>

section \<open>Decoding and encoding\<close>

definition byte :: "char \<Rightarrow> int" where
  "byte c = of_char c"

definition RuneError :: int where "RuneError = 0xFFFD"
definition RuneSelf :: int where "RuneSelf = 0x80"
definition MaxRune :: int where "MaxRune = 0x10FFFF"

definition cont_byte :: "int \<Rightarrow> bool" where
  "cont_byte b \<longleftrightarrow> 0x80 \<le> b \<and> b \<le> 0xBF"

text \<open>The accepted range of the second byte depends on the first one.\<close>

definition accept_lo :: "int \<Rightarrow> int" where
  "accept_lo p0 = (if p0 = 0xE0 then 0xA0 else if p0 = 0xF0 then 0x90 else 0x80)"

definition accept_hi :: "int \<Rightarrow> int" where
  "accept_hi p0 = (if p0 = 0xED then 0x9F else if p0 = 0xF4 then 0x8F else 0xBF)"

definition rune_size :: "int \<Rightarrow> nat" where
  "rune_size p0 = (if p0 < 0x80 then 1
     else if p0 < 0xC2 then 0
     else if p0 < 0xE0 then 2
     else if p0 < 0xF0 then 3
     else if p0 < 0xF5 then 4
     else 0)"

definition DecodeRune :: "string \<Rightarrow> int \<times> nat" where
  "DecodeRune p =
     (if p = [] then (RuneError, 0)
      else let p0 = byte (p ! 0); sz = rune_size p0 in
        if sz = 1 then (p0, 1)
        else if sz = 0 \<or> length p < sz then (RuneError, 1)
        else let b1 = byte (p ! 1) in
          if b1 < accept_lo p0 \<or> accept_hi p0 < b1 then (RuneError, 1)
          else if sz = 2 then ((p0 - 0xC0) * 64 + (b1 - 0x80), 2)
          else let b2 = byte (p ! 2) in
            if \<not> cont_byte b2 then (RuneError, 1)
            else if sz = 3 then ((p0 - 0xE0) * 4096 + (b1 - 0x80) * 64 + (b2 - 0x80), 3)
            else let b3 = byte (p ! 3) in
              if \<not> cont_byte b3 then (RuneError, 1)
              else ((p0 - 0xF0) * 262144 + (b1 - 0x80) * 4096 + (b2 - 0x80) * 64 + (b3 - 0x80), 4))"

definition valid_rune :: "int \<Rightarrow> bool" where
  "valid_rune r \<longleftrightarrow> 0 \<le> r \<and> r \<le> MaxRune \<and> \<not> (0xD800 \<le> r \<and> r < 0xE000)"

definition rune_bytes :: "int \<Rightarrow> string" where
  "rune_bytes r =
     (if r < 0x80 then [char_of r]
      else if r < 0x800 then [char_of (0xC0 + r div 64), char_of (0x80 + r mod 64)]
      else if r < 0x10000 then
        [char_of (0xE0 + r div 4096), char_of (0x80 + r div 64 mod 64), char_of (0x80 + r mod 64)]
      else [char_of (0xF0 + r div 262144), char_of (0x80 + r div 4096 mod 64),
            char_of (0x80 + r div 64 mod 64), char_of (0x80 + r mod 64)])"

text \<open>The conversion \<open>string(r)\<close>; an invalid rune becomes \<open>RuneError\<close>.\<close>

definition string_of_rune :: "int \<Rightarrow> string" where
  "string_of_rune r = rune_bytes (if valid_rune r then r else RuneError)"

lemma byte_mod: "byte c mod 256 = byte c"
  unfolding byte_def by (metis char_of_char of_char_of)

lemma byte_range: "0 \<le> byte c" "byte c < 256"
  using byte_mod [of c] by (metis pos_mod_sign zero_less_numeral, metis pos_mod_bound zero_less_numeral)

lemma byte_char_of [simp]: "0 \<le> n \<Longrightarrow> n < 256 \<Longrightarrow> byte (char_of n) = n"
  by (simp add: byte_def)

lemma char_of_byte [simp]: "char_of (byte c) = c"
  by (simp add: byte_def)

lemma byte_inject [simp]: "byte c = byte d \<longleftrightarrow> c = d"
  by (metis char_of_byte)

lemma DecodeRune_width:
  "p \<noteq> [] \<Longrightarrow> 1 \<le> snd (DecodeRune p) \<and> snd (DecodeRune p) \<le> length p"
  by (cases p) (auto simp: DecodeRune_def Let_def Suc_le_eq)

text \<open>The runes that a \<open>range\<close> over a string yields.\<close>

function string_runes :: "string \<Rightarrow> int list" where
  "string_runes p = (if p = [] then []
     else fst (DecodeRune p) # string_runes (drop (snd (DecodeRune p)) p))"
  by pat_completeness auto
termination
proof (relation "measure length", goal_cases)
  case (2 p)
  then show ?case using DecodeRune_width [of p] by (cases p) auto
qed simp

declare string_runes.simps [simp del]

section \<open>Round trips\<close>

lemma DecodeRune_ascii: "byte c < 0x80 \<Longrightarrow> DecodeRune (c # p) = (byte c, 1)"
  by (simp add: DecodeRune_def rune_size_def)

lemma rune_bytes_ascii: "byte c < 0x80 \<Longrightarrow> rune_bytes (byte c) = [c]"
  by (simp add: rune_bytes_def)

lemma rune_bytes_ne [simp]: "rune_bytes r \<noteq> []"
  by (simp add: rune_bytes_def)

lemma DecodeRune_2:
  "0xC2 \<le> byte a \<Longrightarrow> byte a < 0xE0 \<Longrightarrow> cont_byte (byte b) \<Longrightarrow>
    DecodeRune (a # b # p) = ((byte a - 0xC0) * 64 + (byte b - 0x80), 2)"
  by (simp add: DecodeRune_def rune_size_def cont_byte_def accept_lo_def accept_hi_def Let_def)

lemma DecodeRune_3:
  "0xE0 \<le> byte a \<Longrightarrow> byte a < 0xF0 \<Longrightarrow> accept_lo (byte a) \<le> byte b \<Longrightarrow> byte b \<le> accept_hi (byte a) \<Longrightarrow>
    cont_byte (byte c) \<Longrightarrow>
    DecodeRune (a # b # c # p) = ((byte a - 0xE0) * 4096 + (byte b - 0x80) * 64 + (byte c - 0x80), 3)"
  by (simp add: DecodeRune_def rune_size_def Let_def)

lemma DecodeRune_4:
  "0xF0 \<le> byte a \<Longrightarrow> byte a < 0xF5 \<Longrightarrow> accept_lo (byte a) \<le> byte b \<Longrightarrow> byte b \<le> accept_hi (byte a) \<Longrightarrow>
    cont_byte (byte c) \<Longrightarrow> cont_byte (byte d) \<Longrightarrow>
    DecodeRune (a # b # c # d # p) =
      ((byte a - 0xF0) * 262144 + (byte b - 0x80) * 4096 + (byte c - 0x80) * 64 + (byte d - 0x80), 4)"
  by (simp add: DecodeRune_def rune_size_def Let_def)

lemma DecodeRune_chars_2:
  assumes "2 \<le> x" "x < 32" "0 \<le> y" "y < 64"
  shows "DecodeRune (char_of (0xC0 + x) # char_of (0x80 + y) # p) = (x * 64 + y, 2)"
  using assms DecodeRune_2 [of "char_of (0xC0 + x)" "char_of (0x80 + y)" p] by (simp add: cont_byte_def)

lemma DecodeRune_chars_3:
  assumes xyz: "0 \<le> x" "x < 16" "0 \<le> y" "y < 64" "0 \<le> z" "z < 64"
    and r: "r = x * 4096 + y * 64 + z" "0x800 \<le> r" "\<not> (0xD800 \<le> r \<and> r < 0xE000)"
  shows "DecodeRune (char_of (0xE0 + x) # char_of (0x80 + y) # char_of (0x80 + z) # p) = (r, 3)"
proof -
  have "x = 0 \<Longrightarrow> 32 \<le> y" "x = 13 \<Longrightarrow> y < 32" using xyz r by auto
  with xyz have "accept_lo (0xE0 + x) \<le> 0x80 + y" "0x80 + y \<le> accept_hi (0xE0 + x)"
    by (auto simp: accept_lo_def accept_hi_def)
  then show ?thesis
    using xyz DecodeRune_3 [of "char_of (0xE0 + x)" "char_of (0x80 + y)" "char_of (0x80 + z)" p]
    by (simp add: cont_byte_def r(1))
qed

lemma DecodeRune_chars_4:
  assumes wxyz: "0 \<le> w" "w < 5" "0 \<le> x" "x < 64" "0 \<le> y" "y < 64" "0 \<le> z" "z < 64"
    and r: "r = w * 262144 + x * 4096 + y * 64 + z" "0x10000 \<le> r" "r \<le> 0x10FFFF"
  shows "DecodeRune (char_of (0xF0 + w) # char_of (0x80 + x) # char_of (0x80 + y) # char_of (0x80 + z) # p) = (r, 4)"
proof -
  have "w = 0 \<Longrightarrow> 16 \<le> x" "w = 4 \<Longrightarrow> x < 16" using wxyz r by auto
  with wxyz have "accept_lo (0xF0 + w) \<le> 0x80 + x" "0x80 + x \<le> accept_hi (0xF0 + w)"
    by (auto simp: accept_lo_def accept_hi_def)
  then show ?thesis
    using wxyz DecodeRune_4 [of "char_of (0xF0 + w)" "char_of (0x80 + x)" "char_of (0x80 + y)" "char_of (0x80 + z)" p]
    by (simp add: cont_byte_def r(1))
qed

lemma digit_split:
  fixes x y :: int
  assumes "0 \<le> y" "y < k"
  shows "(x * k + y) div k = x" "(x * k + y) mod k = y"
  using assms by (simp_all add: div_add1_eq)

lemma base64_join:
  fixes x y z w :: int
  assumes "0 \<le> y" "y < 64" "0 \<le> z" "z < 64"
  shows "(x * 4096 + y * 64 + z) div 4096 = x" "(x * 4096 + y * 64 + z) div 64 mod 64 = y"
    "(x * 4096 + y * 64 + z) mod 64 = z" "(x * 4096 + y * 64 + z) div 64 = x * 64 + y"
proof -
  have e: "x * 4096 + y * 64 + z = (x * 64 + y) * 64 + z" by simp
  have "(x * 4096 + y * 64 + z) div 4096 = ((x * 64 + y) * 64 + z) div 64 div 64"
    unfolding e by (simp add: zdiv_zmult2_eq [symmetric])
  then show "(x * 4096 + y * 64 + z) div 4096 = x"
    unfolding digit_split(1) [OF assms(3,4)] digit_split(1) [OF assms(1,2)] .
  show "(x * 4096 + y * 64 + z) div 64 mod 64 = y" "(x * 4096 + y * 64 + z) mod 64 = z"
    "(x * 4096 + y * 64 + z) div 64 = x * 64 + y"
    unfolding e digit_split [OF assms(3,4)] digit_split [OF assms(1,2)] by simp_all
qed

lemma base64_digits:
  fixes r :: int
  shows "r div 4096 * 4096 + r div 64 mod 64 * 64 + r mod 64 = r"
    "r div 262144 * 262144 + r div 4096 mod 64 * 4096 + r div 64 mod 64 * 64 + r mod 64 = r"
proof -
  define q where "q = r div 64"
  define p where "p = q div 64"
  have eqs: "r div 4096 = p" "r div 262144 = p div 64" "r div 64 = q"
    by (simp_all add: q_def p_def zdiv_zmult2_eq [symmetric])
  have r: "q * 64 + r mod 64 = r" and q: "p * 64 + q mod 64 = q" and p: "p div 64 * 64 + p mod 64 = p"
    unfolding q_def p_def by (rule div_mult_mod_eq)+
  show "r div 4096 * 4096 + r div 64 mod 64 * 64 + r mod 64 = r"
    unfolding eqs using r q by linarith
  show "r div 262144 * 262144 + r div 4096 mod 64 * 4096 + r div 64 mod 64 * 64 + r mod 64 = r"
    unfolding eqs using r q p by linarith
qed

text \<open>Decoding reads back the bytes of every valid rune, whatever follows them.\<close>

lemma DecodeRune_rune_bytes:
  assumes "valid_rune r"
  shows "DecodeRune (rune_bytes r @ p) = (r, length (rune_bytes r))"
proof -
  from assms have r: "0 \<le> r" "r \<le> 0x10FFFF" "\<not> (0xD800 \<le> r \<and> r < 0xE000)"
    by (simp_all add: valid_rune_def MaxRune_def)
  define x2 x3 x4 where x: "x2 = r div 64" "x3 = r div 4096" "x4 = r div 262144"
  define y3 y4 z where y: "y3 = r div 64 mod 64" "y4 = r div 4096 mod 64" "z = r mod 64"
  have yz: "0 \<le> y3" "y3 < 64" "0 \<le> y4" "y4 < 64" "0 \<le> z" "z < 64" by (simp_all add: y)
  have r2: "r = x2 * 64 + z" unfolding x y by (rule div_mult_mod_eq [symmetric])
  have r3: "r = x3 * 4096 + y3 * 64 + z" and r4: "r = x4 * 262144 + y4 * 4096 + y3 * 64 + z"
    unfolding x y by (rule base64_digits [symmetric])+
  have x0: "0 \<le> x2" "0 \<le> x3" "0 \<le> x4" using r(1) by (simp_all add: x)
  have bytes: "rune_bytes r =
     (if r < 0x80 then [char_of r]
      else if r < 0x800 then [char_of (0xC0 + x2), char_of (0x80 + z)]
      else if r < 0x10000 then [char_of (0xE0 + x3), char_of (0x80 + y3), char_of (0x80 + z)]
      else [char_of (0xF0 + x4), char_of (0x80 + y4), char_of (0x80 + y3), char_of (0x80 + z)])"
    unfolding x y by (rule rune_bytes_def)
  consider "r < 0x80" | "0x80 \<le> r" "r < 0x800" | "0x800 \<le> r" "r < 0x10000" | "0x10000 \<le> r"
    by linarith
  then show ?thesis
  proof cases
    case 1
    with r show ?thesis by (simp add: rune_bytes_def DecodeRune_ascii)
  next
    case 2
    then have "2 \<le> x2" "x2 < 32" using r2 yz by linarith+
    with 2 show ?thesis using DecodeRune_chars_2 [of x2 z p] yz by (simp add: bytes r2 [symmetric])
  next
    case 3
    then have "x3 < 16" using r3 yz by linarith
    from DecodeRune_chars_3 [OF x0(2) this yz(1,2,5,6) r3 3(1) r(3), of p] 3
    show ?thesis by (simp add: bytes)
  next
    case 4
    then have "x4 < 5" using r4 yz r(2) by linarith
    from DecodeRune_chars_4 [OF x0(3) this yz(3,4,1,2,5,6) r4 4 r(2), of p] 4
    show ?thesis by (simp add: bytes)
  qed
qed

lemma rune_bytes_2:
  assumes "0xC2 \<le> byte a" "byte a < 0xE0" "cont_byte (byte b)"
    and r: "r = (byte a - 0xC0) * 64 + (byte b - 0x80)"
  shows "rune_bytes r = [a, b]" "valid_rune r" "0x80 \<le> r"
proof -
  define x y where xy: "x = byte a - 0xC0" "y = byte b - 0x80"
  have b: "2 \<le> x" "x < 32" "0 \<le> y" "y < 64" using assms(1-3) by (simp_all add: cont_byte_def xy)
  have r': "r = x * 64 + y" by (simp add: r xy)
  have bnd: "0x80 \<le> r" "r < 0x800" using b unfolding r' by linarith+
  have "r div 64 = x" "r mod 64 = y" unfolding r' by (rule digit_split [OF b(3,4)])+
  with bnd show "rune_bytes r = [a, b]" by (simp add: rune_bytes_def xy)
  show "valid_rune r" "0x80 \<le> r" using bnd by (simp_all add: valid_rune_def MaxRune_def)
qed

lemma rune_bytes_3:
  assumes "0xE0 \<le> byte a" "byte a < 0xF0" "accept_lo (byte a) \<le> byte b" "byte b \<le> accept_hi (byte a)"
    "cont_byte (byte c)"
    and r: "r = (byte a - 0xE0) * 4096 + (byte b - 0x80) * 64 + (byte c - 0x80)"
  shows "rune_bytes r = [a, b, c]" "valid_rune r" "0x80 \<le> r"
proof -
  define x y z where xyz: "x = byte a - 0xE0" "y = byte b - 0x80" "z = byte c - 0x80"
  have b: "0 \<le> x" "x < 16" "0 \<le> y" "y < 64" "x = 0 \<Longrightarrow> 32 \<le> y" "x = 13 \<Longrightarrow> y < 32" "0 \<le> z" "z < 64"
    using assms(1-5) by (auto simp: accept_lo_def accept_hi_def cont_byte_def xyz split: if_splits)
  have r': "r = x * 4096 + y * 64 + z" by (simp add: r xyz)
  have "2048 \<le> x * 4096 + y * 64" using b by (cases "x = 0") linarith+
  then have bnd: "0x800 \<le> r" "r < 0x10000" using b unfolding r' by linarith+
  have "\<not> (0xD800 \<le> r \<and> r < 0xE000)"
  proof
    assume *: "0xD800 \<le> r \<and> r < 0xE000"
    then have "x = 13" using b(1-4,7,8) unfolding r' by linarith
    with * b(6-8) show False unfolding r' by linarith
  qed
  with bnd show "valid_rune r" "0x80 \<le> r" by (simp_all add: valid_rune_def MaxRune_def)
  have "r div 4096 = x" "r div 64 mod 64 = y" "r mod 64 = z"
    unfolding r' by (rule base64_join [OF b(3,4,7,8)])+
  with bnd show "rune_bytes r = [a, b, c]" by (simp add: rune_bytes_def xyz)
qed

lemma rune_bytes_4:
  assumes "0xF0 \<le> byte a" "byte a < 0xF5" "accept_lo (byte a) \<le> byte b" "byte b \<le> accept_hi (byte a)"
    "cont_byte (byte c)" "cont_byte (byte d)"
    and r: "r = (byte a - 0xF0) * 262144 + (byte b - 0x80) * 4096 + (byte c - 0x80) * 64 + (byte d - 0x80)"
  shows "rune_bytes r = [a, b, c, d]" "valid_rune r" "0x80 \<le> r"
proof -
  define w x y z where wxyz: "w = byte a - 0xF0" "x = byte b - 0x80" "y = byte c - 0x80" "z = byte d - 0x80"
  have b: "0 \<le> w" "w < 5" "0 \<le> x" "x < 64" "w = 0 \<Longrightarrow> 16 \<le> x" "w = 4 \<Longrightarrow> x < 16" "0 \<le> y" "y < 64" "0 \<le> z" "z < 64"
    using assms(1-6) by (auto simp: accept_lo_def accept_hi_def cont_byte_def wxyz split: if_splits)
  have r': "r = (w * 4096 + x * 64 + y) * 64 + z" by (simp add: r wxyz)
  have "1024 \<le> w * 4096 + x * 64" using b by (cases "w = 0") linarith+
  moreover have "w * 4096 + x * 64 \<le> 17344" using b by (cases "w = 4") linarith+
  moreover have "r = 64 * w * 4096 + 64 * x * 64 + 64 * y + z" by (simp add: r')
  ultimately have bnd: "0x10000 \<le> r" "r \<le> 0x10FFFF" using b(7-10) by linarith+
  then show "valid_rune r" "0x80 \<le> r" by (simp_all add: valid_rune_def MaxRune_def)
  have q: "r div 64 = w * 4096 + x * 64 + y" "r mod 64 = z"
    unfolding r' by (rule digit_split [OF b(9,10)])+
  have dd: "r div 4096 = r div 64 div 64" "r div 262144 = r div 64 div 4096"
    by (simp_all add: zdiv_zmult2_eq [symmetric])
  have "r div 262144 = w" unfolding dd(2) q(1) by (rule base64_join(1) [OF b(3,4,7,8)])
  moreover have "r div 64 mod 64 = y"
    unfolding q(1) using base64_join(3) [OF b(3,4,7,8)] .
  moreover have "r div 4096 mod 64 = x"
    unfolding dd(1) q(1) by (rule base64_join(2) [OF b(3,4,7,8)])
  moreover have "\<not> r < 0x80" "\<not> r < 0x800" "\<not> r < 0x10000" using bnd(1) by linarith+
  ultimately have "rune_bytes r = [char_of (0xF0 + w), char_of (0x80 + x), char_of (0x80 + y), char_of (0x80 + z)]"
    unfolding rune_bytes_def using q(2) by presburger
  then show "rune_bytes r = [a, b, c, d]" by (simp add: wxyz)
qed

text \<open>A non-empty slice starts with an ASCII byte, an undecodable byte or a valid rune.\<close>

lemma DecodeRune_cases:
  assumes "p \<noteq> []"
  obtains (ascii) "byte (hd p) < 0x80" "DecodeRune p = (byte (hd p), 1)"
  | (bad) "0x80 \<le> byte (hd p)" "DecodeRune p = (RuneError, 1)"
  | (multi) r q where "0x80 \<le> byte (hd p)" "valid_rune r" "0x80 \<le> r" "p = rune_bytes r @ q"
      "DecodeRune p = (r, length (rune_bytes r))"
proof (cases "rune_size (byte (hd p)) = 1 \<or> DecodeRune p = (RuneError, 1)")
  case True
  have "rune_size (byte (hd p)) = 1 \<longleftrightarrow> byte (hd p) < 0x80"
    by (simp add: rune_size_def)
  with True that(1,2) DecodeRune_ascii [of "hd p" "tl p"] assms show thesis by force
next
  case False
  obtain a p1 where p: "p = a # p1" using assms by (cases p) auto
  have a: "0x80 \<le> byte a" using False by (cases "byte a < 0x80") (simp_all add: p rune_size_def)
  have "rune_size (byte a) \<in> {2, 3, 4}" "rune_size (byte a) \<le> length p"
    using False by (auto simp: p DecodeRune_def Let_def rune_size_def split: if_splits)
  then consider b q where "rune_size (byte a) = 2" "p = a # b # q"
    | b c q where "rune_size (byte a) = 3" "p = a # b # c # q"
    | b c d q where "rune_size (byte a) = 4" "p = a # b # c # d # q"
    by (auto simp: p Suc_le_length_iff numeral_eq_Suc)
  then show thesis
  proof cases
    case (1 b q)
    then have "0xC2 \<le> byte a" "byte a < 0xE0" by (auto simp: rune_size_def split: if_splits)
    moreover from this have "cont_byte (byte b)"
      using False 1 by (auto simp: DecodeRune_def Let_def cont_byte_def accept_lo_def accept_hi_def split: if_splits)
    ultimately show thesis
      using that(3) [of "(byte a - 0xC0) * 64 + (byte b - 0x80)" q] a 1 rune_bytes_2 [of a b, OF _ _ _ refl] DecodeRune_2 [of a b q]
      by simp
  next
    case (2 b c q)
    then have "0xE0 \<le> byte a" "byte a < 0xF0" by (auto simp: rune_size_def split: if_splits)
    moreover have "accept_lo (byte a) \<le> byte b" "byte b \<le> accept_hi (byte a)" "cont_byte (byte c)"
      using False 2 by (auto simp: DecodeRune_def Let_def split: if_splits)
    ultimately show thesis
      using that(3) [of "(byte a - 0xE0) * 4096 + (byte b - 0x80) * 64 + (byte c - 0x80)" q] a 2
        rune_bytes_3 [of a b c, OF _ _ _ _ _ refl] DecodeRune_3 [of a b c q]
      by simp
  next
    case (3 b c d q)
    then have "0xF0 \<le> byte a" "byte a < 0xF5" by (auto simp: rune_size_def split: if_splits)
    moreover have "accept_lo (byte a) \<le> byte b" "byte b \<le> accept_hi (byte a)" "cont_byte (byte c)" "cont_byte (byte d)"
      using False 3 by (auto simp: DecodeRune_def Let_def split: if_splits)
    ultimately show thesis
      using that(3) [of "(byte a - 0xF0) * 262144 + (byte b - 0x80) * 4096 + (byte c - 0x80) * 64 + (byte d - 0x80)" q]
        a 3 rune_bytes_4 [of a b c d, OF _ _ _ _ _ _ refl] DecodeRune_4 [of a b c d q]
      by simp
  qed
qed

lemma rune_bytes_high:
  assumes "valid_rune r" "0x80 \<le> r" "c \<in> set (rune_bytes r)"
  shows "0x80 \<le> byte c"
proof -
  have "0 \<le> r div 64" "r div 64 < 17408" "0 \<le> r div 4096" "r div 4096 < 272" "0 \<le> r div 262144" "r div 262144 < 5"
    using assms(1,2) unfolding valid_rune_def MaxRune_def by linarith+
  moreover have "r < 0x800 \<Longrightarrow> r div 64 < 32" "r < 0x10000 \<Longrightarrow> r div 4096 < 16" by linarith+
  ultimately show ?thesis
    using assms(2,3) by (auto simp: rune_bytes_def split: if_splits)
qed

lemma string_runes_Nil [simp]: "string_runes [] = []"
  by (simp add: string_runes.simps)

lemma string_runes_bytes:
  "valid_rune r \<Longrightarrow> string_runes (rune_bytes r @ p) = r # string_runes p"
  by (subst string_runes.simps) (simp add: DecodeRune_rune_bytes)

lemma string_runes_valid: "r \<in> set (string_runes p) \<Longrightarrow> valid_rune r"
proof (induction p rule: string_runes.induct)
  case (1 p)
  show ?case
  proof (cases "p = []")
    case False
    have "valid_rune (fst (DecodeRune p))"
      using False byte_range [of "hd p"]
      by (cases rule: DecodeRune_cases) (auto simp: valid_rune_def MaxRune_def RuneError_def)
    with 1 False show ?thesis by (simp add: string_runes.simps [of p]) blast
  qed (use 1 in simp)
qed

text \<open>
  The bytes of a list of valid runes decode to those runes.
\<close>

definition bytes_of_runes :: "int list \<Rightarrow> string" where
  "bytes_of_runes rs = concat (map string_of_rune rs)"

lemma string_runes_bytes_of_runes:
  "(\<And>r. r \<in> set rs \<Longrightarrow> valid_rune r) \<Longrightarrow> string_runes (bytes_of_runes rs) = rs"
  by (induction rs) (simp_all add: bytes_of_runes_def string_of_rune_def string_runes_bytes)

end
