(* ===== verification/Scanner.thy ===== *)
theory Scanner
  imports Token Token_File Utf8 "HOL-Library.Word"
begin

text \<open>
  The lexical scanner, \<^verbatim>\<open>syntax/scanner/scanner.go\<close>. Runes are integers with \<open>eof = -1\<close>,
  offsets are natural numbers, and every method is a function on the scanner's state. The
  error handler is the list of its calls; \<open>err\<close> says whether one was given. Positions are the
  offsets the Go code wraps with the scanner's file. The Unicode tables of the Go library
  (\<open>unicode.IsLetter\<close>, \<open>unicode.IsDigit\<close>) are an argument; they are consulted only for runes
  outside ASCII, and every statement holds for all tables.
\<close>

section \<open>State\<close>

record unicode =
  u_IsLetter :: "int \<Rightarrow> bool"
  u_IsDigit :: "int \<Rightarrow> bool"

datatype scan_error = IllegalNUL | IllegalUTF8 | IllegalBOM | SingleQuoted | MissingOr | MissingAnd
  | IllegalChar int | ExponentNoDigits | StringNotTerminated | UnknownEscape | EscapeNotTerminated
  | IllegalCharInEscape int | InvalidCodePoint | CommentNotTerminated

record Scanner =
  src_file :: File
  input :: string
  err :: bool
  errs :: "(nat \<times> scan_error) list"
  mode :: nat
  ch :: int
  offset :: nat
  readOffset :: nat
  insertTerm :: bool
  numErrors :: nat

definition IncludeComments :: nat where "IncludeComments = 1"
definition dontInsertTerms :: nat where "dontInsertTerms = 2"

text \<open>The test \<open>mode & flag == 0\<close> for a flag that is a power of two.\<close>

definition has_flag :: "nat \<Rightarrow> nat \<Rightarrow> bool" where
  "has_flag m flag \<longleftrightarrow> odd (m div flag)"

definition bom :: int where "bom = 0xFEFF"
definition eof :: int where "eof = - 1"

abbreviation rune :: "char \<Rightarrow> int" where "rune \<equiv> byte"

definition byte_slice :: "nat \<Rightarrow> nat \<Rightarrow> string \<Rightarrow> string" where
  "byte_slice a b xs = drop a (take b xs)"

section \<open>Reading characters\<close>

definition onError :: "nat \<Rightarrow> scan_error \<Rightarrow> Scanner \<Rightarrow> Scanner" where
  "onError n msg s = s\<lparr>errs := (if err s then errs s @ [(n, msg)] else errs s),
                       numErrors := numErrors s + 1\<rparr>"

definition NumErrors :: "Scanner \<Rightarrow> nat" where
  "NumErrors s = numErrors s"

definition peek :: "Scanner \<Rightarrow> int" where
  "peek s = (if readOffset s < length (input s) then byte (input s ! readOffset s) else 0)"

definition add_line :: "Scanner \<Rightarrow> Scanner" where
  "add_line s = (if ch s = rune (CHR 0x0A) then s\<lparr>src_file := AddLine (int (offset s)) (src_file s)\<rparr> else s)"

definition scan_next :: "Scanner \<Rightarrow> Scanner" where
  "scan_next s =
     (if readOffset s \<ge> length (input s)
      then (add_line (s\<lparr>offset := length (input s)\<rparr>))\<lparr>ch := eof\<rparr>
      else let s = add_line (s\<lparr>offset := readOffset s\<rparr>);
               r = byte (input s ! readOffset s);
               (r, width, s) =
                 (if r = 0 then (r, 1, onError (offset s) IllegalNUL s)
                  else if r \<ge> RuneSelf then
                    (let (r, width) = DecodeRune (drop (readOffset s) (input s)) in
                     if r = RuneError \<and> width = 1 then (r, width, onError (offset s) IllegalUTF8 s)
                     else if r = bom \<and> offset s > 0 then (r, width, onError (offset s) IllegalBOM s)
                     else (r, width, s))
                  else (r, 1, s))
           in s\<lparr>readOffset := readOffset s + width, ch := r\<rparr>)"

definition New :: "File \<Rightarrow> string \<Rightarrow> bool \<Rightarrow> nat \<Rightarrow> Scanner" where
  "New f inp eh m =
     (let s = scan_next \<lparr>src_file = f, input = inp, err = eh, errs = [], mode = m, ch = 0, offset = 0,
                         readOffset = 0, insertTerm = False, numErrors = 0\<rparr>
      in if ch s = bom then scan_next s else s)"

section \<open>Character classes\<close>

definition lower :: "int \<Rightarrow> int" where
  "lower c = Bit_Operations.or (rune (CHR ''a'') - rune (CHR ''A'')) c"

definition isDecimal :: "int \<Rightarrow> bool" where
  "isDecimal c \<longleftrightarrow> rune (CHR ''0'') \<le> c \<and> c \<le> rune (CHR ''9'')"

definition isLetter :: "unicode \<Rightarrow> int \<Rightarrow> bool" where
  "isLetter u c \<longleftrightarrow> (lower c \<ge> rune (CHR ''a'') \<and> lower c \<le> rune (CHR ''z'')) \<or> c = rune (CHR ''_'') \<or>
     (c \<ge> RuneSelf \<and> u_IsLetter u c)"

definition isDigit :: "unicode \<Rightarrow> int \<Rightarrow> bool" where
  "isDigit u c \<longleftrightarrow> isDecimal c \<or> (c \<ge> RuneSelf \<and> u_IsDigit u c)"

definition digitVal :: "int \<Rightarrow> int" where
  "digitVal c =
     (if c \<ge> rune (CHR ''0'') \<and> c \<le> rune (CHR ''9'') then c - rune (CHR ''0'')
      else if lower c \<ge> rune (CHR ''a'') \<and> lower c \<le> rune (CHR ''f'') then lower c - rune (CHR ''a'') + 10
      else 16)"

lemma rune_consts [simp]:
  "byte (CHR 0x0A) = 10" "byte (CHR ''a'') = 97" "byte (CHR ''A'') = 65" "byte (CHR ''z'') = 122"
  "byte (CHR ''Z'') = 90" "byte (CHR ''0'') = 48" "byte (CHR ''9'') = 57" "byte (CHR ''_'') = 95"
  "byte (CHR ''f'') = 102" "byte (CHR ''e'') = 101"
  by (simp_all add: byte_def)

lemma lower_eq: "lower c = (if odd (c div 32) then c else c + 32)"
proof -
  have "lower c = set_bit 5 c"
    by (simp add: lower_def set_bit_eq_or or.commute push_bit_eq_mult)
  then show ?thesis by (simp add: set_bit_eq bit_iff_odd)
qed

lemma lower_between: "65 \<le> a \<Longrightarrow> b \<le> 90 \<Longrightarrow>
    a + 32 \<le> lower c \<and> lower c \<le> b + 32 \<longleftrightarrow> (a \<le> c \<and> c \<le> b) \<or> (a + 32 \<le> c \<and> c \<le> b + 32)"
proof -
  assume ab: "65 \<le> a" "b \<le> 90"
  have "even (c div 32)" if "a \<le> c" "c \<le> b"
  proof -
    have "c div 32 = 2" using that ab by linarith
    then show ?thesis by simp
  qed
  moreover have "odd (c div 32)" if "a + 32 \<le> c" "c \<le> b + 32"
  proof -
    have "c div 32 = 3" using that ab by linarith
    then show ?thesis by simp
  qed
  ultimately show ?thesis by (auto simp: lower_eq)
qed

lemmas lower_letter = lower_between [of 65 90, simplified]
lemmas lower_hex = lower_between [of 65 70, simplified]

lemma isLetter_iff: "isLetter u c \<longleftrightarrow> (65 \<le> c \<and> c \<le> 90) \<or> (97 \<le> c \<and> c \<le> 122) \<or> c = 95 \<or>
    (128 \<le> c \<and> u_IsLetter u c)"
  using lower_letter [of c] by (simp add: isLetter_def RuneSelf_def)

lemma isDigit_iff: "isDigit u c \<longleftrightarrow> (48 \<le> c \<and> c \<le> 57) \<or> (128 \<le> c \<and> u_IsDigit u c)"
  by (simp add: isDigit_def isDecimal_def RuneSelf_def)

section \<open>Progress\<close>

text \<open>How much is left to read; reading a character always uses some of it up.\<close>

definition left :: "Scanner \<Rightarrow> nat" where
  "left s = (length (input s) - readOffset s) + (if ch s = eof then 0 else 1)"

lemma add_line_simps [simp]:
  "input (add_line s) = input s" "err (add_line s) = err s" "errs (add_line s) = errs s"
  "mode (add_line s) = mode s" "ch (add_line s) = ch s" "offset (add_line s) = offset s"
  "readOffset (add_line s) = readOffset s" "insertTerm (add_line s) = insertTerm s"
  "numErrors (add_line s) = numErrors s"
  by (simp_all add: add_line_def)

lemma onError_simps [simp]:
  "src_file (onError n m s) = src_file s" "input (onError n m s) = input s" "err (onError n m s) = err s"
  "mode (onError n m s) = mode s" "ch (onError n m s) = ch s" "offset (onError n m s) = offset s"
  "readOffset (onError n m s) = readOffset s" "insertTerm (onError n m s) = insertTerm s"
  "numErrors (onError n m s) = Suc (numErrors s)"
  by (simp_all add: onError_def)

abbreviation rest :: "Scanner \<Rightarrow> string" where
  "rest s \<equiv> drop (readOffset s) (input s)"

lemma DecodeRune_low: "p \<noteq> [] \<Longrightarrow> byte (hd p) < 128 \<Longrightarrow> DecodeRune p = (byte (hd p), 1)"
  using DecodeRune_ascii [of "hd p" "tl p"] by simp

text \<open>Reading a character decodes the next rune, whatever errors it reports.\<close>

lemma scan_next_simps [simp]:
  "input (scan_next s) = input s" "err (scan_next s) = err s" "mode (scan_next s) = mode s"
  "insertTerm (scan_next s) = insertTerm s"
  "offset (scan_next s) = (if readOffset s < length (input s) then readOffset s else length (input s))"
  "src_file (scan_next s) = (if ch s = 10 then AddLine (int (offset (scan_next s))) (src_file s) else src_file s)"
  by (auto simp: scan_next_def Let_def add_line_def split: prod.split)

lemma scan_next_eof:
  "length (input s) \<le> readOffset s \<Longrightarrow> ch (scan_next s) = eof \<and> readOffset (scan_next s) = readOffset s"
  by (simp add: scan_next_def)

lemma scan_next_decode:
  assumes "readOffset s < length (input s)"
  shows "ch (scan_next s) = fst (DecodeRune (rest s))"
    and "readOffset (scan_next s) = readOffset s + snd (DecodeRune (rest s))"
proof -
  have ne: "rest s \<noteq> []" and hd: "hd (rest s) = input s ! readOffset s"
    using assms by (simp_all add: hd_drop_conv_nth)
  note low = DecodeRune_low [OF ne, unfolded hd]
  show "ch (scan_next s) = fst (DecodeRune (rest s))"
    "readOffset (scan_next s) = readOffset s + snd (DecodeRune (rest s))"
    using assms low by (auto simp: scan_next_def Let_def RuneSelf_def not_le split: prod.split)
qed

lemma left_scan_next: "left (scan_next s) \<le> left s"
  and left_scan_next_less: "ch s \<noteq> eof \<Longrightarrow> left (scan_next s) < left s"
proof -
  have "left (scan_next s) \<le> left s \<and> (ch s \<noteq> eof \<longrightarrow> left (scan_next s) < left s)"
  proof (cases "readOffset s < length (input s)")
    case True
    then have "1 \<le> snd (DecodeRune (rest s))" "snd (DecodeRune (rest s)) \<le> length (input s) - readOffset s"
      using DecodeRune_width [of "rest s"] by simp_all
    with True show ?thesis using scan_next_decode [OF True] by (auto simp: left_def)
  next
    case False
    with scan_next_eof [of s] show ?thesis by (simp add: left_def)
  qed
  then show "left (scan_next s) \<le> left s" "ch s \<noteq> eof \<Longrightarrow> left (scan_next s) < left s" by simp_all
qed

section \<open>Scanning routines\<close>

definition is_white :: "Scanner \<Rightarrow> bool" where
  "is_white s \<longleftrightarrow> ch s = rune (CHR '' '') \<or> ch s = rune (CHR 0x09) \<or> ch s = rune (CHR 0x0D) \<or>
     (ch s = rune (CHR 0x0A) \<and> \<not> insertTerm s)"

lemma byte_neq_eof [simp]: "byte c \<noteq> eof" "eof \<noteq> byte c"
  using byte_range(1) [of c] by (simp_all add: eof_def)

lemma eof_neq_numeral [simp]: "eof \<noteq> numeral k" "numeral k \<noteq> eof"
  by (simp_all add: eof_def)

function skipWhitespace :: "Scanner \<Rightarrow> Scanner" where
  "skipWhitespace s = (if is_white s then skipWhitespace (scan_next s) else s)"
  by pat_completeness auto
termination by (relation "measure left") (auto simp: is_white_def intro!: left_scan_next_less)

text \<open>The loop over the remaining identifier characters, one rune at a time.\<close>

function ident_loop :: "unicode \<Rightarrow> Scanner \<Rightarrow> Scanner" where
  "ident_loop u s = (if isLetter u (ch s) \<or> isDigit u (ch s) then ident_loop u (scan_next s) else s)"
  by pat_completeness auto
termination
  by (relation "measure (left \<circ> snd)") (auto simp: isLetter_iff isDigit_iff eof_def intro!: left_scan_next_less)

text \<open>The loop over the bytes of an ASCII identifier: the index of the first other byte.\<close>

definition ident_byte :: "char \<Rightarrow> bool" where
  "ident_byte b \<longleftrightarrow> (byte b \<ge> rune (CHR ''a'') \<and> byte b \<le> rune (CHR ''z'')) \<or>
     (byte b \<ge> rune (CHR ''A'') \<and> byte b \<le> rune (CHR ''Z'')) \<or> b = CHR ''_'' \<or>
     (byte b \<ge> rune (CHR ''0'') \<and> byte b \<le> rune (CHR ''9''))"

fun ident_scan :: "string \<Rightarrow> nat \<Rightarrow> (nat \<times> char) option" where
  "ident_scan [] i = None"
| "ident_scan (b # bs) i = (if ident_byte b then ident_scan bs (i + 1) else Some (i, b))"

definition scanIdentifier :: "unicode \<Rightarrow> Scanner \<Rightarrow> string \<times> Scanner" where
  "scanIdentifier u s =
     (let start = offset s;
          s = (case ident_scan (rest s) 0 of
                 Some (n, b) \<Rightarrow>
                   (let s = s\<lparr>readOffset := readOffset s + n\<rparr> in
                    if byte b > 0 \<and> byte b < RuneSelf
                    then s\<lparr>ch := byte b, offset := readOffset s, readOffset := readOffset s + 1\<rparr>
                    else ident_loop u (scan_next s))
               | None \<Rightarrow> s\<lparr>offset := length (input s), readOffset := length (input s), ch := eof\<rparr>)
      in (byte_slice start (offset s) (input s), s))"

function digits :: "Scanner \<Rightarrow> nat \<Rightarrow> nat \<times> Scanner" where
  "digits s count = (if isDecimal (ch s) then digits (scan_next s) (count + 1) else (count, s))"
  by pat_completeness auto
termination
  by (relation "measure (left \<circ> fst)") (auto simp: isDecimal_def eof_def intro!: left_scan_next_less)

definition scanNumber :: "Scanner \<Rightarrow> Token \<times> string \<times> Scanner" where
  "scanNumber s =
     (let start = offset s; tok = NUMBER;
          s = (if ch s \<noteq> rune (CHR ''.'') then snd (digits s 0) else s);
          (tok, s) = (if ch s = rune (CHR ''.'') then (FLOAT, snd (digits (scan_next s) 0)) else (tok, s));
          (tok, s) = (if lower (ch s) = rune (CHR ''e'') then
              (let s = scan_next s;
                   s = (if ch s = rune (CHR ''+'') \<or> ch s = rune (CHR ''-'') then scan_next s else s);
                   (n, s) = digits s 0
               in (FLOAT, if n = 0 then onError start ExponentNoDigits s else s))
            else (tok, s))
      in (tok, byte_slice start (offset s) (input s), s))"

text \<open>The digits of a numeric escape, accumulated in an unsigned 32-bit integer.\<close>

fun escape_digits :: "nat \<Rightarrow> nat \<Rightarrow> 32 word \<Rightarrow> 32 word \<Rightarrow> 32 word \<Rightarrow> Scanner \<Rightarrow> Scanner" where
  "escape_digits start 0 base mx x s =
     (if x > mx \<or> (x \<ge> 0xD800 \<and> x < 0xE000) then onError start InvalidCodePoint s else s)"
| "escape_digits start (Suc n) base mx x s =
     (let d = word_of_int (digitVal (ch s)) in
      if d \<ge> base
      then onError start (if ch s = eof then EscapeNotTerminated else IllegalCharInEscape (ch s)) s
      else escape_digits start n base mx (x * base + d) (scan_next s))"

definition scanEscape :: "Scanner \<Rightarrow> Scanner" where
  "scanEscape s =
     (let start = offset s; c = ch s in
      if c \<in> set (map rune [CHR ''a'', CHR ''b'', CHR ''f'', CHR ''n'', CHR ''r'', CHR ''t'', CHR ''v'', CHR 0x5C, CHR 0x22])
      then scan_next s
      else if c \<in> set (map rune ''01234567'') then escape_digits start 3 8 255 0 s
      else if c = rune (CHR ''x'') then escape_digits start 2 16 255 0 (scan_next s)
      else if c = rune (CHR ''u'') then escape_digits start 4 16 (word_of_int MaxRune) 0 (scan_next s)
      else if c = rune (CHR ''U'') then escape_digits start 8 16 (word_of_int MaxRune) 0 (scan_next s)
      else onError start (if c = eof then EscapeNotTerminated else UnknownEscape) s)"

lemma left_onError [simp]: "left (onError n m s) = left s"
  by (simp add: left_def)

lemma left_escape_digits: "left (escape_digits start n base mx x s) \<le> left s"
proof (induction n arbitrary: x s)
  case (Suc n)
  then show ?case using left_scan_next [of s] by (auto simp: Let_def intro: order_trans)
qed simp

lemma left_scanEscape: "left (scanEscape s) \<le> left s"
  using left_scan_next [of s] left_escape_digits order_trans unfolding scanEscape_def Let_def
  by (auto simp del: set_map) blast+

function string_loop :: "nat \<Rightarrow> int \<Rightarrow> bool \<Rightarrow> bool \<Rightarrow> Scanner \<Rightarrow> Scanner" where
  "string_loop start until escape multiline s =
     (let c = ch s in
      if (\<not> multiline \<and> c = rune (CHR 0x0A)) \<or> c = eof then onError start StringNotTerminated s
      else let s = scan_next s in
        if c = until then s
        else if escape \<and> c = rune (CHR 0x5C) then string_loop start until escape multiline (scanEscape s)
        else string_loop start until escape multiline s)"
  by pat_completeness auto
termination
  by (relation "measure (\<lambda>(start, until, escape, multiline, s). left s)")
    (auto intro: le_less_trans [OF left_scanEscape] left_scan_next_less)

definition scanString :: "int \<Rightarrow> bool \<Rightarrow> bool \<Rightarrow> Scanner \<Rightarrow> string \<times> Scanner" where
  "scanString until escape multiline s =
     (let start = offset s - 1; s = string_loop start until escape multiline s
      in (byte_slice start (offset s) (input s), s))"

declare skipWhitespace.simps [simp del] ident_loop.simps [simp del] digits.simps [simp del]
  string_loop.simps [simp del]

subsection \<open>Comments\<close>

lemma left_skipWhitespace: "left (skipWhitespace s) \<le> left s"
proof (induction s rule: skipWhitespace.induct)
  case (1 s)
  then show ?case using left_scan_next [of s] by (subst skipWhitespace.simps) auto
qed

function line_comment_loop :: "nat \<Rightarrow> Scanner \<Rightarrow> nat \<times> Scanner" where
  "line_comment_loop numCR s =
     (if ch s \<noteq> rune (CHR 0x0A) \<and> ch s \<noteq> eof
      then line_comment_loop (if ch s = rune (CHR 0x0D) then numCR + 1 else numCR) (scan_next s)
      else (numCR, s))"
  by pat_completeness auto
termination by (relation "measure (left \<circ> snd)") (auto intro!: left_scan_next_less)

text \<open>The result says whether the comment was closed.\<close>

function block_comment_loop :: "nat \<Rightarrow> Scanner \<Rightarrow> bool \<times> nat \<times> Scanner" where
  "block_comment_loop numCR s =
     (if ch s \<noteq> eof
      then let c = ch s; numCR = (if c = rune (CHR 0x0D) then numCR + 1 else numCR); s = scan_next s in
        if c = rune (CHR ''*'') \<and> ch s = rune (CHR ''/'') then (True, numCR, scan_next s)
        else block_comment_loop numCR s
      else (False, numCR, s))"
  by pat_completeness auto
termination by (relation "measure (left \<circ> snd)") (auto intro!: left_scan_next_less)

fun stripCR_loop :: "bool \<Rightarrow> string \<Rightarrow> string \<Rightarrow> string" where
  "stripCR_loop blockComment [] c = c"
| "stripCR_loop blockComment (x # b) c =
     (if x \<noteq> CHR 0x0D \<or>
         (blockComment \<and> length c > 2 \<and> c ! (length c - 1) = CHR ''*'' \<and> b \<noteq> [] \<and> hd b = CHR ''/'')
      then stripCR_loop blockComment b (c @ [x]) else stripCR_loop blockComment b c)"

definition stripCR :: "string \<Rightarrow> bool \<Rightarrow> string" where
  "stripCR b blockComment = stripCR_loop blockComment b []"

definition scanComment :: "Scanner \<Rightarrow> string \<times> Scanner" where
  "scanComment s =
     (let start = offset s - 1;
          (blockComment, numCR, s) =
            (if ch s = rune (CHR ''/'')
             then (let (numCR, s) = line_comment_loop 0 (scan_next s) in (False, numCR, s))
             else (let (closed, numCR, s) = block_comment_loop 0 (scan_next s)
                   in (True, numCR, if closed then s else onError start CommentNotTerminated s)));
          lit = byte_slice start (offset s) (input s);
          (lit, numCR) = (if numCR > 0 \<and> length lit \<ge> 1 \<and> lit ! (length lit - 1) = CHR 0x0D
                          then (take (length lit - 1) lit, numCR - 1) else (lit, numCR));
          lit = (if numCR > 0 then stripCR lit blockComment else lit)
      in (lit, s))"

text \<open>Looking for the end of the line inside a block comment.\<close>

function line_end_block :: "Scanner \<Rightarrow> bool \<times> Scanner" where
  "line_end_block s =
     (if ch s \<noteq> eof
      then let c = ch s in
        if c = rune (CHR 0x0A) then (True, s)
        else let s = scan_next s in
          if c = rune (CHR ''*'') \<and> ch s = rune (CHR ''/'') then (False, scan_next s)
          else line_end_block s
      else (False, s))"
  by pat_completeness auto
termination by (relation "measure left") (auto intro!: left_scan_next_less)

declare line_comment_loop.simps [simp del] block_comment_loop.simps [simp del] line_end_block.simps [simp del]

lemma left_line_end_block: "left (snd (line_end_block s)) \<le> left s"
proof (induction s rule: line_end_block.induct)
  case (1 s)
  have "left (snd (line_end_block (scan_next s))) \<le> left s"
    if "ch s \<noteq> eof" "ch s \<noteq> 10" "\<not> (ch s = rune (CHR ''*'') \<and> ch (scan_next s) = rune (CHR ''/''))"
    using 1 [OF that(1) refl _ refl] that(2,3) left_scan_next [of s] by simp
  then show ?case
    using left_scan_next [of s] left_scan_next [of "scan_next s"]
    by (subst line_end_block.simps) (simp add: Let_def)
qed

function line_end_loop :: "Scanner \<Rightarrow> bool \<times> Scanner" where
  "line_end_loop s =
     (if ch s = rune (CHR ''/'') then (True, s)
      else if ch s = rune (CHR ''*'') then
        (case line_end_block (scan_next s) of
           (True, s) \<Rightarrow> (True, s)
         | (False, s) \<Rightarrow>
             (let s = skipWhitespace s in
              if ch s = eof \<or> ch s = rune (CHR 0x0A) then (True, s)
              else if ch s \<noteq> rune (CHR ''/'') then (False, s)
              else line_end_loop (scan_next s)))
      else (False, s))"
  by pat_completeness auto
termination
proof (relation "measure left", goal_cases)
  case (2 s found t t')
  have "left t \<le> left (scan_next s)"
    using left_line_end_block [of "scan_next s"] unfolding 2(3) [symmetric] by simp
  also have "\<dots> < left s" using 2(2) by (intro left_scan_next_less) auto
  finally show ?case
    using left_skipWhitespace [of t] left_scan_next [of t'] unfolding 2(5) by simp
qed simp

declare line_end_loop.simps [simp del]

definition findLineEnd :: "Scanner \<Rightarrow> bool \<times> Scanner" where
  "findLineEnd s =
     (let start = offset s - 1; (found, s) = line_end_loop s
      in (found, scan_next (s\<lparr>ch := rune (CHR ''/''), offset := start, readOffset := start + 1\<rparr>)))"

definition switch2 :: "Token \<Rightarrow> Token \<Rightarrow> int \<Rightarrow> Scanner \<Rightarrow> Token \<times> Scanner" where
  "switch2 a b nxt s = (if ch s = nxt then (b, scan_next s) else (a, s))"

section \<open>Tokens\<close>

text \<open>
  How the big switch of \<open>Scan\<close> ends: an early \<open>return\<close>, the common end that stores
  \<open>insertTerm\<close>, or the jump back to \<open>scanAgain\<close>.
\<close>

datatype scan_outcome = Return Token string Scanner | Finish Token string bool Scanner | Again Scanner

definition scan_slash :: "nat \<Rightarrow> Scanner \<Rightarrow> scan_outcome" where
  "scan_slash pos s =
     (if ch s = rune (CHR ''/'') \<or> ch s = rune (CHR ''*'') then
        (let (found, s) = (if insertTerm s then findLineEnd s else (False, s)) in
         if found then
           Return TERMINATOR [CHR 0x0A]
             (s\<lparr>ch := rune (CHR ''/''), offset := pos, readOffset := pos + 1, insertTerm := False\<rparr>)
         else let (comment, s) = scanComment s in
           if \<not> has_flag (mode s) IncludeComments then Again (s\<lparr>insertTerm := False\<rparr>)
           else Finish COMMENT comment False s)
      else Finish DIV [] False s)"

definition scan_other :: "nat \<Rightarrow> int \<Rightarrow> Scanner \<Rightarrow> scan_outcome" where
  "scan_other pos c s =
     (if c = eof then
        (if insertTerm s then Return TERMINATOR [CHR 0x0A] (s\<lparr>insertTerm := False\<rparr>)
         else Finish EOF [] False s)
      else if c = rune (CHR 0x0A) then Return TERMINATOR [CHR 0x0A] (s\<lparr>insertTerm := False\<rparr>)
      else if c = rune (CHR 0x27) then
        (let (lit, s) = scanString (rune (CHR 0x27)) True False (onError pos SingleQuoted s)
         in Finish ILLEGAL lit True s)
      else if c = rune (CHR 0x22) then
        (let (lit, s) = scanString (rune (CHR 0x22)) True False s in Finish STRING lit True s)
      else if c = rune (CHR 0x60) then
        (let (lit, s) = scanString (rune (CHR 0x60)) False True s in Finish STRING lit True s)
      else if c = rune (CHR ''|'') then
        Finish OR [] False (if ch s \<noteq> rune (CHR ''|'') then onError (offset s) MissingOr s else scan_next s)
      else if c = rune (CHR ''&'') then
        Finish AND [] False (if ch s \<noteq> rune (CHR ''&'') then onError (offset s) MissingAnd s else scan_next s)
      else if c = rune (CHR ''!'') then
        (let (tok, s) = switch2 NOT NEQ (rune (CHR ''='')) s in Finish tok [] False s)
      else if c = rune (CHR ''='') then
        (let (tok, s) = switch2 ASSIGN EQ (rune (CHR ''='')) s in Finish tok [] False s)
      else if c = rune (CHR ''<'') then
        (let (tok, s) = switch2 LT LTE (rune (CHR ''='')) s in Finish tok [] False s)
      else if c = rune (CHR ''>'') then
        (let (tok, s) = switch2 GT GTE (rune (CHR ''='')) s in Finish tok [] False s)
      else if c = rune (CHR ''+'') then Finish ADD [] False s
      else if c = rune (CHR ''-'') then Finish SUB [] False s
      else if c = rune (CHR ''*'') then Finish MUL [] False s
      else if c = rune (CHR ''/'') then scan_slash pos s
      else if c = rune (CHR ''%'') then Finish MOD [] False s
      else if c = rune (CHR ''^'') then Finish POW [] False s
      else if c = rune (CHR ''{'') then Finish LCURLY [] False s
      else if c = rune (CHR ''}'') then Finish RCURLY [] True s
      else if c = rune (CHR ''('') then Finish LPAREN [] False s
      else if c = rune (CHR '')'') then Finish RPAREN [] True s
      else if c = rune (CHR ''['') then Finish LBRACK [] False s
      else if c = rune (CHR '']'') then Finish RBRACK [] True s
      else if c = rune (CHR '','') then Finish COMMA [] False s
      else if c = rune (CHR ''.'') then Finish DOT [] False s
      else (let s = (if c \<noteq> bom then onError pos (IllegalChar c) s else s)
            in Finish ILLEGAL (string_of_rune c) (insertTerm s) s))"

definition scan_token :: "unicode \<Rightarrow> Scanner \<Rightarrow> scan_outcome" where
  "scan_token u s =
     (let pos = offset s; c = ch s in
      if isLetter u c then
        (let (lit, s) = scanIdentifier u s in
         if length lit > 1 then
           (let tok = Lookup lit in Finish tok lit (tok = IDENT \<or> tok = NULL \<or> tok = BOOL) s)
         else Finish IDENT lit True s)
      else if isDecimal c \<or> (c = rune (CHR ''.'') \<and> isDecimal (peek s)) then
        (let (tok, lit, s) = scanNumber s in Finish tok lit True s)
      else scan_other pos c (scan_next s))"

section \<open>The scanner invariant\<close>

text \<open>
  The cursor: the current character is the rune at \<open>offset\<close> and \<open>readOffset\<close> is just after
  it, or the scanner is at the end of the input.
\<close>

definition cursor_wf :: "Scanner \<Rightarrow> bool" where
  "cursor_wf s \<longleftrightarrow>
     (if offset s < length (input s)
      then ch s = fst (DecodeRune (drop (offset s) (input s))) \<and>
           readOffset s = offset s + snd (DecodeRune (drop (offset s) (input s)))
      else ch s = eof \<and> offset s = length (input s) \<and> readOffset s = length (input s))"

text \<open>The starts of the lines, up to the newlines before offset \<open>k\<close>.\<close>

definition line_starts :: "string \<Rightarrow> nat \<Rightarrow> int list" where
  "line_starts inp k = 0 # map (\<lambda>i. int i + 1) (filter (\<lambda>i. inp ! i = CHR 0x0A) [0..<k])"

text \<open>
  The line table of the file is exact up to some point at or after the cursor; looking ahead
  in a comment may have moved that point further.
\<close>

definition line_table_wf :: "Scanner \<Rightarrow> bool" where
  "line_table_wf s \<longleftrightarrow>
     (\<exists>k. offset s \<le> k \<and> k \<le> length (input s) \<and> lines (src_file s) = line_starts (input s) k)"

definition scan_inv :: "Scanner \<Rightarrow> bool" where
  "scan_inv s \<longleftrightarrow> cursor_wf s \<and> line_table_wf s"

definition advances :: "Scanner \<Rightarrow> Scanner \<Rightarrow> bool" where
  "advances s s' \<longleftrightarrow> input s' = input s \<and> mode s' = mode s \<and> err s' = err s \<and>
     insertTerm s' = insertTerm s \<and> left s' \<le> left s \<and> numErrors s \<le> numErrors s' \<and>
     (scan_inv s \<longrightarrow> scan_inv s' \<and> offset s \<le> offset s')"

lemma advances_refl [intro!, simp]: "advances s s"
  by (simp add: advances_def)

lemma advances_trans [trans]: "advances s t \<Longrightarrow> advances t v \<Longrightarrow> advances s v"
  by (auto simp: advances_def)

lemma advances_onError: "advances s t \<Longrightarrow> advances s (onError n m t)"
  by (auto simp: advances_def scan_inv_def cursor_wf_def line_table_wf_def)

lemma cursor_readOffset: "cursor_wf s \<Longrightarrow> offset s \<le> readOffset s \<and> readOffset s \<le> length (input s)"
  using DecodeRune_width [of "drop (offset s) (input s)"] by (auto simp: cursor_wf_def split: if_splits)

lemma cursor_next:
  assumes "cursor_wf s"
  shows "cursor_wf (scan_next s)" "offset (scan_next s) = readOffset s"
proof -
  have ro: "readOffset s \<le> length (input s)" using cursor_readOffset [OF assms] by simp
  show "offset (scan_next s) = readOffset s" using ro by auto
  show "cursor_wf (scan_next s)"
    using ro scan_next_decode [of s] scan_next_eof [of s] by (auto simp: cursor_wf_def)
qed

text \<open>An ASCII character occupies one byte.\<close>

lemma cursor_ascii:
  assumes "cursor_wf s" "0 \<le> ch s" "ch s < 128"
  shows "offset s < length (input s)" "readOffset s = offset s + 1" "byte (input s ! offset s) = ch s"
proof -
  show lt: "offset s < length (input s)" using assms by (auto simp: cursor_wf_def eof_def split: if_splits)
  let ?p = "drop (offset s) (input s)"
  have ne: "?p \<noteq> []" and hd: "hd ?p = input s ! offset s" using lt by (simp_all add: hd_drop_conv_nth)
  have cur: "ch s = fst (DecodeRune ?p)" "readOffset s = offset s + snd (DecodeRune ?p)"
    using assms(1) lt by (simp_all add: cursor_wf_def)
  from ne show "readOffset s = offset s + 1" "byte (input s ! offset s) = ch s"
    using cur hd assms(3) by (cases rule: DecodeRune_cases; simp add: RuneError_def)+
qed

text \<open>A character other than a newline contains no newline byte.\<close>

lemma DecodeRune_no_newline:
  assumes "p \<noteq> []" "fst (DecodeRune p) \<noteq> 10" "i < snd (DecodeRune p)"
  shows "p ! i \<noteq> CHR 0x0A"
  using assms(1)
proof (cases rule: DecodeRune_cases)
  case ascii
  with assms show ?thesis by (cases p) auto
next
  case bad
  with assms show ?thesis by (cases p) auto
next
  case (multi r q)
  with assms(3) have "p ! i \<in> set (rune_bytes r)" by (simp add: nth_append)
  with rune_bytes_high [OF multi(2,3), of "p ! i"] show ?thesis by auto
qed

lemma line_starts_extend:
  assumes "j \<le> k" "\<And>i. j \<le> i \<Longrightarrow> i < k \<Longrightarrow> inp ! i \<noteq> CHR 0x0A"
  shows "line_starts inp k = line_starts inp j"
proof -
  have "[0..<k] = [0..<j] @ [j..<k]" using assms(1) by (metis le_add_diff_inverse upt_add_eq_append zero_le)
  moreover have "filter (\<lambda>i. inp ! i = CHR 0x0A) [j..<k] = []" using assms(2) by (auto simp: filter_empty_conv)
  ultimately show ?thesis by (simp add: line_starts_def)
qed

lemma last_line_starts: "last (line_starts inp k) \<le> int k"
proof -
  have "x \<le> int k" if "x \<in> set (line_starts inp k)" for x using that by (auto simp: line_starts_def)
  moreover have "line_starts inp k \<noteq> []" by (simp add: line_starts_def)
  ultimately show ?thesis by (meson last_in_set)
qed

lemma sorted_line_starts: "sorted_wrt (<) (line_starts inp k)"
proof -
  have "sorted_wrt (<) (map (\<lambda>i. int i + 1) (filter P [0..<k]))" for P
    unfolding sorted_wrt_map by (rule sorted_wrt_mono_rel [OF _ sorted_wrt_filter [OF sorted_wrt_upt]]) simp
  then show ?thesis by (auto simp: line_starts_def)
qed

lemma lines_wf_line_starts [simp]: "lines_wf (line_starts inp k)"
  using sorted_line_starts by (simp add: lines_wf_def line_starts_def)

lemma AddLine_line_starts:
  assumes f: "lines f = line_starts inp k" and nl: "inp ! n = CHR 0x0A" "n \<le> k"
  shows "lines (AddLine (int n + 1) f) = line_starts inp (max k (n + 1))"
proof -
  have ne: "lines f \<noteq> []" by (simp add: f line_starts_def)
  show ?thesis
  proof (cases "k = n")
    case True
    then have "last (lines f) < int n + 1" using last_line_starts [of inp k] by (simp add: f)
    then show ?thesis using True nl(1) by (simp add: lines_AddLine [OF ne] f) (simp add: line_starts_def)
  next
    case False
    then have "int n + 1 \<in> set (lines f)" using nl by (auto simp: f line_starts_def)
    then have "int n + 1 \<le> last (lines f)"
      using sorted_line_starts [of inp k] ne set_butlast_last [OF ne] unfolding f [symmetric]
      by (metis append_butlast_last_id insertE less_imp_le list.set_intros(1) order_refl sorted_wrt_append)
    moreover have "max k (n + 1) = k" using False nl(2) by simp
    ultimately show ?thesis by (simp add: lines_AddLine [OF ne] f)
  qed
qed

lemma line_table_next:
  assumes "scan_inv s"
  shows "line_table_wf (scan_next s)"
proof -
  have cur: "cursor_wf s" using assms by (simp add: scan_inv_def)
  note ro = cursor_readOffset [OF cur]
  obtain k where k: "offset s \<le> k" "k \<le> length (input s)" "lines (src_file s) = line_starts (input s) k"
    using assms by (auto simp: scan_inv_def line_table_wf_def)
  show ?thesis
  proof (cases "ch s = 10")
    case True
    note a = cursor_ascii [OF cur, unfolded True, simplified]
    then have nl: "input s ! offset s = CHR 0x0A" by (metis byte_inject rune_consts(1))
    have "lines (src_file (scan_next s)) = line_starts (input s) (max k (offset s + 1))"
      using AddLine_line_starts [OF k(3) nl k(1)] cursor_next(2) [OF cur] True a by (simp add: add.commute)
    then show ?thesis
      using k a cursor_next(2) [OF cur] unfolding line_table_wf_def
      by (intro exI [of _ "max k (offset s + 1)"]) simp
  next
    case False
    have nonl: "input s ! i \<noteq> CHR 0x0A" if "offset s \<le> i" "i < readOffset s" for i
    proof (cases "offset s < length (input s)")
      case True
      with DecodeRune_no_newline [of "drop (offset s) (input s)" "i - offset s"] cur False that
      show ?thesis by (auto simp: cursor_wf_def)
    qed (use that cur in \<open>auto simp: cursor_wf_def\<close>)
    have "lines (src_file (scan_next s)) = line_starts (input s) (max k (readOffset s))"
      using False k line_starts_extend [of k "readOffset s" "input s"] nonl by (auto simp: max_def)
    then show ?thesis
      using k ro cursor_next(2) [OF cur] unfolding line_table_wf_def
      by (intro exI [of _ "max k (readOffset s)"]) simp
  qed
qed

lemma numErrors_next: "numErrors s \<le> numErrors (scan_next s)"
  by (auto simp: scan_next_def Let_def split: prod.split)

lemma advances_next: "advances s (scan_next s)"
proof -
  have "scan_inv (scan_next s) \<and> offset s \<le> offset (scan_next s)" if "scan_inv s"
    using line_table_next [OF that] cursor_next [of s] cursor_readOffset [of s] that
    by (simp add: scan_inv_def del: scan_next_simps)
  then show ?thesis using left_scan_next numErrors_next by (simp add: advances_def)
qed

subsection \<open>Routines that only read forward\<close>

text \<open>The contract of a routine that moves the scanner forward by reading characters.\<close>

locale forward_routine =
  fixes routine :: "Scanner \<Rightarrow> Scanner"
  assumes forward: "advances s (routine s)"
begin

lemma keeps_inv: "scan_inv s \<Longrightarrow> scan_inv (routine s)"
  using forward [of s] by (simp add: advances_def)

lemma offset_mono: "scan_inv s \<Longrightarrow> offset s \<le> offset (routine s)"
  using forward [of s] by (simp add: advances_def)

lemma keeps_input: "input (routine s) = input s"
  using forward [of s] by (simp add: advances_def)

lemma after: "advances t s \<Longrightarrow> advances t (routine s)"
  using forward by (rule advances_trans [rotated])

lemma on_error: "advances s (onError n m (routine s))"
  by (rule advances_onError [OF forward])

end

interpretation next_char: forward_routine scan_next
  by unfold_locales (rule advances_next)

interpretation skip_white: forward_routine skipWhitespace
proof
  show "advances s (skipWhitespace s)" for s
  proof (induction s rule: skipWhitespace.induct)
    case (1 s)
    then show ?case by (subst skipWhitespace.simps) (auto intro: advances_trans [OF advances_next])
  qed
qed

interpretation ident_rest: forward_routine "ident_loop u" for u
proof
  show "advances s (ident_loop u s)" for s
  proof (induction u s rule: ident_loop.induct)
    case (1 u s)
    then show ?case by (subst ident_loop.simps) (auto intro: advances_trans [OF advances_next])
  qed
qed

interpretation digit_run: forward_routine "\<lambda>s. snd (digits s n)" for n
proof
  show "advances s (snd (digits s n))" for s
  proof (induction s n rule: digits.induct)
    case (1 s n)
    then show ?case by (subst digits.simps) (auto intro: advances_trans [OF advances_next])
  qed
qed

interpretation escape_run: forward_routine "escape_digits start n base mx x" for start n base mx x
proof
  show "advances s (escape_digits start n base mx x s)" for s
    by (induction n arbitrary: x s) (auto simp: Let_def intro: advances_trans [OF advances_next] advances_onError)
qed

interpretation escape: forward_routine scanEscape
proof
  show "advances s (scanEscape s)" for s
    unfolding scanEscape_def Let_def
    by (auto simp del: set_map intro: advances_onError escape_run.forward escape_run.after advances_next)
qed

interpretation string_body: forward_routine "string_loop start until esc ml" for start until esc ml
proof
  show "advances s (string_loop start until esc ml s)" for s
  proof (induction start until esc ml s rule: string_loop.induct)
    case (1 start until esc ml s)
    have "advances s (string_loop start until esc ml (scan_next s))"
      if "\<not> ((\<not> ml \<and> ch s = 10) \<or> ch s = eof)" "ch s \<noteq> until" "\<not> (esc \<and> ch s = rune (CHR 0x5C))"
      using 1(2) [OF refl _ refl that(2,3)] that(1) advances_next advances_trans by fastforce
    moreover have "advances s (string_loop start until esc ml (scanEscape (scan_next s)))"
      if "\<not> ((\<not> ml \<and> ch s = 10) \<or> ch s = eof)" "ch s \<noteq> until" "esc \<and> ch s = rune (CHR 0x5C)"
      using 1(1) [OF refl _ refl that(2,3)] that(1) advances_next escape.after advances_trans by fastforce
    ultimately show ?case
      by (subst string_loop.simps) (auto simp: Let_def intro: advances_onError advances_next)
  qed
qed

interpretation line_comment: forward_routine "\<lambda>s. snd (line_comment_loop n s)" for n
proof
  show "advances s (snd (line_comment_loop n s))" for s
  proof (induction n s rule: line_comment_loop.induct)
    case (1 n s)
    let ?n = "if ch s = rune (CHR 0x0D) then n + 1 else n"
    have "advances s (snd (line_comment_loop ?n (scan_next s)))"
      if "ch s \<noteq> rune (CHR 0x0A) \<and> ch s \<noteq> eof"
      using 1 [OF that] advances_next advances_trans by blast
    then show ?case by (subst line_comment_loop.simps) simp
  qed
qed

interpretation block_comment: forward_routine "\<lambda>s. snd (snd (block_comment_loop n s))" for n
proof
  show "advances s (snd (snd (block_comment_loop n s)))" for s
  proof (induction n s rule: block_comment_loop.induct)
    case (1 n s)
    let ?n = "if ch s = rune (CHR 0x0D) then n + 1 else n"
    have "advances s (snd (snd (block_comment_loop ?n (scan_next s))))"
      if "ch s \<noteq> eof" "\<not> (ch s = rune (CHR ''*'') \<and> ch (scan_next s) = rune (CHR ''/''))"
      using 1 [OF that(1) refl refl refl that(2)] advances_next advances_trans by blast
    then show ?case
      using next_char.after [OF advances_next] by (subst block_comment_loop.simps) (simp add: Let_def)
  qed
qed

interpretation line_end_in_block: forward_routine "\<lambda>s. snd (line_end_block s)"
proof
  show "advances s (snd (line_end_block s))" for s
  proof (induction s rule: line_end_block.induct)
    case (1 s)
    have "advances s (snd (line_end_block (scan_next s)))"
      if "ch s \<noteq> eof" "ch s \<noteq> 10" "\<not> (ch s = rune (CHR ''*'') \<and> ch (scan_next s) = rune (CHR ''/''))"
      using 1 [OF that(1) refl _ refl that(3)] that(2) advances_next advances_trans by auto
    then show ?case
      using next_char.after [OF advances_next] by (subst line_end_block.simps) (simp add: Let_def)
  qed
qed

interpretation line_end: forward_routine "\<lambda>s. snd (line_end_loop s)"
proof
  show "advances s (snd (line_end_loop s))" for s
  proof (induction s rule: line_end_loop.induct)
    case (1 s)
    obtain nl t where t: "line_end_block (scan_next s) = (nl, t)" by fastforce
    have adv: "advances s t" using line_end_in_block.after [OF advances_next [of s]] by (simp add: t)
    then have adv': "advances s (skipWhitespace t)" by (rule skip_white.after)
    have "advances s (snd (line_end_loop (scan_next (skipWhitespace t))))"
      if "ch s \<noteq> rune (CHR ''/'')" "ch s = rune (CHR ''*'')" "\<not> nl"
        "\<not> (ch (skipWhitespace t) = eof \<or> ch (skipWhitespace t) = rune (CHR 0x0A))"
        "ch (skipWhitespace t) = rune (CHR ''/'')"
      using 1 [OF that(1,2) t [symmetric] _ refl that(4)] that(3,5) next_char.after [OF adv'] advances_trans by auto
    with adv adv' show ?case
      by (subst line_end_loop.simps) (auto simp: t Let_def split: bool.split)
  qed
qed

end
