(* ===== verification/Scanner_Scan.thy ===== *)
theory Scanner_Scan
  imports Scanner
begin

text \<open>
  The \<open>Scan\<close> method of \<^verbatim>\<open>syntax/scanner/scanner.go\<close> and what it guarantees: the optimised
  identifier loop equals the plain one, every call makes progress, tokenising ends, literals
  are the text of the input, and the line table gives exact positions.
\<close>

section \<open>The optimised identifier loop\<close>

text \<open>The plain loop: read runes while they are letters or digits.\<close>

definition scanIdentifier_plain :: "unicode \<Rightarrow> Scanner \<Rightarrow> string \<times> Scanner" where
  "scanIdentifier_plain u s =
     (let s' = ident_loop u (scan_next s) in (byte_slice (offset s) (offset s') (input s'), s'))"

lemma scan_next_forget: "ch s \<noteq> 10 \<Longrightarrow> c \<noteq> 10 \<Longrightarrow> scan_next (s\<lparr>ch := c, offset := n\<rparr>) = scan_next s"
  by (simp add: scan_next_def add_line_def Let_def onError_def split: prod.split)

lemma scan_next_ascii:
  assumes "readOffset s < length (input s)" "ch s \<noteq> 10" "b = input s ! readOffset s" "0 < byte b" "byte b < 128"
  shows "scan_next s = s\<lparr>ch := byte b, offset := readOffset s, readOffset := readOffset s + 1\<rparr>"
  using assms by (simp add: scan_next_def add_line_def Let_def RuneSelf_def)

lemma ident_byte_iff: "ident_byte b \<longleftrightarrow> byte b < 128 \<and> (isLetter u (byte b) \<or> isDigit u (byte b))"
proof -
  have "b = CHR ''_'' \<longleftrightarrow> byte b = 95" by (metis byte_inject rune_consts(8))
  then show ?thesis by (auto simp: ident_byte_def isLetter_iff isDigit_iff)
qed

lemma ident_scan_shift: "ident_scan bs (Suc i) = map_option (\<lambda>(n, b). (Suc n, b)) (ident_scan bs i)"
  by (induction bs arbitrary: i) auto

lemma eof_not_ident: "\<not> isLetter u eof" "\<not> isDigit u eof"
  by (simp_all add: isLetter_iff isDigit_iff eof_def)

lemma ident_loop_stop: "\<not> (isLetter u (ch s) \<or> isDigit u (ch s)) \<Longrightarrow> ident_loop u s = s"
  by (subst ident_loop.simps) simp

lemma ident_fast_eq:
  assumes "ch s \<noteq> 10" "readOffset s \<le> length (input s)"
  shows "ident_loop u (scan_next s) = (case ident_scan (rest s) 0 of
      Some (n, b) \<Rightarrow>
        (let s = s\<lparr>readOffset := readOffset s + n\<rparr> in
         if byte b > 0 \<and> byte b < RuneSelf
         then s\<lparr>ch := byte b, offset := readOffset s, readOffset := readOffset s + 1\<rparr>
         else ident_loop u (scan_next s))
    | None \<Rightarrow> s\<lparr>offset := length (input s), readOffset := length (input s), ch := eof\<rparr>)"
  using assms
proof (induction "rest s" arbitrary: s)
  case Nil
  then have "scan_next s = s\<lparr>offset := length (input s), readOffset := length (input s), ch := eof\<rparr>"
    by (simp add: scan_next_def add_line_def)
  with Nil show ?case by (simp add: ident_loop_stop eof_not_ident)
next
  case (Cons b bs)
  have lt: "readOffset s < length (input s)" and b: "b = input s ! readOffset s"
    and bs: "bs = drop (Suc (readOffset s)) (input s)"
    using Cons(2) by (metis drop_all not_le list.distinct(1), metis nth_via_drop, metis list.sel(3) tl_drop drop_Suc)
  show ?case
  proof (cases "ident_byte b")
    case True
    then have lo: "0 < byte b" "byte b < 128" "byte b \<noteq> 10" by (auto simp: ident_byte_def)
    let ?t = "s\<lparr>ch := byte b, offset := readOffset s, readOffset := readOffset s + 1\<rparr>"
    have "scan_next s = ?t" by (rule scan_next_ascii [OF lt Cons(3) b lo(1,2)])
    moreover have "ident_loop u ?t = ident_loop u (scan_next ?t)"
      using True ident_byte_iff [of b u] by (subst ident_loop.simps) simp
    moreover note Cons(1) [of ?t]
    moreover have "scan_next (s\<lparr>ch := byte b, offset := readOffset s, readOffset := m\<rparr>) = scan_next (s\<lparr>readOffset := m\<rparr>)" for m
      using scan_next_forget [of "s\<lparr>readOffset := m\<rparr>" "byte b" "readOffset s"] Cons(3) lo(3) by (cases s) simp
    ultimately show ?thesis
      using Cons(2) [symmetric] True lo(3) lt bs
      by (simp add: ident_scan_shift Let_def split: option.split)
  next
    case False
    have "ident_loop u (scan_next s) = s\<lparr>ch := byte b, offset := readOffset s, readOffset := readOffset s + 1\<rparr>"
      if "0 < byte b" "byte b < 128"
      using scan_next_ascii [OF lt Cons(3) b that] False that ident_byte_iff [of b u] by (simp add: ident_loop_stop)
    then show ?thesis using Cons(2) [symmetric] False by (simp add: Let_def RuneSelf_def)
  qed
qed

lemma scanIdentifier_eq_plain:
  assumes "cursor_wf s" "isLetter u (ch s)"
  shows "scanIdentifier u s = scanIdentifier_plain u s"
proof -
  have ch: "ch s \<noteq> 10" using assms(2) by (auto simp: isLetter_iff)
  have ro: "readOffset s \<le> length (input s)" using cursor_readOffset [OF assms(1)] by simp
  show ?thesis
    unfolding scanIdentifier_def scanIdentifier_plain_def ident_fast_eq [OF ch ro, of u] by (simp add: Let_def)
qed

text \<open>
  On a scanner whose current character is a letter, the optimised identifier routine, which
  runs over raw bytes and falls back to decoding runes, returns the same text and leaves the
  same state as reading one rune after the other.
\<close>

theorem scanIdentifier_equiv_plain:
  assumes "scan_inv s" and "isLetter u (ch s)"
  shows "scanIdentifier u s = scanIdentifier_plain u s"
  using assms by (simp add: scan_inv_def scanIdentifier_eq_plain)

text \<open>Tables without letters and digits outside ASCII, for the witnesses.\<close>

definition ascii_tables :: unicode where
  "ascii_tables = \<lparr>u_IsLetter = (\<lambda>_. False), u_IsDigit = (\<lambda>_. False)\<rparr>"

section \<open>Scanning the next token\<close>

interpretation comment: forward_routine "\<lambda>s. snd (scanComment s)"
proof
  show "advances s (snd (scanComment s))" for s
  proof (cases "ch s = rune (CHR ''/'')")
    case True
    have "snd (scanComment s) = snd (line_comment_loop 0 (scan_next s))"
      by (simp add: scanComment_def True Let_def case_prod_beta)
    then show ?thesis by (simp add: line_comment.after [OF advances_next])
  next
    case False
    let ?r = "block_comment_loop 0 (scan_next s)"
    have adv: "advances s (snd (snd ?r))" by (rule block_comment.after [OF advances_next])
    have "snd (scanComment s) =
        (if fst ?r then snd (snd ?r) else onError (offset s - 1) CommentNotTerminated (snd (snd ?r)))"
      by (simp add: scanComment_def False Let_def case_prod_beta)
    with adv advances_onError [OF adv] show ?thesis by simp
  qed
qed

lemma left_insertTerm [simp]: "left (s\<lparr>insertTerm := b\<rparr>) = left s"
  by (simp add: left_def)

text \<open>Looking ahead puts the cursor back behind the first slash.\<close>

definition rewind :: "nat \<Rightarrow> Scanner \<Rightarrow> Scanner" where
  "rewind pos s = s\<lparr>ch := rune (CHR ''/''), offset := pos, readOffset := pos + 1\<rparr>"

lemma findLineEnd_state:
  "snd (findLineEnd s) = scan_next (rewind (offset s - 1) (snd (line_end_loop s)))"
  by (simp add: findLineEnd_def rewind_def Let_def case_prod_beta)

lemma left_findLineEnd:
  assumes "ch s \<noteq> eof" "ch (scan_next s) \<noteq> eof"
  shows "left (snd (findLineEnd (scan_next s))) < left s"
proof -
  let ?t = "rewind (offset (scan_next s) - 1) (snd (line_end_loop (scan_next s)))"
  have lt: "readOffset s < length (input s)" using assms(2) scan_next_eof [of s] by (meson not_le)
  have "left (scan_next ?t) < left ?t" by (rule left_scan_next_less) (simp add: rewind_def)
  also have "left ?t \<le> left s"
    using lt assms(1) line_end.keeps_input [of "scan_next s"] by (auto simp: left_def rewind_def)
  finally show ?thesis by (simp add: findLineEnd_state)
qed

lemma scan_slash_Again:
  assumes "scan_slash pos s = Again t"
  shows "(ch s = rune (CHR ''/'') \<or> ch s = rune (CHR ''*'')) \<and>
    (\<exists>v. (v = s \<or> v = snd (findLineEnd s)) \<and> t = (snd (scanComment v))\<lparr>insertTerm := False\<rparr>)"
  using assms by (auto simp: scan_slash_def Let_def case_prod_beta split: if_splits)

lemma scan_other_Again: "scan_other pos c s = Again t \<Longrightarrow> c = rune (CHR ''/'') \<and> scan_slash pos s = Again t"
  by (auto simp: scan_other_def Let_def case_prod_beta split: if_splits)

lemma scan_token_Again:
  "scan_token u s = Again t \<Longrightarrow> ch s = rune (CHR ''/'') \<and> scan_slash (offset s) (scan_next s) = Again t"
  by (auto simp: scan_token_def Let_def case_prod_beta dest!: scan_other_Again split: if_splits)

lemma left_scan_token_Again:
  assumes "scan_token u s = Again t"
  shows "left t < left s"
proof -
  from scan_token_Again [OF assms] have c: "ch s = rune (CHR ''/'')"
    and sl: "scan_slash (offset s) (scan_next s) = Again t" by simp_all
  have n: "ch (scan_next s) \<noteq> eof" using scan_slash_Again [OF sl] by auto
  from scan_slash_Again [OF sl] obtain v where v: "v = scan_next s \<or> v = snd (findLineEnd (scan_next s))"
    and t: "t = (snd (scanComment v))\<lparr>insertTerm := False\<rparr>" by blast
  have "left v < left s"
    using v left_scan_next_less [of s] left_findLineEnd [of s] c n by auto
  then show ?thesis using comment.forward [of v] by (simp add: t advances_def)
qed

function Scan :: "unicode \<Rightarrow> Scanner \<Rightarrow> nat \<times> Token \<times> string \<times> Scanner" where
  "Scan u s =
     (let s1 = skipWhitespace s; pos = offset s1 in
      case scan_token u s1 of
        Return tok lit s' \<Rightarrow> (pos, tok, lit, s')
      | Finish tok lit it s' \<Rightarrow>
          (pos, tok, lit, if \<not> has_flag (mode s') dontInsertTerms then s'\<lparr>insertTerm := it\<rparr> else s')
      | Again s' \<Rightarrow> Scan u s')"
  by pat_completeness auto
termination
proof (relation "measure (left \<circ> snd)", goal_cases)
  case (2 u s s1 pos t)
  have "left t < left s1" by (rule left_scan_token_Again) (use 2 in simp)
  also have "\<dots> \<le> left s" unfolding 2(1) by (rule left_skipWhitespace)
  finally show ?case by simp
qed simp

declare Scan.simps [simp del]

section \<open>What a token guarantees\<close>

text \<open>The scanner moved on, whatever happened to its pending terminator.\<close>

definition moves :: "Scanner \<Rightarrow> Scanner \<Rightarrow> bool" where
  "moves s s' \<longleftrightarrow> input s' = input s \<and> mode s' = mode s \<and> err s' = err s \<and> left s' \<le> left s \<and>
     numErrors s \<le> numErrors s' \<and> scan_inv s' \<and> offset s \<le> offset s'"

lemma moves_insertTerm [simp]: "moves s (s'\<lparr>insertTerm := b\<rparr>) = moves s s'"
  by (simp add: moves_def scan_inv_def cursor_wf_def line_table_wf_def)

lemma advances_moves: "scan_inv s \<Longrightarrow> advances s s' \<Longrightarrow> moves s s'"
  by (simp add: moves_def advances_def)

lemma moves_trans: "moves s t \<Longrightarrow> moves t v \<Longrightarrow> moves s v"
  by (auto simp: moves_def)

fun token_ok :: "Scanner \<Rightarrow> scan_outcome \<Rightarrow> bool" where
  "token_ok s (Finish tok lit it s') \<longleftrightarrow> advances s s' \<and> tok \<noteq> TERMINATOR \<and>
     (tok = EOF \<longleftrightarrow> ch s = eof) \<and> (tok = EOF \<longrightarrow> \<not> insertTerm s \<and> \<not> it) \<and> (tok \<noteq> EOF \<longrightarrow> left s' < left s) \<and>
     (IsLiteral tok \<or> IsKeyword tok \<longrightarrow> lit = byte_slice (offset s) (offset s') (input s))"
| "token_ok s (Return tok lit s') \<longleftrightarrow> tok = TERMINATOR \<and> lit = [CHR 0x0A] \<and> insertTerm s \<and>
     \<not> insertTerm s' \<and> moves s s'"
| "token_ok s (Again s') \<longleftrightarrow> moves s s' \<and> left s' < left s \<and> \<not> insertTerm s'"

lemma left_next_token: "ch s \<noteq> eof \<Longrightarrow> advances (scan_next s) s' \<Longrightarrow> advances s s' \<and> left s' < left s"
  using left_scan_next_less [of s] advances_trans [OF advances_next, of s s'] by (simp add: advances_def)

lemma token_ok_plain:
  assumes "ch s \<noteq> eof" "advances (scan_next s) s'" "IsOperator tok \<or> tok = ILLEGAL \<or> tok = COMMENT"
  shows "token_ok s (Finish tok lit it s')"
  using left_next_token [OF assms(1,2)] assms(1,3)
  by (auto simp: IsOperator_iff IsLiteral_iff IsKeyword_iff)

lemma scanString_eq:
  "scanString until esc ml s =
    (byte_slice (offset s - 1) (offset (string_loop (offset s - 1) until esc ml s)) (input s),
     string_loop (offset s - 1) until esc ml s)"
  by (simp add: scanString_def Let_def string_body.keeps_input)

lemma cursor_byte:
  assumes "scan_inv s" "ch s = byte c" "byte c < 128"
  shows "offset s < length (input s)" "readOffset s = offset s + 1" "input s ! offset s = c"
    "offset (scan_next s) = offset s + 1"
proof -
  have cur: "cursor_wf s" using assms(1) by (simp add: scan_inv_def)
  note a = cursor_ascii [OF cur, unfolded assms(2), OF byte_range(1) assms(3)]
  then show "offset s < length (input s)" "readOffset s = offset s + 1" "input s ! offset s = c" by simp_all
  show "offset (scan_next s) = offset s + 1" using a cursor_next(2) [OF cur] by simp
qed

lemma token_ok_string:
  assumes "scan_inv s" "ch s = byte c" "byte c < 128" "advances (scan_next s) v" "offset v = offset (scan_next s)"
    "tok = STRING \<or> tok = ILLEGAL"
  shows "token_ok s (case scanString until esc ml v of (lit, s') \<Rightarrow> Finish tok lit it s')"
proof -
  let ?s' = "string_loop (offset v - 1) until esc ml v"
  have "advances s ?s' \<and> left ?s' < left s"
    using left_next_token string_body.after [OF assms(4)] assms(2) by simp
  moreover have "input v = input s" using assms(4) by (simp add: advances_def)
  moreover have "offset v - 1 = offset s" using assms(5) cursor_byte(4) [OF assms(1-3)] by simp
  ultimately show ?thesis
    using assms(2,6) by (auto simp: scanString_eq IsKeyword_iff IsLiteral_iff)
qed

lemma cursor_unique:
  "cursor_wf s \<Longrightarrow> cursor_wf t \<Longrightarrow> input s = input t \<Longrightarrow> offset s = offset t \<Longrightarrow>
    ch s = ch t \<and> readOffset s = readOffset t"
  by (auto simp: cursor_wf_def split: if_splits)

lemma byte_slash [simp]: "byte (CHR ''/'') = 47"
  by (simp add: byte_def)

lemma slash_low: "byte (CHR ''/'') < 128"
  by simp

lemma scan_inv_rewind:
  assumes "scan_inv t" "input t = input s" "offset s \<le> offset t" "scan_inv s" "ch s = rune (CHR ''/'')"
  shows "scan_inv (rewind (offset s) t)" "left (rewind (offset s) t) = left s"
proof -
  note c = cursor_byte [OF assms(4,5) slash_low]
  have "drop (offset s) (input s) = CHR ''/'' # drop (Suc (offset s)) (input s)"
    using Cons_nth_drop_Suc [OF c(1)] c(3) by simp
  then have "cursor_wf (rewind (offset s) t)"
    using assms(2) c(1) by (simp add: rewind_def cursor_wf_def DecodeRune_ascii)
  moreover have "line_table_wf (rewind (offset s) t)"
    using assms(1,3) by (auto simp: scan_inv_def line_table_wf_def rewind_def intro: order_trans)
  ultimately show "scan_inv (rewind (offset s) t)" by (simp add: scan_inv_def)
  show "left (rewind (offset s) t) = left s"
    using c(2) assms(2,5) by (simp add: left_def rewind_def)
qed

lemma findLineEnd_advances:
  assumes "scan_inv s" "ch s = rune (CHR ''/'')"
  shows "advances (scan_next s) (snd (findLineEnd (scan_next s)))"
proof -
  let ?n = "scan_next s" let ?t = "snd (line_end_loop ?n)" let ?r = "rewind (offset s) ?t"
  have n: "scan_inv ?n" "offset ?n = offset s + 1"
    using next_char.keeps_inv [OF assms(1)] cursor_byte(4) [OF assms slash_low] by simp_all
  have adv: "advances ?n ?t" by (rule line_end.forward)
  then have t: "scan_inv ?t" "input ?t = input s" "offset s \<le> offset ?t" "numErrors ?n \<le> numErrors ?t"
    "mode ?t = mode s" "err ?t = err s" "insertTerm ?t = insertTerm s"
    using n by (simp_all add: advances_def)
  have inv: "scan_inv ?r" using scan_inv_rewind(1) [OF t(1-3) assms] .
  have eq: "snd (findLineEnd ?n) = scan_next ?r" using n(2) by (simp add: findLineEnd_state)
  have off: "offset (scan_next ?r) = offset ?n"
    using cursor_next(2) [of ?r] inv n(2) by (simp add: scan_inv_def rewind_def del: scan_next_simps)
  have inv': "scan_inv (scan_next ?r)" using next_char.keeps_inv [OF inv] .
  have "input (scan_next ?r) = input ?n" using t(2) by (simp add: rewind_def)
  with cursor_unique [of "scan_next ?r" ?n] inv' n off have "left (scan_next ?r) = left ?n"
    by (simp add: scan_inv_def left_def del: scan_next_simps(5,6))
  moreover have "numErrors ?t \<le> numErrors (scan_next ?r)" using numErrors_next [of ?r] by (simp add: rewind_def)
  ultimately show ?thesis
    using t(2,4-7) inv' off unfolding eq advances_def by (simp add: rewind_def del: scan_next_simps(5,6))
qed

lemma scan_slash_ok:
  assumes s: "scan_inv s" "ch s = rune (CHR ''/'')"
  shows "token_ok s (scan_slash (offset s) (scan_next s))"
proof -
  let ?n = "scan_next s"
  let ?p = "if insertTerm ?n then findLineEnd ?n else (False, ?n)"
  have ne: "ch s \<noteq> eof" using s(2) by simp
  have adv: "advances ?n (snd ?p)" using findLineEnd_advances [OF s] by simp
  have advc: "advances ?n (snd (scanComment (snd ?p)))" using comment.after [OF adv] .
  show ?thesis
  proof (cases "ch ?n = rune (CHR ''/'') \<or> ch ?n = rune (CHR ''*'')")
    case False
    then have "scan_slash (offset s) ?n = Finish DIV [] False ?n" by (auto simp: scan_slash_def)
    then show ?thesis using token_ok_plain [OF ne, of ?n DIV] by (simp add: IsOperator_iff)
  next
    case True
    show ?thesis
    proof (cases "fst ?p")
      case found: True
      then have it: "insertTerm s" by (simp split: if_splits)
      define t where "t = snd ?p"
      have res: "scan_slash (offset s) ?n = Return TERMINATOR [CHR 0x0A] ((rewind (offset s) t)\<lparr>insertTerm := False\<rparr>)"
        using True found by (simp add: scan_slash_def rewind_def case_prod_beta t_def)
      have "advances s t" unfolding t_def using adv advances_trans [OF advances_next] by blast
      then have t: "scan_inv t" "input t = input s" "offset s \<le> offset t" "numErrors s \<le> numErrors t"
        "mode t = mode s" "err t = err s" using s(1) by (simp_all add: advances_def)
      have "moves s (rewind (offset s) t)"
        using scan_inv_rewind [OF t(1-3) s] t(2,4-6) by (simp add: moves_def) (simp add: rewind_def)
      then show ?thesis using it by (simp add: res)
    next
      case nf: False
      have res: "scan_slash (offset s) ?n =
          (if \<not> has_flag (mode (snd (scanComment (snd ?p)))) IncludeComments
           then Again ((snd (scanComment (snd ?p)))\<lparr>insertTerm := False\<rparr>)
           else Finish COMMENT (fst (scanComment (snd ?p))) False (snd (scanComment (snd ?p))))"
        using True nf by (simp add: scan_slash_def case_prod_beta)
      have "advances s (snd (scanComment (snd ?p))) \<and> left (snd (scanComment (snd ?p))) < left s"
        using left_next_token [OF ne advc] .
      then show ?thesis
        using token_ok_plain [OF ne advc, of COMMENT] advances_moves [OF s(1)] unfolding res by simp
    qed
  qed
qed

lemma token_ok_if:
  "(P \<Longrightarrow> token_ok s a) \<Longrightarrow> (\<not> P \<Longrightarrow> token_ok s b) \<Longrightarrow> token_ok s (if P then a else b)"
  by simp

lemma token_ok_switch2:
  assumes "ch s \<noteq> eof" "IsOperator a" "IsOperator b"
  shows "token_ok s (case switch2 a b nxt (scan_next s) of (tok, s') \<Rightarrow> Finish tok [] it s')"
  using token_ok_plain [OF assms(1) next_char.forward, of b "[]" it]
    token_ok_plain [OF assms(1) advances_refl, of a "[]" it] assms(2,3)
  by (simp add: switch2_def)

lemma token_ok_pair:
  assumes "ch s \<noteq> eof" "IsOperator tok"
  shows "token_ok s (Finish tok [] it (if P then onError n m (scan_next s) else scan_next (scan_next s)))"
  using token_ok_plain [OF assms(1) advances_onError [OF advances_refl], of tok "[]" it n m]
    token_ok_plain [OF assms(1) next_char.forward, of tok "[]" it] assms(2)
  by simp

lemma token_ok_illegal:
  assumes "ch s \<noteq> eof"
  shows "token_ok s (Finish ILLEGAL lit it (if P then onError n m (scan_next s) else scan_next s))"
  using token_ok_plain [OF assms advances_onError [OF advances_refl], of ILLEGAL lit it n m]
    token_ok_plain [OF assms advances_refl, of ILLEGAL lit it]
  by simp

lemma scan_other_eof_ok:
  assumes "scan_inv s" "ch s = eof"
  shows "token_ok s (scan_other (offset s) (ch s) (scan_next s))"
proof -
  have "moves s (scan_next s)" by (rule advances_moves [OF assms(1) advances_next])
  then show ?thesis
    using advances_next [of s] unfolding scan_other_def if_P [OF assms(2)]
    by (simp add: assms(2) IsLiteral_iff IsKeyword_iff)
qed

lemma scan_other_newline_ok:
  assumes "scan_inv s" "ch s = rune (CHR 0x0A)" "insertTerm s"
  shows "token_ok s (scan_other (offset s) (ch s) (scan_next s))"
proof -
  have "moves s (scan_next s)" by (rule advances_moves [OF assms(1) advances_next])
  moreover have "ch s \<noteq> eof" using assms(2) by simp
  ultimately show ?thesis
    unfolding scan_other_def if_P [OF assms(2)] by (simp add: assms(3))
qed

lemma scan_other_ok:
  assumes s: "scan_inv s" "\<not> is_white s"
  shows "token_ok s (scan_other (offset s) (ch s) (scan_next s))"
proof (cases "ch s = eof \<or> ch s = rune (CHR 0x0A)")
  case True
  with s(2) have "ch s = eof \<or> (ch s = rune (CHR 0x0A) \<and> insertTerm s)" by (auto simp: is_white_def)
  with scan_other_eof_ok scan_other_newline_ok s(1) show ?thesis by blast
next
  case False
  then have ne: "ch s \<noteq> eof" "ch s \<noteq> rune (CHR 0x0A)" by simp_all
  note plain = token_ok_plain [OF ne(1) advances_refl]
  have single: "token_ok s (case scanString until esc ml (onError n m (scan_next s)) of (lit, s') \<Rightarrow> Finish ILLEGAL lit it s')"
    if "ch s = rune (CHR 0x27)" for until esc ml it n m
    by (rule token_ok_string [OF s(1) that]) (simp_all add: byte_def advances_onError)
  have quoted: "token_ok s (case scanString until esc ml (scan_next s) of (lit, s') \<Rightarrow> Finish STRING lit it s')"
    if "ch s = rune q" "byte q < 128" for until esc ml it q
    by (rule token_ok_string [OF s(1) that]) simp_all
  note double = quoted [of "CHR 0x22"] and backquoted = quoted [of "CHR 0x60"]
  show ?thesis
    unfolding scan_other_def Let_def if_not_P [OF ne(1)] if_not_P [OF ne(2)]
    by (intro token_ok_if token_ok_switch2 token_ok_pair plain token_ok_illegal single double backquoted
        scan_slash_ok [OF s(1)] ne(1); (assumption | simp add: IsOperator_iff byte_def))
qed

subsection \<open>Identifiers and numbers\<close>

lemma token_ok_ident:
  assumes "scan_inv s" "isLetter u (ch s)"
  shows "token_ok s (scan_token u s)"
proof -
  let ?s' = "ident_loop u (scan_next s)"
  let ?lit = "byte_slice (offset s) (offset ?s') (input s)"
  have ne: "ch s \<noteq> eof" using assms(2) eof_not_ident by auto
  have adv: "advances s ?s' \<and> left ?s' < left s" by (rule left_next_token [OF ne ident_rest.forward])
  have "scanIdentifier u s = (?lit, ?s')"
    using assms by (simp add: scanIdentifier_eq_plain scan_inv_def scanIdentifier_plain_def Let_def ident_rest.keeps_input)
  then have "\<exists>tok it. scan_token u s = Finish tok ?lit it ?s' \<and> (tok = IDENT \<or> tok = BOOL \<or> tok = NULL)"
    using assms(2) by (auto simp: scan_token_def Let_def Lookup_def)
  with adv ne show ?thesis by auto
qed

definition number_int :: "Scanner \<Rightarrow> Scanner" where
  "number_int s = (if ch s \<noteq> rune (CHR ''.'') then snd (digits s 0) else s)"

definition number_frac :: "Scanner \<Rightarrow> Scanner" where
  "number_frac s = (if ch s = rune (CHR ''.'') then snd (digits (scan_next s) 0) else s)"

definition number_exp :: "nat \<Rightarrow> Scanner \<Rightarrow> Scanner" where
  "number_exp start s =
     (if lower (ch s) = rune (CHR ''e'') then
        (let s = scan_next s;
             s = (if ch s = rune (CHR ''+'') \<or> ch s = rune (CHR ''-'') then scan_next s else s);
             (n, s) = digits s 0
         in (if n = 0 then onError start ExponentNoDigits s else s))
      else s)"

lemma scanNumber_stages:
  "scanNumber s =
    (if ch (number_int s) = rune (CHR ''.'') \<or> lower (ch (number_frac (number_int s))) = rune (CHR ''e'') then FLOAT else NUMBER,
     byte_slice (offset s) (offset (number_exp (offset s) (number_frac (number_int s))))
       (input (number_exp (offset s) (number_frac (number_int s)))),
     number_exp (offset s) (number_frac (number_int s)))"
  by (simp add: scanNumber_def number_int_def number_frac_def number_exp_def Let_def case_prod_beta)

lemma number_exp_advances: "advances s (number_exp start s)"
proof -
  have "advances s (scan_next s)" "advances s (scan_next (scan_next s))"
    by (rule advances_next, rule next_char.after [OF advances_next])
  note d = digit_run.after [OF this(1), of 0] digit_run.after [OF this(2), of 0]
  then show ?thesis
    unfolding number_exp_def by (simp add: Let_def case_prod_beta advances_onError)
qed

lemma number_frac_advances: "advances s (number_frac s)"
  using digit_run.after [OF advances_next] by (simp add: number_frac_def)

lemma scanNumber_advances:
  assumes "isDecimal (ch s) \<or> ch s = rune (CHR ''.'')"
  shows "advances (scan_next s) (number_exp start (number_frac (number_int s)))"
proof (cases "ch s = rune (CHR ''.'')")
  case True
  then have "number_frac (number_int s) = snd (digits (scan_next s) 0)"
    by (simp add: number_int_def number_frac_def)
  then show ?thesis by (metis digit_run.forward number_exp_advances advances_trans)
next
  case False
  with assms have "number_int s = snd (digits (scan_next s) 1)"
    by (simp add: number_int_def digits.simps [of s 0])
  then have "advances (scan_next s) (number_int s)" by (simp add: digit_run.forward)
  then show ?thesis by (meson number_frac_advances number_exp_advances advances_trans)
qed

lemma token_ok_number:
  assumes "scan_inv s" "\<not> isLetter u (ch s)"
    "isDecimal (ch s) \<or> (ch s = rune (CHR ''.'') \<and> isDecimal (peek s))"
  shows "token_ok s (scan_token u s)"
proof -
  let ?s' = "number_exp (offset s) (number_frac (number_int s))"
  have ne: "ch s \<noteq> eof" using assms(3) by (auto simp: isDecimal_def eof_def byte_def)
  have adv: "advances (scan_next s) ?s'" using assms(3) by (intro scanNumber_advances) auto
  have "advances s ?s' \<and> left ?s' < left s" by (rule left_next_token [OF ne adv])
  moreover have "input ?s' = input s" using adv by (simp add: advances_def)
  ultimately show ?thesis
    using assms ne by (auto simp: scan_token_def scanNumber_stages Let_def)
qed

lemma scan_token_ok: "scan_inv s \<Longrightarrow> \<not> is_white s \<Longrightarrow> token_ok s (scan_token u s)"
proof -
  assume s: "scan_inv s" "\<not> is_white s"
  show ?thesis
  proof (cases "isLetter u (ch s) \<or> isDecimal (ch s) \<or> (ch s = rune (CHR ''.'') \<and> isDecimal (peek s))")
    case True
    then show ?thesis using token_ok_ident token_ok_number s(1) by blast
  next
    case False
    then have "scan_token u s = scan_other (offset s) (ch s) (scan_next s)"
      by (auto simp: scan_token_def Let_def)
    then show ?thesis using scan_other_ok [OF s] by simp
  qed
qed

lemma DecodeRune_neq_eof:
  assumes "p \<noteq> []"
  shows "fst (DecodeRune p) \<noteq> eof"
  using assms
proof (cases rule: DecodeRune_cases)
  case ascii
  then show ?thesis by simp
qed (auto simp: eof_def RuneError_def)

lemma cursor_eof: "cursor_wf s \<Longrightarrow> ch s = eof \<longleftrightarrow> offset s = length (input s)"
  using DecodeRune_neq_eof [of "drop (offset s) (input s)"] by (auto simp: cursor_wf_def split: if_splits)

section \<open>Properties of Scan\<close>

lemma skipWhitespace_not_white: "\<not> is_white (skipWhitespace s)"
proof (induction s rule: skipWhitespace.induct)
  case (1 s)
  then show ?case by (subst skipWhitespace.simps) simp
qed

text \<open>The tokens still to come: characters left, and a pending terminator.\<close>

definition tokens_left :: "Scanner \<Rightarrow> nat" where
  "tokens_left s = 2 * left s + (if insertTerm s then 1 else 0)"

definition scan_post :: "Scanner \<Rightarrow> nat \<Rightarrow> Token \<Rightarrow> string \<Rightarrow> Scanner \<Rightarrow> bool" where
  "scan_post s pos tok lit s' \<longleftrightarrow> moves s s' \<and> offset s \<le> pos \<and> pos \<le> offset s' \<and>
     (tok \<noteq> EOF \<longrightarrow> tokens_left s' < tokens_left s) \<and>
     (tok = EOF \<longrightarrow> pos = length (input s) \<and> ch s' = eof \<and> \<not> insertTerm s') \<and>
     (IsLiteral tok \<or> IsKeyword tok \<longrightarrow> lit = byte_slice pos (offset s') (input s))"

lemma scan_post_skip:
  assumes "moves s t" "tokens_left t \<le> tokens_left s" "scan_post t pos tok lit s'"
  shows "scan_post s pos tok lit s'"
  using assms moves_trans [OF assms(1)] by (auto simp: scan_post_def moves_def)

lemma Scan_Again: "scan_token u (skipWhitespace s) = Again t \<Longrightarrow> Scan u s = Scan u t"
  by (subst Scan.simps) (simp add: Let_def)

lemma tokens_left_advances: "advances s s' \<Longrightarrow> tokens_left s' \<le> tokens_left s"
  by (simp add: tokens_left_def advances_def)

lemma scan_post_Return: "token_ok t (Return tok lit v) \<Longrightarrow> scan_post t (offset t) tok lit v"
  by (auto simp: scan_post_def tokens_left_def moves_def IsLiteral_iff IsKeyword_iff)

lemma scan_post_Finish:
  assumes t: "scan_inv t" and ok: "token_ok t (Finish tok lit it v)"
    and w: "w = v \<or> w = v\<lparr>insertTerm := it\<rparr>"
  shows "scan_post t (offset t) tok lit w"
proof -
  from ok have v: "advances t v" "tok \<noteq> EOF \<longrightarrow> left v < left t" "tok = EOF \<longleftrightarrow> ch t = eof"
    "tok = EOF \<longrightarrow> \<not> insertTerm t \<and> \<not> it"
    "IsLiteral tok \<or> IsKeyword tok \<longrightarrow> lit = byte_slice (offset t) (offset v) (input t)"
    by simp_all
  have mv: "moves t v" by (rule advances_moves [OF t v(1)])
  have w': "moves t w" "offset w = offset v" "left w = left v" "ch w = ch v" using mv w by auto
  have "offset t = length (input t) \<and> ch w = eof \<and> \<not> insertTerm w" if "tok = EOF"
  proof -
    have e: "offset t = length (input t)" using v(3) that t cursor_eof [of t] by (simp add: scan_inv_def)
    have "offset v = length (input v)"
      using mv e cursor_readOffset [of v] by (simp add: moves_def scan_inv_def)
    then have "ch v = eof" using mv cursor_eof [of v] by (simp add: moves_def scan_inv_def)
    moreover have "\<not> insertTerm v" "\<not> it" using v(1,4) that by (simp_all add: advances_def)
    ultimately show ?thesis using e w w'(4) by auto
  qed
  moreover have "tokens_left w < tokens_left t" if "tok \<noteq> EOF"
    using v(2) that w'(3) unfolding tokens_left_def by auto
  moreover have "offset t \<le> offset w" using w'(1) by (simp add: moves_def)
  ultimately show ?thesis using w'(1,2) v(5) unfolding scan_post_def by simp
qed

lemma Scan_post:
  assumes "scan_inv s" "Scan u s = (pos, tok, lit, s')"
  shows "scan_post s pos tok lit s'"
  using assms
proof (induction u s rule: Scan.induct)
  case (1 u s)
  let ?t = "skipWhitespace s"
  have adv: "advances s ?t" by (rule skip_white.forward)
  have t: "scan_inv ?t" "moves s ?t" "tokens_left ?t \<le> tokens_left s"
    using skip_white.keeps_inv [OF 1(2)] advances_moves [OF 1(2) adv] tokens_left_advances [OF adv] by simp_all
  note ok = scan_token_ok [OF t(1) skipWhitespace_not_white, of u]
  show ?case
  proof (cases "scan_token u ?t")
    case (Again v)
    with ok have v: "moves ?t v" "left v < left ?t" "\<not> insertTerm v" by simp_all
    have "scan_post v pos tok lit s'"
      using 1(1) [OF refl refl Again] v(1) 1(3) Scan_Again [OF Again] by (simp add: moves_def)
    moreover have "tokens_left v \<le> tokens_left s" using v(2,3) t(3) by (simp add: tokens_left_def)
    ultimately show ?thesis using scan_post_skip moves_trans [OF t(2) v(1)] by blast
  next
    case (Return tok' lit' v)
    then have eqs: "pos = offset ?t" "tok = tok'" "lit = lit'" "s' = v"
      using 1(3) by (simp_all add: Scan.simps [of u s] Let_def)
    with ok Return have "scan_post ?t pos tok lit s'" by (simp only: scan_post_Return)
    then show ?thesis by (rule scan_post_skip [OF t(2,3)])
  next
    case (Finish tok' lit' it v)
    then have eqs: "pos = offset ?t" "tok = tok'" "lit = lit'" "s' = v \<or> s' = v\<lparr>insertTerm := it\<rparr>"
      using 1(3) by (auto simp: Scan.simps [of u s] Let_def split: if_splits)
    have "scan_post ?t pos tok lit s'"
      unfolding eqs(1-3) using ok unfolding Finish by (rule scan_post_Finish [OF t(1) _ eqs(4)])
    then show ?thesis by (rule scan_post_skip [OF t(2,3)])
  qed
qed

section \<open>A new scanner\<close>

lemma line_starts_0 [simp]: "line_starts inp 0 = [0]"
  by (simp add: line_starts_def)

lemma first_char_inv:
  assumes "readOffset s = 0" "ch s = 0" "lines (src_file s) = [0]"
  shows "scan_inv (scan_next s)"
proof -
  have "cursor_wf (scan_next s)"
    using assms scan_next_decode [of s] scan_next_eof [of s] by (auto simp: cursor_wf_def)
  moreover have "line_table_wf (scan_next s)"
    using assms unfolding line_table_wf_def by (intro exI [of _ 0]) simp
  ultimately show ?thesis by (simp add: scan_inv_def)
qed

lemma New_inv:
  assumes "lines f = [0]"
  shows "scan_inv (New f inp eh m)" "input (New f inp eh m) = inp" "\<not> insertTerm (New f inp eh m)"
proof -
  let ?s = "scan_next \<lparr>src_file = f, input = inp, err = eh, errs = [], mode = m, ch = 0, offset = 0,
    readOffset = 0, insertTerm = False, numErrors = 0\<rparr>"
  have "scan_inv ?s" using assms by (intro first_char_inv) simp_all
  then show "scan_inv (New f inp eh m)"
    using next_char.keeps_inv by (auto simp: New_def Let_def)
  show "input (New f inp eh m) = inp" "\<not> insertTerm (New f inp eh m)" by (simp_all add: New_def Let_def)
qed

text \<open>
  C23: from a scanner in a consistent state, every call of \<open>Scan\<close> returns and leaves a consistent
  state; it never moves back, it uses up input or a pending terminator unless it returns the end
  of the file, and the text of a literal or keyword is exactly the input from its position to the
  new cursor.
\<close>

theorem Scan_progress:
  assumes "scan_inv s" and "Scan u s = (pos, tok, lit, s')"
  shows "scan_inv s' \<and> input s' = input s \<and> offset s \<le> pos \<and> pos \<le> offset s' \<and>
    (tok \<noteq> EOF \<longrightarrow> tokens_left s' < tokens_left s) \<and>
    (tok = EOF \<longrightarrow> pos = length (input s)) \<and>
    (IsLiteral tok \<or> IsKeyword tok \<longrightarrow> lit = byte_slice pos (offset s') (input s))"
  using Scan_post [OF assms] by (simp add: scan_post_def moves_def)

abbreviation sample_scanner :: Scanner where
  "sample_scanner \<equiv> New (NewFile ''a.alloy'') ''ab = 1'' True 0"

lemma sample_scanner_inv: "scan_inv sample_scanner"
  by (rule New_inv) (simp add: NewFile_def)

theorem scanIdentifier_equiv_plain_witness:
  "scan_inv sample_scanner \<and> isLetter ascii_tables (ch sample_scanner) \<and>
   scanIdentifier ascii_tables sample_scanner = scanIdentifier_plain ascii_tables sample_scanner"
proof -
  have "ch sample_scanner = 97"
    by (simp add: New_def scan_next_def add_line_def byte_def RuneSelf_def bom_def)
  then have "isLetter ascii_tables (ch sample_scanner)" by (simp add: isLetter_iff)
  with scanIdentifier_equiv_plain [OF sample_scanner_inv] sample_scanner_inv show ?thesis by blast
qed

theorem Scan_progress_witness:
  "\<exists>pos tok lit s'. scan_inv sample_scanner \<and> Scan ascii_tables sample_scanner = (pos, tok, lit, s') \<and>
    scan_inv s' \<and> pos \<le> offset s'"
proof -
  obtain pos tok lit s' where "Scan ascii_tables sample_scanner = (pos, tok, lit, s')" by (metis prod_cases4)
  with Scan_progress [OF sample_scanner_inv this] sample_scanner_inv show ?thesis by blast
qed

section \<open>Tokenising a whole input\<close>

text \<open>All tokens up to the end of the file; the first argument bounds the number of calls.\<close>

fun scan_all :: "nat \<Rightarrow> unicode \<Rightarrow> Scanner \<Rightarrow> (nat \<times> Token \<times> string) list option" where
  "scan_all 0 u s = None"
| "scan_all (Suc n) u s =
     (case Scan u s of (pos, tok, lit, s') \<Rightarrow>
        if tok = EOF then Some [(pos, tok, lit)] else map_option ((#) (pos, tok, lit)) (scan_all n u s'))"

lemma scan_all_returns:
  assumes "scan_inv s" "tokens_left s < n"
  shows "\<exists>ts. scan_all n u s = Some ts \<and> ts \<noteq> [] \<and> sorted (map fst ts) \<and>
    (\<forall>t \<in> set ts. offset s \<le> fst t) \<and> fst (last ts) = length (input s) \<and> fst (snd (last ts)) = EOF \<and>
    EOF \<notin> set (map (fst \<circ> snd) (butlast ts))"
  using assms
proof (induction n arbitrary: s)
  case (Suc n)
  obtain pos tok lit s' where sc: "Scan u s = (pos, tok, lit, s')" by (metis prod_cases4)
  note post = Scan_post [OF Suc.prems(1) sc, unfolded scan_post_def moves_def]
  show ?case
  proof (cases "tok = EOF")
    case True
    with post show ?thesis by (simp add: sc)
  next
    case False
    then obtain ts where ts: "scan_all n u s' = Some ts" "ts \<noteq> []" "sorted (map fst ts)"
      "\<forall>t \<in> set ts. offset s' \<le> fst t" "fst (last ts) = length (input s')" "fst (snd (last ts)) = EOF"
      "EOF \<notin> set (map (fst \<circ> snd) (butlast ts))"
      using Suc.IH [of s'] post Suc.prems(2) by auto
    with False post show ?thesis
      by (intro exI [of _ "(pos, tok, lit) # ts"]) (auto simp: sc intro: order_trans)
  qed
qed simp

lemma left_bound: "left s \<le> length (input s) + 1"
  by (auto simp: left_def)

text \<open>
  C35: tokenising any input with a new scanner ends: at most two calls of \<open>Scan\<close> per byte and four
  more reach the end of the file. The tokens come in the order of their positions, and the only
  end-of-file token is the last one, at the length of the input.
\<close>

theorem scan_all_terminates:
  "\<exists>ts. scan_all (2 * length inp + 4) u (New (NewFile name) inp eh m) = Some ts \<and>
     sorted (map fst ts) \<and> ts \<noteq> [] \<and> fst (last ts) = length inp \<and> fst (snd (last ts)) = EOF \<and>
     EOF \<notin> set (map (fst \<circ> snd) (butlast ts))"
proof -
  let ?s = "New (NewFile name) inp eh m"
  have f: "lines (NewFile name) = [0]" by (simp add: NewFile_def)
  have "tokens_left ?s < 2 * length inp + 4"
    using left_bound [of ?s] New_inv [OF f, of inp eh m] by (simp add: tokens_left_def)
  from scan_all_returns [OF New_inv(1) [OF f] this, of u] show ?thesis
    unfolding New_inv(2) [OF f] by blast
qed

section \<open>Line and column of a token\<close>

lemma line_starts_append:
  assumes "j \<le> k"
  shows "line_starts inp k = line_starts inp j @ map (\<lambda>i. int i + 1) (filter (\<lambda>i. inp ! i = CHR 0x0A) [j..<k])"
proof -
  have "[0..<k] = [0..<j] @ [j..<k]" using assms by (metis le_add_diff_inverse upt_add_eq_append zero_le)
  then show ?thesis by (simp add: line_starts_def)
qed

lemma length_line_starts:
  assumes "k \<le> length inp"
  shows "length (line_starts inp k) = 1 + length (filter (\<lambda>c. c = CHR 0x0A) (take k inp))"
proof -
  have "take k inp = map ((!) inp) [0..<k]" using assms by (metis add_0 min.absorb2 map_nth take_map take_upt diff_zero length_upt)
  then show ?thesis by (simp add: line_starts_def filter_map comp_def)
qed

lemma line_starts_index:
  assumes "j \<le> k" "i < length (line_starts inp k)" "line_starts inp k ! i \<le> int j"
    "i + 1 < length (line_starts inp k) \<longrightarrow> int j < line_starts inp k ! (i + 1)"
  shows "i = length (line_starts inp j) - 1" "line_starts inp k ! i = last (line_starts inp j)"
proof -
  define b where "b = map (\<lambda>i. int i + 1) (filter (\<lambda>i. inp ! i = CHR 0x0A) [j..<k])"
  let ?a = "line_starts inp j"
  have k: "line_starts inp k = ?a @ b" unfolding b_def by (rule line_starts_append [OF assms(1)])
  have b: "int j < x" if "x \<in> set b" for x using that by (auto simp: b_def)
  have a: "x \<le> int j" if "x \<in> set ?a" for x using that by (auto simp: line_starts_def)
  have ne: "?a \<noteq> []" by (simp add: line_starts_def)
  have lt: "i < length ?a"
  proof (rule ccontr)
    assume "\<not> i < length ?a"
    then have "line_starts inp k ! i \<in> set b"
      using assms(2) unfolding k by (simp add: nth_append)
    with b assms(3) show False by fastforce
  qed
  have "\<not> i + 1 < length ?a"
  proof
    assume "i + 1 < length ?a"
    then have "line_starts inp k ! (i + 1) \<in> set ?a" "i + 1 < length (line_starts inp k)"
      unfolding k by (simp_all add: nth_append)
    with a assms(4) show False by fastforce
  qed
  with lt show i: "i = length ?a - 1" by linarith
  then show "line_starts inp k ! i = last ?a" using lt ne unfolding k by (simp add: nth_append last_conv_nth)
qed

text \<open>
  C24: the line table that scanning builds gives exact positions: for every token the scanner
  returns, also after it looked ahead in comments, the file resolves the position of the token to
  one plus the number of newlines before it and the 1-based distance from the last line start.
\<close>

theorem Scan_position_exact:
  assumes "scan_inv s" and "Scan u s = (pos, tok, lit, s')" and "h a = Some (src_file s')"
  shows "Pos_Position h \<lparr>pos_file = Some a, off = int pos\<rparr> =
    Inr \<lparr>Filename = filename (src_file s'), Offset = int pos,
         Line = 1 + int (length (filter (\<lambda>c. c = CHR 0x0A) (take pos (input s)))),
         Column = int pos - last (line_starts (input s) pos) + 1\<rparr>"
proof -
  have post: "scan_inv s'" "input s' = input s" "pos \<le> offset s'"
    using Scan_post [OF assms(1,2)] by (simp_all add: scan_post_def moves_def)
  then obtain k where k: "offset s' \<le> k" "k \<le> length (input s)" "lines (src_file s') = line_starts (input s) k"
    by (auto simp: scan_inv_def line_table_wf_def)
  have le: "pos \<le> k" "pos \<le> length (input s)" using post(3) k(1,2) by simp_all
  obtain i where i: "i < length (line_starts (input s) k)" "searchInts (line_starts (input s) k) (int pos) = int i"
    "line_starts (input s) k ! i \<le> int pos"
    "i + 1 < length (line_starts (input s) k) \<longrightarrow> int pos < line_starts (input s) k ! (i + 1)"
    using searchInts_correct [OF lines_wf_line_starts, of "int pos" "input s" k] by auto
  note ix = line_starts_index [OF le(1) i(1,3,4)]
  have "int i + 1 = 1 + int (length (filter (\<lambda>c. c = CHR 0x0A) (take pos (input s))))"
    using length_line_starts [OF le(2)] by (simp add: ix(1))
  with i(2) ix(2) show ?thesis
    by (simp add: Pos_Position_def PositionFor_def NoPos_def assms(3) k(3))
qed

theorem Scan_position_exact_witness:
  "\<exists>pos tok lit s'. scan_inv sample_scanner \<and> Scan ascii_tables sample_scanner = (pos, tok, lit, s') \<and>
    map_sum id Line (Pos_Position [0 \<mapsto> src_file s'] \<lparr>pos_file = Some 0, off = int pos\<rparr>) =
      Inr (1 + int (length (filter (\<lambda>c. c = CHR 0x0A) (take pos (input sample_scanner)))))"
proof -
  obtain pos tok lit s' where sc: "Scan ascii_tables sample_scanner = (pos, tok, lit, s')" by (metis prod_cases4)
  have h: "[0 \<mapsto> src_file s'] (0 :: nat) = Some (src_file s')" by simp
  show ?thesis
    using Scan_position_exact [where h = "[0 \<mapsto> src_file s']" and a = 0, OF sample_scanner_inv sc h]
      sc sample_scanner_inv by auto
qed

section \<open>Numeric escapes\<close>

text \<open>The next characters, one per call of \<open>next\<close>, and the number their digits stand for.\<close>

fun next_chars :: "nat \<Rightarrow> Scanner \<Rightarrow> int list" where
  "next_chars 0 s = []"
| "next_chars (Suc n) s = ch s # next_chars n (scan_next s)"

definition escape_value :: "nat \<Rightarrow> int list \<Rightarrow> nat" where
  "escape_value base cs = foldl (\<lambda>x c. x * base + nat (digitVal c)) 0 cs"

lemma digitVal_bounds: "0 \<le> digitVal c \<and> digitVal c \<le> 16"
proof (cases "48 \<le> c \<and> c \<le> 57")
  case False
  then show ?thesis by (simp add: digitVal_def)
qed (simp add: digitVal_def)

lemma next_chars_ascii:
  assumes "cursor_wf s" "\<forall>c \<in> set (take n (drop (offset s) (input s))). byte c < 128" "offset s + n \<le> length (input s)"
  shows "next_chars n s = map byte (take n (drop (offset s) (input s)))"
  using assms
proof (induction n arbitrary: s)
  case (Suc n)
  then have lt: "offset s < length (input s)" by simp
  have d: "drop (offset s) (input s) = input s ! offset s # drop (Suc (offset s)) (input s)"
    using Cons_nth_drop_Suc [OF lt] by simp
  with Suc.prems(2) have "byte (input s ! offset s) < 128" by simp
  with Suc.prems(1) lt d have c: "ch s = byte (input s ! offset s)" "readOffset s = offset s + 1"
    by (simp_all add: cursor_wf_def DecodeRune_ascii)
  have "next_chars n (scan_next s) = map byte (take n (drop (offset (scan_next s)) (input (scan_next s))))"
    using Suc.prems d c(2) cursor_next [OF Suc.prems(1)] by (intro Suc.IH) (simp_all del: scan_next_simps(5))
  then show ?case using c d cursor_next(2) [OF Suc.prems(1)] by (simp del: scan_next_simps(5))
qed simp

lemma word32_of_nat_less: "m < 2 ^ 32 \<Longrightarrow> n < 2 ^ 32 \<Longrightarrow> (of_nat m :: 32 word) < of_nat n \<longleftrightarrow> m < n"
  by (simp add: word_of_nat_less_iff take_bit_nat_eq_self)

lemma word32_of_nat_le: "m < 2 ^ 32 \<Longrightarrow> n < 2 ^ 32 \<Longrightarrow> (of_nat m :: 32 word) \<le> of_nat n \<longleftrightarrow> m \<le> n"
  by (simp add: word_of_nat_less_eq_iff take_bit_nat_eq_self)

lemma escape_digits_value:
  assumes "0 < base" "base \<le> 16" "(x + 1) * base ^ n \<le> 2 ^ 32" "mx < 2 ^ 32"
    "\<forall>c \<in> set (next_chars n s). digitVal c < int base"
  shows "escape_digits start n (of_nat base) (of_nat mx) (of_nat x) s =
    (let v = foldl (\<lambda>x c. x * base + nat (digitVal c)) x (next_chars n s); s' = (scan_next ^^ n) s
     in if v > mx \<or> (0xD800 \<le> v \<and> v < 0xE000) then onError start InvalidCodePoint s' else s')"
  using assms(3,5)
proof (induction n arbitrary: x s)
  case 0
  then have x: "x < 2 ^ 32" by simp
  have "(of_nat x :: 32 word) > of_nat mx \<longleftrightarrow> x > mx"
    by (rule word32_of_nat_less [OF assms(4) x])
  moreover have "(of_nat x :: 32 word) \<ge> 0xD800 \<longleftrightarrow> x \<ge> 0xD800"
    using word32_of_nat_le [of "0xD800" x] x by simp
  moreover have "(of_nat x :: 32 word) < 0xE000 \<longleftrightarrow> x < 0xE000"
    using word32_of_nat_less [of x "0xE000"] x by simp
  ultimately show ?case by simp
next
  case (Suc n)
  define d where "d = nat (digitVal (ch s))"
  have dv: "digitVal (ch s) = int d" using digitVal_bounds [of "ch s"] by (simp add: d_def)
  have db: "d < base" using Suc.prems(2) by (simp add: dv)
  have "\<not> (of_nat d :: 32 word) \<ge> of_nat base"
    using word32_of_nat_le [of base d] db assms(2) by simp
  then have step: "escape_digits start (Suc n) (of_nat base) (of_nat mx) (of_nat x) s =
      escape_digits start n (of_nat base) (of_nat mx) (of_nat (x * base + d)) (scan_next s)"
    by (simp add: dv Let_def)
  have "(x * base + d + 1) * base ^ n \<le> (x + 1) * base * base ^ n"
    using db by (intro mult_right_mono) (simp_all add: algebra_simps)
  also have "\<dots> \<le> 2 ^ 32" using Suc.prems(1) by (simp only: power_Suc mult.assoc)
  finally have "(x * base + d + 1) * base ^ n \<le> 2 ^ 32" .
  from Suc.IH [OF this, of "scan_next s"] Suc.prems(2) show ?case
    unfolding step by (simp add: dv funpow_swap1)
qed

text \<open>
  C26: a numeric escape sequence is evaluated without wrap-around: when all its digits are legal,
  the unsigned 32-bit accumulator holds the number they stand for, and an error is reported
  exactly when that number is above the limit or a surrogate, after consuming the digits. The
  hypothesis on the base covers every escape of the language (3 octal, 2, 4 and 8 hexadecimal
  digits).
\<close>

theorem escape_digits_exact:
  assumes "0 < base" and "base \<le> 16" and "base ^ n \<le> 2 ^ 32" and "mx < 2 ^ 32"
    and "\<forall>c \<in> set (next_chars n s). digitVal c < int base"
  shows "escape_digits start n (of_nat base) (of_nat mx) 0 s =
    (let v = escape_value base (next_chars n s); s' = (scan_next ^^ n) s
     in if v > mx \<or> (0xD800 \<le> v \<and> v < 0xE000) then onError start InvalidCodePoint s' else s')"
  using escape_digits_value [OF assms(1,2), of 0 n mx s start] assms(3-5) by (simp add: escape_value_def)

theorem escape_digits_exact_witness:
  "escape_digits 0 8 (of_nat 16) (of_nat 0x10FFFF) 0 (New (NewFile '''') ''FFFFFFFF'' True 0) =
     onError 0 InvalidCodePoint ((scan_next ^^ 8) (New (NewFile '''') ''FFFFFFFF'' True 0))"
proof -
  let ?s = "New (NewFile '''') ''FFFFFFFF'' True 0"
  have "scan_inv ?s" "input ?s = ''FFFFFFFF''" by (rule New_inv; simp add: NewFile_def)+
  moreover have "offset ?s = 0"
    by (simp add: New_def scan_next_def add_line_def byte_def RuneSelf_def bom_def)
  ultimately have cs: "next_chars 8 ?s = replicate 8 70"
    using next_chars_ascii [of ?s 8] by (simp add: scan_inv_def byte_def numeral_eq_Suc)
  have d: "digitVal 70 = 15" by (simp add: digitVal_def lower_eq)
  have "replicate 8 (70 :: int) = [70, 70, 70, 70, 70, 70, 70, 70]" by (simp add: numeral_eq_Suc)
  then have "escape_value 16 (replicate 8 70) = 0xFFFFFFFF" by (simp add: escape_value_def d)
  then show ?thesis
    using escape_digits_exact [of 16 8 "0x10FFFF" ?s 0] unfolding cs by (simp add: d Let_def)
qed

section \<open>Operators\<close>

lemma Scan_operator_cases:
  "IsOperator t \<Longrightarrow> t \<in> set operator_tokens"
  by (simp add: operator_tokens_def all_tokens_complete)

lemma Scan_one_char:
  assumes "0 < byte c" "byte c < 128" "\<not> isLetter u (byte c)" "\<not> isDecimal (byte c)"
    "c \<noteq> CHR '' ''" "c \<noteq> CHR 0x09" "c \<noteq> CHR 0x0D" "c \<noteq> CHR 0x0A"
    and s: "s = New (NewFile '''') (c # cs) False 0" and peek: "c = CHR ''.'' \<Longrightarrow> cs = []"
  shows "skipWhitespace s = s" "offset s = 0" "scan_token u s = scan_other 0 (byte c) (scan_next s)"
proof -
  have c: "ch s = byte c" "offset s = 0" "readOffset s = 1" "input s = c # cs"
    using assms(1,2) unfolding s by (simp_all add: New_def scan_next_def add_line_def RuneSelf_def bom_def)
  show "offset s = 0" by (rule c)
  have "byte c \<noteq> 10" using assms(8) byte_inject [of c "CHR 0x0A"] by simp
  then show "skipWhitespace s = s" using assms(5-7) c(1) by (subst skipWhitespace.simps) (simp add: is_white_def)
  show "scan_token u s = scan_other 0 (byte c) (scan_next s)"
    using assms(3,4) c peek by (auto simp: scan_token_def Let_def peek_def isDecimal_def)
qed

lemma second_char:
  assumes "0 < byte c" "byte c < 128"
  shows "ch (scan_next (New (NewFile '''') [c] eh m)) = eof"
    and "0 < byte d \<Longrightarrow> byte d < 128 \<Longrightarrow> ch (scan_next (New (NewFile '''') (c # d # cs) eh m)) = byte d"
  using assms by (simp_all add: New_def scan_next_def add_line_def RuneSelf_def bom_def)

definition op_char :: "char \<Rightarrow> bool" where
  "op_char c \<longleftrightarrow> c \<in> set ''|&!=<>+-*/%^{}()[],.''"

lemma op_char_class:
  assumes "op_char c"
  shows "0 < byte c" "byte c < 128" "\<not> isLetter u (byte c)" "\<not> isDecimal (byte c)"
    "c \<noteq> CHR '' ''" "c \<noteq> CHR 0x09" "c \<noteq> CHR 0x0D" "c \<noteq> CHR 0x0A"
  using assms by (auto simp: op_char_def isLetter_iff isDecimal_def byte_def)

lemma Scan_op_char:
  assumes "op_char c" "c = CHR ''.'' \<Longrightarrow> cs = []"
    "\<exists>it v. scan_other 0 (byte c) (scan_next (New (NewFile '''') (c # cs) False 0)) = Finish tok lit it v"
  shows "\<exists>s'. Scan u (New (NewFile '''') (c # cs) False 0) = (0, tok, lit, s')"
proof -
  note cls = op_char_class [OF assms(1)]
  from Scan_one_char [OF cls(1,2) cls(3) cls(4-8) refl assms(2)] assms(3) show ?thesis
    by (auto simp: Scan.simps [of u "New (NewFile '''') (c # cs) False 0"] Let_def)
qed

lemma Scan_operators:
  "\<forall>t \<in> set operator_tokens. \<exists>s'. Scan u (New (NewFile '''') (tokenNames t) False 0) = (0, t, [], s')"
  unfolding operator_tokens_eq list.set ball_simps tokenNames.simps
  by (intro conjI TrueI; rule Scan_op_char;
      auto simp: op_char_def scan_other_def scan_slash_def switch2_def second_char byte_def)

text \<open>
  C27: scanning the text of an operator or delimiter token gives that token back, at position 0
  and with an empty literal, for every operator of the language.
\<close>

theorem Scan_operator_roundtrip:
  assumes "IsOperator t"
  shows "\<exists>s'. Scan u (New (NewFile '''') (Token_String t) False 0) = (0, t, [], s')"
  using Scan_operators [of u] Scan_operator_cases [OF assms] Token_String_operator [OF assms] by simp

theorem Scan_operator_roundtrip_witness:
  "IsOperator NEQ \<and> (\<exists>s'. Scan ascii_tables (New (NewFile '''') ''!='' False 0) = (0, NEQ, [], s'))"
proof -
  have op: "IsOperator NEQ" by (simp add: IsOperator_iff)
  have str: "Token_String NEQ = ''!=''" by (simp add: Token_String_def all_tokens_def)
  show ?thesis using Scan_operator_roundtrip [OF op, of ascii_tables] op unfolding str by blast
qed

end
