(* ===== verification/Identifier.thy ===== *)
theory Identifier
  imports Scanner_Scan
begin

text \<open>
  Identifier checks and repair, \<^verbatim>\<open>syntax/scanner/identifier.go\<close>: \<open>IsValidIdentifier\<close> is
  characterised by the runes of the string, and \<open>SanitizeIdentifier\<close> is shown to give a valid
  identifier for every string except the keywords, for which it panics.
\<close>

section \<open>The functions\<close>

definition IsValidIdentifier :: "unicode \<Rightarrow> string \<Rightarrow> bool" where
  "IsValidIdentifier u inp =
     (let s = New (NewFile '''') inp False 0 in
      case Scan u s of (_, tok, lit, _) \<Rightarrow> tok = IDENT \<and> lit = inp)"

text \<open>The loop of \<open>generateNewIdentifier\<close>; \<open>first\<close> is the test \<open>i == 0\<close> on the byte index.\<close>

fun generate_loop :: "unicode \<Rightarrow> bool \<Rightarrow> int list \<Rightarrow> string \<Rightarrow> string" where
  "generate_loop u first [] newValue = newValue"
| "generate_loop u first (c # cs) newValue =
     (let newValue = (if first then (if isDigit u c then ''_'' else newValue) else newValue) in
      if \<not> (isLetter u c \<or> isDigit u c) then generate_loop u False cs (newValue @ ''_'')
      else generate_loop u False cs (newValue @ string_of_rune c))"

definition generateNewIdentifier :: "unicode \<Rightarrow> string \<Rightarrow> string" where
  "generateNewIdentifier u inp = generate_loop u True (string_runes inp) ''''"

datatype sanitize_failure = EmptyString | PanicInvalid string

definition SanitizeIdentifier :: "unicode \<Rightarrow> string \<Rightarrow> sanitize_failure + string" where
  "SanitizeIdentifier u inp =
     (if inp = '''' then Inl EmptyString
      else if IsValidIdentifier u inp then Inr inp
      else let newValue = generateNewIdentifier u inp in
        if \<not> IsValidIdentifier u newValue then Inl (PanicInvalid newValue) else Inr newValue)"

section \<open>Valid identifiers\<close>

definition keyword_names :: "string set" where
  "keyword_names = {''true'', ''false'', ''null''}"

definition ident_runes :: "unicode \<Rightarrow> int list \<Rightarrow> bool" where
  "ident_runes u rs \<longleftrightarrow> (case rs of [] \<Rightarrow> False
     | r # rs \<Rightarrow> isLetter u r \<and> (\<forall>x \<in> set rs. isLetter u x \<or> isDigit u x))"

text \<open>The byte order mark is a format character: neither a letter nor a digit.\<close>

definition bom_not_ident :: "unicode \<Rightarrow> bool" where
  "bom_not_ident u \<longleftrightarrow> \<not> u_IsLetter u bom \<and> \<not> u_IsDigit u bom"

lemma string_runes_cursor:
  assumes "cursor_wf s" "offset s < length (input s)"
  shows "string_runes (drop (offset s) (input s)) = ch s # string_runes (drop (readOffset s) (input s))"
  using assms by (subst string_runes.simps) (simp add: cursor_wf_def add.commute)

lemma ident_loop_to_end:
  assumes "cursor_wf s"
  shows "offset (ident_loop u s) = length (input s) \<longleftrightarrow>
    (\<forall>x \<in> set (string_runes (drop (offset s) (input s))). isLetter u x \<or> isDigit u x)"
  using assms
proof (induction u s rule: ident_loop.induct)
  case (1 u s)
  show ?case
  proof (cases "isLetter u (ch s) \<or> isDigit u (ch s)")
    case True
    then have lt: "offset s < length (input s)"
      using 1(2) eof_not_ident by (auto simp: cursor_wf_def split: if_splits)
    have "ident_loop u s = ident_loop u (scan_next s)" using True by (subst ident_loop.simps) simp
    with 1(1) [OF True cursor_next(1) [OF 1(2)]] True show ?thesis
      by (simp add: string_runes_cursor [OF 1(2) lt] cursor_next(2) [OF 1(2)] del: scan_next_simps(5))
  next
    case False
    have "offset s = length (input s) \<or> offset s < length (input s)"
      using cursor_readOffset [OF 1(2)] by linarith
    with False show ?thesis
      by (auto simp: ident_loop_stop string_runes_cursor [OF 1(2)])
  qed
qed

text \<open>A token at the cursor itself means that nothing was skipped.\<close>

lemma Scan_at_cursor:
  assumes inv: "scan_inv s" and sc: "Scan u s = (pos, tok, lit, s')" and pos: "pos = offset s"
  shows "(\<exists>it v. scan_token u s = Finish tok lit it v \<and> offset s' = offset v) \<or> tok = TERMINATOR"
proof -
  have nw: "\<not> is_white s"
  proof
    assume w: "is_white s"
    then have "Scan u s = Scan u (scan_next s)"
      by (subst (1 2) Scan.simps) (simp add: skipWhitespace.simps [of s])
    then have "offset (scan_next s) \<le> pos"
      using Scan_post [OF next_char.keeps_inv [OF inv], of u pos tok lit s'] sc by (simp add: scan_post_def)
    moreover from w have "0 \<le> ch s" "ch s < 128" by (auto simp: is_white_def byte_def)
    then have "offset (scan_next s) = offset s + 1"
      using cursor_ascii(2) [of s] cursor_next(2) [of s] inv by (simp add: scan_inv_def del: scan_next_simps)
    ultimately show False using pos by simp
  qed
  then have skip: "skipWhitespace s = s" by (subst skipWhitespace.simps) simp
  note ok = scan_token_ok [OF inv nw, of u]
  show ?thesis
  proof (cases "scan_token u s")
    case (Again v)
    with ok have v: "moves s v" "left v < left s" by simp_all
    have "Scan u s = Scan u v" using Scan_Again [of u s v] Again skip by simp
    then have "offset v \<le> pos" using Scan_post [of v u pos tok lit s'] v(1) sc by (simp add: scan_post_def moves_def)
    then have "offset v = offset s" using v(1) pos by (simp add: moves_def)
    then have "left v = left s"
      using cursor_unique [of v s] v(1) inv by (simp add: moves_def scan_inv_def left_def)
    with v(2) show ?thesis by simp
  next
    case (Return tok' lit' v)
    with ok sc show ?thesis by (simp add: Scan.simps [of u s] skip Let_def)
  next
    case (Finish tok' lit' it v)
    with sc show ?thesis by (auto simp: Scan.simps [of u s] skip Let_def split: if_splits)
  qed
qed

text \<open>The state of the scanner that checks a string.\<close>

abbreviation check_scanner :: "string \<Rightarrow> Scanner" where
  "check_scanner inp \<equiv> New (NewFile '''') inp False 0"

lemma check_scanner_inv: "scan_inv (check_scanner inp)" "input (check_scanner inp) = inp"
  by (rule New_inv; simp add: NewFile_def)+

lemma check_scanner_start:
  assumes "inp \<noteq> []"
  shows "fst (DecodeRune inp) \<noteq> bom \<Longrightarrow> offset (check_scanner inp) = 0 \<and> ch (check_scanner inp) = fst (DecodeRune inp)"
    and "fst (DecodeRune inp) = bom \<Longrightarrow> offset (check_scanner inp) \<noteq> 0"
proof -
  let ?z = "\<lparr>src_file = NewFile '''', input = inp, err = False, errs = [], mode = 0, ch = 0, offset = 0,
    readOffset = 0, insertTerm = False, numErrors = 0\<rparr>"
  have lt: "readOffset ?z < length (input ?z)" using assms by simp
  note d = scan_next_decode [OF lt]
  have "readOffset (scan_next ?z) \<noteq> 0" using d(2) DecodeRune_width [OF assms] by simp
  then show "fst (DecodeRune inp) = bom \<Longrightarrow> offset (check_scanner inp) \<noteq> 0"
    using d assms by (simp add: New_def Let_def)
  show "fst (DecodeRune inp) \<noteq> bom \<Longrightarrow> offset (check_scanner inp) = 0 \<and> ch (check_scanner inp) = fst (DecodeRune inp)"
    using d assms by (simp add: New_def Let_def)
qed

lemma isLetter_not_white: "isLetter u (ch s) \<Longrightarrow> \<not> is_white s"
  by (auto simp: is_white_def isLetter_iff byte_def)

lemma scan_token_letter:
  assumes "scan_inv s" "isLetter u (ch s)"
  shows "\<exists>it. scan_token u s =
    (let s' = ident_loop u (scan_next s); lit = byte_slice (offset s) (offset s') (input s)
     in Finish (if length lit > 1 then Lookup lit else IDENT) lit it s')"
  using assms by (auto simp: scan_token_def Let_def scanIdentifier_eq_plain scan_inv_def scanIdentifier_plain_def
      ident_rest.keeps_input)

lemma scan_token_IDENT: "scan_token u s = Finish IDENT lit it v \<Longrightarrow> isLetter u (ch s)"
  by (auto simp: scan_token_def scan_other_def scan_slash_def scanNumber_stages switch2_def Let_def case_prod_beta
      split: if_splits)

lemma Lookup_IDENT: "(if length lit > 1 then Lookup lit else IDENT) = IDENT \<longleftrightarrow> lit \<notin> keyword_names"
  by (auto simp: Lookup_def keyword_names_def)

lemma byte_slice_all: "n \<le> length inp \<Longrightarrow> byte_slice 0 n inp = inp \<longleftrightarrow> n = length inp"
  by (metis byte_slice_def drop_0 length_take min.absorb2 take_all order_refl)

text \<open>When the first rune is a letter, the check is that of the other runes.\<close>

lemma check_letter:
  assumes ne: "inp \<noteq> []" and l: "isLetter u (fst (DecodeRune inp))" and nb: "fst (DecodeRune inp) \<noteq> bom"
  shows "IsValidIdentifier u inp \<longleftrightarrow>
    (\<forall>x \<in> set (string_runes (drop (snd (DecodeRune inp)) inp)). isLetter u x \<or> isDigit u x) \<and> inp \<notin> keyword_names"
proof -
  let ?s = "check_scanner inp" let ?v = "ident_loop u (scan_next ?s)" let ?lit = "byte_slice 0 (offset ?v) inp"
  note inv = check_scanner_inv [of inp]
  have cur: "cursor_wf ?s" "cursor_wf (scan_next ?s)"
    using inv(1) cursor_next(1) by (simp_all add: scan_inv_def)
  have st: "offset ?s = 0" "ch ?s = fst (DecodeRune inp)" using check_scanner_start(1) [OF ne nb] by simp_all
  have ro: "readOffset ?s = snd (DecodeRune inp)" using cur(1) st(1) inv(2) ne by (simp add: cursor_wf_def)
  have "isLetter u (ch ?s)" using l st(2) by simp
  from scan_token_letter [OF inv(1) this] obtain it where
    tok: "scan_token u ?s = Finish (if length ?lit > 1 then Lookup ?lit else IDENT) ?lit it ?v"
    unfolding Let_def st(1) inv(2) by blast
  have "skipWhitespace ?s = ?s" using isLetter_not_white [OF \<open>isLetter u (ch ?s)\<close>] by (subst skipWhitespace.simps) simp
  then have "\<exists>s'. Scan u ?s = (0, if length ?lit > 1 then Lookup ?lit else IDENT, ?lit, s')"
    by (simp add: Scan.simps [of u ?s] Let_def tok st(1))
  then have "IsValidIdentifier u inp \<longleftrightarrow> ?lit \<notin> keyword_names \<and> ?lit = inp"
    using Lookup_IDENT [of ?lit] unfolding IsValidIdentifier_def Let_def by auto
  moreover have "offset ?v \<le> length inp"
    using cursor_readOffset [of ?v] ident_rest.keeps_inv [OF next_char.keeps_inv [OF inv(1)], of u]
      ident_rest.keeps_input [of u "scan_next ?s"] inv(2) by (simp add: scan_inv_def)
  then have "?lit = inp \<longleftrightarrow> offset ?v = length inp" by (rule byte_slice_all)
  moreover have "offset ?v = length inp \<longleftrightarrow>
      (\<forall>x \<in> set (string_runes (drop (snd (DecodeRune inp)) inp)). isLetter u x \<or> isDigit u x)"
    using ident_loop_to_end [OF cur(2), of u] cursor_next(2) [OF cur(1)] inv(2) ro by (simp del: scan_next_simps(5))
  ultimately show ?thesis by auto
qed

text \<open>A string that does not start with a letter is not an identifier.\<close>

lemma check_not_letter:
  assumes "inp = [] \<or> fst (DecodeRune inp) = bom \<or> \<not> isLetter u (fst (DecodeRune inp))"
  shows "\<not> IsValidIdentifier u inp"
proof
  assume v: "IsValidIdentifier u inp"
  let ?s = "check_scanner inp"
  note inv = check_scanner_inv [of inp]
  obtain pos tok lit s' where sc: "Scan u ?s = (pos, tok, lit, s')" by (metis prod_cases4)
  with v have tok: "tok = IDENT" "lit = inp" by (simp_all add: IsValidIdentifier_def)
  have post: "offset ?s \<le> pos" "pos \<le> offset s'" "inp = byte_slice pos (offset s') inp" "tokens_left s' < tokens_left ?s"
    "scan_inv s'" "input s' = inp"
    using Scan_post [OF inv(1) sc] tok inv(2) by (simp_all add: scan_post_def moves_def IsLiteral_iff)
  have le: "offset s' \<le> length inp" using post(5,6) cursor_readOffset [of s'] by (simp add: scan_inv_def)
  have "length inp = offset s' - pos" using arg_cong [OF post(3), of length] le by (simp add: byte_slice_def)
  then have pos: "pos = 0 \<or> inp = []" using le by (cases inp) simp_all
  show False
  proof (cases "inp = []")
    case True
    then have "left ?s = 0" using inv cursor_eof [of ?s] cursor_readOffset [of ?s] by (simp add: left_def scan_inv_def)
    moreover have "\<not> insertTerm ?s" by (rule New_inv) (simp add: NewFile_def)
    ultimately show False using post(4) by (simp add: tokens_left_def)
  next
    case False
    with pos post(1) have "pos = offset ?s" "offset ?s = 0" by simp_all
    from Scan_at_cursor [OF inv(1) sc this(1)] tok(1) obtain it v where "scan_token u ?s = Finish IDENT lit it v" by auto
    then have "isLetter u (ch ?s)" by (rule scan_token_IDENT)
    moreover have "fst (DecodeRune inp) \<noteq> bom" using check_scanner_start(2) [OF False] \<open>offset ?s = 0\<close> by blast
    ultimately show False using assms False check_scanner_start(1) [OF False] by simp
  qed
qed

lemma IsValid_iff:
  assumes "bom_not_ident u"
  shows "IsValidIdentifier u inp \<longleftrightarrow> ident_runes u (string_runes inp) \<and> inp \<notin> keyword_names"
proof (cases "inp = []")
  case True
  then show ?thesis using check_not_letter [of inp u] by (simp add: ident_runes_def)
next
  case False
  have runes: "string_runes inp = fst (DecodeRune inp) # string_runes (drop (snd (DecodeRune inp)) inp)"
    using False by (subst string_runes.simps) simp
  have "\<not> isLetter u bom" using assms by (simp add: isLetter_iff bom_not_ident_def bom_def)
  show ?thesis
  proof (cases "isLetter u (fst (DecodeRune inp))")
    case True
    with \<open>\<not> isLetter u bom\<close> have "fst (DecodeRune inp) \<noteq> bom" by auto
    from check_letter [OF False True this] True show ?thesis by (simp add: runes ident_runes_def)
  next
    case nl: False
    then show ?thesis using check_not_letter [of inp u] by (simp add: runes ident_runes_def)
  qed
qed

text \<open>
  A string is accepted as an identifier exactly when its runes are a letter or underscore
  followed by letters, underscores and digits, and it is not a keyword, for all Unicode tables
  in which the byte order mark is neither a letter nor a digit.
\<close>

theorem IsValidIdentifier_exact:
  assumes "bom_not_ident u"
  shows "IsValidIdentifier u inp \<longleftrightarrow> ident_runes u (string_runes inp) \<and> inp \<notin> keyword_names"
  by (rule IsValid_iff [OF assms])

theorem IsValidIdentifier_exact_witness:
  "bom_not_ident ascii_tables \<and> IsValidIdentifier ascii_tables ''a1'' \<and> \<not> IsValidIdentifier ascii_tables ''null''"
proof -
  have u: "bom_not_ident ascii_tables" by (simp add: bom_not_ident_def ascii_tables_def)
  have "string_runes ''a1'' = [97, 49]"
    by (simp add: string_runes.simps [of "_ # _"] DecodeRune_ascii byte_def)
  then show ?thesis
    using IsValidIdentifier_exact [OF u, of "''a1''"] IsValidIdentifier_exact [OF u, of "''null''"] u
    by (simp add: ident_runes_def isLetter_iff isDigit_iff keyword_names_def)
qed

section \<open>Repairing identifiers\<close>

definition repaired :: "unicode \<Rightarrow> int \<Rightarrow> int" where
  "repaired u c = (if isLetter u c \<or> isDigit u c then c else 95)"

definition repaired_runes :: "unicode \<Rightarrow> int list \<Rightarrow> int list" where
  "repaired_runes u rs = (if rs \<noteq> [] \<and> isDigit u (hd rs) then [95] else []) @ map (repaired u) rs"

lemma underscore_rune [simp]: "string_of_rune 95 = ''_''"
proof -
  have "valid_rune 95" by (simp add: valid_rune_def MaxRune_def)
  then show ?thesis using rune_bytes_ascii [of "CHR ''_''"] by (simp add: string_of_rune_def)
qed

lemma generate_loop_rest: "generate_loop u False rs acc = acc @ bytes_of_runes (map (repaired u) rs)"
  by (induction rs arbitrary: acc) (simp_all add: bytes_of_runes_def repaired_def)

lemma generateNewIdentifier_eq: "generateNewIdentifier u inp = bytes_of_runes (repaired_runes u (string_runes inp))"
proof (cases "string_runes inp")
  case (Cons r rs)
  then show ?thesis
    by (simp add: generateNewIdentifier_def generate_loop_rest repaired_runes_def)
      (simp add: bytes_of_runes_def repaired_def)
qed (simp add: generateNewIdentifier_def repaired_runes_def bytes_of_runes_def)

lemma string_runes_generate: "string_runes (generateNewIdentifier u inp) = repaired_runes u (string_runes inp)"
proof -
  have "valid_rune r" if "r \<in> set (repaired_runes u (string_runes inp))" for r
    using that string_runes_valid [of _ inp]
    by (auto simp: repaired_runes_def repaired_def valid_rune_def MaxRune_def split: if_splits)
  then show ?thesis unfolding generateNewIdentifier_eq by (rule string_runes_bytes_of_runes)
qed

lemma string_runes_ne: "inp \<noteq> [] \<Longrightarrow> string_runes inp \<noteq> []"
  by (subst string_runes.simps) simp

lemma ident_runes_repaired: "rs \<noteq> [] \<Longrightarrow> ident_runes u (repaired_runes u rs)"
  by (cases rs) (auto simp: ident_runes_def repaired_runes_def repaired_def isLetter_iff)

text \<open>A string whose runes are all ASCII is determined by them.\<close>

lemma string_runes_ascii:
  assumes "\<forall>r \<in> set (string_runes p). r < 128"
  shows "p = map char_of (string_runes p)"
  using assms
proof (induction p rule: string_runes.induct)
  case (1 p)
  show ?case
  proof (cases "p = []")
    case False
    have runes: "string_runes p = fst (DecodeRune p) # string_runes (drop (snd (DecodeRune p)) p)"
      using False by (subst string_runes.simps) simp
    with 1(2) have lo: "fst (DecodeRune p) < 128" by simp
    from False have "DecodeRune p = (byte (hd p), 1)"
      using lo by (cases rule: DecodeRune_cases) (auto simp: RuneError_def)
    with 1 False runes show ?thesis by (cases p) simp_all
  qed simp
qed

lemma string_runes_low: "\<forall>c \<in> set p. byte c < 128 \<Longrightarrow> string_runes p = map byte p"
  by (induction p) (simp_all add: string_runes.simps [of "_ # _"] DecodeRune_ascii)

lemma keyword_letters: "k \<in> keyword_names \<Longrightarrow> c \<in> set k \<Longrightarrow> 97 \<le> byte c \<and> byte c \<le> 122"
  by (auto simp: keyword_names_def byte_def)

lemma repaired_letters_id:
  assumes "\<forall>r \<in> set (repaired_runes u rs). 97 \<le> r \<and> r \<le> 122"
  shows "repaired_runes u rs = rs"
proof -
  have "repaired u r = r" if "r \<in> set rs" for r
    using assms that by (force simp: repaired_runes_def repaired_def split: if_splits)
  moreover have "\<not> (rs \<noteq> [] \<and> isDigit u (hd rs))" using assms by (auto simp: repaired_runes_def)
  ultimately show ?thesis by (simp add: repaired_runes_def map_idI)
qed

lemma letters_repaired_id:
  assumes "\<forall>r \<in> set rs. 97 \<le> r \<and> r \<le> 122"
  shows "repaired_runes u rs = rs"
proof -
  have "repaired u r = r" if "r \<in> set rs" for r using assms that by (simp add: repaired_def isLetter_iff)
  moreover have "\<not> (rs \<noteq> [] \<and> isDigit u (hd rs))" using assms by (cases rs) (auto simp: isDigit_iff)
  ultimately show ?thesis by (simp add: repaired_runes_def map_idI)
qed

lemma keyword_runes: "k \<in> keyword_names \<Longrightarrow> string_runes k = map byte k"
  using keyword_letters [of k] by (intro string_runes_low) fastforce

lemma generate_keyword: "generateNewIdentifier u inp \<in> keyword_names \<longleftrightarrow> inp \<in> keyword_names"
proof
  assume k: "inp \<in> keyword_names"
  then have "repaired_runes u (string_runes inp) = string_runes inp"
    using keyword_letters [OF k] by (intro letters_repaired_id) (auto simp: keyword_runes [OF k])
  then have "string_runes (generateNewIdentifier u inp) = map byte inp"
    by (simp add: string_runes_generate keyword_runes [OF k])
  moreover have "\<forall>r \<in> set (map byte inp). r < 128" using keyword_letters [OF k] by fastforce
  ultimately have "generateNewIdentifier u inp = inp"
    using string_runes_ascii [of "generateNewIdentifier u inp"] by (simp add: comp_def)
  with k show "generateNewIdentifier u inp \<in> keyword_names" by simp
next
  let ?g = "generateNewIdentifier u inp"
  assume k: "?g \<in> keyword_names"
  have low: "\<forall>r \<in> set (map byte ?g). 97 \<le> r \<and> r \<le> 122" using keyword_letters [OF k] by auto
  have g: "repaired_runes u (string_runes inp) = map byte ?g"
    using string_runes_generate [of u inp] keyword_runes [OF k] by simp
  with low have "string_runes inp = map byte ?g"
    using repaired_letters_id [of u "string_runes inp"] by simp
  moreover from this low have "inp = map char_of (string_runes inp)"
    by (intro string_runes_ascii) fastforce
  ultimately have "inp = ?g" by (simp add: comp_def)
  with k show "inp \<in> keyword_names" by simp
qed

text \<open>
  C25: sanitizing the empty string is an error; a keyword makes it panic, since the repair leaves
  keywords unchanged; every other string gives a valid identifier, unchanged if it was valid.
\<close>

theorem SanitizeIdentifier_result:
  assumes "bom_not_ident u"
  shows "SanitizeIdentifier u '''' = Inl EmptyString \<and>
    (inp \<in> keyword_names \<longrightarrow> (\<exists>v. SanitizeIdentifier u inp = Inl (PanicInvalid v))) \<and>
    (inp \<noteq> '''' \<and> inp \<notin> keyword_names \<longrightarrow>
      (\<exists>v. SanitizeIdentifier u inp = Inr v \<and> IsValidIdentifier u v \<and> (IsValidIdentifier u inp \<longrightarrow> v = inp)))"
proof -
  note valid = IsValid_iff [OF assms]
  have gen: "IsValidIdentifier u (generateNewIdentifier u inp) \<longleftrightarrow> inp \<notin> keyword_names" if "inp \<noteq> ''''"
    using that ident_runes_repaired [OF string_runes_ne, of inp u]
    by (simp add: valid string_runes_generate generate_keyword)
  have "\<not> IsValidIdentifier u inp" "inp \<noteq> ''''" if "inp \<in> keyword_names"
    using that by (auto simp: valid keyword_names_def)
  with gen show ?thesis by (auto simp: SanitizeIdentifier_def Let_def)
qed

theorem SanitizeIdentifier_result_witness:
  "bom_not_ident ascii_tables \<and> ''null'' \<in> keyword_names \<and>
   (\<exists>v. SanitizeIdentifier ascii_tables ''null'' = Inl (PanicInvalid v)) \<and>
   (\<exists>v. SanitizeIdentifier ascii_tables ''a-b'' = Inr v \<and> IsValidIdentifier ascii_tables v)"
proof -
  have u: "bom_not_ident ascii_tables" by (simp add: bom_not_ident_def ascii_tables_def)
  show ?thesis
    using SanitizeIdentifier_result [OF u, of "''null''"] SanitizeIdentifier_result [OF u, of "''a-b''"] u
    by (auto simp: keyword_names_def)
qed

end
