(* ===== verification/Worker_Pool.thy ===== *)
theory Worker_Pool
  imports Prelude "HOL-Library.Multiset"
begin

text \<open>
  The worker pool of the runtime, \<^verbatim>\<open>internal/runtime/internal/worker/worker_pool.go\<close>: the work
  queue with its keyed waiting and running tasks, and the pool as a state machine of submitters
  and workers. Every method that takes the queue's lock is one atomic step. A send on the
  buffered channel of tasks would block, with the lock held, when the channel is full: that
  outcome is \<open>None\<close>, and it is proved never to happen. Tasks are values of an arbitrary type.
\<close>

section \<open>The work queue\<close>

text \<open>A wrapped task is its key and the function read from the waiting map (nil if missing).\<close>

record 'f workQueue =
  maxSize :: int
  tasksToRun :: "(string \<times> 'f option) list"
  waitingOrder :: "string list"
  waiting :: "string \<rightharpoonup> 'f"
  running :: "string set"

datatype pool_panic = NonPositiveWorkers int | NegativeChannelSize int

datatype submit_error = QueueFull

definition newWorkQueue :: "int \<Rightarrow> pool_panic + 'f workQueue" where
  "newWorkQueue n =
     (if n < 0 then Inl (NegativeChannelSize n)
      else Inr \<lparr>maxSize = n, tasksToRun = [], waitingOrder = [], waiting = Map.empty, running = {}\<rparr>)"

definition queueSize :: "'f workQueue \<Rightarrow> int" where
  "queueSize w = int (length (waitingOrder w)) + int (card (running w))"

text \<open>The first key in the waiting order that is not running, with its index.\<close>

fun first_ready :: "string list \<Rightarrow> string set \<Rightarrow> nat \<Rightarrow> (nat \<times> string) option" where
  "first_ready [] run i = None"
| "first_ready (k # ks) run i = (if k \<notin> run then Some (i, k) else first_ready ks run (i + 1))"

definition emitNextTask :: "'f workQueue \<Rightarrow> 'f workQueue option" where
  "emitNextTask w =
     (case first_ready (waitingOrder w) (running w) 0 of
        None \<Rightarrow> Some w
      | Some (i, key) \<Rightarrow>
          (if int (length (tasksToRun w)) \<ge> maxSize w then None
           else Some (w\<lparr>waitingOrder := take i (waitingOrder w) @ drop (i + 1) (waitingOrder w),
                        waiting := (waiting w)(key := None),
                        running := insert key (running w),
                        tasksToRun := tasksToRun w @ [(key, waiting w key)]\<rparr>)))"

definition tryEnqueue :: "string \<Rightarrow> 'f \<Rightarrow> 'f workQueue \<Rightarrow> ((submit_error + bool) \<times> 'f workQueue) option" where
  "tryEnqueue key f w =
     (if waiting w key \<noteq> None then Some (Inr False, w)
      else if queueSize w \<ge> maxSize w then Some (Inl QueueFull, w)
      else map_option (Pair (Inr True))
        (emitNextTask (w\<lparr>waitingOrder := waitingOrder w @ [key], waiting := (waiting w)(key \<mapsto> f)\<rparr>)))"

definition taskDone :: "string \<Rightarrow> 'f workQueue \<Rightarrow> 'f workQueue option" where
  "taskDone key w = emitNextTask (w\<lparr>running := running w - {key}\<rparr>)"

section \<open>Queue invariant\<close>

text \<open>
  The keys in the channel are running; every waiting key is blocked by a running task with the
  same key, so no runnable task is left behind; the size limit holds.
\<close>

definition queue_shape :: "'f workQueue \<Rightarrow> bool" where
  "queue_shape w \<longleftrightarrow> distinct (waitingOrder w) \<and> set (waitingOrder w) = dom (waiting w) \<and>
     finite (running w) \<and> queueSize w \<le> maxSize w \<and>
     distinct (map fst (tasksToRun w)) \<and> set (map fst (tasksToRun w)) \<subseteq> running w \<and>
     (\<forall>t \<in> set (tasksToRun w). snd t \<noteq> None)"

definition queue_inv :: "'f workQueue \<Rightarrow> bool" where
  "queue_inv w \<longleftrightarrow> queue_shape w \<and> set (waitingOrder w) \<subseteq> running w"

lemma first_ready_None: "first_ready ks run i = None \<longleftrightarrow> set ks \<subseteq> run"
  by (induction ks arbitrary: i) auto

lemma first_ready_Some:
  "first_ready ks run i = Some (j, k) \<Longrightarrow>
    \<exists>pre post. ks = pre @ k # post \<and> j = i + length pre \<and> k \<notin> run \<and> set pre \<subseteq> run"
proof (induction ks arbitrary: i)
  case (Cons x ks)
  show ?case
  proof (cases "x \<in> run")
    case True
    with Cons.prems have "first_ready ks run (Suc i) = Some (j, k)" by simp
    from Cons.IH [OF this] obtain pre post where
      "ks = pre @ k # post" "j = Suc i + length pre" "k \<notin> run" "set pre \<subseteq> run" by blast
    with True show ?thesis by (intro exI [of _ "x # pre"] exI [of _ post]) simp
  next
    case False
    with Cons.prems show ?thesis by (intro exI [of _ "[]"] exI [of _ ks]) auto
  qed
qed simp

lemma queue_shape_channel: "queue_shape w \<Longrightarrow> length (tasksToRun w) \<le> card (running w)"
proof -
  assume w: "queue_shape w"
  then have "length (tasksToRun w) = card (set (map fst (tasksToRun w)))"
    unfolding queue_shape_def by (metis distinct_card length_map)
  also have "\<dots> \<le> card (running w)" using w by (intro card_mono) (auto simp: queue_shape_def)
  finally show ?thesis .
qed

text \<open>The state after the ready key \<open>k\<close> between \<open>pre\<close> and \<open>post\<close> was emitted.\<close>

definition emitted :: "string list \<Rightarrow> string \<Rightarrow> string list \<Rightarrow> 'f workQueue \<Rightarrow> 'f workQueue" where
  "emitted pre k post w = w\<lparr>waitingOrder := pre @ post, waiting := (waiting w)(k := None),
     running := insert k (running w), tasksToRun := tasksToRun w @ [(k, waiting w k)]\<rparr>"

text \<open>Emitting never blocks: it moves the first ready task, or there is none.\<close>

lemma emitNextTask_cases:
  assumes w: "queue_shape w"
  obtains (idle) "set (waitingOrder w) \<subseteq> running w" "emitNextTask w = Some w"
  | (emit) pre k post where "waitingOrder w = pre @ k # post" "k \<notin> running w" "set pre \<subseteq> running w"
      "emitNextTask w = Some (emitted pre k post w)"
proof (cases "first_ready (waitingOrder w) (running w) 0")
  case None
  then have "set (waitingOrder w) \<subseteq> running w" by (simp only: first_ready_None)
  moreover have "emitNextTask w = Some w" using None by (simp add: emitNextTask_def)
  ultimately show thesis by (rule idle)
next
  case (Some jk)
  obtain j k where jk: "jk = (j, k)" by (cases jk)
  from first_ready_Some [OF Some [unfolded jk]] obtain pre post where
    ks: "waitingOrder w = pre @ k # post" "j = length pre" "k \<notin> running w" "set pre \<subseteq> running w" by auto
  have "int (length (tasksToRun w)) < maxSize w"
    using queue_shape_channel [OF w] w ks(1) by (simp add: queue_shape_def queueSize_def)
  then have "emitNextTask w = Some (emitted pre k post w)"
    using Some ks(1,2) by (simp add: emitNextTask_def jk emitted_def)
  with ks that(2) show thesis by blast
qed

lemma emitted_shape:
  assumes w: "queue_shape w" and ks: "waitingOrder w = pre @ k # post" "k \<notin> running w"
  shows "queue_shape (emitted pre k post w)" "queueSize (emitted pre k post w) = queueSize w"
proof -
  have dom: "waiting w k \<noteq> None" "distinct (pre @ k # post)" "dom (waiting w) = set (pre @ k # post)"
    using w ks(1) by (auto simp: queue_shape_def)
  have k: "k \<notin> set (map fst (tasksToRun w))" using w ks(2) by (auto simp: queue_shape_def)
  show size: "queueSize (emitted pre k post w) = queueSize w"
    using w ks by (simp add: emitted_def queueSize_def queue_shape_def)
  have "set (pre @ post) = dom ((waiting w)(k := None))" using dom(2,3) by auto
  with w dom k size show "queue_shape (emitted pre k post w)"
    unfolding queue_shape_def by (auto simp: emitted_def)
qed

text \<open>
  After emitting, every waiting key is blocked by a running task, if only the key that just
  changed could be ready.
\<close>

lemma emitNextTask_inv:
  assumes w: "queue_shape w" and one: "set (waitingOrder w) \<subseteq> insert key (running w)"
  shows "\<exists>w'. emitNextTask w = Some w' \<and> queue_inv w' \<and> maxSize w' = maxSize w \<and> queueSize w' = queueSize w"
  using w
proof (cases rule: emitNextTask_cases)
  case idle
  then show ?thesis using w by (auto simp: queue_inv_def)
next
  case (emit pre k post)
  have "set (pre @ post) \<subseteq> insert k (running w)" using one emit(1,2) by auto
  with emitted_shape [OF w emit(1,2)] emit(4) show ?thesis
    by (auto simp: queue_inv_def emitted_def)
qed

lemma tryEnqueue_inv:
  assumes "queue_inv w"
  shows "\<exists>r w'. tryEnqueue key f w = Some (r, w') \<and> queue_inv w' \<and> maxSize w' = maxSize w \<and>
    queueSize w' = queueSize w + (if r = Inr True then 1 else 0)"
proof (cases "waiting w key \<noteq> None \<or> queueSize w \<ge> maxSize w")
  case True
  then show ?thesis using assms by (auto simp: tryEnqueue_def)
next
  case False
  let ?w = "w\<lparr>waitingOrder := waitingOrder w @ [key], waiting := (waiting w)(key \<mapsto> f)\<rparr>"
  have "queue_shape ?w" "queueSize ?w = queueSize w + 1"
    using False assms by (auto simp: queue_inv_def queue_shape_def queueSize_def)
  moreover have "set (waitingOrder ?w) \<subseteq> insert key (running ?w)"
    using assms by (auto simp: queue_inv_def)
  ultimately show ?thesis using emitNextTask_inv [of ?w key] False by (auto simp: tryEnqueue_def)
qed

lemma taskDone_inv:
  assumes "queue_inv w" "key \<in> running w" "key \<notin> set (map fst (tasksToRun w))"
  shows "\<exists>w'. taskDone key w = Some w' \<and> queue_inv w' \<and> maxSize w' = maxSize w \<and> queueSize w' = queueSize w - 1"
proof -
  let ?w = "w\<lparr>running := running w - {key}\<rparr>"
  have "card (running w) > 0" using assms(1,2) by (auto simp: queue_inv_def queue_shape_def card_gt_0_iff)
  then have size: "queueSize ?w = queueSize w - 1" using assms(2) by (simp add: queueSize_def)
  have "queue_shape ?w"
    using assms(1,3) size by (auto simp: queue_inv_def queue_shape_def)
  moreover have "set (waitingOrder ?w) \<subseteq> insert key (running ?w)" using assms(1) by (auto simp: queue_inv_def)
  ultimately show ?thesis using emitNextTask_inv [of ?w key] size by (simp add: taskDone_def)
qed

section \<open>Accounting\<close>

text \<open>The tasks the queue still has to hand out, with their keys.\<close>

definition waiting_tasks :: "(string \<rightharpoonup> 'f) \<Rightarrow> string list \<Rightarrow> (string \<times> 'f option) list" where
  "waiting_tasks m ks = map (\<lambda>k. (k, m k)) ks"

definition pending_tasks :: "'f workQueue \<Rightarrow> (string \<times> 'f option) multiset" where
  "pending_tasks w = mset (tasksToRun w) + mset (waiting_tasks (waiting w) (waitingOrder w))"

lemma waiting_tasks_simps [simp]:
  "waiting_tasks m [] = []" "waiting_tasks m (k # ks) = (k, m k) # waiting_tasks m ks"
  "waiting_tasks m (ks @ js) = waiting_tasks m ks @ waiting_tasks m js"
  by (simp_all add: waiting_tasks_def)

lemma waiting_tasks_upd [simp]: "k \<notin> set ks \<Longrightarrow> waiting_tasks (m(k := v)) ks = waiting_tasks m ks"
  by (auto simp: waiting_tasks_def)

lemma emitNextTask_pending:
  assumes w: "queue_shape w" and e: "emitNextTask w = Some w'"
  shows "pending_tasks w' = pending_tasks w"
  using w
proof (cases rule: emitNextTask_cases)
  case (emit pre k post)
  have "k \<notin> set pre" "k \<notin> set post" using w emit(1) by (auto simp: queue_shape_def)
  with emit e show ?thesis by (simp add: pending_tasks_def emitted_def)
qed (use e in simp)

lemma tryEnqueue_pending:
  assumes "queue_inv w" "tryEnqueue key f w = Some (r, w')"
  shows "pending_tasks w' = pending_tasks w + (if r = Inr True then {#(key, Some f)#} else {#})"
proof (cases "waiting w key \<noteq> None \<or> queueSize w \<ge> maxSize w")
  case True
  then show ?thesis using assms(2) by (auto simp: tryEnqueue_def split: if_splits)
next
  case False
  let ?w = "w\<lparr>waitingOrder := waitingOrder w @ [key], waiting := (waiting w)(key \<mapsto> f)\<rparr>"
  have shape: "queue_shape ?w"
    using False assms(1) by (auto simp: queue_inv_def queue_shape_def queueSize_def)
  from False assms(2) have e: "emitNextTask ?w = Some w'" and r: "r = Inr True"
    by (auto simp: tryEnqueue_def)
  have "key \<notin> set (waitingOrder w)" using False assms(1) by (auto simp: queue_inv_def queue_shape_def)
  then have "pending_tasks ?w = pending_tasks w + {#(key, Some f)#}" by (simp add: pending_tasks_def)
  with emitNextTask_pending [OF shape e] r show ?thesis by simp
qed

lemma taskDone_pending:
  assumes "queue_inv w" "key \<notin> set (map fst (tasksToRun w))" "key \<in> running w" "taskDone key w = Some w'"
  shows "pending_tasks w' = pending_tasks w"
proof -
  let ?w = "w\<lparr>running := running w - {key}\<rparr>"
  have "card (running w) > 0" using assms(1,3) by (auto simp: queue_inv_def queue_shape_def card_gt_0_iff)
  then have "queue_shape ?w"
    using assms(1,2,3) by (auto simp: queue_inv_def queue_shape_def queueSize_def)
  from emitNextTask_pending [OF this] assms(4) show ?thesis by (simp add: taskDone_def pending_tasks_def)
qed

section \<open>The pool\<close>

text \<open>
  A worker waits in its \<open>select\<close>, executes a wrapped task, or has returned. The events are the
  calls of the interface and the moves of the workers; the scheduler is unconstrained.
\<close>

datatype 'f worker = Idle | Executing string "'f option" | Exited

record 'f fixedWorkerPool =
  workQueue :: "'f workQueue"
  quit :: bool
  workers :: "'f worker list"

definition NewFixedWorkerPool :: "int \<Rightarrow> int \<Rightarrow> pool_panic + 'f fixedWorkerPool" where
  "NewFixedWorkerPool workersCount maxQueueSize =
     (if workersCount \<le> 0 then Inl (NonPositiveWorkers workersCount)
      else case newWorkQueue maxQueueSize of
          Inl p \<Rightarrow> Inl p
        | Inr q \<Rightarrow> Inr \<lparr>workQueue = q, quit = False, workers = replicate (nat workersCount) Idle\<rparr>)"

definition SubmitWithKey ::
  "string \<Rightarrow> 'f \<Rightarrow> 'f fixedWorkerPool \<Rightarrow> (submit_error option \<times> 'f fixedWorkerPool) option" where
  "SubmitWithKey key f p =
     (case tryEnqueue key f (workQueue p) of
        None \<Rightarrow> None
      | Some (r, q) \<Rightarrow> Some (case r of Inl e \<Rightarrow> Some e | Inr _ \<Rightarrow> None, p\<lparr>workQueue := q\<rparr>))"

definition QueueSize :: "'f fixedWorkerPool \<Rightarrow> int" where
  "QueueSize p = queueSize (workQueue p)"

datatype 'f pool_event = Submit string 'f "submit_error + bool" | Start nat string "'f option"
  | Finish nat string | CloseQuit | Exit nat

inductive pool_step :: "'f fixedWorkerPool \<Rightarrow> 'f pool_event \<Rightarrow> 'f fixedWorkerPool \<Rightarrow> bool" where
  submit: "tryEnqueue key f (workQueue p) = Some (r, q) \<Longrightarrow> pool_step p (Submit key f r) (p\<lparr>workQueue := q\<rparr>)"
| start: "i < length (workers p) \<Longrightarrow> workers p ! i = Idle \<Longrightarrow> tasksToRun (workQueue p) = (key, f) # ts \<Longrightarrow>
    pool_step p (Start i key f)
      (p\<lparr>workQueue := (workQueue p)\<lparr>tasksToRun := ts\<rparr>, workers := (workers p)[i := Executing key f]\<rparr>)"
| finish: "i < length (workers p) \<Longrightarrow> workers p ! i = Executing key f \<Longrightarrow> taskDone key (workQueue p) = Some q \<Longrightarrow>
    pool_step p (Finish i key) (p\<lparr>workQueue := q, workers := (workers p)[i := Idle]\<rparr>)"
| close: "\<not> quit p \<Longrightarrow> pool_step p CloseQuit (p\<lparr>quit := True\<rparr>)"
| exit: "i < length (workers p) \<Longrightarrow> workers p ! i = Idle \<Longrightarrow> quit p \<Longrightarrow>
    pool_step p (Exit i) (p\<lparr>workers := (workers p)[i := Exited]\<rparr>)"

inductive_cases pool_step_Submit: "pool_step p (Submit key f r) p'"
inductive_cases pool_step_Start: "pool_step p (Start i key f) p'"

inductive pool_run :: "'f fixedWorkerPool \<Rightarrow> 'f pool_event list \<Rightarrow> 'f fixedWorkerPool \<Rightarrow> bool" where
  none: "pool_run p [] p"
| step: "pool_run p es q \<Longrightarrow> pool_step q e q' \<Longrightarrow> pool_run p (es @ [e]) q'"

text \<open>The keys of the executing tasks, as a multiset over the workers.\<close>

fun worker_key :: "'f worker \<Rightarrow> string multiset" where
  "worker_key Idle = {#}"
| "worker_key (Executing key f) = {#key#}"
| "worker_key Exited = {#}"

definition executing_keys :: "'f worker list \<Rightarrow> string multiset" where
  "executing_keys ws = (\<Sum>w \<in># mset ws. worker_key w)"

text \<open>
  The running set is exactly the keys in the channel and the keys being executed, each once.
\<close>

definition pool_inv :: "'f fixedWorkerPool \<Rightarrow> bool" where
  "pool_inv p \<longleftrightarrow> queue_inv (workQueue p) \<and>
     mset_set (running (workQueue p)) =
       mset (map fst (tasksToRun (workQueue p))) + executing_keys (workers p)"

lemma executing_keys_none:
  "(\<And>w. w \<in> set ws \<Longrightarrow> worker_key w = {#}) \<Longrightarrow> executing_keys ws = {#}"
  unfolding executing_keys_def by (induction ws) simp_all

lemma executing_update:
  assumes "i < length ws"
  shows "executing_keys (ws[i := v]) + worker_key (ws ! i) = executing_keys ws + worker_key v"
proof -
  have "mset ws = add_mset (ws ! i) (mset ws - {#ws ! i#})" using assms by (simp add: nth_mem_mset)
  then have "executing_keys ws = worker_key (ws ! i) + (\<Sum>w \<in># mset ws - {#ws ! i#}. worker_key w)"
    unfolding executing_keys_def by (metis image_mset_add_mset sum_mset.insert)
  then show ?thesis using assms by (simp add: executing_keys_def mset_update)
qed

lemma executing_member: "i < length ws \<Longrightarrow> ws ! i = Executing key f \<Longrightarrow> key \<in># executing_keys ws"
  using executing_update [of i ws Idle] by (metis multi_member_last union_iff worker_key.simps(1,2) add_0_right)

text \<open>Emitting adds the same key to the running set and to the channel.\<close>

lemma emitNextTask_running:
  assumes "queue_shape w" "emitNextTask w = Some w'"
    "mset_set (running w) = mset (map fst (tasksToRun w)) + E"
  shows "mset_set (running w') = mset (map fst (tasksToRun w')) + E"
  using assms(1)
proof (cases rule: emitNextTask_cases)
  case (emit pre k post)
  have "finite (running w)" using assms(1) by (simp add: queue_shape_def)
  with emit assms(2,3) show ?thesis by (simp add: emitted_def)
qed (use assms in simp)

lemma tryEnqueue_running:
  assumes "queue_inv w" "tryEnqueue key f w = Some (r, w')"
    "mset_set (running w) = mset (map fst (tasksToRun w)) + E"
  shows "mset_set (running w') = mset (map fst (tasksToRun w')) + E"
proof (cases "waiting w key \<noteq> None \<or> queueSize w \<ge> maxSize w")
  case True
  then show ?thesis using assms(2,3) by (auto simp: tryEnqueue_def split: if_splits)
next
  case False
  let ?w = "w\<lparr>waitingOrder := waitingOrder w @ [key], waiting := (waiting w)(key \<mapsto> f)\<rparr>"
  have "queue_shape ?w" using False assms(1) by (auto simp: queue_inv_def queue_shape_def queueSize_def)
  moreover from False assms(2) have "emitNextTask ?w = Some w'" by (auto simp: tryEnqueue_def)
  ultimately show ?thesis using emitNextTask_running [of ?w w' E] assms(3) by simp
qed

text \<open>A key that is being executed is running and no longer in the channel.\<close>

lemma pool_inv_executing:
  assumes "pool_inv p" "i < length (workers p)" "workers p ! i = Executing key f"
  shows "key \<in> running (workQueue p)" "key \<notin> set (map fst (tasksToRun (workQueue p)))"
proof -
  have fin: "finite (running (workQueue p))" using assms(1) by (simp add: pool_inv_def queue_inv_def queue_shape_def)
  have eq: "mset_set (running (workQueue p)) = mset (map fst (tasksToRun (workQueue p))) + executing_keys (workers p)"
    using assms(1) by (simp add: pool_inv_def)
  have k: "0 < count (executing_keys (workers p)) key" using executing_member [OF assms(2,3)] by simp
  then have "0 < count (mset_set (running (workQueue p))) key" unfolding eq by simp
  then show "key \<in> running (workQueue p)" using fin by simp
  have "count (mset_set (running (workQueue p))) key \<le> 1" by (simp add: count_mset_set')
  then have "count (mset (map fst (tasksToRun (workQueue p)))) key = 0" unfolding eq count_union using k by linarith
  then show "key \<notin> set (map fst (tasksToRun (workQueue p)))" by (simp add: count_eq_zero_iff)
qed

lemma taskDone_running:
  assumes "queue_inv w" "key \<in> running w" "key \<notin> set (map fst (tasksToRun w))" "taskDone key w = Some w'"
    "mset_set (running w) = mset (map fst (tasksToRun w)) + add_mset key E"
  shows "mset_set (running w') = mset (map fst (tasksToRun w')) + E"
proof -
  let ?w = "w\<lparr>running := running w - {key}\<rparr>"
  have fin: "finite (running w)" using assms(1) by (simp add: queue_inv_def queue_shape_def)
  then have "card (running w) > 0" using assms(2) by (auto simp: card_gt_0_iff)
  then have "queue_shape ?w"
    using assms(1,2,3) by (auto simp: queue_inv_def queue_shape_def queueSize_def)
  moreover have "mset_set (running w - {key}) = mset (map fst (tasksToRun w)) + E"
    using mset_set.remove [OF fin assms(2)] assms(5) by simp
  ultimately show ?thesis using emitNextTask_running [of ?w w' E] assms(4) by (simp add: taskDone_def)
qed

lemma NewFixedWorkerPool_inv: "NewFixedWorkerPool n m = Inr p \<Longrightarrow> pool_inv p \<and> quit p = False \<and> workers p \<noteq> []"
proof -
  assume p: "NewFixedWorkerPool n m = Inr p"
  have "executing_keys (replicate k Idle) = {#}" for k :: nat
    by (induction k) (simp_all add: executing_keys_def)
  with p show ?thesis
    by (auto simp: NewFixedWorkerPool_def newWorkQueue_def pool_inv_def queue_inv_def queue_shape_def queueSize_def
        split: if_splits)
qed

lemma pool_step_inv:
  assumes "pool_step p e p'" "pool_inv p"
  shows "pool_inv p'"
  using assms
proof cases
  case (submit key f r q)
  with assms(2) tryEnqueue_inv [of "workQueue p" key f] tryEnqueue_running [of "workQueue p" key f r q]
  show ?thesis by (auto simp: pool_inv_def)
next
  case (start i key f ts)
  have "executing_keys ((workers p)[i := Executing key f]) = add_mset key (executing_keys (workers p))"
    using executing_update [OF start(3), of "Executing key f"] start(4) by simp
  with start assms(2) show ?thesis
    by (auto simp: pool_inv_def queue_inv_def queue_shape_def queueSize_def)
next
  case (finish i key f q)
  note ex = pool_inv_executing [OF assms(2) finish(3,4)]
  have upd: "executing_keys (workers p) = add_mset key (executing_keys ((workers p)[i := Idle]))"
    using executing_update [OF finish(3), of Idle] finish(4) by simp
  have inv: "queue_inv (workQueue p)" using assms(2) by (simp add: pool_inv_def)
  have "queue_inv q" using taskDone_inv [OF inv ex] finish(5) by auto
  moreover have "mset_set (running q) = mset (map fst (tasksToRun q)) + executing_keys ((workers p)[i := Idle])"
    by (rule taskDone_running [OF inv ex finish(5)]) (use assms(2) upd in \<open>simp add: pool_inv_def\<close>)
  ultimately show ?thesis using finish(2) by (simp add: pool_inv_def)
next
  case close
  with assms(2) show ?thesis by (simp add: pool_inv_def)
next
  case (exit i)
  have "executing_keys ((workers p)[i := Exited]) = executing_keys (workers p)"
    using executing_update [OF exit(3), of Exited] exit(4) by simp
  with exit assms(2) show ?thesis by (simp add: pool_inv_def)
qed

lemma pool_run_inv: "pool_run p es q \<Longrightarrow> pool_inv p \<Longrightarrow> pool_inv q"
  by (induction rule: pool_run.induct) (auto intro: pool_step_inv)

lemma pool_step_frame: "pool_step p e p' \<Longrightarrow> length (workers p') = length (workers p)"
  by (cases rule: pool_step.cases) auto

lemma pool_run_frame: "pool_run p es q \<Longrightarrow> length (workers q) = length (workers p)"
  by (induction rule: pool_run.induct) (auto dest: pool_step_frame)

text \<open>Two workers never execute tasks with the same key.\<close>

lemma executing_distinct:
  assumes "pool_inv p" "i < length (workers p)" "j < length (workers p)" "i \<noteq> j"
    "workers p ! i = Executing key f" "workers p ! j = Executing key g"
  shows False
proof -
  let ?ws = "(workers p)[i := Idle]"
  have "executing_keys (workers p) = add_mset key (executing_keys ?ws)"
    using executing_update [OF assms(2), of Idle] assms(5) by simp
  moreover have "key \<in># executing_keys ?ws"
    using assms(3,4,6) by (intro executing_member [of j]) simp_all
  ultimately have "2 \<le> count (executing_keys (workers p)) key" by (simp add: Suc_le_eq)
  moreover have "count (mset_set (running (workQueue p))) key \<le> 1" by (simp add: count_mset_set')
  ultimately show False using assms(1) by (simp add: pool_inv_def)
qed

lemma emitNextTask_maxSize: "emitNextTask w = Some w' \<Longrightarrow> maxSize w' = maxSize w"
  by (auto simp: emitNextTask_def split: option.splits prod.splits if_splits)

lemma pool_step_maxSize: "pool_step p e p' \<Longrightarrow> maxSize (workQueue p') = maxSize (workQueue p)"
  by (cases rule: pool_step.cases)
    (auto simp: tryEnqueue_def taskDone_def dest!: emitNextTask_maxSize split: if_splits)

lemma pool_run_maxSize: "pool_run p es q \<Longrightarrow> maxSize (workQueue q) = maxSize (workQueue p)"
  by (induction rule: pool_run.induct) (auto dest: pool_step_maxSize)

definition exits_after_quit :: "'f fixedWorkerPool \<Rightarrow> bool" where
  "exits_after_quit p \<longleftrightarrow> (Exited \<in> set (workers p) \<longrightarrow> quit p)"

lemma pool_step_exits: "pool_step p e p' \<Longrightarrow> exits_after_quit p \<Longrightarrow> exits_after_quit p'"
  by (cases rule: pool_step.cases)
    (auto simp: exits_after_quit_def dest!: set_update_subset_insert [THEN subsetD])

lemma pool_run_exits: "pool_run p es q \<Longrightarrow> exits_after_quit p \<Longrightarrow> exits_after_quit q"
  by (induction rule: pool_run.induct) (auto intro: pool_step_exits)

section \<open>Properties of the pool\<close>

lemma new_pool_size: "NewFixedWorkerPool n m = Inr p \<Longrightarrow> maxSize (workQueue p) = m \<and> exits_after_quit p"
  by (auto simp: NewFixedWorkerPool_def newWorkQueue_def exits_after_quit_def split: if_splits)

lemmas new_pool_inv = NewFixedWorkerPool_inv [THEN conjunct1]

text \<open>A pool with one worker and one accepted task, for the witnesses.\<close>

definition sample_pool :: "nat fixedWorkerPool" where
  "sample_pool = \<lparr>workQueue = \<lparr>maxSize = 2, tasksToRun = [], waitingOrder = [], waiting = Map.empty, running = {}\<rparr>,
     quit = False, workers = [Idle]\<rparr>"

definition busy_pool :: "nat fixedWorkerPool" where
  "busy_pool = \<lparr>workQueue = \<lparr>maxSize = 2, tasksToRun = [(''a'', Some 7)], waitingOrder = [], waiting = Map.empty,
     running = {''a''}\<rparr>, quit = False, workers = [Idle]\<rparr>"

lemma sample_pool_new: "NewFixedWorkerPool 1 2 = Inr sample_pool"
  by (simp add: NewFixedWorkerPool_def newWorkQueue_def sample_pool_def)

lemma sample_pool_run: "pool_run sample_pool [Submit ''a'' 7 (Inr True)] busy_pool"
proof -
  have e: "tryEnqueue ''a'' 7 (workQueue sample_pool) = Some (Inr True, workQueue busy_pool)"
    by (simp add: tryEnqueue_def emitNextTask_def sample_pool_def busy_pool_def queueSize_def fun_upd_idem)
  have "pool_step sample_pool (Submit ''a'' 7 (Inr True)) (sample_pool\<lparr>workQueue := workQueue busy_pool\<rparr>)"
    by (rule pool_step.submit [OF e])
  moreover have "sample_pool\<lparr>workQueue := workQueue busy_pool\<rparr> = busy_pool"
    by (simp add: sample_pool_def busy_pool_def)
  ultimately show ?thesis using pool_run.step [OF pool_run.none] by fastforce
qed

text \<open>
  C28: in every state a pool can reach, two workers never execute tasks with the same key, a key
  waits at most once, and the number of waiting and running tasks never exceeds the maximum
  queue size the pool was created with.
\<close>

theorem pool_key_exclusion:
  assumes "NewFixedWorkerPool n m = Inr p" and "pool_run p es q"
  shows "(\<forall>i j key f g. i < length (workers q) \<and> j < length (workers q) \<and>
      workers q ! i = Executing key f \<and> workers q ! j = Executing key g \<longrightarrow> i = j) \<and>
    distinct (waitingOrder (workQueue q)) \<and> 0 \<le> QueueSize q \<and> QueueSize q \<le> m"
proof -
  have inv: "pool_inv q" using pool_run_inv [OF assms(2) new_pool_inv [OF assms(1)]] .
  then have "queue_shape (workQueue q)" by (simp add: pool_inv_def queue_inv_def)
  then have "distinct (waitingOrder (workQueue q))" "QueueSize q \<le> m" "0 \<le> QueueSize q"
    using pool_run_maxSize [OF assms(2)] new_pool_size [OF assms(1)]
    by (auto simp: queue_shape_def QueueSize_def queueSize_def)
  with executing_distinct [OF inv] show ?thesis by blast
qed

text \<open>
  In every reachable state neither submitting a task nor finishing one can block on the task
  channel while the lock is held, so both always return.
\<close>

theorem pool_never_blocks:
  assumes "NewFixedWorkerPool n m = Inr p" and "pool_run p es q"
  shows "SubmitWithKey key f q \<noteq> None \<and>
    (\<forall>i < length (workers q). workers q ! i = Executing key g \<longrightarrow> taskDone key (workQueue q) \<noteq> None)"
proof -
  have inv: "pool_inv q" using pool_run_inv [OF assms(2) new_pool_inv [OF assms(1)]] .
  then have q: "queue_inv (workQueue q)" by (simp add: pool_inv_def)
  have "SubmitWithKey key f q \<noteq> None"
    using tryEnqueue_inv [OF q, of key f] by (auto simp: SubmitWithKey_def)
  moreover have "taskDone key (workQueue q) \<noteq> None"
    if "i < length (workers q)" "workers q ! i = Executing key g" for i
    using taskDone_inv [OF q pool_inv_executing [OF inv that]] by auto
  ultimately show ?thesis by blast
qed

text \<open>
  C29: a pool that was not stopped and has work is never stuck: some idle worker can take a task
  from the channel, or some worker can finish its task.
\<close>

theorem pool_work_progresses:
  assumes "NewFixedWorkerPool n m = Inr p" and "pool_run p es q" and "\<not> quit q" and "QueueSize q > 0"
  shows "\<exists>i key f q'. pool_step q (Start i key f) q' \<or> pool_step q (Finish i key) q'"
proof -
  have inv: "pool_inv q" using pool_run_inv [OF assms(2) new_pool_inv [OF assms(1)]] .
  then have q: "queue_inv (workQueue q)" by (simp add: pool_inv_def)
  show ?thesis
  proof (cases "\<exists>i < length (workers q). \<exists>key f. workers q ! i = Executing key f")
    case True
    then obtain i key f where i: "i < length (workers q)" "workers q ! i = Executing key f" by blast
    from taskDone_inv [OF q pool_inv_executing [OF inv i]] obtain w where "taskDone key (workQueue q) = Some w" by blast
    with i show ?thesis by (blast intro: pool_step.finish)
  next
    case False
    have "workers q \<noteq> []"
      using pool_run_frame [OF assms(2)] NewFixedWorkerPool_inv [OF assms(1)] by auto
    moreover have "Exited \<notin> set (workers q)"
      using pool_run_exits [OF assms(2)] new_pool_size [OF assms(1)] assms(3) by (simp add: exits_after_quit_def)
    ultimately have "0 < length (workers q)" "workers q ! 0 \<noteq> Exited" by auto (metis length_greater_0_conv nth_mem)
    with False have idle: "0 < length (workers q)" "workers q ! 0 = Idle" by (cases "workers q ! 0"; blast)+
    have "worker_key w = {#}" if w: "w \<in> set (workers q)" for w
    proof -
      from w obtain i where "i < length (workers q)" "workers q ! i = w" by (metis in_set_conv_nth)
      with False have "w \<noteq> Executing key f" for key f by blast
      then show ?thesis by (cases w rule: worker.exhaust) (auto simp only: worker_key.simps)
    qed
    then have "executing_keys (workers q) = {#}" by (rule executing_keys_none)
    then have "mset_set (running (workQueue q)) = mset (map fst (tasksToRun (workQueue q)))"
      using inv by (simp add: pool_inv_def)
    moreover have "running (workQueue q) \<noteq> {}" "finite (running (workQueue q))"
      using q assms(4) by (auto simp: queue_inv_def queue_shape_def QueueSize_def queueSize_def)
    ultimately have "tasksToRun (workQueue q) \<noteq> []" by (auto simp: mset_set_empty_iff)
    then obtain key f ts where "tasksToRun (workQueue q) = (key, f) # ts" by (cases "tasksToRun (workQueue q)") auto
    with idle show ?thesis by (blast intro: pool_step.start)
  qed
qed

text \<open>The accepted and the started tasks of a sequence of events.\<close>

fun accepted :: "'f pool_event list \<Rightarrow> (string \<times> 'f option) list" where
  "accepted [] = []"
| "accepted (e # es) = (case e of Submit key f r \<Rightarrow> (if r = Inr True then [(key, Some f)] else []) | _ \<Rightarrow> []) @ accepted es"

fun started :: "'f pool_event list \<Rightarrow> (string \<times> 'f option) list" where
  "started [] = []"
| "started (e # es) = (case e of Start i key f \<Rightarrow> [(key, f)] | _ \<Rightarrow> []) @ started es"

lemma accepted_append [simp]: "accepted (es @ ds) = accepted es @ accepted ds"
  by (induction es) auto

lemma started_append [simp]: "started (es @ ds) = started es @ started ds"
  by (induction es) auto

lemma pool_step_accounting:
  assumes "pool_step p e p'" "pool_inv p"
  shows "pending_tasks (workQueue p') + mset (started [e]) = pending_tasks (workQueue p) + mset (accepted [e])"
  using assms
proof cases
  case (submit key f r q)
  with assms(2) tryEnqueue_pending [of "workQueue p" key f r q] show ?thesis by (simp add: pool_inv_def)
next
  case (finish i key f q)
  note ex = pool_inv_executing [OF assms(2) finish(3,4)]
  show ?thesis using taskDone_pending [OF _ ex(2,1) finish(5)] assms(2) finish(1,2) by (simp add: pool_inv_def)
qed (auto simp: pending_tasks_def)

lemma pool_run_accounting:
  "pool_run p es q \<Longrightarrow> pool_inv p \<Longrightarrow>
    mset (started es) + pending_tasks (workQueue q) = pending_tasks (workQueue p) + mset (accepted es)"
proof (induction rule: pool_run.induct)
  case (step p es q e q')
  have "pool_inv q" using pool_run_inv step.hyps(1) step.prems by blast
  note one = pool_step_accounting [OF step.hyps(2) this] and all = step.IH [OF step.prems]
  have "mset (started (es @ [e])) + pending_tasks (workQueue q') =
      mset (started es) + (pending_tasks (workQueue q') + mset (started [e]))"
    by (simp only: started_append mset_append ac_simps)
  also have "\<dots> = (mset (started es) + pending_tasks (workQueue q)) + mset (accepted [e])"
    unfolding one by (simp only: add.assoc)
  also have "\<dots> = pending_tasks (workQueue p) + mset (accepted (es @ [e]))"
    unfolding all by (simp only: accepted_append mset_append add.assoc)
  finally show ?case .
qed simp

text \<open>
  No accepted task is lost or run twice: in every run of a new pool, the accepted tasks are
  exactly the tasks that workers started, each once, and those still in the queue.
\<close>

theorem pool_no_task_lost:
  assumes "NewFixedWorkerPool n m = Inr p" and "pool_run p es q"
  shows "mset (accepted es) = mset (started es) + pending_tasks (workQueue q)"
proof -
  have "pending_tasks (workQueue p) = {#}"
    using assms(1) by (auto simp: NewFixedWorkerPool_def newWorkQueue_def pending_tasks_def split: if_splits)
  then show ?thesis using pool_run_accounting [OF assms(2) new_pool_inv [OF assms(1)]] by simp
qed

text \<open>
  Submitting a task to a reachable pool: a key that already waits is a no-op without error; a
  full queue gives the error and changes nothing; otherwise the task is accepted, the size grows
  by one, and its key is running or waits behind a running task with the same key.
\<close>

theorem SubmitWithKey_result:
  assumes "NewFixedWorkerPool n m = Inr p" and "pool_run p es q"
  shows "\<exists>e q'. SubmitWithKey key f q = Some (e, q') \<and>
    (if waiting (workQueue q) key \<noteq> None then e = None \<and> q' = q
     else if QueueSize q \<ge> m then e = Some QueueFull \<and> q' = q
     else e = None \<and> QueueSize q' = QueueSize q + 1 \<and> key \<in> running (workQueue q'))"
proof -
  have "pool_inv q" using pool_run_inv [OF assms(2) new_pool_inv [OF assms(1)]] .
  then have q: "queue_inv (workQueue q)" by (simp add: pool_inv_def)
  have m: "maxSize (workQueue q) = m"
    using pool_run_maxSize [OF assms(2)] new_pool_size [OF assms(1)] by simp
  obtain r w where rw: "tryEnqueue key f (workQueue q) = Some (r, w)" "queue_inv w"
    "queueSize w = queueSize (workQueue q) + (if r = Inr True then 1 else 0)"
    using tryEnqueue_inv [OF q, of key f] by blast
  have "key \<in> running w" if "r = Inr True"
  proof -
    have "(key, Some f) \<in># pending_tasks w" using tryEnqueue_pending [OF q rw(1)] that by simp
    then show ?thesis using rw(2)
      by (auto simp: pending_tasks_def waiting_tasks_def queue_inv_def queue_shape_def)
  qed
  with rw m show ?thesis
    by (auto simp: SubmitWithKey_def QueueSize_def tryEnqueue_def split: if_splits)
qed

theorem pool_key_exclusion_witness:
  "NewFixedWorkerPool 1 2 = Inr sample_pool \<and> pool_run sample_pool [Submit ''a'' 7 (Inr True)] busy_pool \<and>
   QueueSize busy_pool \<le> 2"
  using pool_key_exclusion [OF sample_pool_new sample_pool_run] sample_pool_new sample_pool_run by blast

theorem pool_never_blocks_witness: "SubmitWithKey ''b'' 8 busy_pool \<noteq> None"
  using pool_never_blocks [OF sample_pool_new sample_pool_run, of "''b''" 8] by blast

theorem pool_work_progresses_witness:
  "\<not> quit busy_pool \<and> QueueSize busy_pool > 0 \<and>
   (\<exists>i key f q'. pool_step busy_pool (Start i key f) q' \<or> pool_step busy_pool (Finish i key) q')"
proof -
  have "\<not> quit busy_pool" "QueueSize busy_pool > 0" by (simp_all add: busy_pool_def QueueSize_def queueSize_def)
  with pool_work_progresses [OF sample_pool_new sample_pool_run] show ?thesis by blast
qed

theorem pool_no_task_lost_witness: "pending_tasks (workQueue busy_pool) = {#(''a'', Some 7)#}"
  using pool_no_task_lost [OF sample_pool_new sample_pool_run] by simp

theorem SubmitWithKey_result_witness:
  "\<exists>q'. SubmitWithKey ''b'' 8 busy_pool = Some (None, q') \<and> QueueSize q' = 2"
proof -
  have "waiting (workQueue busy_pool) ''b'' = None" "QueueSize busy_pool = 1"
    by (simp_all add: busy_pool_def QueueSize_def queueSize_def)
  with SubmitWithKey_result [OF sample_pool_new sample_pool_run, of "''b''" 8] show ?thesis by auto
qed

end
