(* ===== verification/Controller_Queue.thy ===== *)
theory Controller_Queue
  imports Prelude
begin

text \<open>
  The update queue of the component controller,
  \<^verbatim>\<open>internal/runtime/internal/controller/queue.go\<close>: an insertion-ordered set of queued nodes with
  a one-place notification channel. A queued node is a pointer, so nodes are values of an
  arbitrary type compared by identity.

  The interface \<open>ordered_set_queue\<close> is what the controller's loader relies on; it is
  interpreted on the queue's own operations.
\<close>

section \<open>The queue\<close>

record 'n Queue =
  queuedSet :: "'n set"
  queuedOrder :: "'n list"
  updateCh :: bool

text \<open>The channel has capacity one: \<^const>\<open>updateCh\<close> says whether a notification is buffered.\<close>

definition NewQueue :: "'n Queue" where
  "NewQueue = \<lparr>queuedSet = {}, queuedOrder = [], updateCh = False\<rparr>"

definition Enqueue :: "'n \<Rightarrow> 'n Queue \<Rightarrow> 'n Queue" where
  "Enqueue c q =
     (if c \<in> queuedSet q then q
      else q\<lparr>queuedOrder := queuedOrder q @ [c], queuedSet := insert c (queuedSet q), updateCh := True\<rparr>)"

definition DequeueAll :: "'n Queue \<Rightarrow> 'n list \<times> 'n Queue" where
  "DequeueAll q = (queuedOrder q, q\<lparr>queuedOrder := [], queuedSet := {}\<rparr>)"

text \<open>Receiving from the channel of \<^verbatim>\<open>Chan\<close>: possible only when a notification is buffered.\<close>

definition recv_Chan :: "'n Queue \<Rightarrow> 'n Queue option" where
  "recv_Chan q = (if updateCh q then Some (q\<lparr>updateCh := False\<rparr>) else None)"

section \<open>Interface\<close>

text \<open>
  A queue of distinct elements: draining it gives each element enqueued since the last drain
  once, in the order of first insertion.
\<close>

locale ordered_set_queue =
  fixes start :: 'q and put :: "'n \<Rightarrow> 'q \<Rightarrow> 'q" and drain :: "'q \<Rightarrow> 'n list \<times> 'q"
    and inv :: "'q \<Rightarrow> bool" and items :: "'q \<Rightarrow> 'n list"
  assumes start_inv: "inv start" and start_items: "items start = []"
    and put_inv: "inv q \<Longrightarrow> inv (put c q)"
    and put_items: "inv q \<Longrightarrow> items (put c q) = (if c \<in> set (items q) then items q else items q @ [c])"
    and drain_inv: "inv q \<Longrightarrow> inv (snd (drain q))"
    and drain_items: "inv q \<Longrightarrow> drain q = (items q, snd (drain q)) \<and> items (snd (drain q)) = []"
begin

lemma fold_put: "inv q \<Longrightarrow> inv (fold put cs q) \<and> set (items (fold put cs q)) = set (items q) \<union> set cs"
proof (induction cs arbitrary: q)
  case (Cons c cs)
  from Cons.IH [OF put_inv [OF Cons.prems]] put_items [OF Cons.prems, of c] show ?case by (auto split: if_splits)
qed simp

lemma fold_put_items: "inv q \<Longrightarrow> items (fold put cs q) = items q @ items_of cs (set (items q))"
  if items_of: "\<And>s. items_of [] s = []"
    "\<And>c cs s. items_of (c # cs) s = (if c \<in> s then items_of cs s else c # items_of cs (insert c s))"
proof (induction cs arbitrary: q)
  case Nil
  show ?case by (simp add: items_of)
next
  case (Cons c cs)
  from Cons.IH [OF put_inv [OF Cons.prems]] put_items [OF Cons.prems, of c]
  show ?case by (simp add: items_of)
qed

end

text \<open>First occurrences of a list, in order, without the elements already seen.\<close>

fun first_seen :: "'n list \<Rightarrow> 'n set \<Rightarrow> 'n list" where
  "first_seen [] s = []"
| "first_seen (c # cs) s = (if c \<in> s then first_seen cs s else c # first_seen cs (insert c s))"

lemma first_seen_props: "distinct (first_seen cs s) \<and> set (first_seen cs s) = set cs - s"
  by (induction cs arbitrary: s) auto

definition queue_ok :: "'n Queue \<Rightarrow> bool" where
  "queue_ok q \<longleftrightarrow> queuedSet q = set (queuedOrder q) \<and> distinct (queuedOrder q)"

interpretation upd: ordered_set_queue NewQueue Enqueue DequeueAll queue_ok queuedOrder
  by unfold_locales (auto simp: NewQueue_def Enqueue_def DequeueAll_def queue_ok_def)

section \<open>The controller's loop\<close>

text \<open>
  The loop of \<^verbatim>\<open>Runtime.Run\<close> waits for a notification and then drains the queue; components
  enqueue at any time, also between the two.
\<close>

datatype loop_state = Selecting | Draining

record 'n update_loop =
  updateQueue :: "'n Queue"
  loop :: loop_state
  enqueued :: "'n list"
  evaluated :: "'n list"

inductive loop_step :: "'n update_loop \<Rightarrow> 'n update_loop \<Rightarrow> bool" where
  enqueue: "loop_step s (s\<lparr>updateQueue := Enqueue c (updateQueue s), enqueued := enqueued s @ [c]\<rparr>)"
| receive: "loop s = Selecting \<Longrightarrow> recv_Chan (updateQueue s) = Some q \<Longrightarrow>
    loop_step s (s\<lparr>updateQueue := q, loop := Draining\<rparr>)"
| drain: "loop s = Draining \<Longrightarrow> DequeueAll (updateQueue s) = (ns, q) \<Longrightarrow>
    loop_step s (s\<lparr>updateQueue := q, loop := Selecting, evaluated := evaluated s @ ns\<rparr>)"

inductive_simps loop_step_iff: "loop_step s s'"

definition new_loop :: "'n update_loop" where
  "new_loop = \<lparr>updateQueue = NewQueue, loop = Selecting, enqueued = [], evaluated = []\<rparr>"

definition loop_reach :: "'n update_loop \<Rightarrow> bool" where
  "loop_reach s \<longleftrightarrow> loop_step\<^sup>*\<^sup>* new_loop s"

text \<open>No wake-up is lost, and everything enqueued is either evaluated or still queued.\<close>

definition loop_inv :: "'n update_loop \<Rightarrow> bool" where
  "loop_inv s \<longleftrightarrow> queue_ok (updateQueue s) \<and>
     (queuedOrder (updateQueue s) \<noteq> [] \<longrightarrow> updateCh (updateQueue s) \<or> loop s = Draining) \<and>
     set (enqueued s) = set (evaluated s) \<union> set (queuedOrder (updateQueue s))"

lemma loop_inv_step: "loop_inv s \<Longrightarrow> loop_step s s' \<Longrightarrow> loop_inv s'"
  by (erule loop_step.cases)
    (auto simp: loop_inv_def queue_ok_def Enqueue_def DequeueAll_def recv_Chan_def split: if_splits)

lemma loop_inv_reach: "loop_reach s \<Longrightarrow> loop_inv s"
  unfolding loop_reach_def
proof (induction rule: rtranclp_induct)
  case base
  show ?case by (simp add: loop_inv_def new_loop_def NewQueue_def queue_ok_def)
next
  case (step s s')
  then show ?case by (blast intro: loop_inv_step)
qed

text \<open>
  C30: the update queue loses no update. In every state the controller's loop can reach, each
  node that was ever enqueued has been evaluated or the loop can reach, by its own steps alone, a
  state in which it has been.
\<close>

theorem update_queue_delivers:
  assumes "loop_reach s" and "c \<in> set (enqueued s)" and "c \<notin> set (evaluated s)"
  shows "\<exists>s'. loop_step\<^sup>*\<^sup>* s s' \<and> enqueued s' = enqueued s \<and> c \<in> set (evaluated s')"
proof -
  define q where "q = updateQueue s"
  have inv: "loop_inv s" using loop_inv_reach [OF assms(1)] .
  then have c: "c \<in> set (queuedOrder q)" using assms(2,3) by (auto simp: loop_inv_def q_def)
  have drained: "\<exists>t'. loop_step t t' \<and> enqueued t' = enqueued t \<and> c \<in> set (evaluated t')"
    if "loop t = Draining" "c \<in> set (queuedOrder (updateQueue t))" for t :: "'a update_loop"
    using loop_step.drain [OF that(1), of "queuedOrder (updateQueue t)"] that(2)
    by (fastforce simp: DequeueAll_def)
  show ?thesis
  proof (cases "loop s")
    case Draining
    with drained c show ?thesis unfolding q_def by blast
  next
    case Selecting
    let ?t = "s\<lparr>updateQueue := q\<lparr>updateCh := False\<rparr>, loop := Draining\<rparr>"
    have "updateCh q" using inv c Selecting unfolding q_def loop_inv_def by (metis empty_iff list.set(1) loop_state.distinct(1))
    then have step: "loop_step s ?t" using Selecting by (auto simp: recv_Chan_def q_def intro: loop_step.receive)
    from drained [of ?t] c obtain t' where "loop_step ?t t'" "enqueued t' = enqueued s" "c \<in> set (evaluated t')" by auto
    with step show ?thesis by (meson converse_rtranclp_into_rtranclp rtranclp.rtrancl_refl)
  qed
qed

lemma DequeueAll_first_seen_parts:
  "fst (DequeueAll (fold Enqueue cs NewQueue)) = first_seen cs {}"
  "distinct (first_seen cs {})" "set (first_seen cs {}) = set cs"
  "queuedOrder (snd (DequeueAll (fold Enqueue cs NewQueue))) = []"
proof -
  have ok: "queue_ok (fold Enqueue cs NewQueue)" using upd.fold_put [OF upd.start_inv] by blast
  have "queuedOrder (fold Enqueue cs NewQueue) = first_seen cs {}"
    using upd.fold_put_items [of first_seen, OF _ _ upd.start_inv] by (simp add: NewQueue_def)
  then show "fst (DequeueAll (fold Enqueue cs NewQueue)) = first_seen cs {}" by (simp add: DequeueAll_def)
  show "queuedOrder (snd (DequeueAll (fold Enqueue cs NewQueue))) = []" by (simp add: DequeueAll_def)
qed (simp_all add: first_seen_props)

text \<open>
  Between two drains the queue is an insertion-ordered set: after any enqueues on a new queue,
  draining gives every node once, in the order in which it was first enqueued, and leaves the
  queue empty.
\<close>

theorem DequeueAll_first_seen:
  "fst (DequeueAll (fold Enqueue cs NewQueue)) = first_seen cs {} \<and>
   distinct (first_seen cs {}) \<and> set (first_seen cs {}) = set cs \<and>
   queuedOrder (snd (DequeueAll (fold Enqueue cs NewQueue))) = []"
  by (intro conjI DequeueAll_first_seen_parts)

definition sample_loop :: "nat update_loop" where
  "sample_loop = new_loop\<lparr>updateQueue := Enqueue 7 NewQueue, enqueued := [7]\<rparr>"

lemma sample_loop_reach: "loop_reach sample_loop"
  using loop_step.enqueue [of new_loop "7 :: nat"]
  by (auto simp: loop_reach_def sample_loop_def new_loop_def)

theorem update_queue_delivers_witness: "\<exists>s'. loop_step\<^sup>*\<^sup>* sample_loop s' \<and> 7 \<in> set (evaluated s')"
  using update_queue_delivers [OF sample_loop_reach, of 7] by (auto simp: sample_loop_def new_loop_def)

end
