(* ===== verification/Value_Cache.thy ===== *)
theory Value_Cache
  imports Prelude "HOL-Library.Sublist" "HOL-Library.Word"
begin

text \<open>
  The value cache of the component controller,
  \<^verbatim>\<open>internal/runtime/internal/controller/value_cache.go\<close>: component exports kept as nested maps in
  the scope of the expression evaluator, module arguments and module exports.

  A Go value of type \<^verbatim>\<open>any\<close> is a map from strings to such values or another value; maps are
  trees, since the cache copies the maps it is given as variables and those it hands out. The
  comparison of two exported values, \<^verbatim>\<open>equality.DeepEqual\<close>, is an argument.
\<close>

section \<open>Values, scopes and the cache\<close>

datatype 'v any = Plain 'v | MapVal "(string \<times> 'v any) list"

type_synonym 'v vmap = "(string, 'v any) gomap"

type_synonym ComponentID = "string list"

record 'v Scope =
  Variables :: "'v vmap"

definition NewScope :: "'v vmap \<Rightarrow> 'v Scope" where
  "NewScope variables = \<lparr>Variables = variables\<rparr>"

record 'v valueCache =
  componentIds :: "(string, ComponentID) gomap"
  moduleExports :: "'v vmap"
  moduleArguments :: "'v vmap"
  moduleChangedIndex :: "64 word"
  scope :: "'v Scope"

text \<open>
  The errors of the operations; an empty component ID makes the code index out of range.
\<close>

datatype cache_error = NotAMap string | EmptyIDPanic

definition newValueCache :: "'v valueCache" where
  "newValueCache = \<lparr>componentIds = [], moduleExports = [], moduleArguments = [],
     moduleChangedIndex = 0, scope = NewScope []\<rparr>"

text \<open>The copy is built by inserting one key after the other into a new map.\<close>

fun deepCopyVal :: "'v any \<Rightarrow> 'v any" and copy_into :: "'v vmap \<Rightarrow> 'v vmap \<Rightarrow> 'v vmap" where
  "deepCopyVal (Plain v) = Plain v"
| "deepCopyVal (MapVal m) = MapVal (copy_into [] m)"
| "copy_into new [] = new"
| "copy_into new ((k, v) # m) = copy_into (map_put k (deepCopyVal v) new) m"

definition deepCopyMap :: "'v vmap \<Rightarrow> 'v vmap" where
  "deepCopyMap original = copy_into [] original"

text \<open>A nil map of variables is \<open>None\<close>.\<close>

definition UpdateScopeVariables :: "'v vmap option \<Rightarrow> 'v valueCache \<Rightarrow> 'v valueCache" where
  "UpdateScopeVariables variables vc =
     (case variables of None \<Rightarrow> vc
      | Some m \<Rightarrow> vc\<lparr>scope := (scope vc)\<lparr>Variables := deepCopyMap m\<rparr>\<rparr>)"

text \<open>
  The loop of \<open>CacheExports\<close> walks into the nested maps, creating the missing ones, and stores
  the value under the last part of the ID.
\<close>

fun cache_path :: "ComponentID \<Rightarrow> 'v any \<Rightarrow> 'v vmap \<Rightarrow> cache_error option \<times> 'v vmap" where
  "cache_path [] v m = (Some EmptyIDPanic, m)"
| "cache_path [k] v m = (None, map_put k v m)"
| "cache_path (k # k2 # ks) v m =
     (case map_of m k of
        None \<Rightarrow> (case cache_path (k2 # ks) v [] of (e, n) \<Rightarrow> (e, map_put k (MapVal n) m))
      | Some (Plain _) \<Rightarrow> (Some (NotAMap k), m)
      | Some (MapVal n) \<Rightarrow> (case cache_path (k2 # ks) v n of (e, n') \<Rightarrow> (e, map_put k (MapVal n') m)))"

definition CacheExports :: "ComponentID \<Rightarrow> 'v any option \<Rightarrow> 'v valueCache \<Rightarrow> cache_error option \<times> 'v valueCache" where
  "CacheExports cid exports vc =
     (let v = (case exports of None \<Rightarrow> MapVal [] | Some e \<Rightarrow> e)
      in case cache_path cid v (Variables (scope vc)) of
           (e, m) \<Rightarrow> (e, vc\<lparr>scope := (scope vc)\<lparr>Variables := m\<rparr>\<rparr>))"

definition GetModuleArgument :: "string \<Rightarrow> 'v valueCache \<Rightarrow> 'v any option" where
  "GetModuleArgument key vc = map_of (moduleArguments vc) key"

definition CacheModuleArgument :: "string \<Rightarrow> 'v any \<Rightarrow> 'v valueCache \<Rightarrow> 'v valueCache" where
  "CacheModuleArgument key v vc =
     vc\<lparr>moduleArguments := map_put key (MapVal [(''value'', v)]) (moduleArguments vc)\<rparr>"

definition CacheModuleExportValue ::
  "('v any \<Rightarrow> 'v any \<Rightarrow> bool) \<Rightarrow> string \<Rightarrow> 'v any \<Rightarrow> 'v valueCache \<Rightarrow> 'v valueCache" where
  "CacheModuleExportValue deepEqual name v vc =
     (let changed = (case map_of (moduleExports vc) name of None \<Rightarrow> True | Some old \<Rightarrow> \<not> deepEqual old v)
      in vc\<lparr>moduleChangedIndex := (if changed then moduleChangedIndex vc + 1 else moduleChangedIndex vc),
            moduleExports := map_put name v (moduleExports vc)\<rparr>)"

definition CreateModuleExports :: "'v valueCache \<Rightarrow> 'v vmap" where
  "CreateModuleExports vc = foldl (\<lambda>exports (k, v). map_put k v exports) [] (moduleExports vc)"

definition ClearModuleExports :: "'v valueCache \<Rightarrow> 'v valueCache" where
  "ClearModuleExports vc = vc\<lparr>moduleChangedIndex := moduleChangedIndex vc + 1, moduleExports := []\<rparr>"

definition ExportChangeIndex :: "'v valueCache \<Rightarrow> 64 word" where
  "ExportChangeIndex vc = moduleChangedIndex vc"

text \<open>The argument list of \<open>cleanupFromIndex\<close> is the part of the ID from the index on.\<close>

fun cleanupFromIndex :: "'v vmap \<Rightarrow> ComponentID \<Rightarrow> cache_error option \<times> 'v vmap" where
  "cleanupFromIndex m [] = (Some EmptyIDPanic, m)"
| "cleanupFromIndex m (k # ks) =
     (case map_of m k of
        None \<Rightarrow> (None, m)
      | Some v \<Rightarrow>
          (if ks = [] then (None, map_del k m)
           else case v of
               Plain _ \<Rightarrow> (Some (NotAMap k), m)
             | MapVal n \<Rightarrow>
                 (case cleanupFromIndex n ks of
                    (Some e, n') \<Rightarrow> (Some e, map_put k (MapVal n') m)
                  | (None, n') \<Rightarrow> (None, if n' = [] then map_del k m else map_put k (MapVal n') m))))"

definition cleanup :: "'v vmap \<Rightarrow> ComponentID \<Rightarrow> cache_error option \<times> 'v vmap" where
  "cleanup m cid = cleanupFromIndex m cid"

fun cleanup_all :: "'v vmap \<Rightarrow> ComponentID list \<Rightarrow> cache_error option \<times> 'v vmap" where
  "cleanup_all m [] = (None, m)"
| "cleanup_all m (cid # ids) =
     (case cleanup m cid of (Some e, m') \<Rightarrow> (Some e, m') | (None, m') \<Rightarrow> cleanup_all m' ids)"

definition cleanupIds :: "(string, ComponentID) gomap \<Rightarrow> 'v valueCache \<Rightarrow> ComponentID list" where
  "cleanupIds ids vc = [cid. (name, cid) \<leftarrow> componentIds vc, map_of ids name = None]"

definition SyncIDs :: "(string, ComponentID) gomap \<Rightarrow> 'v valueCache \<Rightarrow> cache_error option \<times> 'v valueCache" where
  "SyncIDs ids vc =
     (case cleanup_all (Variables (scope vc)) (cleanupIds ids vc) of
        (Some e, m) \<Rightarrow> (Some e, vc\<lparr>scope := (scope vc)\<lparr>Variables := m\<rparr>\<rparr>)
      | (None, m) \<Rightarrow> (None, vc\<lparr>scope := (scope vc)\<lparr>Variables := m\<rparr>, componentIds := ids\<rparr>))"

definition SyncModuleArgs :: "'v vmap \<Rightarrow> 'v valueCache \<Rightarrow> 'v valueCache" where
  "SyncModuleArgs args vc =
     vc\<lparr>moduleArguments := fold (\<lambda>arg m. if map_of args arg = None then map_del arg m else m)
          (map_keys (moduleArguments vc)) (moduleArguments vc)\<rparr>"

definition argumentLabel :: string where
  "argumentLabel = ''argument''"

definition GetContext :: "'v valueCache \<Rightarrow> 'v Scope" where
  "GetContext vc =
     (let vars = deepCopyMap (Variables (scope vc))
      in NewScope (if moduleArguments vc \<noteq> [] then map_put argumentLabel (MapVal (deepCopyMap (moduleArguments vc))) vars
                   else vars))"

section \<open>Paths in nested maps\<close>

fun get_path :: "'v vmap \<Rightarrow> string list \<Rightarrow> 'v any option" where
  "get_path m [] = Some (MapVal m)"
| "get_path m (k # ks) =
     (case map_of m k of None \<Rightarrow> None
      | Some (Plain v) \<Rightarrow> (if ks = [] then Some (Plain v) else None)
      | Some (MapVal n) \<Rightarrow> get_path n ks)"

text \<open>A value that is not a map lies on the way to the last part of the path.\<close>

fun blocked :: "'v vmap \<Rightarrow> string list \<Rightarrow> bool" where
  "blocked m [] = False"
| "blocked m (k # ks) =
     (case map_of m k of None \<Rightarrow> False | Some (Plain v) \<Rightarrow> ks \<noteq> [] | Some (MapVal n) \<Rightarrow> blocked n ks)"

lemma get_path_single: "get_path m [k] = map_of m k"
  by (auto split: option.splits any.splits)

lemma blocked_iff: "blocked m p \<longleftrightarrow> (\<exists>q v. strict_prefix q p \<and> get_path m q = Some (Plain v))"
proof (induction m p rule: blocked.induct)
  case (2 m k ks)
  show ?case
  proof (cases "map_of m k")
    case None
    have "get_path m q \<noteq> Some (Plain v)" if "strict_prefix q (k # ks)" for q v
      using that None by (cases q) auto
    with None show ?thesis by auto
  next
    case (Some v)
    show ?thesis
    proof (cases v)
      case (Plain x)
      show ?thesis
      proof
        assume "blocked m (k # ks)"
        then have "strict_prefix [k] (k # ks)" using Some Plain by (simp add: strict_prefix_def)
        then show "\<exists>q v. strict_prefix q (k # ks) \<and> get_path m q = Some (Plain v)"
          using Some Plain by (intro exI [of _ "[k]"] exI [of _ x]) simp
      next
        assume "\<exists>q v. strict_prefix q (k # ks) \<and> get_path m q = Some (Plain v)"
        then obtain q v where "strict_prefix q (k # ks)" "get_path m q = Some (Plain v)" by blast
        then show "blocked m (k # ks)" using Some Plain by (cases q) (auto split: if_splits)
      qed
    next
      case (MapVal n)
      show ?thesis
      proof
        assume "blocked m (k # ks)"
        then obtain q w where "strict_prefix q ks" "get_path n q = Some (Plain w)"
          using 2 [OF Some MapVal] Some MapVal by auto
        then show "\<exists>q v. strict_prefix q (k # ks) \<and> get_path m q = Some (Plain v)"
          using Some MapVal by (intro exI [of _ "k # q"] exI [of _ w]) simp
      next
        assume "\<exists>q v. strict_prefix q (k # ks) \<and> get_path m q = Some (Plain v)"
        then obtain q w where q: "strict_prefix q (k # ks)" "get_path m q = Some (Plain w)" by blast
        then obtain r where "q = k # r" "strict_prefix r ks" by (cases q) auto
        with q show "blocked m (k # ks)" using 2 [OF Some MapVal] Some MapVal by auto
      qed
    qed
  qed
qed auto

section \<open>Caching exports\<close>

lemma cache_path_blocked: "p \<noteq> [] \<Longrightarrow> blocked m p \<Longrightarrow> \<exists>k. fst (cache_path p v m) = Some (NotAMap k)"
  by (induction p v m rule: cache_path.induct) (auto split: option.splits any.splits prod.splits)

lemma cache_path_blocked_keeps: "blocked m p \<Longrightarrow> snd (cache_path p v m) = m"
  by (induction p v m rule: cache_path.induct)
    (auto split: option.splits any.splits prod.splits simp: map_put_same)

lemma cache_path_ok:
  "p \<noteq> [] \<Longrightarrow> \<not> blocked m p \<Longrightarrow>
    fst (cache_path p v m) = None \<and> get_path (snd (cache_path p v m)) p = Some v"
proof (induction p v m rule: cache_path.induct)
  case (2 k v m)
  then show ?case by (cases v) simp_all
qed (auto split: option.splits any.splits prod.splits)

lemma get_path_empty: "get_path [] p = (if p = [] then Some (MapVal []) else None)"
  by (cases p) auto

lemma cache_path_other:
  "\<not> prefix p q \<Longrightarrow> \<not> prefix q p \<Longrightarrow> get_path (snd (cache_path p v m)) q = get_path m q"
proof (induction p v m arbitrary: q rule: cache_path.induct)
  case (2 k v m)
  then show ?case by (cases q) auto
next
  case (3 k k2 ks v m)
  then obtain j js where q: "q = j # js" by (cases q) auto
  show ?case
  proof (cases "j = k")
    case True
    with "3.prems" q have n: "\<not> prefix (k2 # ks) js" "\<not> prefix js (k2 # ks)" by auto
    then have "js \<noteq> []" by auto
    with True q "3.IH"(1) [OF _ n] "3.IH"(2) [OF _ _ n] show ?thesis
      by (auto split: option.splits any.splits prod.splits simp: get_path_empty)
  qed (use q in \<open>auto split: option.splits any.splits prod.splits\<close>)
qed simp

section \<open>Removing exports\<close>

lemma cleanup_error_iff: "p \<noteq> [] \<Longrightarrow> (\<exists>e. fst (cleanupFromIndex m p) = Some e) \<longleftrightarrow> blocked m p"
  by (induction m p rule: cleanupFromIndex.induct) (auto split: option.splits any.splits prod.splits)

lemma cleanup_error_keeps: "blocked m p \<Longrightarrow> snd (cleanupFromIndex m p) = m"
proof (induction m p rule: cleanupFromIndex.induct)
  case (2 m k ks)
  show ?case
  proof (cases "map_of m k")
    case (Some v)
    show ?thesis
    proof (cases v)
      case (MapVal n)
      with "2.prems" Some have b: "blocked n ks" and ks: "ks \<noteq> []" by auto
      then obtain e where "fst (cleanupFromIndex n ks) = Some e" using cleanup_error_iff by blast
      with "2.IH" [OF Some ks MapVal b] Some MapVal ks show ?thesis
        by (auto simp: map_put_same split: prod.splits option.splits)
    qed (use "2.prems" Some in auto)
  qed (use "2.prems" in simp)
qed simp

lemma cleanup_under: "p \<noteq> [] \<Longrightarrow> \<not> blocked m p \<Longrightarrow> get_path (snd (cleanupFromIndex m p)) (p @ r) = None"
proof (induction m p rule: cleanupFromIndex.induct)
  case (2 m k ks)
  show ?case
  proof (cases "map_of m k")
    case (Some v)
    show ?thesis
    proof (cases "ks = []")
      case False
      with "2.prems" Some obtain n where n: "v = MapVal n" "\<not> blocked n ks" by (cases v) auto
      then have "fst (cleanupFromIndex n ks) = None" using cleanup_error_iff [OF False, of n] by auto
      with "2.IH" [OF Some False n(1) False n(2)] Some n(1) False show ?thesis
        by (auto split: prod.splits option.splits)
    qed (use Some in simp)
  qed simp
qed simp

lemma cleanup_other:
  "\<not> prefix p q \<Longrightarrow> \<not> prefix q p \<Longrightarrow> get_path (snd (cleanupFromIndex m p)) q = get_path m q"
proof (induction m p arbitrary: q rule: cleanupFromIndex.induct)
  case (2 m k ks)
  then obtain j js where q: "q = j # js" by (cases q) auto
  show ?case
  proof (cases "j = k")
    case True
    with "2.prems" q have n: "\<not> prefix ks js" "\<not> prefix js ks" by auto
    then have "js \<noteq> []" "ks \<noteq> []" by auto
    show ?thesis
    proof (cases "map_of m k")
      case (Some v)
      show ?thesis
      proof (cases v)
        case (MapVal w)
        obtain e w' where r: "cleanupFromIndex w ks = (e, w')" by fastforce
        from "2.IH" [OF Some \<open>ks \<noteq> []\<close> MapVal n] r have "get_path w' js = get_path w js" by simp
        moreover from this have "w' = [] \<Longrightarrow> get_path w js = None" using \<open>js \<noteq> []\<close> by (simp add: get_path_empty)
        ultimately show ?thesis using q True Some MapVal r \<open>ks \<noteq> []\<close>
          by (cases "w' = []") (auto split: option.splits)
      qed (use q True Some \<open>ks \<noteq> []\<close> in simp)
    qed (use q True in simp)
  qed (use q in \<open>auto split: option.splits any.splits prod.splits\<close>)
qed simp

lemma cleanup_absent: "q \<noteq> [] \<Longrightarrow> get_path m q = None \<Longrightarrow> get_path (snd (cleanupFromIndex m p)) q = None"
proof (induction m p arbitrary: q rule: cleanupFromIndex.induct)
  case (2 m k ks)
  then obtain j js where q: "q = j # js" by (cases q) auto
  show ?case
  proof (cases "j = k")
    case True
    show ?thesis
    proof (cases "map_of m k")
      case (Some v)
      show ?thesis
      proof (cases v)
        case (MapVal w)
        then have w: "get_path w js = None" "js \<noteq> []" using "2.prems" q True Some by auto
        show ?thesis
        proof (cases "ks = []")
          case False
          from "2.IH" [OF Some False MapVal w(2,1)] show ?thesis using q True Some MapVal False
            by (auto split: option.splits prod.splits)
        qed (use q True Some in simp)
      qed (use "2.prems" q True Some in auto)
    qed (use q True in simp)
  qed (use "2.prems" q in \<open>auto split: option.splits any.splits prod.splits\<close>)
qed simp

text \<open>Removing the exports that were just cached for a new ID restores the map.\<close>

fun no_empty_on :: "'v vmap \<Rightarrow> string list \<Rightarrow> bool" where
  "no_empty_on m [] = True"
| "no_empty_on m (k # ks) =
     (case map_of m k of Some (MapVal n) \<Rightarrow> n \<noteq> [] \<and> no_empty_on n ks | _ \<Rightarrow> True)"

lemma cache_path_nonempty: "p \<noteq> [] \<Longrightarrow> snd (cache_path p v []) \<noteq> []"
  by (cases "(p, v, [] :: 'a vmap)" rule: cache_path.cases) (auto split: prod.splits)

lemma cleanup_cache_path:
  "p \<noteq> [] \<Longrightarrow> get_path m p = None \<Longrightarrow> \<not> blocked m p \<Longrightarrow> no_empty_on m p \<Longrightarrow>
    cleanupFromIndex (snd (cache_path p v m)) p = (None, m)"
proof (induction p v m rule: cache_path.induct)
  case (2 k v m)
  then have "map_of m k = None" by (simp only: get_path_single)
  then show ?case by (simp add: map_del_put_fresh)
next
  case (3 k k2 ks v m)
  show ?case
  proof (cases "map_of m k")
    case None
    obtain e n where r: "cache_path (k2 # ks) v [] = (e, n)" by fastforce
    with "3.IH"(1) [OF None] have "cleanupFromIndex n (k2 # ks) = (None, [])" by simp
    with None r show ?thesis by (simp add: map_del_put_fresh del: cleanupFromIndex.simps(2))
      (simp add: cleanupFromIndex.simps(2) [of _ k] map_del_put_fresh del: cleanupFromIndex.simps(2))
  next
    case (Some w)
    with "3.prems" obtain n where n: "w = MapVal n" "get_path n (k2 # ks) = None" "\<not> blocked n (k2 # ks)"
      "n \<noteq> []" "no_empty_on n (k2 # ks)" by (cases w) auto
    obtain e n' where r: "cache_path (k2 # ks) v n = (e, n')" by fastforce
    with "3.IH"(2) [OF Some n(1) _ n(2,3,5)] have "cleanupFromIndex n' (k2 # ks) = (None, n)" by simp
    with Some n(1,4) r show ?thesis
      by (simp add: cleanupFromIndex.simps(2) [of _ k] map_put_same del: cleanupFromIndex.simps(2))
  qed
qed simp

section \<open>Well-formed values and copies\<close>

text \<open>The keys of every map in a value are distinct.\<close>

fun any_wf :: "'v any \<Rightarrow> bool" where
  "any_wf (Plain v) = True"
| "any_wf (MapVal m) = (map_wf m \<and> (\<forall>e \<in> set m. any_wf (snd e)))"

lemma copy_identity:
  fixes v :: "'v any" and m new :: "'v vmap"
  shows "any_wf v \<Longrightarrow> deepCopyVal v = v"
    and "any_wf (MapVal m) \<Longrightarrow> fst ` set new \<inter> fst ` set m = {} \<Longrightarrow> copy_into new m = new @ m"
proof (induction v and new m rule: deepCopyVal_copy_into.induct)
  case (4 new k v m)
  then show ?case by (auto simp: map_put_new map_wf_def image_iff)
qed auto

lemma deepCopyMap_wf [simp]: "any_wf (MapVal m) \<Longrightarrow> deepCopyMap m = m"
  unfolding deepCopyMap_def by (subst copy_identity(2)) simp_all

lemma any_wf_put [simp]: "any_wf (MapVal m) \<Longrightarrow> any_wf v \<Longrightarrow> any_wf (MapVal (map_put k v m))"
  by (auto dest!: in_set_map_put)

lemma any_wf_del [simp]: "any_wf (MapVal m) \<Longrightarrow> any_wf (MapVal (map_del k m))"
  by (auto simp: in_set_map_del)

lemma any_wf_entry: "any_wf (MapVal m) \<Longrightarrow> map_of m k = Some v \<Longrightarrow> any_wf v"
  by (metis any_wf.simps(2) map_of_SomeD snd_conv)

lemma any_wf_empty [simp]: "any_wf (MapVal [])"
  by simp

lemma any_wf_cache_path:
  "any_wf (MapVal m) \<Longrightarrow> any_wf v \<Longrightarrow> any_wf (MapVal (snd (cache_path p v m)))"
proof (induction p v m rule: cache_path.induct)
  case (3 k k2 ks v m)
  show ?case
  proof (cases "map_of m k")
    case None
    with 3 show ?thesis by (auto split: prod.splits simp del: any_wf.simps(2))
  next
    case (Some w)
    with "3.prems"(1) have "any_wf w" by (rule any_wf_entry)
    with 3 Some show ?thesis
      by (cases w) (auto split: prod.splits simp del: any_wf.simps(2))
  qed
qed (simp_all del: any_wf.simps(2))

lemma any_wf_cleanup: "any_wf (MapVal m) \<Longrightarrow> any_wf (MapVal (snd (cleanupFromIndex m p)))"
proof (induction m p rule: cleanupFromIndex.induct)
  case (2 m k ks)
  show ?case
  proof (cases "map_of m k")
    case (Some w)
    with "2.prems"(1) have "any_wf w" by (rule any_wf_entry)
    with 2 Some show ?thesis
      by (cases w) (auto split: prod.splits option.splits simp del: any_wf.simps(2))
  qed (use 2 in simp)
qed (simp_all del: any_wf.simps(2))


section \<open>Properties of the cache\<close>

definition vc_wf :: "'v valueCache \<Rightarrow> bool" where
  "vc_wf vc \<longleftrightarrow> any_wf (MapVal (Variables (scope vc))) \<and> any_wf (MapVal (moduleArguments vc)) \<and>
     any_wf (MapVal (moduleExports vc))"

lemma any_wf_cleanup_all: "any_wf (MapVal m) \<Longrightarrow> any_wf (MapVal (snd (cleanup_all m cids)))"
proof (induction m cids rule: cleanup_all.induct)
  case (2 m cid cids)
  then show ?case using any_wf_cleanup [of m cid]
    by (auto simp: cleanup_def split: prod.splits option.splits simp del: any_wf.simps(2))
qed (simp del: any_wf.simps(2))

lemma foldl_put_copy: "map_wf m \<Longrightarrow> fst ` set new \<inter> fst ` set m = {} \<Longrightarrow>
    foldl (\<lambda>exports (k, v). map_put k v exports) new m = new @ m"
  by (induction m arbitrary: new) (auto simp: map_put_new map_wf_def image_iff)

lemma sync_args_step:
  "map_of (fold (\<lambda>arg m. if map_of args arg = None then map_del arg m else m) ks m) k =
     (if k \<in> set ks \<and> map_of args k = None then None else map_of m k)"
  by (induction ks arbitrary: m) auto

lemma any_wf_sync_args: "any_wf (MapVal m) \<Longrightarrow>
    any_wf (MapVal (fold (\<lambda>arg m. if map_of args arg = None then map_del arg m else m) ks m))"
  by (induction ks arbitrary: m) (simp_all del: any_wf.simps(2))

text \<open>The calls of the interface that change the cache.\<close>

datatype 'v cache_call = CallUpdateScope "'v vmap option" | CallCacheExports ComponentID "'v any option"
  | CallCacheArgument string "'v any" | CallCacheExportValue string "'v any" | CallClearExports
  | CallSyncIDs "(string, ComponentID) gomap" | CallSyncArgs "'v vmap"

fun do_cache_call :: "('v any \<Rightarrow> 'v any \<Rightarrow> bool) \<Rightarrow> 'v cache_call \<Rightarrow> 'v valueCache \<Rightarrow> 'v valueCache" where
  "do_cache_call eq (CallUpdateScope vars) vc = UpdateScopeVariables vars vc"
| "do_cache_call eq (CallCacheExports cid v) vc = snd (CacheExports cid v vc)"
| "do_cache_call eq (CallCacheArgument k v) vc = CacheModuleArgument k v vc"
| "do_cache_call eq (CallCacheExportValue k v) vc = CacheModuleExportValue eq k v vc"
| "do_cache_call eq CallClearExports vc = ClearModuleExports vc"
| "do_cache_call eq (CallSyncIDs ids) vc = snd (SyncIDs ids vc)"
| "do_cache_call eq (CallSyncArgs args) vc = SyncModuleArgs args vc"

text \<open>The maps a call is given are Go maps: their keys are distinct.\<close>

fun call_wf :: "'v cache_call \<Rightarrow> bool" where
  "call_wf (CallUpdateScope (Some m)) = any_wf (MapVal m)"
| "call_wf (CallCacheExports cid (Some v)) = any_wf v"
| "call_wf (CallCacheArgument k v) = any_wf v"
| "call_wf (CallCacheExportValue k v) = any_wf v"
| "call_wf c = True"

lemma SyncIDs_frame:
  "Variables (scope (snd (SyncIDs ids vc))) = snd (cleanup_all (Variables (scope vc)) (cleanupIds ids vc))"
  "moduleArguments (snd (SyncIDs ids vc)) = moduleArguments vc"
  "moduleExports (snd (SyncIDs ids vc)) = moduleExports vc"
  by (auto simp: SyncIDs_def split: prod.splits option.splits)

lemma CacheExports_frame:
  "Variables (scope (snd (CacheExports cid v vc))) =
     snd (cache_path cid (case v of None \<Rightarrow> MapVal [] | Some e \<Rightarrow> e) (Variables (scope vc)))"
  "fst (CacheExports cid v vc) =
     fst (cache_path cid (case v of None \<Rightarrow> MapVal [] | Some e \<Rightarrow> e) (Variables (scope vc)))"
  "moduleArguments (snd (CacheExports cid v vc)) = moduleArguments vc"
  "moduleExports (snd (CacheExports cid v vc)) = moduleExports vc"
  by (auto simp: CacheExports_def Let_def split: prod.splits)

lemma cache_call_wf:
  assumes "vc_wf vc" "call_wf c"
  shows "vc_wf (do_cache_call eq c vc)"
proof (cases c)
  case (CallUpdateScope vars)
  with assms show ?thesis
    by (cases vars) (simp_all add: vc_wf_def UpdateScopeVariables_def del: any_wf.simps(2))
next
  case (CallCacheExports cid v)
  with assms show ?thesis
    by (cases v) (simp_all add: vc_wf_def CacheExports_frame any_wf_cache_path del: any_wf.simps(2))
next
  case (CallCacheArgument k v)
  then have "any_wf (MapVal [(''value'', v)])" using assms(2) by (simp add: map_wf_def)
  with CallCacheArgument assms show ?thesis by (simp add: vc_wf_def CacheModuleArgument_def del: any_wf.simps(2))
next
  case (CallCacheExportValue k v)
  with assms show ?thesis by (simp add: vc_wf_def CacheModuleExportValue_def Let_def del: any_wf.simps(2))
next
  case CallClearExports
  with assms show ?thesis by (simp add: vc_wf_def ClearModuleExports_def)
next
  case (CallSyncIDs ids)
  with assms show ?thesis by (simp add: vc_wf_def SyncIDs_frame any_wf_cleanup_all del: any_wf.simps(2))
next
  case (CallSyncArgs args)
  with assms show ?thesis by (simp add: vc_wf_def SyncModuleArgs_def any_wf_sync_args del: any_wf.simps(2))
qed

lemma cleanup_plain:
  "get_path (snd (cleanupFromIndex m p)) q = Some (Plain x) \<Longrightarrow> get_path m q = Some (Plain x)"
proof (induction m p arbitrary: q rule: cleanupFromIndex.induct)
  case (2 m k ks)
  then obtain j js where q: "q = j # js" by (cases q) auto
  show ?case
  proof (cases "map_of m k")
    case (Some v)
    show ?thesis
    proof (cases "ks = []")
      case True
      with "2.prems" q Some show ?thesis by (cases "j = k") simp_all
    next
      case False
      show ?thesis
      proof (cases v)
        case (MapVal n)
        note IH = "2.IH" [OF Some False MapVal, of js]
        obtain e n' where r: "cleanupFromIndex n ks = (e, n')" by fastforce
        show ?thesis using "2.prems" q Some MapVal False IH r
          by (cases "j = k"; cases e; cases "n' = []") simp_all
      qed (use "2.prems" Some False in simp)
    qed
  qed (use "2.prems" in simp)
qed simp

lemma cleanup_unblocked: "\<not> blocked m p \<Longrightarrow> \<not> blocked (snd (cleanupFromIndex m q)) p"
  by (auto simp: blocked_iff dest!: cleanup_plain)

lemma cleanup_all_ok:
  assumes "[] \<notin> set cids" "\<forall>cid \<in> set cids. \<not> blocked m cid"
  shows "fst (cleanup_all m cids) = None \<and>
    (\<forall>cid \<in> set cids. get_path (snd (cleanup_all m cids)) cid = None)"
  using assms
proof (induction m cids rule: cleanup_all.induct)
  case (2 m cid cids)
  obtain m' where m': "cleanupFromIndex m cid = (None, m')"
    using "2.prems" cleanup_error_iff [of cid m] by (cases "cleanupFromIndex m cid") fastforce
  have keep: "get_path (snd (cleanup_all n ds)) c = None" if "c \<noteq> []" "get_path n c = None" for n c and ds
    using that
  proof (induction n ds rule: cleanup_all.induct)
    case (2 n d ds)
    then show ?case using cleanup_absent [OF 2(2,3), of d]
      by (auto simp: cleanup_def split: prod.splits option.splits)
  qed simp
  have "get_path m' cid = None" using cleanup_under [of cid m "[]"] "2.prems" m' by auto
  moreover have "\<forall>cid \<in> set cids. \<not> blocked m' cid"
    using "2.prems" cleanup_unblocked [of m _ cid] m' by (metis list.set_intros(2) snd_conv)
  ultimately show ?case using "2.IH" [of None m'] "2.prems" m' keep [of cid m' cids] by (auto simp: cleanup_def)
qed simp

lemma cleanup_all_other:
  "\<forall>cid \<in> set cids. \<not> prefix cid q \<and> \<not> prefix q cid \<Longrightarrow> get_path (snd (cleanup_all m cids)) q = get_path m q"
proof (induction m cids rule: cleanup_all.induct)
  case (2 m cid cids)
  then show ?case using cleanup_other [of cid q m]
    by (auto simp: cleanup_def split: prod.splits option.splits)
qed simp

lemma GetContext_path:
  assumes "vc_wf vc" "p \<noteq> []"
  shows "get_path (Variables (GetContext vc)) p =
    (if hd p = argumentLabel \<and> moduleArguments vc \<noteq> [] then get_path (moduleArguments vc) (tl p)
     else get_path (Variables (scope vc)) p)"
  using assms by (cases p) (simp_all add: GetContext_def NewScope_def vc_wf_def Let_def del: any_wf.simps(2))

lemma CacheExports_exact_parts:
  assumes "vc_wf vc" and "cid \<noteq> []" and "\<And>x. v = Some x \<Longrightarrow> any_wf x"
  shows "fst (CacheExports cid v vc) \<noteq> None \<longleftrightarrow>
      (\<exists>q x. strict_prefix q cid \<and> get_path (Variables (scope vc)) q = Some (Plain x))"
    and "fst (CacheExports cid v vc) \<noteq> None \<Longrightarrow> snd (CacheExports cid v vc) = vc"
    and "fst (CacheExports cid v vc) = None \<Longrightarrow> hd cid \<noteq> argumentLabel \<or> moduleArguments vc = [] \<Longrightarrow>
      get_path (Variables (GetContext (snd (CacheExports cid v vc)))) cid =
        Some (case v of None \<Rightarrow> MapVal [] | Some x \<Rightarrow> x)"
    and "\<not> prefix cid q \<Longrightarrow> \<not> prefix q cid \<Longrightarrow>
      get_path (Variables (GetContext (snd (CacheExports cid v vc)))) q = get_path (Variables (GetContext vc)) q"
proof -
  define x where "x = (case v of None \<Rightarrow> MapVal [] | Some x \<Rightarrow> x)"
  define m where "m = Variables (scope vc)"
  have "call_wf (CallCacheExports cid v)" using assms(3) by (cases v) auto
  from cache_call_wf [OF assms(1) this] have wf: "vc_wf (snd (CacheExports cid v vc))" by simp
  note frame = CacheExports_frame [of cid v vc, folded x_def m_def]
  have err: "fst (CacheExports cid v vc) \<noteq> None \<longleftrightarrow> blocked m cid"
    unfolding frame using cache_path_ok [OF assms(2), of m x] cache_path_blocked [OF assms(2), of m x]
    by (cases "blocked m cid") auto
  then show "fst (CacheExports cid v vc) \<noteq> None \<longleftrightarrow>
      (\<exists>q x. strict_prefix q cid \<and> get_path (Variables (scope vc)) q = Some (Plain x))"
    unfolding blocked_iff m_def .
  show "fst (CacheExports cid v vc) \<noteq> None \<Longrightarrow> snd (CacheExports cid v vc) = vc"
    unfolding err using cache_path_blocked_keeps [of m cid x]
    by (cases vc) (auto simp: CacheExports_def Let_def m_def x_def split: prod.splits)
  show "get_path (Variables (GetContext (snd (CacheExports cid v vc)))) cid = Some x"
    if "fst (CacheExports cid v vc) = None" "hd cid \<noteq> argumentLabel \<or> moduleArguments vc = []"
    using GetContext_path [OF wf assms(2)] cache_path_ok [OF assms(2)] that err frame by auto
  show "get_path (Variables (GetContext (snd (CacheExports cid v vc)))) q = get_path (Variables (GetContext vc)) q"
    if "\<not> prefix cid q" "\<not> prefix q cid"
  proof -
    have "q \<noteq> []" using that by auto
    then show ?thesis using GetContext_path [OF wf] GetContext_path [OF assms(1)] cache_path_other [OF that, of x m]
      by (simp add: frame m_def)
  qed
qed

text \<open>
  C31: caching the exports of a component. It fails exactly when a value that is not a map sits on
  the way to the component's ID, and then changes nothing. Otherwise the scope handed to
  expressions resolves the ID to the exports (to an empty object for nil), and every unrelated
  path to what it was; the name of the module arguments shadows a component of that name.
\<close>

theorem CacheExports_exact:
  assumes "vc_wf vc" and "cid \<noteq> []" and "\<And>x. v = Some x \<Longrightarrow> any_wf x"
  shows "(fst (CacheExports cid v vc) \<noteq> None \<longleftrightarrow>
      (\<exists>q x. strict_prefix q cid \<and> get_path (Variables (scope vc)) q = Some (Plain x))) \<and>
    (fst (CacheExports cid v vc) \<noteq> None \<longrightarrow> snd (CacheExports cid v vc) = vc) \<and>
    (fst (CacheExports cid v vc) = None \<longrightarrow> hd cid \<noteq> argumentLabel \<or> moduleArguments vc = [] \<longrightarrow>
      get_path (Variables (GetContext (snd (CacheExports cid v vc)))) cid =
        Some (case v of None \<Rightarrow> MapVal [] | Some x \<Rightarrow> x)) \<and>
    (\<forall>q. \<not> prefix cid q \<longrightarrow> \<not> prefix q cid \<longrightarrow>
      get_path (Variables (GetContext (snd (CacheExports cid v vc)))) q = get_path (Variables (GetContext vc)) q)"
  using CacheExports_exact_parts [OF assms] by blast

lemma SyncIDs_exact_parts:
  assumes "[] \<notin> set (cleanupIds ids vc)"
    and "\<forall>cid \<in> set (cleanupIds ids vc). \<forall>q x. strict_prefix q cid \<longrightarrow> get_path (Variables (scope vc)) q \<noteq> Some (Plain x)"
  shows "fst (SyncIDs ids vc) = None" and "componentIds (snd (SyncIDs ids vc)) = ids"
    and "\<forall>name cid. (name, cid) \<in> set (componentIds vc) \<longrightarrow> map_of ids name = None \<longrightarrow>
      get_path (Variables (scope (snd (SyncIDs ids vc)))) cid = None"
    and "\<forall>q. (\<forall>name cid. (name, cid) \<in> set (componentIds vc) \<longrightarrow> map_of ids name = None \<longrightarrow>
        \<not> prefix cid q \<and> \<not> prefix q cid) \<longrightarrow>
      get_path (Variables (scope (snd (SyncIDs ids vc)))) q = get_path (Variables (scope vc)) q"
proof -
  define m where "m = Variables (scope vc)"
  define cids where "cids = cleanupIds ids vc"
  have cids: "cid \<in> set cids \<longleftrightarrow> (\<exists>name. (name, cid) \<in> set (componentIds vc) \<and> map_of ids name = None)" for cid
    by (auto simp: cids_def cleanupIds_def)
  have "\<forall>cid \<in> set cids. \<not> blocked m cid" using assms(2) by (auto simp: blocked_iff cids_def m_def)
  from cleanup_all_ok [OF _ this] assms(1)
  have ok: "fst (cleanup_all m cids) = None" "\<forall>cid \<in> set cids. get_path (snd (cleanup_all m cids)) cid = None"
    by (simp_all add: cids_def)
  then show "fst (SyncIDs ids vc) = None" "componentIds (snd (SyncIDs ids vc)) = ids"
    by (auto simp: SyncIDs_def m_def cids_def split: prod.splits option.splits)
  show "\<forall>name cid. (name, cid) \<in> set (componentIds vc) \<longrightarrow> map_of ids name = None \<longrightarrow>
      get_path (Variables (scope (snd (SyncIDs ids vc)))) cid = None"
    using ok(2) cids by (auto simp: SyncIDs_frame m_def cids_def)
  show "\<forall>q. (\<forall>name cid. (name, cid) \<in> set (componentIds vc) \<longrightarrow> map_of ids name = None \<longrightarrow>
        \<not> prefix cid q \<and> \<not> prefix q cid) \<longrightarrow>
      get_path (Variables (scope (snd (SyncIDs ids vc)))) q = get_path (Variables (scope vc)) q"
    using cleanup_all_other [of cids _ m] cids by (auto simp: SyncIDs_frame m_def cids_def)
qed

text \<open>
  Synchronising the component IDs. When no value blocks the way to a removed component's ID,
  it succeeds, takes over the new IDs, leaves no value under a removed ID and does not change any
  path that is unrelated to the removed IDs, whatever order the map of IDs is iterated in.
\<close>

theorem SyncIDs_exact:
  assumes "[] \<notin> set (cleanupIds ids vc)"
    and "\<forall>cid \<in> set (cleanupIds ids vc). \<forall>q x. strict_prefix q cid \<longrightarrow> get_path (Variables (scope vc)) q \<noteq> Some (Plain x)"
  shows "fst (SyncIDs ids vc) = None \<and> componentIds (snd (SyncIDs ids vc)) = ids \<and>
    (\<forall>name cid. (name, cid) \<in> set (componentIds vc) \<longrightarrow> map_of ids name = None \<longrightarrow>
      get_path (Variables (scope (snd (SyncIDs ids vc)))) cid = None) \<and>
    (\<forall>q. (\<forall>name cid. (name, cid) \<in> set (componentIds vc) \<longrightarrow> map_of ids name = None \<longrightarrow>
        \<not> prefix cid q \<and> \<not> prefix q cid) \<longrightarrow>
      get_path (Variables (scope (snd (SyncIDs ids vc)))) q = get_path (Variables (scope vc)) q)"
  by (intro conjI SyncIDs_exact_parts assms)

text \<open>
  A component that is created and removed again leaves no trace: caching the exports of an ID
  that has no value, when no empty object lies on its path, and cleaning the ID up restores the
  scope exactly.
\<close>

theorem cache_cleanup_roundtrip:
  assumes "cid \<noteq> []" and "get_path (Variables (scope vc)) cid = None"
    and "no_empty_on (Variables (scope vc)) cid" and "fst (CacheExports cid v vc) = None"
  shows "cleanup (Variables (scope (snd (CacheExports cid v vc)))) cid = (None, Variables (scope vc))"
proof -
  have "\<not> blocked (Variables (scope vc)) cid"
  proof
    assume "blocked (Variables (scope vc)) cid"
    from cache_path_blocked [OF assms(1) this] assms(4) show False by (simp add: CacheExports_frame) (metis option.distinct(1))
  qed
  from cleanup_cache_path [OF assms(1,2) this assms(3)] show ?thesis
    by (simp add: CacheExports_frame cleanup_def)
qed

lemma value_cache_calls_parts:
  assumes "\<forall>c \<in> set cs. call_wf c" and "vc = fold (do_cache_call eq) cs newValueCache"
  shows "vc_wf vc" and "CreateModuleExports vc = moduleExports vc"
    and "deepCopyMap (Variables (scope vc)) = Variables (scope vc)"
    and "GetModuleArgument k (CacheModuleArgument k' v vc) =
      (if k = k' then Some (MapVal [(''value'', v)]) else GetModuleArgument k vc)"
    and "GetModuleArgument k (SyncModuleArgs args vc) =
      (if map_of args k = None then None else GetModuleArgument k vc)"
proof -
  have calls: "vc_wf (fold (do_cache_call eq) cs u)" if "vc_wf u" for u :: "'a valueCache"
    using that assms(1) by (induction cs arbitrary: u) (simp_all add: cache_call_wf)
  show wf: "vc_wf vc"
    unfolding assms(2) by (rule calls) (simp add: newValueCache_def vc_wf_def NewScope_def)
  then show "CreateModuleExports vc = moduleExports vc"
    using foldl_put_copy [of "moduleExports vc" "[]"] by (simp add: CreateModuleExports_def vc_wf_def)
  show "deepCopyMap (Variables (scope vc)) = Variables (scope vc)" using wf by (simp add: vc_wf_def)
  show "GetModuleArgument k (CacheModuleArgument k' v vc) =
      (if k = k' then Some (MapVal [(''value'', v)]) else GetModuleArgument k vc)"
    by (simp add: GetModuleArgument_def CacheModuleArgument_def)
  show "GetModuleArgument k (SyncModuleArgs args vc) =
      (if map_of args k = None then None else GetModuleArgument k vc)"
    by (auto simp: GetModuleArgument_def SyncModuleArgs_def sync_args_step map_keys_def)
      (metis map_of_eq_None_iff option.exhaust)+
qed

subsection \<open>The history of a cache\<close>

text \<open>
  What the cache should hold, from the calls made so far, the latest first: an argument is the one that was
  cached last, unless arguments were synchronised without it since; a module export is the one that was
  cached last, unless the exports were cleared since; an export changes when it is new or not equal to the
  one before, and clearing counts as a change.
\<close>

fun argument_after :: "string \<Rightarrow> 'v cache_call list \<Rightarrow> 'v any option" where
  "argument_after k [] = None"
| "argument_after k (CallCacheArgument k' v # cs) = (if k = k' then Some v else argument_after k cs)"
| "argument_after k (CallSyncArgs args # cs) = (if map_of args k = None then None else argument_after k cs)"
| "argument_after k (_ # cs) = argument_after k cs"

fun export_after :: "string \<Rightarrow> 'v cache_call list \<Rightarrow> 'v any option" where
  "export_after k [] = None"
| "export_after k (CallCacheExportValue k' v # cs) = (if k = k' then Some v else export_after k cs)"
| "export_after k (CallClearExports # cs) = None"
| "export_after k (_ # cs) = export_after k cs"

fun export_changes :: "('v any \<Rightarrow> 'v any \<Rightarrow> bool) \<Rightarrow> 'v cache_call list \<Rightarrow> nat" where
  "export_changes eq [] = 0"
| "export_changes eq (CallCacheExportValue k v # cs) =
     (case export_after k cs of Some old \<Rightarrow> if eq old v then 0 else 1 | None \<Rightarrow> 1) + export_changes eq cs"
| "export_changes eq (CallClearExports # cs) = 1 + export_changes eq cs"
| "export_changes eq (_ # cs) = export_changes eq cs"

lemma SyncModuleArgs_lookup: "map_of (moduleArguments (SyncModuleArgs args vc)) k = (if map_of args k = None then None else map_of (moduleArguments vc) k)"
  by (auto simp: SyncModuleArgs_def sync_args_step map_keys_def) (metis map_of_eq_None_iff option.exhaust)+

lemma call_index_frame:
  "moduleChangedIndex (snd (CacheExports cid v vc)) = moduleChangedIndex vc" "moduleChangedIndex (snd (SyncIDs ids vc)) = moduleChangedIndex vc"
  "moduleChangedIndex (SyncModuleArgs args vc) = moduleChangedIndex vc" "moduleExports (SyncModuleArgs args vc) = moduleExports vc"
  "moduleExports (UpdateScopeVariables vars vc) = moduleExports vc" "moduleArguments (UpdateScopeVariables vars vc) = moduleArguments vc"
  "moduleChangedIndex (UpdateScopeVariables vars vc) = moduleChangedIndex vc"
  by (simp_all add: CacheExports_def SyncIDs_def SyncModuleArgs_def UpdateScopeVariables_def Let_def split: prod.split option.split)

lemma history_step:
  fixes cs :: "'v cache_call list"
  assumes "map_of (moduleArguments vc) = (\<lambda>k. map_option (\<lambda>v. MapVal [(''value'', v)]) (argument_after k cs))"
    "map_of (moduleExports vc) = (\<lambda>k. export_after k cs)" "moduleChangedIndex vc = word_of_nat (export_changes eq cs)"
  shows "map_of (moduleArguments (do_cache_call eq c vc)) = (\<lambda>k. map_option (\<lambda>v. MapVal [(''value'', v)]) (argument_after k (c # cs))) \<and>
    map_of (moduleExports (do_cache_call eq c vc)) = (\<lambda>k. export_after k (c # cs)) \<and>
    moduleChangedIndex (do_cache_call eq c vc) = word_of_nat (export_changes eq (c # cs))"
proof (cases c)
  case (CallSyncArgs args)
  then show ?thesis using assms by (simp add: call_index_frame SyncModuleArgs_lookup fun_eq_iff)
next
  case (CallCacheExportValue k v)
  then show ?thesis
    using assms by (auto simp: CacheModuleExportValue_def Let_def fun_eq_iff split: option.split)
qed (use assms in \<open>auto simp: call_index_frame CacheExports_frame SyncIDs_frame CacheModuleArgument_def ClearModuleExports_def fun_eq_iff\<close>)

lemma cache_history:
  "map_of (moduleArguments (fold (do_cache_call eq) cs newValueCache)) = (\<lambda>k. map_option (\<lambda>v. MapVal [(''value'', v)]) (argument_after k (rev cs))) \<and>
   map_of (moduleExports (fold (do_cache_call eq) cs newValueCache)) = (\<lambda>k. export_after k (rev cs)) \<and>
   moduleChangedIndex (fold (do_cache_call eq) cs newValueCache) = word_of_nat (export_changes eq (rev cs))"
proof (induction cs rule: rev_induct)
  case Nil
  show ?case by (simp add: newValueCache_def fun_eq_iff)
next
  case (snoc c cs)
  then show ?case using history_step [of "fold (do_cache_call eq) cs newValueCache" "rev cs" eq c] by simp
qed

text \<open>
  C32: after any sequence of calls on a new cache a module argument is the one cached last that was not
  synchronised away since, and expressions find it in the scope; the module exports handed to the parent are
  those cached last since they were cleared; and the index of changes counts, modulo two to the 64, the
  clearings and the exports that were new or not equal to the one before.
\<close>

theorem value_cache_history:
  assumes "\<forall>c \<in> set cs. call_wf c" and "vc = fold (do_cache_call eq) cs newValueCache"
  shows "GetModuleArgument k vc = map_option (\<lambda>v. MapVal [(''value'', v)]) (argument_after k (rev cs)) \<and>
    get_path (Variables (GetContext vc)) [argumentLabel, k] =
      (if moduleArguments vc = [] then get_path (Variables (scope vc)) [argumentLabel, k]
       else map_option (\<lambda>v. MapVal [(''value'', v)]) (argument_after k (rev cs))) \<and>
    map_of (CreateModuleExports vc) k = export_after k (rev cs) \<and>
    ExportChangeIndex vc = word_of_nat (export_changes eq (rev cs))"
proof -
  note h = cache_history [where eq = eq and cs = cs, folded assms(2)] and parts = value_cache_calls_parts [OF assms]
  have "get_path (moduleArguments vc) [k] = map_option (\<lambda>v. MapVal [(''value'', v)]) (argument_after k (rev cs))"
    using h by (cases "argument_after k (rev cs)") simp_all
  then have "get_path (Variables (GetContext vc)) [argumentLabel, k] =
      (if moduleArguments vc = [] then get_path (Variables (scope vc)) [argumentLabel, k]
       else map_option (\<lambda>v. MapVal [(''value'', v)]) (argument_after k (rev cs)))"
    using GetContext_path [OF parts(1), of "[argumentLabel, k]"] by auto
  then show ?thesis using h parts(2) by (simp add: GetModuleArgument_def ExportChangeIndex_def)
qed

section \<open>Witnesses\<close>

definition sample_cache :: "nat valueCache" where
  "sample_cache = snd (CacheExports [''prometheus'', ''scrape'', ''a''] (Some (Plain 1))
     (newValueCache\<lparr>componentIds := [(''prometheus.scrape.a'', [''prometheus'', ''scrape'', ''a''])]\<rparr>))"

lemma sample_cache_vars: "Variables (scope sample_cache) =
    [(''prometheus'', MapVal [(''scrape'', MapVal [(''a'', Plain 1)])])]"
  "componentIds sample_cache = [(''prometheus.scrape.a'', [''prometheus'', ''scrape'', ''a''])]"
  "moduleArguments sample_cache = []" "moduleExports sample_cache = []"
  by (simp_all add: sample_cache_def CacheExports_def newValueCache_def NewScope_def map_put_def)

theorem CacheExports_exact_witness:
  "get_path (Variables (GetContext (snd (CacheExports [''loki'', ''b''] None sample_cache)))) [''loki'', ''b''] =
    Some (MapVal [])"
proof -
  have "fst (CacheExports [''loki'', ''b''] None sample_cache) = None"
    by (simp add: CacheExports_frame sample_cache_vars)
  with CacheExports_exact [of sample_cache "[''loki'', ''b'']" None] show ?thesis
    by (simp add: vc_wf_def sample_cache_vars map_wf_def)
qed

theorem SyncIDs_exact_witness:
  "get_path (Variables (scope (snd (SyncIDs [] sample_cache)))) [''prometheus'', ''scrape'', ''a''] = None"
proof -
  have ids: "cleanupIds [] sample_cache = [[''prometheus'', ''scrape'', ''a'']]"
    by (simp add: cleanupIds_def sample_cache_vars)
  have "\<not> blocked (Variables (scope sample_cache)) [''prometheus'', ''scrape'', ''a'']"
    by (simp add: sample_cache_vars)
  then have "\<forall>q x. strict_prefix q [''prometheus'', ''scrape'', ''a''] \<longrightarrow>
      get_path (Variables (scope sample_cache)) q \<noteq> Some (Plain x)"
    by (auto simp: blocked_iff)
  from SyncIDs_exact [of "[]" sample_cache] this ids show ?thesis by (simp add: sample_cache_vars)
qed

theorem cache_cleanup_roundtrip_witness:
  "cleanup (Variables (scope (snd (CacheExports [''loki'', ''b''] None sample_cache)))) [''loki'', ''b''] =
    (None, Variables (scope sample_cache))"
  by (rule cache_cleanup_roundtrip) (simp_all add: CacheExports_frame sample_cache_vars)

definition sample_calls :: "nat cache_call list" where
  "sample_calls = [CallCacheArgument ''x'' (Plain 1), CallCacheArgument ''y'' (Plain 2), CallCacheExportValue ''e'' (Plain 3),
     CallClearExports, CallCacheExportValue ''f'' (Plain 4), CallCacheExportValue ''f'' (Plain 4), CallSyncArgs [(''x'', Plain 0)]]"

theorem value_cache_history_witness:
  "GetModuleArgument ''x'' (fold (do_cache_call (=)) sample_calls newValueCache) = Some (MapVal [(''value'', Plain 1)]) \<and>
   GetModuleArgument ''y'' (fold (do_cache_call (=)) sample_calls newValueCache) = None \<and>
   map_of (CreateModuleExports (fold (do_cache_call (=)) sample_calls newValueCache)) ''e'' = None \<and>
   ExportChangeIndex (fold (do_cache_call (=)) sample_calls newValueCache) = 3"
proof -
  have "\<forall>c \<in> set sample_calls. call_wf c" by (simp add: sample_calls_def)
  note h = value_cache_history [OF this refl, where eq = "(=)"]
  show ?thesis using h [of "''x''"] h [of "''y''"] h [of "''e''"] by (simp add: sample_calls_def)
qed

end
