(* ===== verification/Wildcard.thy ===== *)
theory Wildcard
  imports Utf8
begin

text \<open>
  Wildcard matching, \<^verbatim>\<open>internal/util/wildcard/match.go\<close>: the backtracking matcher over runes, with
  the out-of-range slice expression of the simple mode as \<open>None\<close>, against the set of texts that a
  pattern denotes.
\<close>

section \<open>The matcher\<close>

definition star :: int where "star = 42"
definition question :: int where "question = 63"

function deepMatchRune :: "int list \<Rightarrow> int list \<Rightarrow> bool \<Rightarrow> bool option" where
  "deepMatchRune str [] simple = Some (str = [])"
| "deepMatchRune str (p # ps) simple =
     (if p = question then
        (if str = [] then (if simple then None else Some False) else deepMatchRune (tl str) ps simple)
      else if p = star then
        (case deepMatchRune str ps simple of
           None \<Rightarrow> None
         | Some True \<Rightarrow> Some True
         | Some False \<Rightarrow> (if str = [] then Some False else deepMatchRune (tl str) (p # ps) simple))
      else if str = [] \<or> hd str \<noteq> p then Some False
      else deepMatchRune (tl str) ps simple)"
  by pat_completeness auto

termination
  by (relation "measure (\<lambda>(str, ps, _). length str + length ps)") (auto simp: neq_Nil_conv)

definition MatchSimple :: "string \<Rightarrow> string \<Rightarrow> bool option" where
  "MatchSimple pattern name =
     (if pattern = [] then Some (name = pattern)
      else if pattern = ''*'' then Some True
      else deepMatchRune (string_runes name) (string_runes pattern) True)"

definition Match :: "string \<Rightarrow> string \<Rightarrow> bool option" where
  "Match pattern name =
     (if pattern = [] then Some (name = pattern)
      else if pattern = ''*'' then Some True
      else deepMatchRune (string_runes name) (string_runes pattern) False)"

section \<open>What a pattern denotes\<close>

fun glob :: "int list \<Rightarrow> int list set" where
  "glob [] = {[]}"
| "glob (p # ps) =
     (if p = star then {us @ vs | us vs. vs \<in> glob ps}
      else if p = question then {u # vs | u vs. vs \<in> glob ps}
      else {p # vs | vs. vs \<in> glob ps})"

lemma star_question [simp]: "star \<noteq> question" "question \<noteq> star"
  by (simp_all add: star_def question_def)

lemma glob_star_unfold:
  "str \<in> glob (star # ps) \<longleftrightarrow> str \<in> glob ps \<or> (str \<noteq> [] \<and> tl str \<in> glob (star # ps))"
  by (cases str) (auto simp: Cons_eq_append_conv)

lemma deepMatchRune_sound: "deepMatchRune str ps simple = Some b \<Longrightarrow> b \<longleftrightarrow> str \<in> glob ps"
proof (induction str ps simple arbitrary: b rule: deepMatchRune.induct)
  case (2 str p ps simple)
  consider (question) "p = question" | (star) "p = star" | (lit) "p \<noteq> question" "p \<noteq> star" by blast
  then show ?case
  proof cases
    case question
    with 2 show ?thesis by (cases str) (auto split: if_splits)
  next
    case star
    show ?thesis
    proof (cases "deepMatchRune str ps simple")
      case (Some c)
      then have c: "c \<longleftrightarrow> str \<in> glob ps" using "2.IH"(2) star by simp
      show ?thesis
      proof (cases c)
        case True
        with Some "2.prems" star c show ?thesis by (auto simp: glob_star_unfold [of str])
      next
        case False
        with Some "2.prems" star c "2.IH"(3) [of c] show ?thesis
          unfolding star glob_star_unfold [of str] by (auto split: if_splits)
      qed
    qed (use "2.prems" star in simp)
  next
    case lit
    with 2 show ?thesis by (cases str) (auto split: if_splits)
  qed
qed simp

lemma deepMatchRune_returns: "\<not> simple \<or> question \<notin> set ps \<Longrightarrow> deepMatchRune str ps simple \<noteq> None"
proof (induction str ps simple rule: deepMatchRune.induct)
  case (2 str p ps simple)
  show ?case
  proof (cases "p = star")
    case True
    then obtain c where "deepMatchRune str ps simple = Some c" using 2 by auto
    with 2 True show ?thesis by (cases c) auto
  qed (use 2 in auto)
qed simp

lemma glob_star_all: "glob [star] = UNIV"
  by simp

lemma string_runes_low_byte: "byte c < 0x80 \<Longrightarrow> string_runes (c # p) = byte c # string_runes p"
  by (subst string_runes.simps) (simp add: DecodeRune_ascii)

lemma string_runes_star: "string_runes ''*'' = [star]"
  by (simp add: string_runes_low_byte byte_def star_def)

lemma string_runes_eq_Nil: "string_runes s = [] \<longleftrightarrow> s = []"
  by (cases s) (simp, subst string_runes.simps, simp add: Let_def split: prod.splits)

lemma Match_exact_parts:
  "Match pattern name = Some (string_runes name \<in> glob (string_runes pattern))"
  "MatchSimple pattern name = Some b \<Longrightarrow> b \<longleftrightarrow> string_runes name \<in> glob (string_runes pattern)"
  "question \<notin> set (string_runes pattern) \<Longrightarrow> MatchSimple pattern name \<noteq> None"
proof -
  obtain c where "deepMatchRune (string_runes name) (string_runes pattern) False = Some c"
    using deepMatchRune_returns by blast
  with deepMatchRune_sound [OF this] show "Match pattern name = Some (string_runes name \<in> glob (string_runes pattern))"
    by (auto simp: Match_def string_runes_star string_runes_eq_Nil)
  show "MatchSimple pattern name = Some b \<Longrightarrow> b \<longleftrightarrow> string_runes name \<in> glob (string_runes pattern)"
    by (auto simp: MatchSimple_def string_runes_star string_runes_eq_Nil dest: deepMatchRune_sound split: if_splits)
  show "question \<notin> set (string_runes pattern) \<Longrightarrow> MatchSimple pattern name \<noteq> None"
    using deepMatchRune_returns by (auto simp: MatchSimple_def)
qed

text \<open>
  C33: \<^verbatim>\<open>Match\<close> always returns, and says whether the text is in the set that the pattern denotes,
  where a star stands for any run of runes and a question mark for any one rune.
  \<^verbatim>\<open>MatchSimple\<close> agrees with it whenever it returns (so a question mark is special there too), and
  it returns for every pattern without a question mark.
\<close>

theorem Match_exact:
  "Match pattern name = Some (string_runes name \<in> glob (string_runes pattern)) \<and>
   (\<forall>b. MatchSimple pattern name = Some b \<longrightarrow> (b \<longleftrightarrow> string_runes name \<in> glob (string_runes pattern))) \<and>
   (question \<notin> set (string_runes pattern) \<longrightarrow> MatchSimple pattern name \<noteq> None)"
  using Match_exact_parts by blast

text \<open>In simple mode a question mark past the end of the text slices out of range.\<close>

lemma MatchSimple_panics: "MatchSimple ''a?'' ''a'' = None"
  by (simp add: MatchSimple_def string_runes_low_byte byte_def question_def star_def)

theorem Match_exact_witness: "MatchSimple ''*b'' ''ab'' \<noteq> None"
proof -
  have "question \<notin> set (string_runes ''*b'')" by (simp add: string_runes_low_byte byte_def question_def)
  with Match_exact [of "''*b''" "''ab''"] show ?thesis by blast
qed

end
