(* ===== verification/Feature_Gate.thy ===== *)
theory Feature_Gate
  imports Prelude
begin

text \<open>
  Stability levels, \<^verbatim>\<open>internal/featuregate/featuregate.go\<close>: a feature is allowed when its stability
  is at least the configured minimum. A level is a Go \<^verbatim>\<open>int\<close>, so values outside the four named
  constants exist; the map of names is iterated in an arbitrary order.
\<close>

type_synonym Stability = int

definition StabilityUndefined :: Stability where "StabilityUndefined = 0"
definition StabilityExperimental :: Stability where "StabilityExperimental = 1"
definition StabilityPublicPreview :: Stability where "StabilityPublicPreview = 2"
definition StabilityGenerallyAvailable :: Stability where "StabilityGenerallyAvailable = 3"

lemmas stability_levels = StabilityUndefined_def StabilityExperimental_def StabilityPublicPreview_def
  StabilityGenerallyAvailable_def

definition stabilityToString :: "(Stability, string) gomap" where
  "stabilityToString = [(StabilityExperimental, ''experimental''),
     (StabilityPublicPreview, ''public-preview''), (StabilityGenerallyAvailable, ''generally-available'')]"

text \<open>The quoting verb of the format adds double quotes; the names need no escapes.\<close>

definition Stability_String :: "Stability \<Rightarrow> string" where
  "Stability_String s = (case map_of stabilityToString s of
     Some str \<Rightarrow> CHR 0x22 # str @ [CHR 0x22] | None \<Rightarrow> ''<invalid_stability_level>'')"

text \<open>The errors of \<open>CheckAllowed\<close> and \<open>Set\<close>, with the values they print.\<close>

datatype gate_error = LevelsUndefined string string string | BelowMinimum string string string
  | InvalidLevel string

definition CheckAllowed :: "Stability \<Rightarrow> Stability \<Rightarrow> string \<Rightarrow> gate_error option" where
  "CheckAllowed stability minStability featureName =
     (if stability = StabilityUndefined \<or> minStability = StabilityUndefined
      then Some (LevelsUndefined (Stability_String stability) featureName (Stability_String minStability))
      else if stability < minStability
      then Some (BelowMinimum featureName (Stability_String stability) (Stability_String minStability))
      else None)"

definition AllowedValues :: "string list" where
  "AllowedValues = [Stability_String StabilityGenerallyAvailable, Stability_String StabilityPublicPreview,
     Stability_String StabilityExperimental]"

text \<open>The loop of \<open>Set\<close> over the names, in the iteration order \<open>m\<close> of the map.\<close>

fun set_loop :: "(Stability, string) gomap \<Rightarrow> string \<Rightarrow> Stability option" where
  "set_loop [] str = None"
| "set_loop ((k, v) # m) str = (if v = str then Some k else set_loop m str)"

definition Stability_Set :: "(Stability, string) gomap \<Rightarrow> string \<Rightarrow> Stability \<Rightarrow> gate_error option \<times> Stability" where
  "Stability_Set m str s = (case set_loop m str of Some k \<Rightarrow> (None, k) | None \<Rightarrow> (Some (InvalidLevel str), s))"

definition Permits :: "Stability \<Rightarrow> Stability \<Rightarrow> bool" where
  "Permits s stability \<longleftrightarrow> s \<le> stability"

section \<open>Properties\<close>

lemma set_loop_Some: "distinct (map snd m) \<Longrightarrow> set_loop m str = Some k \<longleftrightarrow> (k, str) \<in> set m"
  by (induction m str rule: set_loop.induct) (auto simp: rev_image_eqI)

lemma set_loop_order:
  assumes "set m = set stabilityToString" "map_wf m"
  shows "set_loop m str = Some k \<longleftrightarrow> map_of stabilityToString k = Some str"
proof -
  have wf: "map_wf stabilityToString" by (simp add: stabilityToString_def stability_levels map_wf_def)
  have "k = k'" if "(k, v) \<in> set stabilityToString" "(k', v) \<in> set stabilityToString" for k k' v
    using that by (auto simp: stabilityToString_def)
  then have "inj_on snd (set m)" using assms(1) by (fastforce intro: inj_onI)
  then have "distinct (map snd m)"
    using assms(2) by (simp add: distinct_map map_wf_def)
  then show ?thesis using set_loop_Some assms(1) map_wf_in_set [OF wf] by simp
qed

lemma featuregate_exact_parts:
  "CheckAllowed s mn name = None \<longleftrightarrow> s \<noteq> StabilityUndefined \<and> mn \<noteq> StabilityUndefined \<and> Permits mn s"
  "set m = set stabilityToString \<Longrightarrow> map_wf m \<Longrightarrow>
    fst (Stability_Set m str old) = None \<longleftrightarrow> CHR 0x22 # str @ [CHR 0x22] \<in> set AllowedValues"
  "set m = set stabilityToString \<Longrightarrow> map_wf m \<Longrightarrow> fst (Stability_Set m str old) = None \<Longrightarrow>
    Stability_String (snd (Stability_Set m str old)) = CHR 0x22 # str @ [CHR 0x22]"
  "fst (Stability_Set m str old) \<noteq> None \<Longrightarrow> snd (Stability_Set m str old) = old"
proof -
  show "CheckAllowed s mn name = None \<longleftrightarrow> s \<noteq> StabilityUndefined \<and> mn \<noteq> StabilityUndefined \<and> Permits mn s"
    by (auto simp: CheckAllowed_def Permits_def)
  have allowed: "CHR 0x22 # str @ [CHR 0x22] \<in> set AllowedValues \<longleftrightarrow> (\<exists>k. map_of stabilityToString k = Some str)"
    by (auto simp: AllowedValues_def Stability_String_def stabilityToString_def stability_levels split: if_splits)
      (presburger+)
  {
    assume m: "set m = set stabilityToString" "map_wf m"
    note order = set_loop_order [OF m, where str = str]
    show "fst (Stability_Set m str old) = None \<longleftrightarrow> CHR 0x22 # str @ [CHR 0x22] \<in> set AllowedValues"
      using order unfolding allowed by (cases "set_loop m str") (auto simp: Stability_Set_def)
    show "Stability_String (snd (Stability_Set m str old)) = CHR 0x22 # str @ [CHR 0x22]"
      if "fst (Stability_Set m str old) = None"
      using order [of "the (set_loop m str)"] that
      by (cases "set_loop m str") (auto simp: Stability_Set_def Stability_String_def)
  }
  show "fst (Stability_Set m str old) \<noteq> None \<Longrightarrow> snd (Stability_Set m str old) = old"
    by (auto simp: Stability_Set_def split: option.splits)
qed

text \<open>
  The gate. \<^verbatim>\<open>CheckAllowed\<close> accepts exactly when both levels are defined and the minimum permits
  the level. Parsing a level, in whatever order the map of names is iterated, inverts printing:
  it succeeds exactly on the printed names without their quotes, and an unknown name is an error
  that leaves the level as it was.
\<close>

theorem featuregate_exact:
  "(CheckAllowed s mn name = None \<longleftrightarrow> s \<noteq> StabilityUndefined \<and> mn \<noteq> StabilityUndefined \<and> Permits mn s) \<and>
   (set m = set stabilityToString \<and> map_wf m \<longrightarrow>
     (fst (Stability_Set m str old) = None \<longleftrightarrow> CHR 0x22 # str @ [CHR 0x22] \<in> set AllowedValues) \<and>
     (fst (Stability_Set m str old) = None \<longrightarrow>
       Stability_String (snd (Stability_Set m str old)) = CHR 0x22 # str @ [CHR 0x22])) \<and>
   (fst (Stability_Set m str old) \<noteq> None \<longrightarrow> snd (Stability_Set m str old) = old)"
  using featuregate_exact_parts(1) [of s mn name] featuregate_exact_parts(2,3) [of m str old]
    featuregate_exact_parts(4) [of m str old] by blast

theorem featuregate_exact_witness:
  "Stability_String (snd (Stability_Set stabilityToString ''experimental'' 0)) = CHR 0x22 # ''experimental'' @ [CHR 0x22]"
proof -
  have "map_wf stabilityToString" "fst (Stability_Set stabilityToString ''experimental'' 0) = None"
    by (simp_all add: Stability_Set_def stabilityToString_def map_wf_def stability_levels)
  with featuregate_exact [of 1 1 "[]" stabilityToString "''experimental''" 0] show ?thesis by blast
qed

end
