(* ===== verification/Health.thy ===== *)
theory Health
  imports Prelude "HOL-Library.Word"
begin

text \<open>
  Component health, \<^verbatim>\<open>internal/component/component_health.go\<close>: health types as the bytes they are,
  their text form, and the choice of the least healthy report. A byte past the last type makes the
  table of priorities index out of range, which is \<open>None\<close>. Times are instants on one clock.
\<close>

type_synonym HealthType = "8 word"

definition HealthTypeUnknown :: HealthType where "HealthTypeUnknown = 0"
definition HealthTypeHealthy :: HealthType where "HealthTypeHealthy = 1"
definition HealthTypeUnhealthy :: HealthType where "HealthTypeUnhealthy = 2"
definition HealthTypeExited :: HealthType where "HealthTypeExited = 3"

lemmas health_types = HealthTypeUnknown_def HealthTypeHealthy_def HealthTypeUnhealthy_def HealthTypeExited_def

record Health =
  HealthState :: HealthType
  Message :: string
  UpdateTime :: int

definition HealthType_String :: "HealthType \<Rightarrow> string" where
  "HealthType_String ht =
     (if ht = HealthTypeHealthy then ''healthy''
      else if ht = HealthTypeUnhealthy then ''unhealthy''
      else if ht = HealthTypeExited then ''exited''
      else ''unknown'')"

definition MarshalText :: "HealthType \<Rightarrow> string" where
  "MarshalText ht = HealthType_String ht"

text \<open>On an error the receiver keeps its value; the error quotes the text.\<close>

definition UnmarshalText :: "string \<Rightarrow> HealthType \<Rightarrow> string option \<times> HealthType" where
  "UnmarshalText text ht =
     (if text = ''healthy'' then (None, HealthTypeHealthy)
      else if text = ''unhealthy'' then (None, HealthTypeUnhealthy)
      else if text = ''unknown'' then (None, HealthTypeUnknown)
      else if text = ''exited'' then (None, HealthTypeExited)
      else (Some text, ht))"

text \<open>The composite literal puts each priority at the index of its type.\<close>

definition healthPriority :: "int list" where
  "healthPriority = [1, 0, 2, 3]"

definition priority_at :: "HealthType \<Rightarrow> int option" where
  "priority_at ht = (if unat ht < length healthPriority then Some (healthPriority ! unat ht) else None)"

fun least_loop :: "Health \<Rightarrow> Health list \<Rightarrow> Health option" where
  "least_loop leastHealthy [] = Some leastHealthy"
| "least_loop leastHealthy (compareHealth # hh) =
     (case (priority_at (HealthState compareHealth), priority_at (HealthState leastHealthy)) of
        (Some pc, Some pl) \<Rightarrow>
          (if pc > pl then least_loop compareHealth hh
           else if HealthState compareHealth = HealthState leastHealthy then
             (if UpdateTime compareHealth > UpdateTime leastHealthy then least_loop compareHealth hh
              else least_loop leastHealthy hh)
           else least_loop leastHealthy hh)
      | _ \<Rightarrow> None)"

definition LeastHealthy :: "Health \<Rightarrow> Health list \<Rightarrow> Health option" where
  "LeastHealthy h hh = (if hh = [] then Some h else least_loop h hh)"

section \<open>Properties\<close>

definition known_type :: "HealthType \<Rightarrow> bool" where
  "known_type ht \<longleftrightarrow> unat ht \<le> 3"

lemma known_types: "known_type ht \<Longrightarrow> ht = 0 \<or> ht = 1 \<or> ht = 2 \<or> ht = 3"
proof -
  assume "known_type ht"
  then have "unat ht = unat (0 :: HealthType) \<or> unat ht = unat (1 :: HealthType) \<or>
      unat ht = unat (2 :: HealthType) \<or> unat ht = unat (3 :: HealthType)"
    by (simp add: known_type_def) linarith
  then show ?thesis by (simp only: word_unat_eq_iff [symmetric])
qed

text \<open>
  The documented order: exited before unhealthy before unknown before healthy, then the later
  report.
\<close>

definition worse :: "Health \<Rightarrow> Health \<Rightarrow> bool" where
  "worse a b \<longleftrightarrow> (\<exists>x y. priority_at (HealthState a) = Some x \<and> priority_at (HealthState b) = Some y \<and>
     (x > y \<or> x = y \<and> UpdateTime a > UpdateTime b))"

lemma priority_at_eq:
  "known_type a \<Longrightarrow> known_type b \<Longrightarrow> priority_at a = priority_at b \<longleftrightarrow> a = b"
  by (drule known_types)+ (auto simp: priority_at_def healthPriority_def)

lemma priority_at_known: "known_type a \<Longrightarrow> \<exists>x. priority_at a = Some x"
  by (auto simp: priority_at_def healthPriority_def known_type_def)

text \<open>A step of the loop takes the report under comparison exactly when it is worse.\<close>

lemma least_loop_step:
  assumes "known_type (HealthState l)" "known_type (HealthState c)"
  shows "least_loop l (c # hh) = least_loop (if worse c l then c else l) hh"
proof -
  obtain x y where xy: "priority_at (HealthState c) = Some x" "priority_at (HealthState l) = Some y"
    using assms priority_at_known by blast
  with priority_at_eq [OF assms(2,1)] show ?thesis by (auto simp: worse_def)
qed

lemma worse_trans: "worse a b \<Longrightarrow> \<not> worse c b \<Longrightarrow> known_type (HealthState c) \<Longrightarrow> \<not> worse c a"
  using priority_at_known [of "HealthState c"] by (auto simp: worse_def)

lemma least_loop_correct:
  assumes "known_type (HealthState l)" "\<forall>h \<in> set hh. known_type (HealthState h)"
  shows "\<exists>r pre post. least_loop l hh = Some r \<and> l # hh = pre @ r # post \<and>
    (\<forall>h \<in> set pre. worse r h) \<and> (\<forall>h \<in> set post. \<not> worse h r)"
  using assms
proof (induction hh arbitrary: l)
  case (Cons c hh)
  note step = least_loop_step [OF Cons.prems(1), of c hh]
  have known: "known_type (HealthState c)" "\<forall>h \<in> set hh. known_type (HealthState h)" using Cons.prems by auto
  show ?case
  proof (cases "worse c l")
    case True
    from Cons.IH [OF known] obtain r pre post where
      r: "least_loop c hh = Some r" "c # hh = pre @ r # post" "\<forall>h \<in> set pre. worse r h" "\<forall>h \<in> set post. \<not> worse h r"
      by blast
    have "worse r l"
    proof (cases pre)
      case Nil
      with r(2) True show ?thesis by simp
    next
      case (Cons d ds)
      with r(2,3) have "worse r c" by simp
      with True show ?thesis by (auto simp: worse_def)
    qed
    with r step True known(1) show ?thesis by (intro exI [of _ r] exI [of _ "l # pre"] exI [of _ post]) simp
  next
    case False
    from Cons.IH [OF Cons.prems(1) known(2)] obtain r pre post where
      r: "least_loop l hh = Some r" "l # hh = pre @ r # post" "\<forall>h \<in> set pre. worse r h" "\<forall>h \<in> set post. \<not> worse h r"
      by blast
    show ?thesis
    proof (cases pre)
      case Nil
      with r have "least_loop l (c # hh) = Some l" "hh = post" "r = l" using step known(1) False by auto
      with r(4) False show ?thesis by (intro exI [of _ l] exI [of _ "[]"] exI [of _ "c # post"]) simp
    next
      case (Cons d ds)
      with r(2,3) have "worse r l" "hh = ds @ r # post" "d = l" by auto
      moreover have "worse r c" using False \<open>worse r l\<close> known(1) Cons.prems(1) priority_at_known
        by (fastforce simp: worse_def)
      ultimately show ?thesis using r Cons step known(1) False
        by (intro exI [of _ r] exI [of _ "l # c # ds"] exI [of _ post]) auto
    qed
  qed
next
  case Nil
  show ?case by (intro exI [of _ l] exI [of _ "[]"]) simp
qed

text \<open>
  The least healthy report. For reports of known types the choice always returns one of the
  arguments; it is worse, by type and then by time, than every argument before it, and no argument
  after it is worse, so it is the first of the worst.
\<close>

theorem LeastHealthy_first_worst:
  assumes "known_type (HealthState h)" and "\<forall>x \<in> set hh. known_type (HealthState x)"
  shows "\<exists>r pre post. LeastHealthy h hh = Some r \<and> h # hh = pre @ r # post \<and>
    (\<forall>x \<in> set pre. worse r x) \<and> (\<forall>x \<in> set post. \<not> worse x r)"
proof -
  have "LeastHealthy h hh = least_loop h hh" by (simp add: LeastHealthy_def)
  with least_loop_correct [OF assms] show ?thesis by simp
qed

text \<open>
  Health types survive their text form: unmarshalling a marshalled type gives it back if it is
  one of the four known types and the unknown type otherwise, and it never fails; any other text
  is an error that keeps the old value.
\<close>

theorem HealthType_text_roundtrip:
  "UnmarshalText (MarshalText ht) old = (None, if known_type ht then ht else HealthTypeUnknown)"
  "fst (UnmarshalText text old) = None \<longleftrightarrow> (\<exists>ht. text = MarshalText ht)"
  "fst (UnmarshalText text old) \<noteq> None \<Longrightarrow> snd (UnmarshalText text old) = old"
proof -
  have "\<not> known_type ht \<Longrightarrow> ht \<noteq> 0 \<and> ht \<noteq> 1 \<and> ht \<noteq> 2 \<and> ht \<noteq> 3" by (auto simp: known_type_def)
  then show "UnmarshalText (MarshalText ht) old = (None, if known_type ht then ht else HealthTypeUnknown)"
    using known_types [of ht]
    by (cases "known_type ht") (auto simp: UnmarshalText_def MarshalText_def HealthType_String_def health_types)
  show "fst (UnmarshalText text old) = None \<longleftrightarrow> (\<exists>ht. text = MarshalText ht)"
    (is "?l \<longleftrightarrow> ?r")
  proof
    assume ?l
    then consider "text = MarshalText HealthTypeHealthy" | "text = MarshalText HealthTypeUnhealthy"
      | "text = MarshalText HealthTypeUnknown" | "text = MarshalText HealthTypeExited"
      by (auto simp: UnmarshalText_def MarshalText_def HealthType_String_def health_types split: if_splits)
    then show ?r by cases blast+
  next
    assume ?r
    then obtain ht where "text = MarshalText ht" ..
    then show ?l by (simp add: UnmarshalText_def MarshalText_def HealthType_String_def)
  qed
  show "fst (UnmarshalText text old) \<noteq> None \<Longrightarrow> snd (UnmarshalText text old) = old"
    by (auto simp: UnmarshalText_def split: if_splits)
qed

theorem LeastHealthy_first_worst_witness:
  "\<exists>r pre post. LeastHealthy \<lparr>HealthState = 1, Message = [], UpdateTime = 5\<rparr> [\<lparr>HealthState = 3, Message = [], UpdateTime = 2\<rparr>] =
      Some r \<and> [\<lparr>HealthState = 1, Message = [], UpdateTime = 5\<rparr>, \<lparr>HealthState = 3, Message = [], UpdateTime = 2\<rparr>] = pre @ r # post \<and>
      (\<forall>x \<in> set pre. worse r x) \<and> (\<forall>x \<in> set post. \<not> worse x r)"
  by (rule LeastHealthy_first_worst) (simp_all add: known_type_def)

theorem HealthType_text_roundtrip_witness: "snd (UnmarshalText ''broken'' HealthTypeExited) = HealthTypeExited"
  by (rule HealthType_text_roundtrip(3)) (simp add: UnmarshalText_def)

end
