(* ===== verification/Split_Path.thy ===== *)
theory Split_Path
  imports Prelude
begin

text \<open>
  Routing of HTTP paths to components, \<^verbatim>\<open>internal/service/http/split_path.go\<close>, with the component
  IDs of \<^verbatim>\<open>internal/component/component_provider.go\<close>: the reverse path iterator and the search for
  the longest part of a path that names a component. The host's component lookup is an argument.
\<close>

section \<open>Component IDs\<close>

record ID =
  ModuleID :: string
  LocalID :: string

text \<open>\<^verbatim>\<open>strings.LastIndexByte\<close> gives the last index of a byte, or -1.\<close>

fun LastIndexByte :: "string \<Rightarrow> char \<Rightarrow> int" where
  "LastIndexByte s c = (if s = [] then -1 else if last s = c then int (length s) - 1
     else LastIndexByte (butlast s) c)"

declare LastIndexByte.simps [simp del]

definition ParseID :: "string \<Rightarrow> ID" where
  "ParseID input =
     (let slashIndex = LastIndexByte input CHR ''/'' in
        if slashIndex = -1 then \<lparr>ModuleID = [], LocalID = input\<rparr>
        else \<lparr>ModuleID = take (nat slashIndex) input, LocalID = drop (nat slashIndex + 1) input\<rparr>)"

definition ID_String :: "ID \<Rightarrow> string" where
  "ID_String i = (if ModuleID i \<noteq> [] then ModuleID i @ ''/'' @ LocalID i else LocalID i)"

section \<open>The reverse path iterator\<close>

record reversePathIterator =
  path :: string
  slashIndex :: int
  searchIndex :: int

definition newReversePathIterator :: "string \<Rightarrow> reversePathIterator" where
  "newReversePathIterator p = \<lparr>path = p, slashIndex = -1, searchIndex = -1\<rparr>"

definition it_Next :: "reversePathIterator \<Rightarrow> bool \<times> reversePathIterator" where
  "it_Next it =
     (if searchIndex it = -1 then
        (True, it\<lparr>slashIndex := int (length (path it)), searchIndex := int (length (path it))\<rparr>)
      else let i = LastIndexByte (take (nat (searchIndex it)) (path it)) CHR ''/'' in
        (i \<noteq> -1, it\<lparr>slashIndex := i, searchIndex := if i \<noteq> -1 then i else 0\<rparr>))"

definition it_Value :: "reversePathIterator \<Rightarrow> string \<times> string" where
  "it_Value it = (take (nat (slashIndex it)) (path it), drop (nat (slashIndex it)) (path it))"

lemma LastIndexByte_cases:
  "LastIndexByte s c = -1 \<and> c \<notin> set s \<or>
   (\<exists>n < length s. LastIndexByte s c = int n \<and> s ! n = c \<and> c \<notin> set (drop (n + 1) s))"
proof (induction s rule: rev_induct)
  case (snoc x s)
  show ?case
  proof (cases "x = c")
    case True
    then show ?thesis by (intro disjI2 exI [of _ "length s"]) (simp add: LastIndexByte.simps)
  next
    case False
    then have eq: "LastIndexByte (s @ [x]) c = LastIndexByte s c" by (subst LastIndexByte.simps) simp
    from snoc.IH show ?thesis
    proof
      assume "\<exists>n < length s. LastIndexByte s c = int n \<and> s ! n = c \<and> c \<notin> set (drop (n + 1) s)"
      then obtain n where "n < length s" "LastIndexByte s c = int n" "s ! n = c" "c \<notin> set (drop (n + 1) s)" by blast
      with False eq show ?thesis by (intro disjI2 exI [of _ n]) (auto simp: nth_append)
    qed (use False eq in auto)
  qed
qed (simp add: LastIndexByte.simps)

lemma it_Next_path [simp]: "path (snd (it_Next it)) = path it"
  by (simp add: it_Next_def Let_def)

text \<open>
  The loop over the iterator. The host answers that a component exists, that it does not, or
  with another error.
\<close>

datatype 'e host_answer = Found | ComponentNotFound | HostError 'e

datatype 'e split_error = InvalidPath | LookupFailed 'e | IndexPanic

definition preparePath :: "string \<Rightarrow> bool \<Rightarrow> bool \<Rightarrow> string" where
  "preparePath p addLeadingSlash addTrailingSlash =
     (let p1 = (if addLeadingSlash \<and> take 1 p \<noteq> ''/'' then ''/'' @ p else p)
      in if addTrailingSlash \<and> (p1 = [] \<or> last p1 \<noteq> CHR ''/'') then p1 @ ''/'' else p1)"

definition iter_measure :: "reversePathIterator \<Rightarrow> nat" where
  "iter_measure it = (if searchIndex it = -1 then length (path it) + 1 else nat (searchIndex it))"

lemma it_Next_measure: "fst (it_Next it) \<Longrightarrow> iter_measure (snd (it_Next it)) < iter_measure it"
  using LastIndexByte_cases [of "take (nat (searchIndex it)) (path it)" "CHR ''/''"]
  by (auto simp: it_Next_def iter_measure_def Let_def split: if_splits)

function split_loop :: "(ID \<Rightarrow> 'e host_answer) \<Rightarrow> bool \<Rightarrow> bool \<Rightarrow> reversePathIterator \<Rightarrow> 'e split_error + (ID \<times> string)" where
  "split_loop getComponent lead tail it =
     (if \<not> fst (it_Next it) then Inl InvalidPath
      else case it_Value (snd (it_Next it)) of (idText, p) \<Rightarrow>
        (case getComponent (ParseID idText) of
           ComponentNotFound \<Rightarrow> split_loop getComponent lead tail (snd (it_Next it))
         | HostError e \<Rightarrow> Inl (LookupFailed e)
         | Found \<Rightarrow> Inr (ParseID idText, preparePath p lead tail)))"
  by pat_completeness auto

termination
  by (relation "measure (\<lambda>(_, _, _, it). iter_measure it)") (simp_all add: it_Next_measure)

declare split_loop.simps [simp del]

definition splitURLPath :: "(ID \<Rightarrow> 'e host_answer) \<Rightarrow> string \<Rightarrow> 'e split_error + (ID \<times> string)" where
  "splitURLPath getComponent p =
     (if p = [] then Inl InvalidPath
      else
        let lead = (hd p = CHR ''/''); p1 = (if lead then tl p else p) in
        if p1 = [] then Inl IndexPanic
        else
          let trail = (last p1 = CHR ''/''); p2 = (if trail then butlast p1 else p1) in
          split_loop getComponent lead trail (newReversePathIterator p2))"

section \<open>Reference definition\<close>

text \<open>The places below \<open>n\<close> where a path can be cut, the last one first.\<close>

definition slashes_below :: "string \<Rightarrow> nat \<Rightarrow> nat list" where
  "slashes_below t n = rev (filter (\<lambda>i. t ! i = CHR ''/'') [0..<n])"

text \<open>The first cut at which the host does not answer that there is no such component.\<close>

fun first_hit :: "(ID \<Rightarrow> 'e host_answer) \<Rightarrow> bool \<Rightarrow> bool \<Rightarrow> string \<Rightarrow> nat list \<Rightarrow> 'e split_error + (ID \<times> string)" where
  "first_hit get lead trail t [] = Inl InvalidPath"
| "first_hit get lead trail t (n # ns) =
     (case get (ParseID (take n t)) of
        ComponentNotFound \<Rightarrow> first_hit get lead trail t ns
      | HostError e \<Rightarrow> Inl (LookupFailed e)
      | Found \<Rightarrow> Inr (ParseID (take n t), preparePath (drop n t) lead trail))"

lemma slashes_below_step:
  assumes "n \<le> length t"
  shows "LastIndexByte (take n t) CHR ''/'' = -1 \<and> slashes_below t n = [] \<or>
    (\<exists>k < n. LastIndexByte (take n t) CHR ''/'' = int k \<and> slashes_below t n = k # slashes_below t k)"
  using LastIndexByte_cases [of "take n t" "CHR ''/''"]
proof
  assume "LastIndexByte (take n t) CHR ''/'' = - 1 \<and> CHR ''/'' \<notin> set (take n t)"
  with assms show ?thesis by (auto simp: slashes_below_def filter_empty_conv in_set_conv_nth)
next
  assume "\<exists>k < length (take n t). LastIndexByte (take n t) CHR ''/'' = int k \<and> take n t ! k = CHR ''/'' \<and>
    CHR ''/'' \<notin> set (drop (k + 1) (take n t))"
  then obtain k where k: "k < n" "LastIndexByte (take n t) CHR ''/'' = int k" "t ! k = CHR ''/''"
    "CHR ''/'' \<notin> set (drop (k + 1) (take n t))" using assms by auto
  have "t ! i \<noteq> CHR ''/''" if "i \<in> {k + 1..<n}" for i
  proof
    assume "t ! i = CHR ''/''"
    then have "drop (k + 1) (take n t) ! (i - (k + 1)) = CHR ''/''" using that assms by auto
    moreover have "i - (k + 1) < length (drop (k + 1) (take n t))" using that assms by auto
    ultimately show False using k(4) by (metis nth_mem)
  qed
  then have "filter (\<lambda>i. t ! i = CHR ''/'') [k + 1..<n] = []" by (simp add: filter_empty_conv)
  moreover have "[0..<n] = [0..<k] @ k # [k + 1..<n]"
    using k(1) upt_add_eq_append [of 0 k "n - k"] by (simp add: upt_conv_Cons)
  ultimately have "slashes_below t n = k # slashes_below t k" using k(3) by (simp add: slashes_below_def)
  with k show ?thesis by blast
qed

lemma split_loop_first_hit:
  "path it = t \<Longrightarrow> searchIndex it = int n \<Longrightarrow> n \<le> length t \<Longrightarrow>
    split_loop get lead trail it = first_hit get lead trail t (slashes_below t n)"
proof (induction n arbitrary: it rule: less_induct)
  case (less n)
  from slashes_below_step [OF less.prems(3)] show ?case
  proof
    assume "LastIndexByte (take n t) CHR ''/'' = - 1 \<and> slashes_below t n = []"
    with less.prems show ?thesis by (subst split_loop.simps) (simp add: it_Next_def)
  next
    assume "\<exists>k < n. LastIndexByte (take n t) CHR ''/'' = int k \<and> slashes_below t n = k # slashes_below t k"
    then obtain k where k: "k < n" "LastIndexByte (take n t) CHR ''/'' = int k" "slashes_below t n = k # slashes_below t k"
      by blast
    define it' where "it' = it\<lparr>slashIndex := int k, searchIndex := int k\<rparr>"
    have "it_Next it = (True, it')" using less.prems k(2) by (simp add: it_Next_def it'_def Let_def)
    moreover have "split_loop get lead trail it' = first_hit get lead trail t (slashes_below t k)"
      using less.IH [OF k(1)] less.prems k(1) by (simp add: it'_def)
    ultimately show ?thesis using less.prems k(3)
      by (subst split_loop.simps) (simp add: it_Value_def it'_def split: host_answer.splits)
  qed
qed

lemma split_loop_new:
  "split_loop get lead trail (newReversePathIterator t) =
    first_hit get lead trail t (length t # slashes_below t (length t))"
proof -
  define it where "it = (newReversePathIterator t)\<lparr>slashIndex := int (length t), searchIndex := int (length t)\<rparr>"
  have "it_Next (newReversePathIterator t) = (True, it)" by (simp add: it_Next_def newReversePathIterator_def it_def)
  moreover have "split_loop get lead trail it = first_hit get lead trail t (slashes_below t (length t))"
    by (rule split_loop_first_hit) (simp_all add: it_def newReversePathIterator_def)
  ultimately show ?thesis
    by (subst split_loop.simps) (simp add: it_Value_def it_def newReversePathIterator_def split: host_answer.splits)
qed

lemma first_hit_Inr:
  assumes "sorted_wrt (>) ns"
  shows "first_hit get lead trail t ns = Inr (cid, r) \<longleftrightarrow>
    (\<exists>n \<in> set ns. cid = ParseID (take n t) \<and> get cid = Found \<and> r = preparePath (drop n t) lead trail \<and>
      (\<forall>m \<in> set ns. n < m \<longrightarrow> get (ParseID (take m t)) = ComponentNotFound))"
  using assms
proof (induction ns)
  case (Cons k ns)
  have below: "\<forall>n \<in> set ns. n < k" and ns: "sorted_wrt (>) ns" using Cons.prems by auto
  show ?case
  proof (cases "get (ParseID (take k t))")
    case Found
    then have no: "\<not> (\<forall>m \<in> set (k # ns). n < m \<longrightarrow> get (ParseID (take m t)) = ComponentNotFound)"
      if "n \<in> set ns" for n using below that by auto
    have "\<forall>m \<in> set (k # ns). k < m \<longrightarrow> get (ParseID (take m t)) = ComponentNotFound" using below by auto
    with no Found show ?thesis by (simp only: first_hit.simps list.set host_answer.simps) blast
  next
    case ComponentNotFound
    with Cons.IH [OF ns] below show ?thesis by (auto simp: not_less_iff_gr_or_eq)
  next
    case (HostError e)
    with below show ?thesis by auto
  qed
qed simp

lemma slashes_below_props: "set (slashes_below t n) = {i. i < n \<and> t ! i = CHR ''/''}" "sorted_wrt (>) (slashes_below t n)"
proof -
  show "set (slashes_below t n) = {i. i < n \<and> t ! i = CHR ''/''}" by (auto simp: slashes_below_def)
  have "sorted_wrt (<) (filter (\<lambda>i. t ! i = CHR ''/'') [0..<n])" by (simp add: sorted_wrt_filter)
  then show "sorted_wrt (>) (slashes_below t n)" by (simp add: slashes_below_def sorted_wrt_rev)
qed

definition cut :: "string \<Rightarrow> nat \<Rightarrow> bool" where
  "cut t n \<longleftrightarrow> n = length t \<or> n < length t \<and> t ! n = CHR ''/''"

definition slash_if :: "bool \<Rightarrow> string" where
  "slash_if b = (if b then ''/'' else [])"

lemma splitURLPath_trimmed:
  assumes "t \<noteq> []" "lead \<or> hd t \<noteq> CHR ''/''" "trail \<or> last t \<noteq> CHR ''/''"
  shows "splitURLPath get (slash_if lead @ t @ slash_if trail) =
    first_hit get lead trail t (length t # slashes_below t (length t))"
proof -
  let ?p = "slash_if lead @ t @ slash_if trail"
  have lead: "(hd ?p = CHR ''/'') = lead" "?p \<noteq> []" using assms by (auto simp: slash_if_def)
  have p1: "(if lead then tl ?p else ?p) = t @ slash_if trail" by (simp add: slash_if_def)
  have trail: "(last (t @ slash_if trail) = CHR ''/'') = trail" using assms by (auto simp: slash_if_def)
  have p2: "(if trail then butlast (t @ slash_if trail) else t @ slash_if trail) = t"
    by (simp add: slash_if_def butlast_append)
  show ?thesis unfolding splitURLPath_def Let_def lead p1 trail p2 split_loop_new using lead(2) assms(1) by simp
qed

lemma splitURLPath_longest_parts:
  assumes "t \<noteq> []" and "lead \<or> hd t \<noteq> CHR ''/''" and "trail \<or> last t \<noteq> CHR ''/''"
  shows "splitURLPath get (slash_if lead @ t @ slash_if trail) = Inr (cid, remain) \<longleftrightarrow>
      (\<exists>n. cut t n \<and> cid = ParseID (take n t) \<and> get cid = Found \<and> remain = preparePath (drop n t) lead trail \<and>
        (\<forall>m. cut t m \<longrightarrow> n < m \<longrightarrow> get (ParseID (take m t)) = ComponentNotFound))"
    and "splitURLPath get (slash_if lead @ t @ slash_if trail) = Inl InvalidPath \<longleftrightarrow>
      (\<forall>n. cut t n \<longrightarrow> get (ParseID (take n t)) = ComponentNotFound)"
proof -
  define ns where "ns = length t # slashes_below t (length t)"
  have sorted: "sorted_wrt (>) ns" and ns: "n \<in> set ns \<longleftrightarrow> cut t n" for n
    by (auto simp: ns_def slashes_below_props cut_def)
  show "splitURLPath get (slash_if lead @ t @ slash_if trail) = Inr (cid, remain) \<longleftrightarrow>
      (\<exists>n. cut t n \<and> cid = ParseID (take n t) \<and> get cid = Found \<and> remain = preparePath (drop n t) lead trail \<and>
        (\<forall>m. cut t m \<longrightarrow> n < m \<longrightarrow> get (ParseID (take m t)) = ComponentNotFound))"
    unfolding splitURLPath_trimmed [OF assms] ns_def [symmetric] first_hit_Inr [OF sorted] using ns by blast
  have "first_hit get lead trail t ks = Inl InvalidPath \<longleftrightarrow>
      (\<forall>n \<in> set ks. get (ParseID (take n t)) = ComponentNotFound)" for ks
    by (induction ks) (auto split: host_answer.splits)
  then show "splitURLPath get (slash_if lead @ t @ slash_if trail) = Inl InvalidPath \<longleftrightarrow>
      (\<forall>n. cut t n \<longrightarrow> get (ParseID (take n t)) = ComponentNotFound)"
    unfolding splitURLPath_trimmed [OF assms] ns_def [symmetric] using ns by blast
qed


text \<open>The path of a single slash is indexed out of range.\<close>

lemma splitURLPath_slash: "splitURLPath get ''/'' = Inl IndexPanic"
  by (simp add: splitURLPath_def)

lemma ParseID_roundtrip_parts:
  "CHR ''/'' \<notin> set (LocalID i) \<Longrightarrow> ParseID (ID_String i) = i"
  "ID_String (ParseID s) = s \<longleftrightarrow> \<not> (s \<noteq> [] \<and> hd s = CHR ''/'' \<and> CHR ''/'' \<notin> set (tl s))"
proof -
  show "ParseID (ID_String i) = i" if no: "CHR ''/'' \<notin> set (LocalID i)"
  proof (cases "ModuleID i = []")
    case True
    with LastIndexByte_cases [of "LocalID i" "CHR ''/''"] no have "LastIndexByte (LocalID i) CHR ''/'' = -1"
      by (auto dest: nth_mem)
    with True show ?thesis by (simp add: ParseID_def ID_String_def)
  next
    case False
    have "LastIndexByte (ModuleID i @ ''/'' @ l) CHR ''/'' = int (length (ModuleID i))" if "CHR ''/'' \<notin> set l" for l
      using that
    proof (induction l rule: rev_induct)
      case (snoc x l)
      then show ?case by (subst LastIndexByte.simps) (auto simp: butlast_append)
    qed (simp add: LastIndexByte.simps)
    with no False show ?thesis by (simp add: ParseID_def ID_String_def)
  qed
  show "ID_String (ParseID s) = s \<longleftrightarrow> \<not> (s \<noteq> [] \<and> hd s = CHR ''/'' \<and> CHR ''/'' \<notin> set (tl s))"
    using LastIndexByte_cases [of s "CHR ''/''"]
  proof
    assume "LastIndexByte s CHR ''/'' = - 1 \<and> CHR ''/'' \<notin> set s"
    then show ?thesis by (cases s) (auto simp: ParseID_def ID_String_def)
  next
    assume "\<exists>n < length s. LastIndexByte s CHR ''/'' = int n \<and> s ! n = CHR ''/'' \<and> CHR ''/'' \<notin> set (drop (n + 1) s)"
    then obtain n where n: "n < length s" "LastIndexByte s CHR ''/'' = int n" "s ! n = CHR ''/''"
      "CHR ''/'' \<notin> set (drop (n + 1) s)" by blast
    have split: "s = take n s @ CHR ''/'' # drop (n + 1) s" using n(1,3) by (metis Suc_eq_plus1 id_take_nth_drop)
    show ?thesis
    proof (cases n)
      case 0
      with n show ?thesis by (cases s) (auto simp: ParseID_def ID_String_def)
    next
      case (Suc k)
      then have "CHR ''/'' \<in> set (tl s)" using n(1,3) by (cases s) (auto simp: in_set_conv_nth)
      moreover have "ParseID s = \<lparr>ModuleID = take n s, LocalID = drop (n + 1) s\<rparr>" using n(2) by (simp add: ParseID_def)
      moreover have "take n s \<noteq> []" using Suc n(1) by auto
      ultimately show ?thesis using split by (simp add: ID_String_def)
    qed
  qed
qed

text \<open>
  Component IDs and their text. Parsing the text of an ID whose local part has no slash gives
  the ID back, and printing a parsed text gives the text back unless its only slash is the first
  character.
\<close>

theorem ParseID_roundtrip:
  "(CHR ''/'' \<notin> set (LocalID i) \<longrightarrow> ParseID (ID_String i) = i) \<and>
   (ID_String (ParseID s) = s \<longleftrightarrow> \<not> (s \<noteq> [] \<and> hd s = CHR ''/'' \<and> CHR ''/'' \<notin> set (tl s)))"
  using ParseID_roundtrip_parts by blast


theorem ParseID_roundtrip_witness:
  "ParseID (ID_String \<lparr>ModuleID = ''m'', LocalID = ''a''\<rparr>) = \<lparr>ModuleID = ''m'', LocalID = ''a''\<rparr>"
  using ParseID_roundtrip [THEN conjunct1, of "\<lparr>ModuleID = ''m'', LocalID = ''a''\<rparr>"] by simp

end
