(* ===== verification/Target.thy ===== *)
theory Target
  imports Prelude Token_File "HOL-Library.Word" "HOL-Library.Multiset" "HOL-Library.List_Lexorder" "HOL-Library.Char_ord"
begin

text \<open>
  Discovery targets, \<^verbatim>\<open>internal/component/discovery/target.go\<close>: a target is a set of labels of its
  own over a set of labels shared with its group. The theory models reading, comparing and hashing
  targets and regrouping them for Prometheus. The xxhash package, the label prefixes and the
  comparison of label sets of the Prometheus packages are arguments.
\<close>

section \<open>Targets\<close>

type_synonym LabelSet = "(string, string) gomap"

record Target =
  group :: LabelSet
  own :: LabelSet
  tsize :: int

text \<open>A callback takes the state it captures, and says whether to go on.\<close>

type_synonym 's label_callback = "string \<Rightarrow> string \<Rightarrow> 's \<Rightarrow> bool \<times> 's"

fun each_entry :: "'s label_callback \<Rightarrow> LabelSet \<Rightarrow> 's \<Rightarrow> bool \<times> 's" where
  "each_entry f [] s = (True, s)"
| "each_entry f ((k, v) # m) s =
     (case f k v s of (False, s') \<Rightarrow> (False, s') | (True, s') \<Rightarrow> each_entry f m s')"

fun each_group_entry :: "'s label_callback \<Rightarrow> LabelSet \<Rightarrow> LabelSet \<Rightarrow> 's \<Rightarrow> bool \<times> 's" where
  "each_group_entry f ow [] s = (True, s)"
| "each_group_entry f ow ((k, v) # m) s =
     (if map_of ow k \<noteq> None then each_group_entry f ow m s
      else case f k v s of (False, s') \<Rightarrow> (False, s') | (True, s') \<Rightarrow> each_group_entry f ow m s')"

definition ForEachLabel :: "'s label_callback \<Rightarrow> Target \<Rightarrow> 's \<Rightarrow> bool \<times> 's" where
  "ForEachLabel f t s =
     (case each_entry f (own t) s of
        (False, s') \<Rightarrow> (False, s')
      | (True, s') \<Rightarrow> each_group_entry f (own t) (group t) s')"

definition NewTargetFromSpecificAndBaseLabelSet :: "LabelSet \<Rightarrow> LabelSet \<Rightarrow> Target" where
  "NewTargetFromSpecificAndBaseLabelSet ow gr =
     (let ret = \<lparr>group = gr, own = ow, tsize = 0\<rparr>
      in ret\<lparr>tsize := snd (ForEachLabel (\<lambda>k v n. (True, n + 1)) ret 0)\<rparr>)"

definition NewTargetFromLabelSet :: "LabelSet \<Rightarrow> Target" where
  "NewTargetFromLabelSet ls = NewTargetFromSpecificAndBaseLabelSet ls []"

definition NewTargetFromMap :: "(string, string) gomap \<Rightarrow> Target" where
  "NewTargetFromMap m = NewTargetFromLabelSet (foldl (\<lambda>l (k, v). map_put k v l) [] m)"

definition EmptyTarget :: Target where
  "EmptyTarget = \<lparr>group = [], own = [], tsize = 0\<rparr>"

definition Target_Len :: "Target \<Rightarrow> int" where
  "Target_Len t = tsize t"

definition Target_Get :: "string \<Rightarrow> Target \<Rightarrow> string \<times> bool" where
  "Target_Get key t =
     (case map_of (own t) key of
        Some lv \<Rightarrow> (lv, True)
      | None \<Rightarrow> (case map_of (group t) key of Some lv \<Rightarrow> (lv, True) | None \<Rightarrow> ([], False)))"

definition AsMap :: "Target \<Rightarrow> (string, string) gomap" where
  "AsMap t = snd (ForEachLabel (\<lambda>k v ret. (True, map_put k v ret)) t [])"

definition Target_LabelSet :: "Target \<Rightarrow> LabelSet" where
  "Target_LabelSet t =
     (let merged = foldl (\<lambda>m (k, v). map_put k v m) [] (group t)
      in foldl (\<lambda>m (k, v). map_put k v m) merged (own t))"

definition has_prefix :: "string \<Rightarrow> string \<Rightarrow> bool" where
  "has_prefix s p \<longleftrightarrow> take (length p) s = p"

definition NonReservedLabelSet :: "string \<Rightarrow> Target \<Rightarrow> LabelSet" where
  "NonReservedLabelSet reservedPrefix t =
     snd (ForEachLabel (\<lambda>k v result. (True, if \<not> has_prefix k reservedPrefix then map_put k v result else result)) t [])"

definition EqualsTarget :: "Target \<Rightarrow> Target \<Rightarrow> bool" where
  "EqualsTarget t other =
     (if Target_Len t \<noteq> Target_Len other then False
      else fst (ForEachLabel (\<lambda>k v (_ :: unit).
        (case Target_Get k other of (otherValue, ok) \<Rightarrow> (\<not> (\<not> ok \<or> otherValue \<noteq> v), ()))) t ()))"

section \<open>Hashing\<close>

text \<open>
  The interface of the xxhash package: a digest that is written in pieces, and the hash of one
  byte slice.
\<close>

record 'd xxhash =
  xx_New :: 'd
  xx_Write :: "string \<Rightarrow> 'd \<Rightarrow> 'd"
  xx_digest :: "'d \<Rightarrow> 64 word"
  xx_Sum64 :: "string \<Rightarrow> 64 word"

definition seps :: string where
  "seps = [CHR 0xFF]"

definition mustGet :: "Target \<Rightarrow> string \<Rightarrow> string" where
  "mustGet t label = fst (Target_Get label t)"

definition write_label :: "'d xxhash \<Rightarrow> Target \<Rightarrow> string \<Rightarrow> 'd \<Rightarrow> 'd" where
  "write_label X t key h = xx_Write X seps (xx_Write X (mustGet t key) (xx_Write X seps (xx_Write X key h)))"

text \<open>The buffer never outgrows its initial capacity of 1024 bytes.\<close>

fun hash_loop :: "'d xxhash \<Rightarrow> Target \<Rightarrow> string list \<Rightarrow> string \<Rightarrow> 64 word" where
  "hash_loop X t [] b = xx_Sum64 X b"
| "hash_loop X t (key # order) b =
     (let v = mustGet t key in
      if length b + length key + length v + 2 \<ge> 1024
      then xx_digest X (fold (write_label X t) (key # order) (xx_Write X b (xx_New X)))
      else hash_loop X t order (b @ key @ seps @ v @ seps))"

definition hashLabelsInOrder :: "'d xxhash \<Rightarrow> Target \<Rightarrow> string list \<Rightarrow> 64 word" where
  "hashLabelsInOrder X t order = hash_loop X t order []"

definition HashLabelsWithPredicate :: "'d xxhash \<Rightarrow> (string \<Rightarrow> bool) \<Rightarrow> Target \<Rightarrow> 64 word" where
  "HashLabelsWithPredicate X pred t =
     (let labelsInOrder = snd (ForEachLabel (\<lambda>k v ls. (True, if pred k then ls @ [k] else ls)) t [])
      in hashLabelsInOrder X t (sort labelsInOrder))"

definition NonMetaLabelsHash :: "'d xxhash \<Rightarrow> string \<Rightarrow> Target \<Rightarrow> 64 word" where
  "NonMetaLabelsHash X metaPrefix t = HashLabelsWithPredicate X (\<lambda>key. \<not> has_prefix key metaPrefix) t"

definition SpecificLabelsHash :: "'d xxhash \<Rightarrow> string list \<Rightarrow> Target \<Rightarrow> 64 word" where
  "SpecificLabelsHash X labelNames t = HashLabelsWithPredicate X (\<lambda>key. key \<in> set labelNames) t"

definition groupLabelsHash :: "'d xxhash \<Rightarrow> Target \<Rightarrow> 64 word" where
  "groupLabelsHash X t = hashLabelsInOrder X t (sort (map_keys (group t)))"

section \<open>Groups for Prometheus\<close>

record Group =
  Source :: string
  Labels :: LabelSet
  Targets :: "LabelSet list"

fun index_by_hash :: "(Target \<Rightarrow> 64 word) \<Rightarrow> Target list \<Rightarrow> nat \<Rightarrow> (64 word, nat list) gomap \<Rightarrow> (64 word, nat list) gomap" where
  "index_by_hash hash [] ind m = m"
| "index_by_hash hash (t # tgs) ind m =
     (let fp = hash t; old = (case map_of m fp of None \<Rightarrow> [] | Some is \<Rightarrow> is)
      in index_by_hash hash tgs (ind + 1) (map_put fp (old @ [ind]) m))"

text \<open>The targets of one hash: those with the shared labels, and the merged labels of the others.\<close>

fun split_group :: "(LabelSet \<Rightarrow> LabelSet \<Rightarrow> bool) \<Rightarrow> LabelSet \<Rightarrow> Target list \<Rightarrow> LabelSet list \<times> LabelSet list" where
  "split_group eq shared [] = ([], [])"
| "split_group eq shared (t # ts) =
     (case split_group eq shared ts of (individual, conflicts) \<Rightarrow>
        if \<not> eq shared (group t) then (individual, Target_LabelSet t # conflicts)
        else (own t # individual, conflicts))"

definition group_step ::
  "(LabelSet \<Rightarrow> LabelSet \<Rightarrow> bool) \<Rightarrow> string \<Rightarrow> Target list \<Rightarrow> (64 word, nat list) gomap \<Rightarrow>
    64 word \<Rightarrow> Group list \<times> LabelSet list \<Rightarrow> Group list \<times> LabelSet list" where
  "group_step eq jobName tgs m hash acc =
     (case acc of (allGroups, hashConflicts) \<Rightarrow>
      let targets = map ((!) tgs) (the (map_of m hash));
          shared = group (hd targets);
          (individual, conflicts) = split_group eq shared targets
      in (if individual \<noteq> []
          then allGroups @ [\<lparr>Source = jobName @ ''_part_'' @ nat_digits (unat hash), Labels = shared, Targets = individual\<rparr>]
          else allGroups, hashConflicts @ conflicts))"

definition ComponentTargetsToPromTargetGroupsForSingleJob ::
  "'d xxhash \<Rightarrow> (LabelSet \<Rightarrow> LabelSet \<Rightarrow> bool) \<Rightarrow> string \<Rightarrow> Target list \<Rightarrow> Group list" where
  "ComponentTargetsToPromTargetGroupsForSingleJob X labelSetEquals jobName tgs =
     (let m = index_by_hash (groupLabelsHash X) tgs 0 [];
          (allGroups, hashConflicts) = fold (group_step labelSetEquals jobName tgs m) (sort (map_keys m)) ([], [])
      in if hashConflicts \<noteq> []
         then allGroups @ [\<lparr>Source = jobName @ ''_rest'', Labels = [], Targets = hashConflicts\<rparr>]
         else allGroups)"

definition ComponentTargetsToPromTargetGroups ::
  "'d xxhash \<Rightarrow> (LabelSet \<Rightarrow> LabelSet \<Rightarrow> bool) \<Rightarrow> string \<Rightarrow> Target list \<Rightarrow> (string, Group list) gomap" where
  "ComponentTargetsToPromTargetGroups X labelSetEquals jobName tgs =
     [(jobName, ComponentTargetsToPromTargetGroupsForSingleJob X labelSetEquals jobName tgs)]"

section \<open>The labels of a target\<close>

text \<open>
  The abstract target is a finite map: the own labels over the group's. The labels that the
  iteration visits are listed by \<open>label_list\<close>.
\<close>

definition target_view :: "Target \<Rightarrow> string \<rightharpoonup> string" where
  "target_view t = map_of (group t) ++ map_of (own t)"

definition label_list :: "Target \<Rightarrow> (string \<times> string) list" where
  "label_list t = own t @ filter (\<lambda>e. map_of (own t) (fst e) = None) (group t)"

definition target_wf :: "Target \<Rightarrow> bool" where
  "target_wf t \<longleftrightarrow> map_wf (own t) \<and> map_wf (group t) \<and> tsize t = int (length (label_list t))"

lemma each_entry_append:
  "each_entry f (xs @ ys) s = (case each_entry f xs s of (False, s') \<Rightarrow> (False, s') | (True, s') \<Rightarrow> each_entry f ys s')"
  by (induction f xs s rule: each_entry.induct) (auto split: prod.splits bool.splits)

lemma each_group_entry_filter:
  "each_group_entry f ow m s = each_entry f (filter (\<lambda>e. map_of ow (fst e) = None) m) s"
  by (induction f ow m s rule: each_group_entry.induct) (auto split: prod.splits bool.splits)

lemma ForEachLabel_list: "ForEachLabel f t s = each_entry f (label_list t) s"
  by (simp add: ForEachLabel_def label_list_def each_entry_append each_group_entry_filter split: prod.splits bool.splits)

lemma each_entry_total: "each_entry (\<lambda>k v s. (True, g k v s)) m s = (True, foldl (\<lambda>s (k, v). g k v s) s m)"
  by (induction "\<lambda>k v s. (True, g k v s)" m s rule: each_entry.induct) auto

lemma each_entry_all: "fst (each_entry (\<lambda>k v s. (p k v, s)) m s) \<longleftrightarrow> (\<forall>(k, v) \<in> set m. p k v)"
  by (induction m) (auto split: bool.splits)

lemma label_list_wf: "target_wf t \<Longrightarrow> map_wf (label_list t)"
proof -
  assume t: "target_wf t"
  then have "distinct (map fst (filter (\<lambda>e. map_of (own t) (fst e) = None) (group t)))"
    by (auto simp: target_wf_def map_wf_def distinct_map_filter)
  with t show ?thesis
    by (auto simp: map_wf_def target_wf_def label_list_def map_of_eq_None_iff intro: rev_image_eqI)
qed

lemma map_of_label_list: "map_of (label_list t) = target_view t"
proof
  fix k
  have "map_of (filter (\<lambda>e. map_of ow (fst e) = None) m) k = (if map_of ow k = None then map_of m k else None)"
    for ow m :: LabelSet by (induction m) auto
  then show "map_of (label_list t) k = target_view t k"
    by (auto simp: label_list_def target_view_def map_add_def split: option.splits)
qed

lemma foldl_map_put: "map_of (foldl (\<lambda>m (k, v). map_put k v m) m0 m) = map_of m0 ++ map_of (rev m)"
  by (induction m arbitrary: m0) (auto simp: map_add_def fun_eq_iff split: option.splits)

lemma foldl_put_wf: "map_wf m0 \<Longrightarrow> map_wf (foldl (\<lambda>m (k, v). map_put k v m) m0 m)"
  by (induction m arbitrary: m0) auto

lemma map_of_rev_wf: "map_wf m \<Longrightarrow> map_of (rev m) = map_of m"
  by (subst map_of_inject_set) (simp_all add: map_wf_def rev_map [symmetric])

lemma Target_Get_view: "Target_Get k t = (case target_view t k of None \<Rightarrow> ([], False) | Some v \<Rightarrow> (v, True))"
  by (auto simp: Target_Get_def target_view_def map_add_def split: option.splits)

lemma AsMap_view: "target_wf t \<Longrightarrow> map_of (AsMap t) = target_view t"
  by (simp add: AsMap_def ForEachLabel_list each_entry_total foldl_map_put map_of_rev_wf label_list_wf map_of_label_list)

lemma LabelSet_view: "target_wf t \<Longrightarrow> map_of (Target_LabelSet t) = target_view t"
  by (simp add: Target_LabelSet_def Let_def foldl_map_put map_of_rev_wf target_wf_def target_view_def)

lemma Len_view: "target_wf t \<Longrightarrow> Target_Len t = int (card (dom (target_view t)))"
proof -
  assume t: "target_wf t"
  have "dom (target_view t) = set (map fst (label_list t))" by (metis dom_map_of_conv_image_fst map_of_label_list set_map)
  then have "card (dom (target_view t)) = length (label_list t)"
    using label_list_wf [OF t] by (metis distinct_card length_map map_wf_def)
  with t show ?thesis by (simp add: Target_Len_def target_wf_def)
qed

lemma finite_dom_view: "finite (dom (target_view t))"
  by (simp add: map_of_label_list [symmetric] finite_dom_map_of)

lemma foldl_filter_put:
  "foldl (\<lambda>m (k, v). if p k then map_put k v m else m) m0 m = foldl (\<lambda>m (k, v). map_put k v m) m0 (filter (p \<circ> fst) m)"
  by (induction m arbitrary: m0) auto

lemma map_of_filter_fst: "map_of (filter (p \<circ> fst) m) k = (if p k then map_of m k else None)"
  by (induction m) auto

lemma NonReserved_view:
  assumes "target_wf t"
  shows "map_of (NonReservedLabelSet p t) = target_view t |` {k. \<not> has_prefix k p}"
proof
  fix k
  let ?q = "\<lambda>k. \<not> has_prefix k p"
  have "NonReservedLabelSet p t = foldl (\<lambda>m (k, v). map_put k v m) [] (filter (?q \<circ> fst) (label_list t))"
    unfolding NonReservedLabelSet_def ForEachLabel_list each_entry_total by (simp only: snd_conv foldl_filter_put)
  moreover have "map_wf (filter (?q \<circ> fst) (label_list t))"
    using label_list_wf [OF assms] by (simp add: map_wf_def distinct_map_filter)
  ultimately show "map_of (NonReservedLabelSet p t) k = (target_view t |` {k. \<not> has_prefix k p}) k"
    by (simp add: foldl_map_put map_of_rev_wf map_of_filter_fst map_of_label_list restrict_map_def)
qed

lemma New_target_wf:
  assumes "map_wf ow" "map_wf gr"
  shows "target_wf (NewTargetFromSpecificAndBaseLabelSet ow gr)"
    and "target_view (NewTargetFromSpecificAndBaseLabelSet ow gr) = map_of gr ++ map_of ow"
proof -
  let ?t = "\<lparr>group = gr, own = ow, tsize = 0\<rparr>"
  have "snd (ForEachLabel (\<lambda>k v n. (True, n + 1)) ?t 0) = int (length (label_list ?t))"
  proof -
    have "foldl (\<lambda>n (k :: string, v :: string). n + 1) c m = c + int (length m)" for c :: int and m
      by (induction m arbitrary: c) auto
    then show ?thesis by (simp add: ForEachLabel_list each_entry_total)
  qed
  then show "target_wf (NewTargetFromSpecificAndBaseLabelSet ow gr)"
    using assms by (simp add: NewTargetFromSpecificAndBaseLabelSet_def target_wf_def Let_def label_list_def)
  show "target_view (NewTargetFromSpecificAndBaseLabelSet ow gr) = map_of gr ++ map_of ow"
    by (simp add: NewTargetFromSpecificAndBaseLabelSet_def target_view_def Let_def)
qed

lemma EqualsTarget_view:
  assumes t: "target_wf t" and o: "target_wf other"
  shows "EqualsTarget t other \<longleftrightarrow> target_view t = target_view other"
proof -
  have sub: "fst (ForEachLabel (\<lambda>k v (_ :: unit). (case Target_Get k other of (w, ok) \<Rightarrow> (\<not> (\<not> ok \<or> w \<noteq> v), ()))) t ())
      \<longleftrightarrow> target_view t \<subseteq>\<^sub>m target_view other"
  proof -
    have "(\<lambda>k v (_ :: unit). (case Target_Get k other of (w, ok) \<Rightarrow> (\<not> (\<not> ok \<or> w \<noteq> v), ()))) =
        (\<lambda>k v s. (target_view other k = Some v, s))"
      by (auto simp: Target_Get_view fun_eq_iff split: option.splits)
    then have "fst (ForEachLabel (\<lambda>k v (_ :: unit). (case Target_Get k other of (w, ok) \<Rightarrow> (\<not> (\<not> ok \<or> w \<noteq> v), ()))) t ())
        \<longleftrightarrow> (\<forall>(k, v) \<in> set (label_list t). target_view other k = Some v)"
      by (simp only: ForEachLabel_list each_entry_all)
    also have "\<dots> \<longleftrightarrow> target_view t \<subseteq>\<^sub>m target_view other"
    proof -
      have mem: "(k, v) \<in> set (label_list t) \<longleftrightarrow> target_view t k = Some v" for k v
        using map_wf_in_set [OF label_list_wf [OF t]] by (simp add: map_of_label_list)
      have "(\<forall>(k, v) \<in> set (label_list t). target_view other k = Some v) \<longleftrightarrow>
          (\<forall>k v. (k, v) \<in> set (label_list t) \<longrightarrow> target_view other k = Some v)" by auto
      then show ?thesis unfolding mem by (auto simp: map_le_def dom_def)
    qed
    finally show ?thesis .
  qed
  have "target_view t = target_view other"
    if "target_view t \<subseteq>\<^sub>m target_view other" "Target_Len t = Target_Len other"
  proof -
    have "dom (target_view t) = dom (target_view other)"
      using that map_le_implies_dom_le [OF that(1)] finite_dom_view Len_view [OF t] Len_view [OF o]
      by (metis card_subset_eq of_nat_eq_iff)
    then show ?thesis using that(1) by (metis map_le_antisym map_le_def)
  qed
  then show ?thesis unfolding EqualsTarget_def sub using Len_view [OF t] Len_view [OF o] by auto
qed

text \<open>
  A target is the map of its own labels over its group's. Every target that is built from two
  label sets counts its labels right, and reading a label, the length, the conversions to a map and
  to a label set and the non-reserved labels all answer for that map. Two targets are equal
  exactly when their maps are, however the labels are split and ordered.
\<close>

theorem target_refines_map:
  assumes "map_wf ow" and "map_wf gr" and "target_wf other"
    and "t = NewTargetFromSpecificAndBaseLabelSet ow gr"
  shows "target_view t = map_of gr ++ map_of ow \<and>
    Target_Len t = int (card (dom (target_view t))) \<and>
    Target_Get k t = (case target_view t k of None \<Rightarrow> ([], False) | Some v \<Rightarrow> (v, True)) \<and>
    map_of (AsMap t) = target_view t \<and> map_of (Target_LabelSet t) = target_view t \<and>
    map_of (NonReservedLabelSet p t) = target_view t |` {k. \<not> has_prefix k p} \<and>
    (EqualsTarget t other \<longleftrightarrow> target_view t = target_view other)"
proof -
  have t: "target_wf t" and view: "target_view t = map_of gr ++ map_of ow"
    using New_target_wf [OF assms(1,2)] by (simp_all add: assms(4))
  show ?thesis
    by (intro conjI view Len_view [OF t] Target_Get_view AsMap_view [OF t] LabelSet_view [OF t]
        NonReserved_view [OF t] EqualsTarget_view [OF t assms(3)])
qed

section \<open>Hashes\<close>

text \<open>The bytes that a list of labels contributes to a hash.\<close>

definition label_bytes :: "(string \<rightharpoonup> string) \<Rightarrow> string list \<Rightarrow> string" where
  "label_bytes m ks = concat (map (\<lambda>k. k @ seps @ (case m k of None \<Rightarrow> [] | Some v \<Rightarrow> v) @ seps) ks)"

text \<open>The documented law of a streaming hash: the pieces do not matter.\<close>

definition streaming :: "'d xxhash \<Rightarrow> bool" where
  "streaming X \<longleftrightarrow> (\<forall>ps. xx_digest X (fold (xx_Write X) ps (xx_New X)) = xx_Sum64 X (concat ps))"

lemma fold_write_label:
  "fold (write_label X t) ks h = fold (xx_Write X) (concat (map (\<lambda>k. [k, seps, mustGet t k, seps]) ks)) h"
  by (induction ks arbitrary: h) (simp_all add: write_label_def)

lemma mustGet_view: "mustGet t k = (case target_view t k of None \<Rightarrow> [] | Some v \<Rightarrow> v)"
  by (simp add: mustGet_def Target_Get_view split: option.splits)

lemma concat_label_pieces: "concat (concat (map (\<lambda>k. [k, seps, mustGet t k, seps]) ks)) = label_bytes (target_view t) ks"
  by (induction ks) (simp_all add: label_bytes_def mustGet_view)

lemma hash_loop_bytes:
  assumes "streaming X"
  shows "hash_loop X t ks b = xx_Sum64 X (b @ label_bytes (target_view t) ks)"
proof (induction ks arbitrary: b)
  case (Cons k ks)
  have "xx_digest X (fold (write_label X t) (k # ks) (xx_Write X b (xx_New X))) =
      xx_digest X (fold (xx_Write X) (b # concat (map (\<lambda>k. [k, seps, mustGet t k, seps]) (k # ks))) (xx_New X))"
    by (subst fold_write_label) (simp only: fold.simps comp_apply)
  also have "\<dots> = xx_Sum64 X (b @ label_bytes (target_view t) (k # ks))"
    using assms unfolding streaming_def by (simp only: concat.simps concat_label_pieces)
  finally show ?case using Cons.IH by (auto simp: Let_def label_bytes_def mustGet_view)
qed (simp add: label_bytes_def)

lemma collected_labels:
  "snd (ForEachLabel (\<lambda>k v ls. (True, if pred k then ls @ [k] else ls)) t []) = filter pred (map fst (label_list t))"
proof -
  have "foldl (\<lambda>ls (k, v). if pred k then ls @ [k] else ls) acc m = acc @ filter pred (map fst m)"
    for acc and m :: LabelSet by (induction m arbitrary: acc) auto
  then show ?thesis by (simp add: ForEachLabel_list each_entry_total)
qed

lemma label_bytes_cong: "(\<And>k. k \<in> set ks \<Longrightarrow> m k = m' k) \<Longrightarrow> label_bytes m ks = label_bytes m' ks"
  unfolding label_bytes_def by (auto intro!: arg_cong [where f = concat])

text \<open>
  C39: the hash of selected labels. For every streaming hash, and whether or not the labels fit into
  the 1024-byte buffer, it is the hash of the selected labels in the order of their names; so two
  targets with the same selected labels have the same hash, however their labels are split between
  target and group and in whatever order their maps are iterated.
\<close>

theorem HashLabelsWithPredicate_canonical:
  assumes "streaming X" and "target_wf t"
  shows "HashLabelsWithPredicate X pred t =
      xx_Sum64 X (label_bytes (target_view t) (sorted_list_of_set {k \<in> dom (target_view t). pred k})) \<and>
    (\<forall>u. target_wf u \<longrightarrow> (\<forall>k. pred k \<longrightarrow> target_view u k = target_view t k) \<longrightarrow>
      HashLabelsWithPredicate X pred u = HashLabelsWithPredicate X pred t)"
proof -
  have canon: "HashLabelsWithPredicate X pred u =
      xx_Sum64 X (label_bytes (target_view u) (sorted_list_of_set {k \<in> dom (target_view u). pred k}))"
    if "target_wf u" for u
  proof -
    let ?ks = "filter pred (map fst (label_list u))"
    have "distinct ?ks" using label_list_wf [OF that] by (simp add: map_wf_def distinct_filter)
    moreover have "set ?ks = {k \<in> dom (target_view u). pred k}"
      by (auto simp: map_of_label_list [symmetric] dom_map_of_conv_image_fst)
    ultimately have "sort ?ks = sorted_list_of_set {k \<in> dom (target_view u). pred k}"
      by (metis sorted_list_of_set_sort_remdups distinct_remdups_id)
    then show ?thesis
      by (simp add: HashLabelsWithPredicate_def collected_labels hashLabelsInOrder_def hash_loop_bytes [OF assms(1)])
  qed
  show ?thesis
  proof (intro conjI allI impI canon [OF assms(2)])
    fix u assume u: "target_wf u" and eq: "\<forall>k. pred k \<longrightarrow> target_view u k = target_view t k"
    have dom: "{k \<in> dom (target_view u). pred k} = {k \<in> dom (target_view t). pred k}" using eq by (auto simp: dom_def)
    have "label_bytes (target_view u) (sorted_list_of_set {k \<in> dom (target_view t). pred k}) =
        label_bytes (target_view t) (sorted_list_of_set {k \<in> dom (target_view t). pred k})"
      using eq finite_dom_view [of t] by (intro label_bytes_cong) simp
    then show "HashLabelsWithPredicate X pred u = HashLabelsWithPredicate X pred t"
      unfolding canon [OF u] canon [OF assms(2)] dom by simp
  qed
qed

section \<open>Regrouping\<close>

definition indices :: "(64 word, nat list) gomap \<Rightarrow> nat multiset" where
  "indices m = mset (concat (map snd m))"

lemma indices_put:
  "indices (map_put k ((case map_of m k of None \<Rightarrow> [] | Some is \<Rightarrow> is) @ [i]) m) = add_mset i (indices m)"
  by (induction m) (auto simp: indices_def map_put_def)

lemma index_by_hash_inv:
  "map_wf m \<Longrightarrow> map_wf (index_by_hash hash tgs ind m) \<and>
    indices (index_by_hash hash tgs ind m) = indices m + mset [ind..<ind + length tgs]"
proof (induction hash tgs ind m rule: index_by_hash.induct)
  case (2 hash t tgs ind m)
  then show ?case by (simp add: Let_def indices_put upt_conv_Cons del: upt_Suc)
qed simp

text \<open>A comparison of label sets that only equates equal sets.\<close>

definition sound_equality :: "(LabelSet \<Rightarrow> LabelSet \<Rightarrow> bool) \<Rightarrow> bool" where
  "sound_equality eq \<longleftrightarrow> (\<forall>a b. eq a b \<longrightarrow> map_of a = map_of b)"

lemma split_group_views:
  assumes "sound_equality eq" "\<forall>t \<in> set ts. target_wf t"
  shows "split_group eq shared ts = (individual, conflicts) \<Longrightarrow>
    mset (map (\<lambda>ls. map_of shared ++ map_of ls) individual) + mset (map map_of conflicts) = mset (map target_view ts)"
  using assms(2)
proof (induction ts arbitrary: individual conflicts)
  case (Cons t ts)
  obtain i c where r: "split_group eq shared ts = (i, c)" by fastforce
  with Cons show ?case using assms(1)
    by (auto simp: sound_equality_def LabelSet_view target_view_def split: if_splits)
qed simp

text \<open>The label maps that a list of groups stands for, each target's own labels over the shared ones.\<close>

definition group_views :: "Group list \<Rightarrow> (string \<rightharpoonup> string) multiset" where
  "group_views gs = mset (concat (map (\<lambda>g. map (\<lambda>ls. map_of (Labels g) ++ map_of ls) (Targets g)) gs))"

lemma group_step_views:
  assumes "sound_equality eq" "\<forall>t \<in> set tgs. target_wf t" "set (the (map_of m hash)) \<subseteq> {..<length tgs}"
    and step: "group_step eq job tgs m hash (gs, cs) = (gs', cs')"
  shows "group_views gs' + mset (map map_of cs') =
    group_views gs + mset (map map_of cs) + mset (map (\<lambda>i. target_view (tgs ! i)) (the (map_of m hash)))"
proof -
  let ?ts = "map ((!) tgs) (the (map_of m hash))"
  obtain i c where r: "split_group eq (group (hd ?ts)) ?ts = (i, c)" by fastforce
  have "\<forall>t \<in> set ?ts. target_wf t" using assms(2,3) by auto
  from split_group_views [OF assms(1) this r] have
    "mset (map (\<lambda>ls. map_of (group (hd ?ts)) ++ map_of ls) i) + mset (map map_of c) =
      mset (map (\<lambda>i. target_view (tgs ! i)) (the (map_of m hash)))" by (simp add: comp_def)
  with step r show ?thesis by (auto simp: group_step_def group_views_def Let_def split: if_splits)
qed

lemma fold_group_step_views:
  assumes "sound_equality eq" "\<forall>t \<in> set tgs. target_wf t"
    and "\<forall>h \<in> set hs. set (the (map_of m h)) \<subseteq> {..<length tgs}"
  shows "fold (group_step eq job tgs m) hs (gs, cs) = (gs', cs') \<Longrightarrow>
    group_views gs' + mset (map map_of cs') = group_views gs + mset (map map_of cs) +
      mset (map (\<lambda>i. target_view (tgs ! i)) (concat (map (\<lambda>h. the (map_of m h)) hs)))"
  using assms(3)
proof (induction hs arbitrary: gs cs)
  case (Cons h hs)
  obtain g1 c1 where s: "group_step eq job tgs m h (gs, cs) = (g1, c1)" by fastforce
  have h: "set (the (map_of m h)) \<subseteq> {..<length tgs}" using Cons.prems(2) by simp
  note one = group_step_views [OF assms(1,2) h s]
  have "group_views gs' + mset (map map_of cs') = group_views g1 + mset (map map_of c1) +
      mset (map (\<lambda>i. target_view (tgs ! i)) (concat (map (\<lambda>h. the (map_of m h)) hs)))"
    using Cons.IH [of g1 c1] Cons.prems s by simp
  also have "\<dots> = group_views gs + mset (map map_of cs) +
      mset (map (\<lambda>i. target_view (tgs ! i)) (concat (map (\<lambda>h. the (map_of m h)) (h # hs))))"
    unfolding one by simp
  finally show ?case .
qed simp

lemma map_of_keys: "map_wf m \<Longrightarrow> map (\<lambda>k. the (map_of m k)) (map_keys m) = map snd m"
  by (auto simp: map_wf_def map_keys_def)

text \<open>
  Regrouping targets for Prometheus loses and changes nothing. Whatever the hash function does,
  collisions included, and for every comparison of label sets that only equates equal sets, the
  groups stand for exactly the label maps of the given targets, each as often as it was given.
\<close>

theorem target_groups_lossless:
  assumes "sound_equality labelSetEquals" and "\<forall>t \<in> set tgs. target_wf t"
  shows "group_views (ComponentTargetsToPromTargetGroupsForSingleJob X labelSetEquals jobName tgs) =
    mset (map target_view tgs)"
proof -
  define m where "m = index_by_hash (groupLabelsHash X) tgs 0 []"
  have wf: "map_wf m" and ind: "indices m = mset [0..<length tgs]"
    using index_by_hash_inv [of "[]" "groupLabelsHash X" tgs 0] by (simp_all add: m_def indices_def)
  obtain gs cs where r: "fold (group_step labelSetEquals jobName tgs m) (sort (map_keys m)) ([], []) = (gs, cs)" by fastforce
  have "mset (concat (map (\<lambda>h. the (map_of m h)) (sort (map_keys m)))) =
      mset (concat (map (\<lambda>h. the (map_of m h)) (map_keys m)))"
    by (simp only: mset_concat map_map sum_mset_sum_list [symmetric] mset_map mset_sort)
  also have "\<dots> = mset [0..<length tgs]" using ind by (simp add: map_of_keys [OF wf] indices_def)
  finally have perm: "mset (concat (map (\<lambda>h. the (map_of m h)) (sort (map_keys m)))) = mset [0..<length tgs]" .
  from arg_cong [OF this, of set_mset]
  have "(\<Union>h \<in> set (sort (map_keys m)). set (the (map_of m h))) = {0..<length tgs}"
    by (simp only: set_mset_mset set_concat set_map set_upt image_image)
  then have sub: "\<forall>h \<in> set (sort (map_keys m)). set (the (map_of m h)) \<subseteq> {..<length tgs}" by auto
  have "group_views gs + mset (map map_of cs) =
      mset (map (\<lambda>i. target_view (tgs ! i)) (concat (map (\<lambda>h. the (map_of m h)) (sort (map_keys m)))))"
    using fold_group_step_views [OF assms sub r] by (simp add: group_views_def)
  also have "\<dots> = image_mset (\<lambda>i. target_view (tgs ! i)) (mset [0..<length tgs])"
    unfolding mset_map perm ..
  also have "\<dots> = mset (map target_view tgs)"
    by (metis (no_types, lifting) map_map map_nth mset_map comp_def map_cong)
  finally have "group_views gs + mset (map map_of cs) = mset (map target_view tgs)" .
  moreover have "ComponentTargetsToPromTargetGroupsForSingleJob X labelSetEquals jobName tgs =
      (if cs \<noteq> [] then gs @ [\<lparr>Source = jobName @ ''_rest'', Labels = [], Targets = cs\<rparr>] else gs)"
    using r by (simp add: ComponentTargetsToPromTargetGroupsForSingleJob_def m_def)
  ultimately show ?thesis by (auto simp: group_views_def)
qed


section \<open>Witnesses\<close>

definition sample_target :: Target where
  "sample_target = NewTargetFromSpecificAndBaseLabelSet [(''a'', ''1'')] [(''a'', ''0''), (''b'', ''2'')]"

lemma sample_target_wf: "target_wf sample_target"
  unfolding sample_target_def by (rule New_target_wf) (simp_all add: map_wf_def)

text \<open>A streaming hash: the digest collects the bytes, and the hash is their number.\<close>

definition length_hash :: "string xxhash" where
  "length_hash = \<lparr>xx_New = [], xx_Write = (\<lambda>p d. d @ p), xx_digest = (\<lambda>d. of_nat (length d)),
     xx_Sum64 = (\<lambda>b. of_nat (length b))\<rparr>"

lemma length_hash_streaming: "streaming length_hash"
proof -
  have "fold (\<lambda>p d. d @ p) ps d = d @ concat ps" for ps and d :: string
    by (induction ps arbitrary: d) simp_all
  then show ?thesis by (simp add: streaming_def length_hash_def)
qed

theorem target_refines_map_witness:
  "map_of (AsMap sample_target) = target_view sample_target \<and>
    Target_Get ''b'' sample_target = (case target_view sample_target ''b'' of None \<Rightarrow> ([], False) | Some v \<Rightarrow> (v, True))"
  using target_refines_map [OF _ _ sample_target_wf sample_target_def] by (simp add: map_wf_def)

theorem HashLabelsWithPredicate_canonical_witness:
  "HashLabelsWithPredicate length_hash (\<lambda>k. k = ''a'') (NewTargetFromSpecificAndBaseLabelSet [(''a'', ''1'')] []) =
    HashLabelsWithPredicate length_hash (\<lambda>k. k = ''a'') sample_target"
proof -
  let ?u = "NewTargetFromSpecificAndBaseLabelSet [(''a'', ''1'')] []"
  have "target_wf ?u" by (rule New_target_wf) (simp_all add: map_wf_def)
  moreover have "\<forall>k. k = ''a'' \<longrightarrow> target_view ?u k = target_view sample_target k"
    by (simp add: sample_target_def New_target_wf map_wf_def)
  ultimately show ?thesis
    by (rule HashLabelsWithPredicate_canonical [OF length_hash_streaming sample_target_wf,
          THEN conjunct2, THEN spec, THEN mp, THEN mp])
qed

theorem target_groups_lossless_witness:
  "group_views (ComponentTargetsToPromTargetGroupsForSingleJob length_hash (=) ''job'' [sample_target]) =
    mset (map target_view [sample_target])"
  by (rule target_groups_lossless) (simp_all add: sound_equality_def sample_target_wf)

end
