(* ===== verification/Distributed_Targets.thy ===== *)
theory Distributed_Targets
  imports Target
begin

text \<open>
  Distribution of targets over a cluster, \<^verbatim>\<open>internal/component/discovery/distributed_targets.go\<close>.
  The cluster answers, for a key, with the peers that own it; its answers are an argument and do
  not change while one distribution is computed. The capacities that the code computes only size
  its buffers and are left out.
\<close>

section \<open>The code\<close>

record peer =
  Name :: string
  Self :: bool

record 'e Cluster =
  Ready :: bool
  Peers :: "peer list"
  Lookup :: "64 word \<Rightarrow> 'e + peer list"

definition disabledCluster :: "'e Cluster" where
  "disabledCluster = \<lparr>Ready = True, Peers = [], Lookup = (\<lambda>_. Inr [])\<rparr>"

record DistributedTargets =
  localTargets :: "Target list"
  localTargetKeys :: "64 word list"
  remoteTargetKeys :: "64 word set"

definition keyFor :: "'d xxhash \<Rightarrow> string \<Rightarrow> Target \<Rightarrow> 64 word" where
  "keyFor X metaPrefix tgt = NonMetaLabelsHash X metaPrefix tgt"

definition keyForLabels :: "'d xxhash \<Rightarrow> Target \<Rightarrow> string list \<Rightarrow> 64 word" where
  "keyForLabels X tgt lbls = SpecificLabelsHash X lbls tgt"

definition belongsToLocal :: "'e Cluster \<Rightarrow> 64 word \<Rightarrow> bool" where
  "belongsToLocal c key =
     (if Ready c then (case Lookup c key of Inl _ \<Rightarrow> True | Inr peers \<Rightarrow> peers = [] \<or> Self (hd peers)) else False)"

fun distribute :: "(Target \<Rightarrow> 64 word) \<Rightarrow> 'e Cluster \<Rightarrow> Target list \<Rightarrow> 64 word set \<Rightarrow> DistributedTargets \<Rightarrow> DistributedTargets" where
  "distribute key c [] unique dt = dt"
| "distribute key c (tgt # tgts) unique dt =
     (let targetKey = key tgt in
      if targetKey \<in> unique then distribute key c tgts unique dt
      else if belongsToLocal c targetKey
      then distribute key c tgts (insert targetKey unique)
             (dt\<lparr>localTargets := localTargets dt @ [tgt], localTargetKeys := localTargetKeys dt @ [targetKey]\<rparr>)
      else distribute key c tgts (insert targetKey unique)
             (dt\<lparr>remoteTargetKeys := insert targetKey (remoteTargetKeys dt)\<rparr>))"

text \<open>The hash package and the prefix of meta labels are parameters of the key.\<close>

definition target_key :: "'d xxhash \<Rightarrow> string \<Rightarrow> string list \<Rightarrow> Target \<Rightarrow> 64 word" where
  "target_key X metaPrefix labels tgt = (if labels = [] then keyFor X metaPrefix tgt else keyForLabels X tgt labels)"

definition NewDistributedTargetsWithCustomLabels ::
  "'d xxhash \<Rightarrow> string \<Rightarrow> bool \<Rightarrow> 'e Cluster option \<Rightarrow> Target list \<Rightarrow> string list \<Rightarrow> DistributedTargets" where
  "NewDistributedTargetsWithCustomLabels X metaPrefix clusteringEnabled cluster allTargets labels =
     (let c = (case cluster of None \<Rightarrow> disabledCluster | Some c \<Rightarrow> if clusteringEnabled then c else disabledCluster)
      in distribute (target_key X metaPrefix labels) c allTargets {}
           \<lparr>localTargets = [], localTargetKeys = [], remoteTargetKeys = {}\<rparr>)"

definition NewDistributedTargets ::
  "'d xxhash \<Rightarrow> string \<Rightarrow> bool \<Rightarrow> 'e Cluster option \<Rightarrow> Target list \<Rightarrow> DistributedTargets" where
  "NewDistributedTargets X metaPrefix clusteringEnabled cluster allTargets =
     NewDistributedTargetsWithCustomLabels X metaPrefix clusteringEnabled cluster allTargets []"

definition LocalTargets :: "DistributedTargets \<Rightarrow> Target list" where
  "LocalTargets dt = localTargets dt"

definition TargetCount :: "DistributedTargets \<Rightarrow> int" where
  "TargetCount dt = int (length (localTargetKeys dt)) + int (card (remoteTargetKeys dt))"

text \<open>The loop indexes both slices of the previous targets; out of range it would panic (\<open>None\<close>).\<close>

fun moved_loop :: "64 word set \<Rightarrow> Target list \<Rightarrow> 64 word list \<Rightarrow> Target list option" where
  "moved_loop remote [] ks = Some []"
| "moved_loop remote (t # ts) [] = None"
| "moved_loop remote (t # ts) (k # ks) =
     map_option (\<lambda>rest. if k \<in> remote then t # rest else rest) (moved_loop remote ts ks)"

definition MovedToRemoteInstance :: "DistributedTargets option \<Rightarrow> DistributedTargets \<Rightarrow> Target list option" where
  "MovedToRemoteInstance prev dt =
     (case prev of None \<Rightarrow> Some []
      | Some p \<Rightarrow> moved_loop (remoteTargetKeys dt) (localTargets p) (localTargetKeys p))"

section \<open>One distribution\<close>

text \<open>The first target of each key that is not yet taken.\<close>

fun first_of_key :: "(Target \<Rightarrow> 64 word) \<Rightarrow> Target list \<Rightarrow> 64 word set \<Rightarrow> Target list" where
  "first_of_key key [] unique = []"
| "first_of_key key (t # ts) unique =
     (if key t \<in> unique then first_of_key key ts unique else t # first_of_key key ts (insert (key t) unique))"

lemma first_of_key_props:
  "distinct (map key (first_of_key key ts unique)) \<and>
    key ` set (first_of_key key ts unique) = key ` set ts - unique \<and> set (first_of_key key ts unique) \<subseteq> set ts"
  by (induction key ts unique rule: first_of_key.induct) auto

lemma distribute_eq:
  "distribute key c ts unique dt =
    (let fs = first_of_key key ts unique; ls = filter (\<lambda>t. belongsToLocal c (key t)) fs in
     dt\<lparr>localTargets := localTargets dt @ ls, localTargetKeys := localTargetKeys dt @ map key ls,
        remoteTargetKeys := remoteTargetKeys dt \<union> key ` set (filter (\<lambda>t. \<not> belongsToLocal c (key t)) fs)\<rparr>)"
proof (induction key c ts unique dt rule: distribute.induct)
  case (2 key c t ts unique dt)
  then show ?case by (cases dt) (auto simp: Let_def)
qed (simp add: Let_def)

lemma moved_loop_eq: "length ts = length ks \<Longrightarrow>
    moved_loop remote ts ks = Some (map fst (filter (\<lambda>(t, k). k \<in> remote) (zip ts ks)))"
  by (induction remote ts ks rule: moved_loop.induct) auto

definition effective_cluster :: "bool \<Rightarrow> 'e Cluster option \<Rightarrow> 'e Cluster" where
  "effective_cluster clusteringEnabled cluster =
     (if clusteringEnabled then (case cluster of None \<Rightarrow> disabledCluster | Some c \<Rightarrow> c) else disabledCluster)"

lemma NewDistributed_eq:
  "NewDistributedTargetsWithCustomLabels X metaPrefix enabled cluster ts labels =
    (let key = target_key X metaPrefix labels; c = effective_cluster enabled cluster;
         fs = first_of_key key ts {}; ls = filter (\<lambda>t. belongsToLocal c (key t)) fs in
     \<lparr>localTargets = ls, localTargetKeys = map key ls,
      remoteTargetKeys = key ` set (filter (\<lambda>t. \<not> belongsToLocal c (key t)) fs)\<rparr>)"
  by (auto simp: NewDistributedTargetsWithCustomLabels_def effective_cluster_def distribute_eq Let_def split: option.splits)

text \<open>
  Distributing targets over a cluster. Each key of the given targets is either local or remote,
  never both, and counted once; a local target is the first one with its key, and a key is local
  exactly when the cluster is ready and its lookup fails, names nobody, or names this node first.
  Without clustering every key is local.
\<close>

theorem distribution_partition:
  assumes "dt = NewDistributedTargetsWithCustomLabels X metaPrefix enabled cluster ts labels"
    and "key = target_key X metaPrefix labels" and "c = effective_cluster enabled cluster"
  shows "set (localTargetKeys dt) = {k \<in> key ` set ts. belongsToLocal c k} \<and>
    remoteTargetKeys dt = {k \<in> key ` set ts. \<not> belongsToLocal c k} \<and>
    distinct (localTargetKeys dt) \<and> localTargetKeys dt = map key (LocalTargets dt) \<and>
    LocalTargets dt = filter (\<lambda>t. belongsToLocal c (key t)) (first_of_key key ts {}) \<and>
    TargetCount dt = int (card (key ` set ts)) \<and>
    (\<not> enabled \<longrightarrow> remoteTargetKeys dt = {})"
proof -
  define fs where "fs = first_of_key key ts {}"
  define ls where "ls = filter (\<lambda>t. belongsToLocal c (key t)) fs"
  have fs: "distinct (map key fs)" "key ` set fs = key ` set ts"
    using first_of_key_props [of key ts "{}"] by (simp_all add: fs_def)
  have dt: "dt = \<lparr>localTargets = ls, localTargetKeys = map key ls,
      remoteTargetKeys = key ` set (filter (\<lambda>t. \<not> belongsToLocal c (key t)) fs)\<rparr>"
    unfolding assms(1) NewDistributed_eq by (simp add: Let_def ls_def fs_def assms(2,3))
  have locals: "set (localTargetKeys dt) = {k \<in> key ` set ts. belongsToLocal c k}"
    unfolding fs(2) [symmetric] by (auto simp: dt ls_def)
  have remote: "remoteTargetKeys dt = {k \<in> key ` set ts. \<not> belongsToLocal c k}"
    unfolding fs(2) [symmetric] by (auto simp: dt)
  have dist: "distinct (localTargetKeys dt)" using fs(1) by (simp add: dt ls_def distinct_map_filter)
  have "TargetCount dt = int (card (set (localTargetKeys dt)) + card (remoteTargetKeys dt))"
    using distinct_card [OF dist] by (simp add: TargetCount_def)
  also have "card (set (localTargetKeys dt)) + card (remoteTargetKeys dt) = card (key ` set ts)"
    unfolding locals remote by (subst card_Un_disjoint [symmetric]) (auto intro: arg_cong [of _ _ card])
  finally have count: "TargetCount dt = int (card (key ` set ts))" .
  have "\<not> enabled \<longrightarrow> remoteTargetKeys dt = {}"
    by (auto simp: remote assms(3) effective_cluster_def belongsToLocal_def disabledCluster_def)
  with locals remote dist count show ?thesis by (simp add: dt LocalTargets_def ls_def fs_def)
qed

text \<open>
  The targets that moved away. Comparing two distributions never indexes out of range and gives
  exactly the local targets of the previous one whose keys the new one assigns to another node, in
  their order.
\<close>

theorem MovedToRemoteInstance_exact:
  assumes "prev = NewDistributedTargetsWithCustomLabels X metaPrefix enabled cluster ts labels"
  shows "MovedToRemoteInstance (Some prev) dt =
    Some (filter (\<lambda>t. target_key X metaPrefix labels t \<in> remoteTargetKeys dt) (LocalTargets prev))"
proof -
  have keys: "localTargetKeys prev = map (target_key X metaPrefix labels) (localTargets prev)"
    unfolding assms NewDistributed_eq by (simp add: Let_def)
  have "map fst (filter (\<lambda>(t, k). k \<in> remote) (zip ts (map key ts))) = filter (\<lambda>t. key t \<in> remote) ts"
    for ts :: "Target list" and key :: "Target \<Rightarrow> 64 word" and remote by (induction ts) auto
  then show ?thesis by (simp add: MovedToRemoteInstance_def moved_loop_eq keys LocalTargets_def)
qed

section \<open>A whole cluster\<close>

text \<open>
  Nodes that are ready and agree on the owner of every key: each node's lookup names the owner
  first, marked as itself exactly on the owner.
\<close>

definition agreeing :: "('n \<Rightarrow> 'e Cluster) \<Rightarrow> 'n set \<Rightarrow> (64 word \<Rightarrow> 'n) \<Rightarrow> bool" where
  "agreeing clusters nodes owner \<longleftrightarrow> (\<forall>n \<in> nodes. Ready (clusters n) \<and>
     (\<forall>k. \<exists>p ps. Lookup (clusters n) k = Inr (p # ps) \<and> (Self p \<longleftrightarrow> owner k = n)))"

text \<open>
  When the nodes of a cluster are ready, see the same targets and agree on an owner among them for
  every key, the key of every target is local on exactly one node, its owner. Of several targets
  with one key only the first is kept there.
\<close>

theorem every_target_on_one_node:
  assumes "agreeing clusters nodes owner" and "\<forall>k. owner k \<in> nodes" and "t \<in> set ts"
  shows "\<exists>!n. n \<in> nodes \<and> target_key X metaPrefix labels t \<in>
    set (localTargetKeys (NewDistributedTargetsWithCustomLabels X metaPrefix True (Some (clusters n)) ts labels))"
proof -
  let ?k = "target_key X metaPrefix labels t"
  have own: "belongsToLocal (clusters n) ?k \<longleftrightarrow> owner ?k = n" if "n \<in> nodes" for n
  proof -
    from assms(1) that obtain p ps where "Ready (clusters n)" "Lookup (clusters n) ?k = Inr (p # ps)" "Self p \<longleftrightarrow> owner ?k = n"
      unfolding agreeing_def by blast
    then show ?thesis by (simp add: belongsToLocal_def)
  qed
  have mem: "?k \<in> set (localTargetKeys (NewDistributedTargetsWithCustomLabels X metaPrefix True (Some (clusters n)) ts labels))
      \<longleftrightarrow> belongsToLocal (clusters n) ?k" for n
  proof -
    have "key ` set (first_of_key key ts {}) = key ` set ts" for key
      using first_of_key_props [of key ts "{}"] by simp
    then have "\<exists>u \<in> set (first_of_key (target_key X metaPrefix labels) ts {}). target_key X metaPrefix labels u = ?k"
      using assms(3) by (metis (no_types, lifting) image_iff)
    then show ?thesis unfolding NewDistributed_eq by (auto simp: Let_def effective_cluster_def image_iff)
  qed
  show ?thesis unfolding mem using own assms(2) by (intro ex1I [of _ "owner ?k"]) auto
qed

section \<open>Witnesses\<close>

definition sample_nodes :: "bool \<Rightarrow> unit Cluster" where
  "sample_nodes n = \<lparr>Ready = True, Peers = [], Lookup = (\<lambda>k. Inr [\<lparr>Name = [], Self = (n = (k = 0))\<rparr>])\<rparr>"

theorem distribution_partition_witness:
  "remoteTargetKeys (NewDistributedTargetsWithCustomLabels length_hash ''__meta_'' False (Some (sample_nodes True)) [sample_target] []) = {}"
  using distribution_partition [of _ length_hash "''__meta_''" False "Some (sample_nodes True)" "[sample_target]" "[]", OF refl refl refl]
  by blast

theorem MovedToRemoteInstance_exact_witness:
  "MovedToRemoteInstance (Some (NewDistributedTargets length_hash ''__meta_'' True (None :: unit Cluster option) [sample_target]))
      \<lparr>localTargets = [], localTargetKeys = [], remoteTargetKeys = {}\<rparr> = Some []"
  using MovedToRemoteInstance_exact [OF NewDistributedTargets_def, where dt = "\<lparr>localTargets = [], localTargetKeys = [], remoteTargetKeys = {}\<rparr>"]
  by simp

theorem every_target_on_one_node_witness:
  "\<exists>!n. n \<in> UNIV \<and> target_key length_hash ''__meta_'' [] sample_target \<in>
    set (localTargetKeys (NewDistributedTargetsWithCustomLabels length_hash ''__meta_'' True (Some (sample_nodes n)) [sample_target] []))"
  by (rule every_target_on_one_node [where owner = "\<lambda>k. k = 0"]) (auto simp: agreeing_def sample_nodes_def)

end
