(* ===== verification/Relabel.thy ===== *)
theory Relabel
  imports Prelude Token_File "HOL-Library.Word"
begin

unbundle bit_operations_syntax

text \<open>
  Relabelling, \<^verbatim>\<open>internal/component/common/relabel\<close>: the rules of \<^verbatim>\<open>relabel.go\<close> and their validation,
  over the label builder interface of \<^verbatim>\<open>label_builder.go\<close>. The regular expression engine, the
  validity of label names, case mapping and the MD5 sum are arguments. Ranging over a builder while
  the rules change it is a relation, since Go leaves open which of the labels added meanwhile are
  visited; a rule is therefore a relation between the builder before and after.
\<close>

section \<open>Interfaces\<close>

text \<open>The label builder: the interface type is the record of its methods.\<close>

record 'b LabelBuilder =
  lb_Get :: "string \<Rightarrow> 'b \<Rightarrow> string"
  lb_Range :: "(string \<Rightarrow> string \<Rightarrow> 'b \<Rightarrow> 'b) \<Rightarrow> 'b \<Rightarrow> 'b \<Rightarrow> bool"
  lb_Set :: "string \<Rightarrow> string \<Rightarrow> 'b \<Rightarrow> 'b"
  lb_Del :: "string list \<Rightarrow> 'b \<Rightarrow> 'b"

text \<open>The packages that the rules call.\<close>

record ('re, 'ix) packages =
  Compile :: "string \<Rightarrow> string + 're"
  re_String :: "'re \<Rightarrow> string"
  MatchString :: "'re \<Rightarrow> string \<Rightarrow> bool"
  FindStringSubmatchIndex :: "'re \<Rightarrow> string \<Rightarrow> 'ix option"
  ExpandString :: "'re \<Rightarrow> string \<Rightarrow> string \<Rightarrow> 'ix \<Rightarrow> string"
  ReplaceAllString :: "'re \<Rightarrow> string \<Rightarrow> string \<Rightarrow> string"
  re_DeepEqual :: "'re \<Rightarrow> 're \<Rightarrow> bool"
  relabelTarget :: "string \<Rightarrow> bool"
  LabelName_IsValid :: "string \<Rightarrow> bool"
  ToLower :: "string \<Rightarrow> string"
  ToUpper :: "string \<Rightarrow> string"
  md5_Sum :: "string \<Rightarrow> string"

section \<open>Actions\<close>

type_synonym Action = string

definition Replace :: Action where "Replace = ''replace''"
definition Keep :: Action where "Keep = ''keep''"
definition Drop :: Action where "Drop = ''drop''"
definition HashMod :: Action where "HashMod = ''hashmod''"
definition LabelMap :: Action where "LabelMap = ''labelmap''"
definition LabelDrop :: Action where "LabelDrop = ''labeldrop''"
definition LabelKeep :: Action where "LabelKeep = ''labelkeep''"
definition Lowercase :: Action where "Lowercase = ''lowercase''"
definition Uppercase :: Action where "Uppercase = ''uppercase''"
definition KeepEqual :: Action where "KeepEqual = ''keepequal''"
definition DropEqual :: Action where "DropEqual = ''dropequal''"

lemmas action_defs = Replace_def Keep_def Drop_def HashMod_def LabelMap_def LabelDrop_def LabelKeep_def
  Lowercase_def Uppercase_def KeepEqual_def DropEqual_def

definition actions :: "Action set" where
  "actions = {Replace, Keep, Drop, HashMod, LabelMap, LabelDrop, LabelKeep, Lowercase, Uppercase, KeepEqual, DropEqual}"

definition Action_String :: "Action \<Rightarrow> string" where
  "Action_String a = (if a \<in> actions then a else ''Action:'' @ a)"

definition Action_MarshalText :: "Action \<Rightarrow> string" where
  "Action_MarshalText a = Action_String a"

definition Action_UnmarshalText :: "string \<Rightarrow> Action \<Rightarrow> string option \<times> Action" where
  "Action_UnmarshalText text a = (if text \<in> actions then (None, text) else (Some text, a))"

section \<open>Anchored expressions\<close>

definition newRegexp :: "('re, 'ix) packages \<Rightarrow> string \<Rightarrow> string + 're" where
  "newRegexp G s = Compile G (''^(?s:'' @ s @ '')$'')"

text \<open>The embedded pointer may be nil.\<close>

definition Regexp_String :: "('re, 'ix) packages \<Rightarrow> 're option \<Rightarrow> string" where
  "Regexp_String G re = (case re of None \<Rightarrow> []
     | Some r \<Rightarrow> let str = re_String G r in take (length str - 7) (drop 5 str))"

definition Regexp_UnmarshalText :: "('re, 'ix) packages \<Rightarrow> string \<Rightarrow> 're option \<Rightarrow> string option \<times> 're option" where
  "Regexp_UnmarshalText G text re = (case newRegexp G text of Inl e \<Rightarrow> (Some e, re) | Inr r \<Rightarrow> (None, Some r))"

section \<open>Configuration\<close>

text \<open>
  Every configuration starts from the defaults and is then decoded, so its expression is compiled;
  the zero value with a nil expression, on which the rules would panic, is left out.
\<close>

record 're Config =
  SourceLabels :: "string list option"
  Separator :: string
  Regex :: 're
  Modulus :: "64 word"
  TargetLabel :: string
  Replacement :: string
  action :: Action

definition SetToDefault :: "'re \<Rightarrow> 're Config" where
  "SetToDefault anything = \<lparr>SourceLabels = None, Separator = '';'', Regex = anything, Modulus = 0,
     TargetLabel = [], Replacement = ''$1'', action = Replace\<rparr>"

datatype relabel_error = EmptyAction | ZeroModulus | MissingTarget Action | InvalidTarget string Action
  | ReplacementSet Action | InvalidReplacement string Action | OnlyRegex Action | OnlySourceAndTarget Action

text \<open>
  The default expression, which matches anything, is compiled once at start-up and is an argument.
\<close>

definition Validate :: "('re, 'ix) packages \<Rightarrow> 're \<Rightarrow> 're Config \<Rightarrow> relabel_error option" where
  "Validate G anything rc =
     (let dollar = CHR ''$'' \<in> set (TargetLabel rc);
          cased = action rc \<in> {Lowercase, Uppercase, KeepEqual, DropEqual};
          def = SetToDefault anything
      in if action rc = [] then Some EmptyAction
      else if Modulus rc = 0 \<and> action rc = HashMod then Some ZeroModulus
      else if action rc \<in> {Replace, HashMod, Lowercase, Uppercase, KeepEqual, DropEqual} \<and> TargetLabel rc = []
        then Some (MissingTarget (action rc))
      else if action rc = Replace \<and> \<not> dollar \<and> \<not> LabelName_IsValid G (TargetLabel rc)
        then Some (InvalidTarget (TargetLabel rc) (action rc))
      else if action rc = Replace \<and> dollar \<and> \<not> relabelTarget G (TargetLabel rc)
        then Some (InvalidTarget (TargetLabel rc) (action rc))
      else if cased \<and> \<not> LabelName_IsValid G (TargetLabel rc) then Some (InvalidTarget (TargetLabel rc) (action rc))
      else if cased \<and> Replacement rc \<noteq> Replacement def then Some (ReplacementSet (action rc))
      else if action rc = LabelMap \<and> \<not> relabelTarget G (Replacement rc)
        then Some (InvalidReplacement (Replacement rc) (action rc))
      else if action rc = HashMod \<and> \<not> LabelName_IsValid G (TargetLabel rc)
        then Some (InvalidTarget (TargetLabel rc) (action rc))
      else if action rc \<in> {LabelDrop, LabelKeep} \<and>
          (SourceLabels rc \<noteq> None \<or> TargetLabel rc \<noteq> TargetLabel def \<or> Modulus rc \<noteq> Modulus def \<or>
           Separator rc \<noteq> Separator def \<or> Replacement rc \<noteq> Replacement def)
        then Some (OnlyRegex (action rc))
      else if action rc \<in> {KeepEqual, DropEqual} \<and>
          (\<not> re_DeepEqual G (Regex rc) anything \<or> Modulus rc \<noteq> Modulus def \<or>
           Separator rc \<noteq> Separator def \<or> Replacement rc \<noteq> Replacement def)
        then Some (OnlySourceAndTarget (action rc))
      else None)"

section \<open>Applying rules\<close>

datatype relabel_panic = DivideByZero | UnknownAction Action

text \<open>The big-endian number of the last eight bytes of a sum.\<close>

definition BigEndian_Uint64 :: "string \<Rightarrow> 64 word" where
  "BigEndian_Uint64 b = foldl (\<lambda>w c. push_bit 8 w OR of_char c) 0 b"

definition source_value :: "'b LabelBuilder \<Rightarrow> 're Config \<Rightarrow> 'b \<Rightarrow> string" where
  "source_value L cfg lb =
     join (map (\<lambda>ln. lb_Get L ln lb) (case SourceLabels cfg of None \<Rightarrow> [] | Some ls \<Rightarrow> ls)) (Separator cfg)"

definition do_replace :: "('re, 'ix) packages \<Rightarrow> 'b LabelBuilder \<Rightarrow> 're Config \<Rightarrow> 're \<Rightarrow> string \<Rightarrow> 'b \<Rightarrow> 'b" where
  "do_replace G L cfg re val lb =
     (case FindStringSubmatchIndex G re val of
        None \<Rightarrow> lb
      | Some indexes \<Rightarrow>
          let target = ExpandString G re (TargetLabel cfg) val indexes in
          if \<not> LabelName_IsValid G target then lb
          else let res = ExpandString G re (Replacement cfg) val indexes in
            if length res = 0 then lb_Del L [target] lb else lb_Set L target res lb)"

text \<open>The outcome is a panic, or whether the labels are kept.\<close>

definition doRelabel :: "('re, 'ix) packages \<Rightarrow> 'b LabelBuilder \<Rightarrow> 're Config \<Rightarrow> 'b \<Rightarrow> relabel_panic + bool \<Rightarrow> 'b \<Rightarrow> bool" where
  "doRelabel G L cfg lb out lb' =
     (let val = source_value L cfg lb; a = action cfg; re = Regex cfg in
      if a = Drop then out = Inr (\<not> MatchString G re val) \<and> lb' = lb
      else if a = Keep then out = Inr (MatchString G re val) \<and> lb' = lb
      else if a = DropEqual then out = Inr (lb_Get L (TargetLabel cfg) lb \<noteq> val) \<and> lb' = lb
      else if a = KeepEqual then out = Inr (lb_Get L (TargetLabel cfg) lb = val) \<and> lb' = lb
      else if a = Replace then out = Inr True \<and> lb' = do_replace G L cfg re val lb
      else if a = Lowercase then out = Inr True \<and> lb' = lb_Set L (TargetLabel cfg) (ToLower G val) lb
      else if a = Uppercase then out = Inr True \<and> lb' = lb_Set L (TargetLabel cfg) (ToUpper G val) lb
      else if a = HashMod then
        (if Modulus cfg = 0 then out = Inl DivideByZero \<and> lb' = lb
         else out = Inr True \<and> lb' = lb_Set L (TargetLabel cfg)
           (nat_digits (unat (BigEndian_Uint64 (drop 8 (md5_Sum G val)) mod Modulus cfg))) lb)
      else if a = LabelMap then out = Inr True \<and>
        lb_Range L (\<lambda>name v b. if MatchString G re name
          then lb_Set L (ReplaceAllString G re name (Replacement cfg)) v b else b) lb lb'
      else if a = LabelDrop then out = Inr True \<and>
        lb_Range L (\<lambda>name v b. if MatchString G re name then lb_Del L [name] b else b) lb lb'
      else if a = LabelKeep then out = Inr True \<and>
        lb_Range L (\<lambda>name v b. if \<not> MatchString G re name then lb_Del L [name] b else b) lb lb'
      else out = Inl (UnknownAction a) \<and> lb' = lb)"

fun ProcessBuilder :: "('re, 'ix) packages \<Rightarrow> 'b LabelBuilder \<Rightarrow> 're Config list \<Rightarrow> 'b \<Rightarrow> relabel_panic + bool \<Rightarrow> 'b \<Rightarrow> bool" where
  "ProcessBuilder G L [] lb out lb' = (out = Inr True \<and> lb' = lb)"
| "ProcessBuilder G L (cfg # cfgs) lb out lb' =
     (\<exists>o1 lb1. doRelabel G L cfg lb o1 lb1 \<and>
        (if o1 = Inr True then ProcessBuilder G L cfgs lb1 out lb' else out = o1 \<and> lb' = lb1))"

section \<open>Relabelling of label maps\<close>

text \<open>
  The meaning of the rules on a finite map of labels without empty values, in which getting a
  missing label gives the empty string and setting an empty value deletes the label.
\<close>

definition map_get :: "(string \<rightharpoonup> string) \<Rightarrow> string \<Rightarrow> string" where
  "map_get m l = (case m l of None \<Rightarrow> [] | Some v \<Rightarrow> v)"

definition map_set :: "string \<Rightarrow> string \<Rightarrow> (string \<rightharpoonup> string) \<Rightarrow> string \<rightharpoonup> string" where
  "map_set l v m = m(l := if v = [] then None else Some v)"

definition map_rename :: "(string \<Rightarrow> bool) \<Rightarrow> (string \<Rightarrow> string) \<Rightarrow> (string \<rightharpoonup> string) \<Rightarrow> string \<rightharpoonup> string" where
  "map_rename p g m l =
     (if \<exists>k. m k \<noteq> None \<and> p k \<and> g k = l then m (SOME k. m k \<noteq> None \<and> p k \<and> g k = l) else m l)"

text \<open>
  A renaming is unambiguous when different selected labels get different new names, and no new
  name is the name of a label or itself selected.
\<close>

definition no_clash :: "(string \<Rightarrow> bool) \<Rightarrow> (string \<Rightarrow> string) \<Rightarrow> (string \<rightharpoonup> string) \<Rightarrow> bool" where
  "no_clash p g m \<longleftrightarrow> inj_on g {k \<in> dom m. p k} \<and> (\<forall>k \<in> dom m. p k \<longrightarrow> \<not> p (g k) \<and> m (g k) = None)"

definition spec_value :: "'re Config \<Rightarrow> (string \<rightharpoonup> string) \<Rightarrow> string" where
  "spec_value cfg m = join (map (map_get m) (case SourceLabels cfg of None \<Rightarrow> [] | Some ls \<Rightarrow> ls)) (Separator cfg)"

definition spec_replace :: "('re, 'ix) packages \<Rightarrow> 're Config \<Rightarrow> string \<Rightarrow> (string \<rightharpoonup> string) \<Rightarrow> string \<rightharpoonup> string" where
  "spec_replace G cfg val m =
     (case FindStringSubmatchIndex G (Regex cfg) val of
        None \<Rightarrow> m
      | Some ix \<Rightarrow>
          let target = ExpandString G (Regex cfg) (TargetLabel cfg) val ix in
          if LabelName_IsValid G target then map_set target (ExpandString G (Regex cfg) (Replacement cfg) val ix) m else m)"

definition renaming :: "('re, 'ix) packages \<Rightarrow> 're Config \<Rightarrow> string \<Rightarrow> string" where
  "renaming G cfg name = ReplaceAllString G (Regex cfg) name (Replacement cfg)"

definition hashmod_text :: "('re, 'ix) packages \<Rightarrow> 're Config \<Rightarrow> string \<Rightarrow> string" where
  "hashmod_text G cfg val = nat_digits (unat (BigEndian_Uint64 (drop 8 (md5_Sum G val)) mod Modulus cfg))"

definition rule_spec :: "('re, 'ix) packages \<Rightarrow> 're Config \<Rightarrow> (string \<rightharpoonup> string) \<Rightarrow> (relabel_panic + bool) \<times> (string \<rightharpoonup> string)" where
  "rule_spec G cfg m =
     (let val = spec_value cfg m; a = action cfg; matches = MatchString G (Regex cfg) in
      if a = Drop then (Inr (\<not> matches val), m)
      else if a = Keep then (Inr (matches val), m)
      else if a = DropEqual then (Inr (map_get m (TargetLabel cfg) \<noteq> val), m)
      else if a = KeepEqual then (Inr (map_get m (TargetLabel cfg) = val), m)
      else if a = Replace then (Inr True, spec_replace G cfg val m)
      else if a = Lowercase then (Inr True, map_set (TargetLabel cfg) (ToLower G val) m)
      else if a = Uppercase then (Inr True, map_set (TargetLabel cfg) (ToUpper G val) m)
      else if a = HashMod then
        (if Modulus cfg = 0 then (Inl DivideByZero, m) else (Inr True, map_set (TargetLabel cfg) (hashmod_text G cfg val) m))
      else if a = LabelMap then (Inr True, map_rename matches (renaming G cfg) m)
      else if a = LabelDrop then (Inr True, m |` {k. \<not> matches k})
      else if a = LabelKeep then (Inr True, m |` {k. matches k})
      else (Inl (UnknownAction a), m))"

definition rule_ok :: "('re, 'ix) packages \<Rightarrow> 're Config \<Rightarrow> (string \<rightharpoonup> string) \<Rightarrow> bool" where
  "rule_ok G cfg m \<longleftrightarrow> (action cfg = LabelMap \<longrightarrow> no_clash (MatchString G (Regex cfg)) (renaming G cfg) m)"

fun rules_spec :: "('re, 'ix) packages \<Rightarrow> 're Config list \<Rightarrow> (string \<rightharpoonup> string) \<Rightarrow> (relabel_panic + bool) \<times> (string \<rightharpoonup> string)" where
  "rules_spec G [] m = (Inr True, m)"
| "rules_spec G (cfg # cfgs) m =
     (if fst (rule_spec G cfg m) = Inr True then rules_spec G cfgs (snd (rule_spec G cfg m)) else rule_spec G cfg m)"

fun rules_ok :: "('re, 'ix) packages \<Rightarrow> 're Config list \<Rightarrow> (string \<rightharpoonup> string) \<Rightarrow> bool" where
  "rules_ok G [] m = True"
| "rules_ok G (cfg # cfgs) m =
     (rule_ok G cfg m \<and> (fst (rule_spec G cfg m) = Inr True \<longrightarrow> rules_ok G cfgs (snd (rule_spec G cfg m))))"

section \<open>The contract of a label builder\<close>

locale label_builder =
  fixes L :: "'b LabelBuilder" and view :: "'b \<Rightarrow> string \<rightharpoonup> string" and inv :: "'b \<Rightarrow> bool"
  assumes get: "inv b \<Longrightarrow> lb_Get L l b = map_get (view b) l"
    and set: "inv b \<Longrightarrow> inv (lb_Set L l v b) \<and> view (lb_Set L l v b) = map_set l v (view b)"
    and del: "inv b \<Longrightarrow> inv (lb_Del L ls b) \<and> view (lb_Del L ls b) = view b |` (- List.set ls)"
    and range_del: "inv b \<Longrightarrow> lb_Range L (\<lambda>k v b. if p k then lb_Del L [k] b else b) b b' \<Longrightarrow>
      inv b' \<and> view b' = view b |` {k. \<not> p k}"
    and range_set: "inv b \<Longrightarrow> no_clash p g (view b) \<Longrightarrow>
      lb_Range L (\<lambda>k v b. if p k then lb_Set L (g k) v b else b) b b' \<Longrightarrow>
      inv b' \<and> view b' = map_rename p g (view b)"
    and range_del_ends: "inv b \<Longrightarrow> \<exists>b'. lb_Range L (\<lambda>k v b. if p k then lb_Del L [k] b else b) b b'"
    and range_set_ends: "inv b \<Longrightarrow> no_clash p g (view b) \<Longrightarrow>
      \<exists>b'. lb_Range L (\<lambda>k v b. if p k then lb_Set L (g k) v b else b) b b'"
begin

lemma source_value_view: "inv lb \<Longrightarrow> source_value L cfg lb = spec_value cfg (view lb)"
  by (simp add: source_value_def spec_value_def get cong: map_cong)

lemma do_replace_view:
  assumes "inv lb"
  shows "inv (do_replace G L cfg (Regex cfg) val lb) \<and>
    view (do_replace G L cfg (Regex cfg) val lb) = spec_replace G cfg val (view lb)"
proof -
  have "view lb |` (- {l}) = map_set l [] (view lb)" for l by (auto simp: map_set_def restrict_map_def)
  then show ?thesis using assms set [OF assms] del [OF assms]
    by (auto simp: do_replace_def spec_replace_def Let_def split: option.splits)
qed

lemma doRelabel_refines:
  assumes "inv lb" "rule_ok G cfg (view lb)" "doRelabel G L cfg lb out lb'"
  shows "inv lb' \<and> (out, view lb') = rule_spec G cfg (view lb)"
proof -
  note r = assms(3) [unfolded doRelabel_def Let_def source_value_view [OF assms(1)]]
  show ?thesis
  proof (cases "action cfg \<in> {LabelMap, LabelDrop, LabelKeep}")
    case True
    then consider (map) "action cfg = LabelMap" | (drop) "action cfg = LabelDrop" | (keep) "action cfg = LabelKeep" by blast
    then show ?thesis
    proof cases
      case map
      with r have "out = Inr True" "lb_Range L (\<lambda>name v b. if MatchString G (Regex cfg) name
          then lb_Set L (renaming G cfg name) v b else b) lb lb'" unfolding renaming_def by (simp_all add: action_defs)
      moreover have "no_clash (MatchString G (Regex cfg)) (renaming G cfg) (view lb)"
        using assms(2) map by (simp add: rule_ok_def)
      ultimately show ?thesis using range_set [OF assms(1)] map by (simp add: rule_spec_def action_defs)
    next
      case drop
      with r show ?thesis using range_del [OF assms(1), of "MatchString G (Regex cfg)"]
        by (simp add: rule_spec_def action_defs)
    next
      case keep
      with r show ?thesis using range_del [OF assms(1), of "\<lambda>k. \<not> MatchString G (Regex cfg) k"]
        by (simp add: rule_spec_def action_defs)
    qed
  next
    case False
    with r show ?thesis
      by (simp add: rule_spec_def hashmod_text_def get [OF assms(1)] set [OF assms(1)] do_replace_view [OF assms(1)]
          assms(1) Let_def split: if_splits)
  qed
qed

lemma doRelabel_returns:
  assumes "inv lb" "rule_ok G cfg (view lb)"
  shows "\<exists>out lb'. doRelabel G L cfg lb out lb'"
proof (cases "action cfg \<in> {LabelMap, LabelDrop, LabelKeep}")
  case True
  then consider (map) "action cfg = LabelMap" | (drop) "action cfg = LabelDrop" | (keep) "action cfg = LabelKeep" by blast
  then show ?thesis
  proof cases
    case map
    then have "no_clash (MatchString G (Regex cfg)) (renaming G cfg) (view lb)" using assms(2) by (simp add: rule_ok_def)
    from range_set_ends [OF assms(1) this] map show ?thesis unfolding renaming_def by (simp add: doRelabel_def Let_def action_defs)
  next
    case drop
    from range_del_ends [OF assms(1), of "MatchString G (Regex cfg)"] drop show ?thesis by (simp add: doRelabel_def action_defs)
  next
    case keep
    from range_del_ends [OF assms(1), of "\<lambda>k. \<not> MatchString G (Regex cfg) k"] keep show ?thesis
      by (simp add: doRelabel_def action_defs)
  qed
next
  case False
  have ex_if: "(\<exists>x y. if c then P x y else Q x y) \<longleftrightarrow> (if c then \<exists>x y. P x y else \<exists>x y. Q x y)"
    for c and P Q :: "relabel_panic + bool \<Rightarrow> 'b \<Rightarrow> bool" by simp
  show ?thesis unfolding doRelabel_def Let_def ex_if using False by simp
qed

lemma ProcessBuilder_refines:
  "inv lb \<Longrightarrow> rules_ok G cfgs (view lb) \<Longrightarrow> ProcessBuilder G L cfgs lb out lb' \<Longrightarrow>
    inv lb' \<and> (out, view lb') = rules_spec G cfgs (view lb)"
proof (induction cfgs arbitrary: lb)
  case (Cons cfg cfgs)
  then obtain o1 lb1 where step: "doRelabel G L cfg lb o1 lb1" and
    rest: "if o1 = Inr True then ProcessBuilder G L cfgs lb1 out lb' else out = o1 \<and> lb' = lb1" by auto
  have "rule_ok G cfg (view lb)" using Cons.prems(2) by simp
  from doRelabel_refines [OF Cons.prems(1) this step]
  have lb1: "inv lb1" and spec: "rule_spec G cfg (view lb) = (o1, view lb1)" by auto
  show ?case
  proof (cases "o1 = Inr True")
    case True
    with Cons.IH [OF lb1] Cons.prems(2) rest spec show ?thesis by simp
  next
    case False
    with rest spec lb1 show ?thesis by simp
  qed
qed simp

lemma ProcessBuilder_returns:
  "inv lb \<Longrightarrow> rules_ok G cfgs (view lb) \<Longrightarrow> \<exists>out lb'. ProcessBuilder G L cfgs lb out lb'"
proof (induction cfgs arbitrary: lb)
  case (Cons cfg cfgs)
  have ok: "rule_ok G cfg (view lb)" using Cons.prems(2) by simp
  from doRelabel_returns [OF Cons.prems(1) ok] obtain o1 lb1 where step: "doRelabel G L cfg lb o1 lb1" by blast
  from doRelabel_refines [OF Cons.prems(1) ok step]
  have lb1: "inv lb1" and spec: "rule_spec G cfg (view lb) = (o1, view lb1)" by auto
  show ?case
  proof (cases "o1 = Inr True")
    case True
    with Cons.IH [OF lb1] Cons.prems(2) spec obtain out lb' where "ProcessBuilder G L cfgs lb1 out lb'" by auto
    with step True show ?thesis by auto
  next
    case False
    with step show ?thesis by auto
  qed
next
  case Nil
  have "ProcessBuilder G L [] lb (Inr True) lb" by simp
  then show ?case by blast
qed

end


section \<open>Validation\<close>

lemma nat_digits_nonempty: "nat_digits n \<noteq> []"
  by (subst nat_digits.simps) simp

text \<open>
  A rule that passes validation and has one of the known actions, as every decoded rule has,
  never panics when it is applied, whatever the builder; and the only ways to panic are an unknown
  action and a hash modulus of zero.
\<close>

theorem validated_rule_never_panics:
  assumes "Validate G anything cfg = None" and "fst (Action_UnmarshalText (action cfg) a0) = None"
    and "doRelabel G L cfg lb out lb'"
  shows "\<exists>keep. out = Inr keep"
proof -
  have known: "action cfg \<in> actions" using assms(2) by (simp add: Action_UnmarshalText_def split: if_splits)
  have "action cfg = HashMod \<Longrightarrow> Modulus cfg \<noteq> 0"
    using assms(1) by (auto simp: Validate_def action_defs Let_def split: if_splits)
  then show ?thesis using assms(3) known
    by (auto simp: doRelabel_def Let_def actions_def split: if_splits)
qed

text \<open>
  Actions and anchored expressions survive their text form: an action unmarshals exactly if it
  is known, and then marshals back to its text; the text of a compiled expression is the one it was
  compiled from, for every engine that remembers the text it compiled.
\<close>

theorem relabel_text_roundtrip:
  assumes "\<And>s r. Compile G s = Inr r \<Longrightarrow> re_String G r = s"
  shows "(fst (Action_UnmarshalText text a) = None \<longleftrightarrow> text \<in> actions) \<and>
    (fst (Action_UnmarshalText text a) = None \<longrightarrow> Action_MarshalText (snd (Action_UnmarshalText text a)) = text) \<and>
    (fst (Regexp_UnmarshalText G text re) = None \<longrightarrow> Regexp_String G (snd (Regexp_UnmarshalText G text re)) = text)"
proof -
  have "Regexp_String G (snd (Regexp_UnmarshalText G text re)) = text"
    if "fst (Regexp_UnmarshalText G text re) = None"
  proof -
    from that obtain r where r: "newRegexp G text = Inr r" "snd (Regexp_UnmarshalText G text re) = Some r"
      by (auto simp: Regexp_UnmarshalText_def split: sum.splits)
    then have "re_String G r = ''^(?s:'' @ text @ '')$''" using assms by (simp add: newRegexp_def)
    then show ?thesis using r(2) by (simp add: Regexp_String_def)
  qed
  then show ?thesis by (auto simp: Action_UnmarshalText_def Action_MarshalText_def Action_String_def)
qed

section \<open>Witnesses\<close>

text \<open>An engine whose expressions are literal texts.\<close>

definition literal_packages :: "(string, unit) packages" where
  "literal_packages = \<lparr>Compile = Inr, re_String = (\<lambda>r. r), MatchString = (\<lambda>r s. s = r),
     FindStringSubmatchIndex = (\<lambda>r s. if s = r then Some () else None), ExpandString = (\<lambda>r tmpl s ix. tmpl),
     ReplaceAllString = (\<lambda>r s repl. repl), re_DeepEqual = (=), relabelTarget = (\<lambda>s. s \<noteq> []),
     LabelName_IsValid = (\<lambda>s. s \<noteq> []), ToLower = (\<lambda>s. s), ToUpper = (\<lambda>s. s), md5_Sum = (\<lambda>s. replicate 16 CHR ''a'')\<rparr>"

definition sample_rule :: "string Config" where
  "sample_rule = (SetToDefault ''1'')\<lparr>action := Drop, SourceLabels := Some [''a'']\<rparr>"

definition map_LabelBuilder :: "(string \<rightharpoonup> string) LabelBuilder" where
  "map_LabelBuilder = \<lparr>lb_Get = (\<lambda>l m. map_get m l), lb_Range = (\<lambda>f m m'. m' = m), lb_Set = map_set,
     lb_Del = (\<lambda>ls m. m |` (- set ls))\<rparr>"

theorem validated_rule_never_panics_witness:
  "doRelabel literal_packages map_LabelBuilder sample_rule [''a'' \<mapsto> ''1''] (Inr False) [''a'' \<mapsto> ''1''] \<and>
    (\<exists>keep. (Inr False :: relabel_panic + bool) = Inr keep)"
proof -
  have "doRelabel literal_packages map_LabelBuilder sample_rule [''a'' \<mapsto> ''1''] (Inr False) [''a'' \<mapsto> ''1'']"
    by (simp add: doRelabel_def sample_rule_def source_value_def map_LabelBuilder_def literal_packages_def map_get_def
        SetToDefault_def)
  moreover from this have "\<exists>keep. (Inr False :: relabel_panic + bool) = Inr keep"
    by (rule validated_rule_never_panics [where anything = "[]", rotated 2])
      (simp_all add: Validate_def sample_rule_def SetToDefault_def action_defs Action_UnmarshalText_def actions_def)
  ultimately show ?thesis by simp
qed

theorem relabel_text_roundtrip_witness:
  "Regexp_String literal_packages (snd (Regexp_UnmarshalText literal_packages ''a.b'' None)) = ''a.b''"
proof -
  have "\<And>s r. Compile literal_packages s = Inr r \<Longrightarrow> re_String literal_packages r = s"
    by (simp add: literal_packages_def)
  from relabel_text_roundtrip [OF this, of "''a.b''" "[]" None] show ?thesis
    by (simp add: literal_packages_def Regexp_UnmarshalText_def newRegexp_def)
qed

end
