(* ===== verification/Target_Builder.thy ===== *)
theory Target_Builder
  imports Target Relabel
begin

text \<open>
  The label builder of discovery targets, \<^verbatim>\<open>internal/component/discovery/target_builder.go\<close>: labels of
  a target with pending additions and deletions. It is the implementation of the label builder
  interface that relabelling rules work on; the contract of that interface is interpreted here on
  its operations.
\<close>

section \<open>The builder\<close>

record targetBuilder =
  bgroup :: LabelSet
  bown :: LabelSet
  toAdd :: "(string, string) gomap"
  toDel :: "string set"

definition NewTargetBuilder :: targetBuilder where
  "NewTargetBuilder = \<lparr>bgroup = [], bown = [], toAdd = [], toDel = {}\<rparr>"

definition NewTargetBuilderFromLabelSets :: "LabelSet \<Rightarrow> LabelSet \<Rightarrow> targetBuilder" where
  "NewTargetBuilderFromLabelSets gr ow =
     (let del1 = foldl (\<lambda>d (name, v). if length v = 0 \<and> (case map_of ow name of None \<Rightarrow> True | Some o' \<Rightarrow> length o' = 0)
                         then insert name d else d) {} gr;
          del2 = foldl (\<lambda>d (name, v). if length v = 0 then insert name d else d) del1 ow
      in \<lparr>bgroup = gr, bown = ow, toAdd = [], toDel = del2\<rparr>)"

definition NewTargetBuilderFrom :: "Target \<Rightarrow> targetBuilder" where
  "NewTargetBuilderFrom t = NewTargetBuilderFromLabelSets (group t) (own t)"

definition builder_Get :: "string \<Rightarrow> targetBuilder \<Rightarrow> string" where
  "builder_Get label t =
     (case map_of (toAdd t) label of
        Some v \<Rightarrow> v
      | None \<Rightarrow> if label \<in> toDel t then []
          else case map_of (bown t) label of
              Some lv \<Rightarrow> lv
            | None \<Rightarrow> (case map_of (bgroup t) label of Some lv \<Rightarrow> lv | None \<Rightarrow> []))"

fun builder_Del :: "string list \<Rightarrow> targetBuilder \<Rightarrow> targetBuilder" where
  "builder_Del [] t = t"
| "builder_Del (label # labels) t =
     builder_Del labels (t\<lparr>toDel := insert label (toDel t), toAdd := map_del label (toAdd t)\<rparr>)"

definition builder_Set :: "string \<Rightarrow> string \<Rightarrow> targetBuilder \<Rightarrow> targetBuilder" where
  "builder_Set label val t =
     (if val = [] then builder_Del [label] t else t\<lparr>toAdd := map_put label val (toAdd t)\<rparr>)"

definition MergeWith :: "Target \<Rightarrow> targetBuilder \<Rightarrow> targetBuilder" where
  "MergeWith target t = snd (ForEachLabel (\<lambda>key v b. (True, builder_Set key v b)) target t)"

text \<open>
  Ranging over the additions, a map that the callback changes: an entry that is there from the
  start and is not removed is visited, an entry that is added meanwhile may be visited or not, and
  nothing is visited twice.
\<close>

inductive range_added ::
  "(string \<Rightarrow> string \<Rightarrow> targetBuilder \<Rightarrow> targetBuilder) \<Rightarrow> string set \<Rightarrow> string set \<Rightarrow> targetBuilder \<Rightarrow> targetBuilder \<Rightarrow> bool" where
  finish: "\<forall>k \<in> present. k \<in> visited \<or> map_of (toAdd t) k = None \<Longrightarrow> range_added f present visited t t"
| visit: "map_of (toAdd t) k = Some v \<Longrightarrow> k \<notin> visited \<Longrightarrow>
    range_added f present (insert k visited) (f k v t) t' \<Longrightarrow> range_added f present visited t t'"

fun range_own :: "(string \<Rightarrow> string \<Rightarrow> targetBuilder \<Rightarrow> targetBuilder) \<Rightarrow> LabelSet \<Rightarrow> targetBuilder \<Rightarrow> targetBuilder" where
  "range_own f [] t = t"
| "range_own f ((k, v) # m) t =
     (if k \<in> toDel t \<or> map_of (toAdd t) k \<noteq> None then range_own f m t else range_own f m (f k v t))"

fun range_group :: "(string \<Rightarrow> string \<Rightarrow> targetBuilder \<Rightarrow> targetBuilder) \<Rightarrow> LabelSet \<Rightarrow> targetBuilder \<Rightarrow> targetBuilder" where
  "range_group f [] t = t"
| "range_group f ((k, v) # m) t =
     (if k \<in> toDel t \<or> map_of (toAdd t) k \<noteq> None \<or> map_of (bown t) k \<noteq> None then range_group f m t
      else range_group f m (f k v t))"

definition builder_Range :: "(string \<Rightarrow> string \<Rightarrow> targetBuilder \<Rightarrow> targetBuilder) \<Rightarrow> targetBuilder \<Rightarrow> targetBuilder \<Rightarrow> bool" where
  "builder_Range f t t' \<longleftrightarrow> (\<exists>t1. range_added f (dom (map_of (toAdd t))) {} t t1 \<and>
     t' = range_group f (bgroup t) (range_own f (bown t) t1))"

definition builder_Target :: "targetBuilder \<Rightarrow> Target" where
  "builder_Target t =
     (if toAdd t = [] \<and> toDel t = {} then NewTargetFromSpecificAndBaseLabelSet (bown t) (bgroup t)
      else
        let modifyOwn = (toAdd t \<noteq> [] \<or> (\<exists>label \<in> toDel t. map_of (bown t) label \<noteq> None));
            modifyGroup = (\<exists>label \<in> toDel t. map_of (bgroup t) label \<noteq> None);
            keep = foldl (\<lambda>m (k, v). if k \<in> toDel t then m else map_put k v m) [];
            newOwn = (if modifyOwn then foldl (\<lambda>m (k, v). map_put k v m) (keep (bown t)) (toAdd t) else bown t);
            newGroup = (if modifyGroup then keep (bgroup t) else bgroup t)
        in NewTargetFromSpecificAndBaseLabelSet newOwn newGroup)"

definition target_LabelBuilder :: "targetBuilder LabelBuilder" where
  "target_LabelBuilder = \<lparr>lb_Get = builder_Get, lb_Range = builder_Range, lb_Set = builder_Set, lb_Del = builder_Del\<rparr>"

section \<open>The labels of a builder\<close>

definition builder_view :: "targetBuilder \<Rightarrow> string \<rightharpoonup> string" where
  "builder_view t l =
     (case map_of (toAdd t) l of Some v \<Rightarrow> Some v
      | None \<Rightarrow> if l \<in> toDel t then None else (map_of (bgroup t) ++ map_of (bown t)) l)"

definition builder_inv :: "targetBuilder \<Rightarrow> bool" where
  "builder_inv t \<longleftrightarrow> map_wf (bgroup t) \<and> map_wf (bown t) \<and> map_wf (toAdd t) \<and>
     (\<forall>l v. builder_view t l = Some v \<longrightarrow> v \<noteq> [])"

lemma builder_Get_view: "builder_Get l t = map_get (builder_view t) l"
  by (auto simp: builder_Get_def map_get_def builder_view_def map_add_def split: option.splits)

lemma builder_Del_view: "builder_view (builder_Del ls t) = builder_view t |` (- set ls)"
proof (induction ls t rule: builder_Del.induct)
  case (2 l ls t)
  then show ?case by (auto simp: builder_view_def restrict_map_def fun_eq_iff split: option.splits)
qed (simp add: restrict_map_def)

lemma builder_Del_frame: "bgroup (builder_Del ls t) = bgroup t" "bown (builder_Del ls t) = bown t"
  "map_wf (toAdd t) \<Longrightarrow> map_wf (toAdd (builder_Del ls t))"
  by (induction ls t rule: builder_Del.induct) simp_all

lemma builder_Del_inv: "builder_inv t \<Longrightarrow> builder_inv (builder_Del ls t)"
  by (auto simp: builder_inv_def builder_Del_frame builder_Del_view restrict_map_def split: if_splits)

lemma builder_Set_view: "builder_view (builder_Set l v t) = map_set l v (builder_view t)"
proof (cases "v = []")
  case True
  have "builder_view t |` (- {l}) = (builder_view t)(l := None)" by (auto simp: restrict_map_def)
  then show ?thesis using True builder_Del_view [of "[l]" t] by (simp add: builder_Set_def map_set_def)
next
  case False
  then show ?thesis by (auto simp: builder_Set_def map_set_def builder_view_def fun_eq_iff split: option.splits)
qed

lemma builder_Set_frame: "bgroup (builder_Set l v t) = bgroup t" "bown (builder_Set l v t) = bown t"
  by (simp_all add: builder_Set_def)

lemma builder_Set_inv: "builder_inv t \<Longrightarrow> builder_inv (builder_Set l v t)"
proof (cases "v = []")
  case False
  assume "builder_inv t"
  moreover from this False have "\<forall>k w. builder_view (builder_Set l v t) k = Some w \<longrightarrow> w \<noteq> []"
    unfolding builder_Set_view by (auto simp: builder_inv_def map_set_def split: if_splits)
  ultimately show ?thesis using False by (auto simp: builder_inv_def builder_Set_frame) (simp add: builder_Set_def)
qed (simp add: builder_Set_def builder_Del_inv del: builder_Del.simps)


section \<open>Ranging over a builder\<close>

lemma range_added_ends: "finite present \<Longrightarrow> \<exists>t'. range_added f present visited t t'"
proof (induction "card (present - visited)" arbitrary: visited t rule: less_induct)
  case less
  show ?case
  proof (cases "\<forall>k \<in> present. k \<in> visited \<or> map_of (toAdd t) k = None")
    case True
    then show ?thesis by (blast intro: range_added.finish)
  next
    case False
    then obtain k v where k: "k \<in> present" "k \<notin> visited" "map_of (toAdd t) k = Some v" by auto
    have "card (present - insert k visited) < card (present - visited)"
      using k less.prems by (intro psubset_card_mono) auto
    from less.hyps [OF this less.prems] k show ?thesis by (meson range_added.visit)
  qed
qed

lemma builder_Range_ends: "\<exists>t'. builder_Range f t t'"
  using range_added_ends [of "dom (map_of (toAdd t))" f "{}" t] by (auto simp: builder_Range_def finite_dom_map_of)

text \<open>A builder from which the labels \<open>V\<close> have been deleted.\<close>

definition deleted :: "string set \<Rightarrow> targetBuilder \<Rightarrow> targetBuilder \<Rightarrow> bool" where
  "deleted V t t' \<longleftrightarrow> bgroup t' = bgroup t \<and> bown t' = bown t \<and> toDel t' = toDel t \<union> V \<and>
     map_of (toAdd t') = map_of (toAdd t) |` (- V) \<and> (map_wf (toAdd t) \<longrightarrow> map_wf (toAdd t'))"

lemma deleted_refl: "deleted {} t t"
  by (simp add: deleted_def restrict_map_def)

lemma deleted_step: "deleted V t t' \<Longrightarrow> deleted (insert k V) t (builder_Del [k] t')"
  by (auto simp: deleted_def restrict_map_def fun_eq_iff)

lemma range_added_deletes:
  "range_added f present visited t t' \<Longrightarrow> f = (\<lambda>k v b. if p k then builder_Del [k] b else b) \<Longrightarrow>
    deleted V t0 t \<Longrightarrow> V \<subseteq> {k. p k} \<Longrightarrow> \<forall>k \<in> visited. p k \<longrightarrow> k \<in> V \<Longrightarrow>
    \<exists>V'. deleted V' t0 t' \<and> V' \<subseteq> {k. p k} \<and> V \<subseteq> V' \<and>
      (\<forall>k \<in> present. p k \<longrightarrow> map_of (toAdd t') k = None)"
proof (induction arbitrary: V rule: range_added.induct)
  case (finish present visited t f)
  have "map_of (toAdd t) k = None" if "k \<in> V" for k
    using finish.prems(2) that by (auto simp: deleted_def restrict_map_def)
  with finish show ?case by (intro exI [of _ V]) auto
next
  case (visit t k v visited f present t')
  show ?case
  proof (cases "p k")
    case True
    with visit.prems visit.IH [of "insert k V"] deleted_step [of V t0 t k] show ?thesis by fastforce
  next
    case False
    with visit.prems visit.IH [of V] show ?thesis by simp
  qed
qed


lemma range_own_deletes:
  assumes f: "f = (\<lambda>k v b. if p k then builder_Del [k] b else b)"
  shows "deleted V t0 t \<Longrightarrow> V \<subseteq> {k. p k} \<Longrightarrow> \<forall>k. p k \<longrightarrow> map_of (toAdd t) k = None \<Longrightarrow>
    \<exists>V'. deleted V' t0 (range_own f m t) \<and> V' \<subseteq> {k. p k} \<and> V \<subseteq> V' \<and>
      (\<forall>k \<in> fst ` set m. p k \<longrightarrow> k \<in> toDel t0 \<union> V')"
proof (induction m arbitrary: t V)
  case (Cons e m)
  obtain k v where e: "e = (k, v)" by (cases e)
  show ?case
  proof (cases "p k \<and> k \<notin> toDel t")
    case True
    then have "range_own f (e # m) t = range_own f m (builder_Del [k] t)"
      using Cons.prems(3) by (simp add: e f)
    moreover have "\<forall>k'. p k' \<longrightarrow> map_of (toAdd (builder_Del [k] t)) k' = None" using Cons.prems(3) by simp
    moreover have "insert k V \<subseteq> {k. p k}" using True Cons.prems(2) by simp
    ultimately obtain V' where "deleted V' t0 (range_own f (e # m) t)" "V' \<subseteq> {k. p k}" "insert k V \<subseteq> V'"
      "\<forall>k \<in> fst ` set m. p k \<longrightarrow> k \<in> toDel t0 \<union> V'"
      using Cons.IH [OF deleted_step [OF Cons.prems(1)], of k] by auto
    then show ?thesis by (intro exI [of _ V']) (auto simp: e)
  next
    case False
    then have "range_own f (e # m) t = range_own f m t" by (simp add: e f)
    moreover have "p k \<Longrightarrow> k \<in> toDel t0 \<union> V" using False Cons.prems(1) by (auto simp: deleted_def)
    moreover obtain V' where "deleted V' t0 (range_own f m t)" "V' \<subseteq> {k. p k}" "V \<subseteq> V'"
      "\<forall>k \<in> fst ` set m. p k \<longrightarrow> k \<in> toDel t0 \<union> V'"
      using Cons.IH [OF Cons.prems] by blast
    ultimately show ?thesis by (intro exI [of _ V']) (auto simp: e)
  qed
qed auto

lemma range_group_deletes:
  assumes f: "f = (\<lambda>k v b. if p k then builder_Del [k] b else b)"
  shows "deleted V t0 t \<Longrightarrow> V \<subseteq> {k. p k} \<Longrightarrow> \<forall>k. p k \<longrightarrow> map_of (toAdd t) k = None \<Longrightarrow>
    \<exists>V'. deleted V' t0 (range_group f m t) \<and> V' \<subseteq> {k. p k} \<and> V \<subseteq> V' \<and>
      (\<forall>k \<in> fst ` set m. p k \<longrightarrow> k \<in> toDel t0 \<union> V' \<or> map_of (bown t0) k \<noteq> None)"
proof (induction m arbitrary: t V)
  case (Cons e m)
  obtain k v where e: "e = (k, v)" by (cases e)
  show ?case
  proof (cases "p k \<and> k \<notin> toDel t \<and> map_of (bown t) k = None")
    case True
    then have "range_group f (e # m) t = range_group f m (builder_Del [k] t)"
      using Cons.prems(3) by (simp add: e f)
    moreover have "\<forall>k'. p k' \<longrightarrow> map_of (toAdd (builder_Del [k] t)) k' = None" using Cons.prems(3) by simp
    moreover have "insert k V \<subseteq> {k. p k}" using True Cons.prems(2) by simp
    ultimately obtain V' where "deleted V' t0 (range_group f (e # m) t)" "V' \<subseteq> {k. p k}" "insert k V \<subseteq> V'"
      "\<forall>k \<in> fst ` set m. p k \<longrightarrow> k \<in> toDel t0 \<union> V' \<or> map_of (bown t0) k \<noteq> None"
      using Cons.IH [OF deleted_step [OF Cons.prems(1)], of k] by auto
    then show ?thesis by (intro exI [of _ V']) (auto simp: e)
  next
    case False
    then have "range_group f (e # m) t = range_group f m t" by (auto simp: e f)
    moreover have "p k \<Longrightarrow> k \<in> toDel t0 \<union> V \<or> map_of (bown t0) k \<noteq> None" using False Cons.prems(1) by (auto simp: deleted_def)
    moreover obtain V' where "deleted V' t0 (range_group f m t)" "V' \<subseteq> {k. p k}" "V \<subseteq> V'"
      "\<forall>k \<in> fst ` set m. p k \<longrightarrow> k \<in> toDel t0 \<union> V' \<or> map_of (bown t0) k \<noteq> None"
      using Cons.IH [OF Cons.prems] by blast
    ultimately show ?thesis by (intro exI [of _ V']) (auto simp: e)
  qed
qed auto

lemma builder_range_del:
  assumes "builder_inv t" and "builder_Range (\<lambda>k v b. if p k then builder_Del [k] b else b) t t'"
  shows "builder_inv t' \<and> builder_view t' = builder_view t |` {k. \<not> p k}"
proof -
  define f where "f = (\<lambda>k (v :: string) b. if p k then builder_Del [k] b else b)"
  from assms(2) obtain t1 where run: "range_added f (dom (map_of (toAdd t))) {} t t1"
    and t': "t' = range_group f (bgroup t) (range_own f (bown t) t1)" unfolding builder_Range_def f_def by blast
  from range_added_deletes [OF run f_def deleted_refl] obtain V1 where
    V1: "deleted V1 t t1" "V1 \<subseteq> {k. p k}" "\<forall>k \<in> dom (map_of (toAdd t)). p k \<longrightarrow> map_of (toAdd t1) k = None" by auto
  have none: "\<forall>k. p k \<longrightarrow> map_of (toAdd t1) k = None"
    using V1(1,3) by (auto simp: deleted_def restrict_map_def domIff)
  from range_own_deletes [OF f_def V1(1,2) none, of "bown t"] obtain V2 where
    V2: "deleted V2 t (range_own f (bown t) t1)" "V2 \<subseteq> {k. p k}" "V1 \<subseteq> V2"
      "\<forall>k \<in> fst ` set (bown t). p k \<longrightarrow> k \<in> toDel t \<union> V2" by blast
  have none2: "\<forall>k. p k \<longrightarrow> map_of (toAdd (range_own f (bown t) t1)) k = None"
    using V2(1,3) V1(1) none by (auto simp: deleted_def restrict_map_def split: if_splits)
  from range_group_deletes [OF f_def V2(1,2) none2, of "bgroup t"] obtain V3 where
    V3: "deleted V3 t t'" "V3 \<subseteq> {k. p k}" "V2 \<subseteq> V3"
      "\<forall>k \<in> fst ` set (bgroup t). p k \<longrightarrow> k \<in> toDel t \<union> V3 \<or> map_of (bown t) k \<noteq> None" unfolding t' by blast
  have none3: "map_of (toAdd t') k = None" if "p k" for k
    using V3(1,3) V2(1) none2 that by (auto simp: deleted_def restrict_map_def split: if_splits)
  have view: "builder_view t' = builder_view t |` {k. \<not> p k}"
  proof
    fix l
    show "builder_view t' l = (builder_view t |` {k. \<not> p k}) l"
    proof (cases "p l")
      case True
      have "l \<in> toDel t' \<or> (map_of (bgroup t) ++ map_of (bown t)) l = None"
        using V2(3,4) V3 True
        by (auto simp: deleted_def map_add_def map_of_eq_None_iff split: option.splits dest: map_of_SomeD)
          (force simp: map_of_eq_None_iff image_iff dest: map_of_SomeD)+
      with none3 [OF True] True V3(1) show ?thesis by (auto simp: builder_view_def restrict_map_def deleted_def)
    next
      case False
      with V3(1,2) show ?thesis by (auto simp: builder_view_def restrict_map_def deleted_def split: option.splits)
    qed
  qed
  moreover have "builder_inv t'"
    using assms(1) V3(1) unfolding builder_inv_def view by (auto simp: deleted_def restrict_map_def split: if_splits)
  ultimately show ?thesis by simp
qed

text \<open>A builder in which the labels \<open>K\<close> have been copied to their new names.\<close>

definition renamed :: "(string \<Rightarrow> bool) \<Rightarrow> (string \<Rightarrow> string) \<Rightarrow> targetBuilder \<Rightarrow> string set \<Rightarrow> targetBuilder \<Rightarrow> bool" where
  "renamed p g t0 K t \<longleftrightarrow> K \<subseteq> {k \<in> dom (builder_view t0). p k} \<and>
     bgroup t = bgroup t0 \<and> bown t = bown t0 \<and> toDel t = toDel t0 \<and> (map_wf (toAdd t0) \<longrightarrow> map_wf (toAdd t)) \<and>
     (\<forall>k \<in> K. map_of (toAdd t) (g k) = builder_view t0 k) \<and>
     (\<forall>l. l \<notin> g ` K \<longrightarrow> map_of (toAdd t) l = map_of (toAdd t0) l)"

lemma renamed_refl: "renamed p g t {} t"
  by (simp add: renamed_def)

lemma renamed_step:
  assumes "renamed p g t0 K t" "no_clash p g (builder_view t0)" "builder_inv t0" "p k" "builder_view t0 k = Some v"
  shows "renamed p g t0 (insert k K) (builder_Set (g k) v t)"
proof -
  have "v \<noteq> []" using assms(3,5) by (auto simp: builder_inv_def)
  moreover have "g k' = g k \<Longrightarrow> k' = k" if "k' \<in> K" for k'
    using assms(1,2,4,5) that by (auto simp: no_clash_def renamed_def inj_on_def)
  then have "\<forall>k' \<in> K. g k' = g k \<longrightarrow> builder_view t0 k' = Some v" using assms(5) by blast
  ultimately show ?thesis using assms(1,4,5) by (auto simp: renamed_def builder_Set_def)
qed

text \<open>A label of the builder that is met while renaming is an original one, or a new name that is not selected.\<close>

lemma renamed_met:
  assumes "renamed p g t0 K t" "no_clash p g (builder_view t0)" "map_of (toAdd t) k = Some v" "p k"
  shows "map_of (toAdd t0) k = Some v" "builder_view t0 k = Some v"
proof -
  have "k \<notin> g ` K" using assms(1,2,4) by (auto simp: renamed_def no_clash_def)
  then show "map_of (toAdd t0) k = Some v" using assms(1,3) by (auto simp: renamed_def)
  then show "builder_view t0 k = Some v" by (simp add: builder_view_def)
qed

lemma range_added_renames:
  "range_added f present visited t t' \<Longrightarrow> f = (\<lambda>k v b. if p k then builder_Set (g k) v b else b) \<Longrightarrow>
    renamed p g t0 K t \<Longrightarrow> no_clash p g (builder_view t0) \<Longrightarrow> builder_inv t0 \<Longrightarrow>
    \<forall>k \<in> visited. p k \<longrightarrow> k \<in> K \<Longrightarrow> present = dom (map_of (toAdd t0)) \<Longrightarrow>
    \<exists>K'. renamed p g t0 K' t' \<and> (\<forall>k \<in> present. p k \<longrightarrow> k \<in> K')"
proof (induction arbitrary: K rule: range_added.induct)
  case (finish present visited t f)
  have "k \<in> K" if k: "k \<in> present" "p k" for k
  proof -
    have "builder_view t0 k \<noteq> None" using k(1) finish.prems(6) by (auto simp: builder_view_def)
    then have "k \<notin> g ` K" using finish.prems(2,3) by (auto simp: renamed_def no_clash_def)
    then have "map_of (toAdd t) k = map_of (toAdd t0) k" using finish.prems(2) by (simp add: renamed_def)
    then have "map_of (toAdd t) k \<noteq> None" using k(1) finish.prems(6) by auto
    then show ?thesis using finish.hyps finish.prems(5) k by auto
  qed
  with finish.prems(2) show ?case by blast
next
  case (visit t k v visited f present t')
  show ?case
  proof (cases "p k")
    case True
    have "builder_view t0 k = Some v"
      using renamed_met(2) [OF visit.prems(2,3) visit.hyps(1) True] .
    from renamed_step [OF visit.prems(2,3,4) True this] visit.prems visit.IH [of "insert k K"] True
    show ?thesis by auto
  next
    case False
    with visit.prems visit.IH [of K] show ?thesis by auto
  qed
qed

text \<open>A label of the target's own or group set that is not hidden is a label of the builder.\<close>

lemma range_own_renames:
  assumes f: "f = (\<lambda>k v b. if p k then builder_Set (g k) v b else b)"
    and c: "no_clash p g (builder_view t0)" and inv: "builder_inv t0"
  shows "renamed p g t0 K t \<Longrightarrow> \<forall>k \<in> dom (map_of (toAdd t0)). p k \<longrightarrow> k \<in> K \<Longrightarrow> set m \<subseteq> set (bown t0) \<Longrightarrow>
    \<exists>K'. renamed p g t0 K' (range_own f m t) \<and> K \<subseteq> K' \<and>
      (\<forall>k \<in> fst ` set m. p k \<longrightarrow> builder_view t0 k \<noteq> None \<longrightarrow> k \<in> K')"
proof (induction m arbitrary: t K)
  case (Cons e m)
  obtain k v where e: "e = (k, v)" by (cases e)
  have own: "map_of (bown t0) k = Some v"
    using Cons.prems(3) inv by (auto simp: e builder_inv_def map_wf_def)
  have del: "toDel t = toDel t0" using Cons.prems(1) by (simp add: renamed_def)
  show ?case
  proof (cases "p k \<and> k \<notin> toDel t \<and> map_of (toAdd t) k = None")
    case True
    then have "k \<notin> g ` K" using Cons.prems(1) by (auto simp: renamed_def)
    then have "map_of (toAdd t0) k = None" using True Cons.prems(1) by (auto simp: renamed_def)
    then have view: "builder_view t0 k = Some v" using True own del by (simp add: builder_view_def)
    note step = renamed_step [OF Cons.prems(1) c inv conjunct1 [OF True] view]
    have "range_own f (e # m) t = range_own f m (builder_Set (g k) v t)" using True by (simp add: e f)
    moreover obtain K' where "renamed p g t0 K' (range_own f m (builder_Set (g k) v t))" "insert k K \<subseteq> K'"
      "\<forall>k \<in> fst ` set m. p k \<longrightarrow> builder_view t0 k \<noteq> None \<longrightarrow> k \<in> K'"
      using Cons.IH [OF step] Cons.prems(2,3) by auto
    ultimately show ?thesis by (intro exI [of _ K']) (auto simp: e)
  next
    case False
    then have "range_own f (e # m) t = range_own f m t" by (auto simp: e f)
    moreover have "k \<in> K" if k: "p k" "builder_view t0 k \<noteq> None"
    proof (rule ccontr)
      assume "k \<notin> K"
      then have none: "map_of (toAdd t0) k = None" using Cons.prems(2) k(1) by auto
      then have "k \<notin> toDel t" using k(2) del by (auto simp: builder_view_def)
      moreover have "k \<notin> g ` K" using Cons.prems(1) c k(2) by (auto simp: renamed_def no_clash_def)
      then have "map_of (toAdd t) k = None" using none Cons.prems(1) by (simp add: renamed_def)
      ultimately show False using False k(1) by simp
    qed
    moreover obtain K' where "renamed p g t0 K' (range_own f m t)" "K \<subseteq> K'"
      "\<forall>k \<in> fst ` set m. p k \<longrightarrow> builder_view t0 k \<noteq> None \<longrightarrow> k \<in> K'"
      using Cons.IH [OF Cons.prems(1,2)] Cons.prems(3) by auto
    ultimately show ?thesis by (intro exI [of _ K']) (auto simp: e)
  qed
qed auto

lemma range_group_renames:
  assumes f: "f = (\<lambda>k v b. if p k then builder_Set (g k) v b else b)"
    and c: "no_clash p g (builder_view t0)" and inv: "builder_inv t0"
  shows "renamed p g t0 K t \<Longrightarrow> \<forall>k \<in> dom (map_of (toAdd t0)). p k \<longrightarrow> k \<in> K \<Longrightarrow> set m \<subseteq> set (bgroup t0) \<Longrightarrow>
    \<exists>K'. renamed p g t0 K' (range_group f m t) \<and> K \<subseteq> K' \<and>
      (\<forall>k \<in> fst ` set m. p k \<longrightarrow> map_of (bown t0) k = None \<longrightarrow> builder_view t0 k \<noteq> None \<longrightarrow> k \<in> K')"
proof (induction m arbitrary: t K)
  case (Cons e m)
  obtain k v where e: "e = (k, v)" by (cases e)
  have grp: "map_of (bgroup t0) k = Some v"
    using Cons.prems(3) inv by (auto simp: e builder_inv_def map_wf_def)
  have del: "toDel t = toDel t0" "bown t = bown t0" using Cons.prems(1) by (simp_all add: renamed_def)
  show ?case
  proof (cases "p k \<and> k \<notin> toDel t \<and> map_of (toAdd t) k = None \<and> map_of (bown t) k = None")
    case True
    then have "k \<notin> g ` K" using Cons.prems(1) by (auto simp: renamed_def)
    then have "map_of (toAdd t0) k = None" using True Cons.prems(1) by (auto simp: renamed_def)
    then have view: "builder_view t0 k = Some v" using True grp del by (simp add: builder_view_def map_add_def)
    note step = renamed_step [OF Cons.prems(1) c inv conjunct1 [OF True] view]
    have "range_group f (e # m) t = range_group f m (builder_Set (g k) v t)" using True by (simp add: e f)
    moreover obtain K' where "renamed p g t0 K' (range_group f m (builder_Set (g k) v t))" "insert k K \<subseteq> K'"
      "\<forall>k \<in> fst ` set m. p k \<longrightarrow> map_of (bown t0) k = None \<longrightarrow> builder_view t0 k \<noteq> None \<longrightarrow> k \<in> K'"
      using Cons.IH [OF step] Cons.prems(2,3) by auto
    ultimately show ?thesis by (intro exI [of _ K']) (auto simp: e)
  next
    case False
    then have "range_group f (e # m) t = range_group f m t" by (auto simp: e f)
    moreover have "k \<in> K" if k: "p k" "map_of (bown t0) k = None" "builder_view t0 k \<noteq> None"
    proof (rule ccontr)
      assume "k \<notin> K"
      then have none: "map_of (toAdd t0) k = None" using Cons.prems(2) k(1) by auto
      then have "k \<notin> toDel t" using k(3) del by (auto simp: builder_view_def)
      moreover have "k \<notin> g ` K" using Cons.prems(1) c k(3) by (auto simp: renamed_def no_clash_def)
      then have "map_of (toAdd t) k = None" using none Cons.prems(1) by (simp add: renamed_def)
      ultimately show False using False k(1,2) del by simp
    qed
    moreover obtain K' where "renamed p g t0 K' (range_group f m t)" "K \<subseteq> K'"
      "\<forall>k \<in> fst ` set m. p k \<longrightarrow> map_of (bown t0) k = None \<longrightarrow> builder_view t0 k \<noteq> None \<longrightarrow> k \<in> K'"
      using Cons.IH [OF Cons.prems(1,2)] Cons.prems(3) by auto
    ultimately show ?thesis by (intro exI [of _ K']) (auto simp: e)
  qed
qed auto


lemma renamed_all_view:
  assumes "renamed p g t0 {k \<in> dom (builder_view t0). p k} t" "no_clash p g (builder_view t0)"
  shows "builder_view t = map_rename p g (builder_view t0)"
proof
  fix l
  let ?K = "{k \<in> dom (builder_view t0). p k}"
  show "builder_view t l = map_rename p g (builder_view t0) l"
  proof (cases "l \<in> g ` ?K")
    case True
    then obtain k where k: "k \<in> ?K" "g k = l" by auto
    then have "(SOME k. builder_view t0 k \<noteq> None \<and> p k \<and> g k = l) = k"
      using assms(2) by (intro some_equality) (auto simp: no_clash_def inj_on_def)
    then have "map_rename p g (builder_view t0) l = builder_view t0 k"
      using k by (auto simp: map_rename_def)
    moreover have "map_of (toAdd t) l = builder_view t0 k" using assms(1) k by (auto simp: renamed_def)
    ultimately show ?thesis using k(1) by (auto simp: builder_view_def [of t])
  next
    case False
    then have "map_rename p g (builder_view t0) l = builder_view t0 l" by (auto simp: map_rename_def)
    moreover have "map_of (toAdd t) l = map_of (toAdd t0) l" using assms(1) False by (simp add: renamed_def)
    moreover have "toDel t = toDel t0" "bgroup t = bgroup t0" "bown t = bown t0" using assms(1) by (simp_all add: renamed_def)
    ultimately show ?thesis by (simp add: builder_view_def cong: option.case_cong)
  qed
qed

lemma builder_range_set:
  assumes "builder_inv t" "no_clash p g (builder_view t)"
    and "builder_Range (\<lambda>k v b. if p k then builder_Set (g k) v b else b) t t'"
  shows "builder_inv t' \<and> builder_view t' = map_rename p g (builder_view t)"
proof -
  define f where "f = (\<lambda>k v b. if p k then builder_Set (g k) v b else b)"
  from assms(3) obtain t1 where run: "range_added f (dom (map_of (toAdd t))) {} t t1"
    and t': "t' = range_group f (bgroup t) (range_own f (bown t) t1)" unfolding builder_Range_def f_def by blast
  from range_added_renames [OF run f_def renamed_refl assms(2,1)] obtain K1 where
    K1: "renamed p g t K1 t1" "\<forall>k \<in> dom (map_of (toAdd t)). p k \<longrightarrow> k \<in> K1" by auto
  from range_own_renames [OF f_def assms(2,1) K1 order_refl] obtain K2 where
    K2: "renamed p g t K2 (range_own f (bown t) t1)" "K1 \<subseteq> K2"
      "\<forall>k \<in> fst ` set (bown t). p k \<longrightarrow> builder_view t k \<noteq> None \<longrightarrow> k \<in> K2" by blast
  have add2: "\<forall>k \<in> dom (map_of (toAdd t)). p k \<longrightarrow> k \<in> K2" using K1(2) K2(2) by blast
  from range_group_renames [OF f_def assms(2,1) K2(1) add2 order_refl] obtain K3 where
    K3: "renamed p g t K3 t'" "K2 \<subseteq> K3"
      "\<forall>k \<in> fst ` set (bgroup t). p k \<longrightarrow> map_of (bown t) k = None \<longrightarrow> builder_view t k \<noteq> None \<longrightarrow> k \<in> K3"
    unfolding t' by blast
  have "k \<in> K3" if k: "builder_view t k = Some v" "p k" for k v
  proof (cases "map_of (toAdd t) k = None")
    case True
    then have "(map_of (bgroup t) ++ map_of (bown t)) k = Some v" using k(1) by (auto simp: builder_view_def split: if_splits)
    then consider "map_of (bown t) k = Some v" | "map_of (bown t) k = None" "map_of (bgroup t) k = Some v"
      unfolding map_add_Some_iff by (elim disjE conjE)
    then show ?thesis
    proof cases
      case 1
      then have "k \<in> fst ` set (bown t)" by (metis fst_conv imageI map_of_SomeD)
      with K2(3) K3(2) k show ?thesis by auto
    next
      case 2
      then have "k \<in> fst ` set (bgroup t)" by (metis fst_conv imageI map_of_SomeD)
      with K3(3) k 2(1) show ?thesis by auto
    qed
  next
    case False
    with add2 K3(2) k(2) show ?thesis by (metis domIff subsetD)
  qed
  moreover have "K3 \<subseteq> {k \<in> dom (builder_view t). p k}" using K3(1) by (simp add: renamed_def)
  ultimately have "K3 = {k \<in> dom (builder_view t). p k}" by auto
  with K3(1) have "renamed p g t {k \<in> dom (builder_view t). p k} t'" by simp
  note view = renamed_all_view [OF this assms(2)]
  have "v \<noteq> []" if "map_rename p g (builder_view t) l = Some v" for l v
    using assms(1) that by (auto simp: map_rename_def builder_inv_def split: if_splits)
  then have "builder_inv t'" using K3(1) assms(1) unfolding builder_inv_def view by (simp add: renamed_def)
  with view show ?thesis by simp
qed

section \<open>The builder keeps the contract\<close>

lemma target_LabelBuilder_simps [simp]:
  "lb_Get target_LabelBuilder = builder_Get" "lb_Range target_LabelBuilder = builder_Range"
  "lb_Set target_LabelBuilder = builder_Set" "lb_Del target_LabelBuilder = builder_Del"
  by (simp_all add: target_LabelBuilder_def)

interpretation tb: label_builder target_LabelBuilder builder_view builder_inv
proof (unfold_locales, unfold target_LabelBuilder_simps, goal_cases)
  case (1 b l)
  show ?case by (rule builder_Get_view)
next
  case (2 b l v)
  then show ?case by (simp add: builder_Set_inv builder_Set_view)
next
  case (3 b ls)
  then show ?case by (simp add: builder_Del_inv builder_Del_view)
next
  case (4 b p b')
  then show ?case by (rule builder_range_del)
next
  case (5 b p g b')
  then show ?case by (rule builder_range_set)
qed (rule builder_Range_ends)+


section \<open>From targets to builders and back\<close>

lemma foldl_insert: "foldl (\<lambda>d (k, v). if P k v then insert k d else d) d0 m = d0 \<union> {k. \<exists>v. (k, v) \<in> set m \<and> P k v}"
  by (induction m arbitrary: d0) (auto split: if_splits)

text \<open>The labels of a target with a value; an empty value stands for a deleted label.\<close>

definition nonempty :: "(string \<rightharpoonup> string) \<Rightarrow> string \<rightharpoonup> string" where
  "nonempty m l = (case m l of Some v \<Rightarrow> if v = [] then None else Some v | None \<Rightarrow> None)"

lemma NewTargetBuilderFromLabelSets_view:
  assumes "map_wf gr" "map_wf ow"
  shows "builder_view (NewTargetBuilderFromLabelSets gr ow) = nonempty (map_of gr ++ map_of ow)"
    and "builder_inv (NewTargetBuilderFromLabelSets gr ow)"
proof -
  let ?t = "NewTargetBuilderFromLabelSets gr ow"
  have del: "toDel ?t = {k. map_of gr k = Some [] \<and> (map_of ow k = None \<or> map_of ow k = Some [])} \<union> {k. map_of ow k = Some []}"
    using map_wf_in_set [OF assms(1)] map_wf_in_set [OF assms(2)]
    by (auto simp: NewTargetBuilderFromLabelSets_def Let_def foldl_insert split: option.splits) (metis not_None_eq)
  have frame: "bgroup ?t = gr" "bown ?t = ow" "toAdd ?t = []" by (simp_all add: NewTargetBuilderFromLabelSets_def Let_def)
  show view: "builder_view ?t = nonempty (map_of gr ++ map_of ow)"
    by (auto simp: builder_view_def frame del nonempty_def map_add_def fun_eq_iff split: option.splits)
  show "builder_inv ?t"
    using assms unfolding builder_inv_def view by (auto simp: frame nonempty_def split: option.splits if_splits)
qed

lemma keep_view:
  fixes m :: LabelSet
  shows "map_wf m \<Longrightarrow> map_of (foldl (\<lambda>m (k, v). if k \<in> D then m else map_put k v m) [] m) = map_of m |` (- D)"
    and "map_wf (foldl (\<lambda>m (k, v). if k \<in> D then m else map_put k v m) [] m)"
proof -
  have "foldl (\<lambda>m (k, v). if k \<in> D then m else map_put k v m) m0 m =
      foldl (\<lambda>m (k, v). map_put k v m) m0 (filter ((\<lambda>k. k \<notin> D) \<circ> fst) m)" for m0 m :: LabelSet
    by (induction m arbitrary: m0) auto
  note eq = this
  have wf: "map_wf m \<Longrightarrow> map_wf (filter ((\<lambda>k. k \<notin> D) \<circ> fst) m)" for m :: LabelSet
    by (simp add: map_wf_def distinct_map_filter)
  show "map_wf m \<Longrightarrow> map_of (foldl (\<lambda>m (k, v). if k \<in> D then m else map_put k v m) [] m) = map_of m |` (- D)"
    unfolding eq foldl_map_put by (auto simp: map_of_rev_wf wf map_of_filter_fst restrict_map_def fun_eq_iff)
  show "map_wf (foldl (\<lambda>m (k, v). if k \<in> D then m else map_put k v m) [] m)"
    unfolding eq by (rule foldl_put_wf) simp
qed

lemma builder_Target_view:
  assumes "builder_inv t"
  shows "target_view (builder_Target t) = builder_view t" and "target_wf (builder_Target t)"
proof -
  let ?keep = "foldl (\<lambda>m (k, v). if k \<in> toDel t then m else map_put k v m) []"
  define newOwn where "newOwn = (if toAdd t \<noteq> [] \<or> (\<exists>label \<in> toDel t. map_of (bown t) label \<noteq> None)
    then foldl (\<lambda>m (k, v). map_put k v m) (?keep (bown t)) (toAdd t) else bown t)"
  define newGroup where "newGroup = (if \<exists>label \<in> toDel t. map_of (bgroup t) label \<noteq> None then ?keep (bgroup t) else bgroup t)"
  have wf: "map_wf (bown t)" "map_wf (bgroup t)" "map_wf (toAdd t)" using assms by (simp_all add: builder_inv_def)
  have "map_of (bown t) |` (- toDel t) = map_of (bown t)" if "\<forall>label \<in> toDel t. map_of (bown t) label = None"
    using that by (auto simp: restrict_map_def fun_eq_iff)
  then have own: "map_of newOwn = (map_of (bown t) |` (- toDel t)) ++ map_of (toAdd t)" "map_wf newOwn"
    using wf by (auto simp: newOwn_def foldl_map_put keep_view map_of_rev_wf foldl_put_wf)
  have "map_of (bgroup t) |` (- toDel t) = map_of (bgroup t)" if "\<forall>label \<in> toDel t. map_of (bgroup t) label = None"
    using that by (auto simp: restrict_map_def fun_eq_iff)
  then have grp: "map_of newGroup = map_of (bgroup t) |` (- toDel t)" "map_wf newGroup"
    using wf by (auto simp: newGroup_def keep_view)
  have "builder_Target t = NewTargetFromSpecificAndBaseLabelSet newOwn newGroup"
    unfolding builder_Target_def Let_def newOwn_def [symmetric] newGroup_def [symmetric]
    by (auto simp: newOwn_def newGroup_def)
  moreover have "map_of newGroup ++ map_of newOwn = builder_view t"
    by (auto simp: own grp builder_view_def map_add_def restrict_map_def fun_eq_iff split: option.splits)
  ultimately show "target_view (builder_Target t) = builder_view t" "target_wf (builder_Target t)"
    using New_target_wf [OF own(2) grp(2)] by simp_all
qed

text \<open>
  The builder implements its interface and a target. Built from a target it has the target's
  labels with a value; setting, deleting and merging act on that map; and turning it into a target
  gives a well-formed target with exactly the builder's labels, whether it copies the label sets
  or reuses them.
\<close>

theorem target_builder_refines_map:
  assumes "target_wf t" and "target_wf u" and "builder_inv b"
  shows "builder_inv (NewTargetBuilderFrom t) \<and> builder_view (NewTargetBuilderFrom t) = nonempty (target_view t) \<and>
    builder_Get l b = map_get (builder_view b) l \<and>
    builder_inv (builder_Set l v b) \<and> builder_view (builder_Set l v b) = map_set l v (builder_view b) \<and>
    builder_inv (builder_Del ls b) \<and> builder_view (builder_Del ls b) = builder_view b |` (- set ls) \<and>
    builder_inv (MergeWith u b) \<and>
    builder_view (MergeWith u b) = (\<lambda>l. case target_view u l of None \<Rightarrow> builder_view b l
      | Some v \<Rightarrow> if v = [] then None else Some v) \<and>
    target_wf (builder_Target b) \<and> target_view (builder_Target b) = builder_view b"
proof -
  have new: "builder_inv (NewTargetBuilderFrom t)" "builder_view (NewTargetBuilderFrom t) = nonempty (target_view t)"
    using assms(1) NewTargetBuilderFromLabelSets_view by (simp_all add: NewTargetBuilderFrom_def target_wf_def target_view_def)
  have merge: "builder_inv b' \<Longrightarrow> map_wf m \<Longrightarrow>
      builder_inv (foldl (\<lambda>b (k, v). builder_Set k v b) b' m) \<and>
      builder_view (foldl (\<lambda>b (k, v). builder_Set k v b) b' m) =
        (\<lambda>l. case map_of m l of None \<Rightarrow> builder_view b' l | Some v \<Rightarrow> if v = [] then None else Some v)" for b' m
  proof (induction m arbitrary: b')
    case (Cons e m)
    obtain k v where e: "e = (k, v)" by (cases e)
    have "map_wf m" "map_of m k = None" using Cons.prems(2) by (auto simp: e map_wf_def map_of_eq_None_iff)
    with Cons.IH [OF builder_Set_inv [OF Cons.prems(1)]] show ?case
      by (auto simp: e builder_Set_view map_set_def fun_eq_iff split: option.splits)
  qed simp
  have "MergeWith u b = foldl (\<lambda>b (k, v). builder_Set k v b) b (label_list u)"
    by (simp add: MergeWith_def ForEachLabel_list each_entry_total)
  with merge [OF assms(3) label_list_wf [OF assms(2)]]
  have "builder_inv (MergeWith u b)" "builder_view (MergeWith u b) =
      (\<lambda>l. case target_view u l of None \<Rightarrow> builder_view b l | Some v \<Rightarrow> if v = [] then None else Some v)"
    by (simp_all add: map_of_label_list)
  with new builder_Target_view [OF assms(3)] builder_Set_inv [OF assms(3)] builder_Del_inv [OF assms(3)]
  show ?thesis by (simp add: builder_Get_view builder_Set_view builder_Del_view)
qed

text \<open>
  C34: relabelling a target. Processing rules on the builder of a target ends, and whatever order the
  maps are iterated in, the verdict and the labels of the resulting target are those that the rules
  give on the map of the target's labels. This needs that each \<open>labelmap\<close> rule, on the labels it meets, gives
  different selected labels different new names, and no new name is a label already or selected itself; the
  code accepts other rules, and for them the result can depend on the order of the iteration (below).
\<close>

theorem relabel_target_refines:
  assumes "target_wf t" and "rules_ok G cfgs (nonempty (target_view t))"
  shows "(\<exists>out b. ProcessBuilder G target_LabelBuilder cfgs (NewTargetBuilderFrom t) out b) \<and>
    (\<forall>out b. ProcessBuilder G target_LabelBuilder cfgs (NewTargetBuilderFrom t) out b \<longrightarrow>
      (out, target_view (builder_Target b)) = rules_spec G cfgs (nonempty (target_view t)))"
proof -
  have new: "builder_inv (NewTargetBuilderFrom t)" "builder_view (NewTargetBuilderFrom t) = nonempty (target_view t)"
    using assms(1) NewTargetBuilderFromLabelSets_view by (simp_all add: NewTargetBuilderFrom_def target_wf_def target_view_def)
  note ok = assms(2) [folded new(2)]
  show ?thesis
    using tb.ProcessBuilder_returns [OF new(1) ok] tb.ProcessBuilder_refines [OF new(1) ok] new(2)
    by (auto simp: builder_Target_view)
qed

text \<open>
  Renaming is not deterministic when a new name is itself selected: the order of the own labels
  decides whether a label that was just overwritten is still renamed.
\<close>

definition order_builder :: "bool \<Rightarrow> targetBuilder" where
  "order_builder first =
     \<lparr>bgroup = [], bown = (if first then [(''a'', ''1''), (''ax'', ''2'')] else [(''ax'', ''2''), (''a'', ''1'')]),
      toAdd = [], toDel = {}\<rparr>"

lemma labelmap_order_dependent:
  "builder_view (order_builder True) = builder_view (order_builder False)"
  "builder_Range (\<lambda>k v b. builder_Set (k @ ''x'') v b) (order_builder True)
    (order_builder True\<lparr>toAdd := [(''ax'', ''1'')]\<rparr>)"
  "builder_Range (\<lambda>k v b. builder_Set (k @ ''x'') v b) (order_builder False)
    (order_builder False\<lparr>toAdd := [(''axx'', ''2''), (''ax'', ''1'')]\<rparr>)"
  by (auto simp: builder_view_def order_builder_def fun_eq_iff builder_Range_def builder_Set_def map_put_def
      intro!: exI range_added.finish)

section \<open>Witnesses\<close>

theorem target_builder_refines_map_witness:
  "target_view (builder_Target NewTargetBuilder) = builder_view NewTargetBuilder"
proof -
  have "builder_inv NewTargetBuilder" by (simp add: builder_inv_def NewTargetBuilder_def builder_view_def)
  from target_builder_refines_map [OF sample_target_wf sample_target_wf this] show ?thesis by blast
qed

definition sample_labelmap :: "string Config" where
  "sample_labelmap = (SetToDefault ''a'')\<lparr>action := LabelMap, Replacement := ''z''\<rparr>"

theorem relabel_target_refines_witness:
  "\<exists>out b. ProcessBuilder literal_packages target_LabelBuilder [sample_labelmap] (NewTargetBuilderFrom sample_target) out b \<and>
     target_view (builder_Target b) ''z'' = Some ''1''"
proof -
  let ?m = "nonempty (target_view sample_target)"
  have m: "?m ''z'' = None" "?m ''a'' = Some ''1''"
    by (simp_all add: nonempty_def target_view_def sample_target_def NewTargetFromSpecificAndBaseLabelSet_def)
  have rule: "rule_spec literal_packages sample_labelmap ?m = (Inr True, map_rename (\<lambda>k. k = ''a'') (\<lambda>_. ''z'') ?m)"
    by (simp add: rule_spec_def sample_labelmap_def action_defs renaming_def [abs_def] literal_packages_def SetToDefault_def)
  have "rules_ok literal_packages [sample_labelmap] ?m"
    using m(1) by (simp add: rule_ok_def sample_labelmap_def no_clash_def inj_on_def renaming_def literal_packages_def SetToDefault_def)
  note refines = relabel_target_refines [OF sample_target_wf this]
  then obtain out b where run: "ProcessBuilder literal_packages target_LabelBuilder [sample_labelmap] (NewTargetBuilderFrom sample_target) out b"
    by blast
  have "rules_spec literal_packages [sample_labelmap] ?m = (Inr True, map_rename (\<lambda>k. k = ''a'') (\<lambda>_. ''z'') ?m)"
    by (simp only: rules_spec.simps rule prod.sel if_True simp_thms)
  with refines [THEN conjunct2, rule_format, OF run]
  have "target_view (builder_Target b) = map_rename (\<lambda>k. k = ''a'') (\<lambda>_. ''z'') ?m" by (simp only: prod.inject)
  moreover have "(SOME k. ?m k \<noteq> None \<and> k = ''a'' \<and> ''z'' = ''z'') = ''a''" using m(2) by (intro some_equality) auto
  ultimately have "target_view (builder_Target b) ''z'' = Some ''1''" using m(2) by (auto simp: map_rename_def)
  with run show ?thesis by blast
qed

end
