(* ===== verification/Label_Store.thy ===== *)
theory Label_Store
  imports Prelude "HOL-Library.Word"
begin

text \<open>
  The label store service, \<^verbatim>\<open>internal/service/labelstore/service.go\<close>: global reference IDs for label
  sets, the links between global and local IDs of each remote write component, and the collection of
  stale IDs. Label sets, their hash and the staleness of a sample value are arguments; the clock is
  read by the caller. The metrics, and the store that the service is replaced with when it is
  disabled, keep no state.
\<close>

section \<open>The service\<close>

record remoteWriteMapping =
  RemoteWriteID :: string
  localToGlobal :: "64 word \<rightharpoonup> 64 word"
  globalToLocal :: "64 word \<rightharpoonup> 64 word"

record staleMarker =
  globalID :: "64 word"
  lastMarkedStale :: int
  labelHash :: "64 word"

record Service =
  globalRefID :: "64 word"
  mappings :: "(string, remoteWriteMapping) gomap"
  labelsHashToGlobal :: "64 word \<rightharpoonup> 64 word"
  staleGlobals :: "(64 word, staleMarker) gomap"

text \<open>The label sets of Prometheus.\<close>

record 'l labels_pkg =
  IsEmpty :: "'l \<Rightarrow> bool"
  Hash :: "'l \<Rightarrow> 64 word"

record ('l, 'v) StalenessTracker =
  GlobalRefID :: "64 word"
  Value :: 'v
  Labels :: 'l

definition newLabelStore :: Service where
  "newLabelStore = \<lparr>globalRefID = 0, mappings = [], labelsHashToGlobal = Map.empty, staleGlobals = []\<rparr>"

definition newMapping :: "string \<Rightarrow> remoteWriteMapping" where
  "newMapping componentID = \<lparr>RemoteWriteID = componentID, localToGlobal = Map.empty, globalToLocal = Map.empty\<rparr>"

definition add_link :: "64 word \<Rightarrow> 64 word \<Rightarrow> remoteWriteMapping \<Rightarrow> remoteWriteMapping" where
  "add_link global local m = m\<lparr>localToGlobal := (localToGlobal m)(local \<mapsto> global),
     globalToLocal := (globalToLocal m)(global \<mapsto> local)\<rparr>"

definition AddLocalLink :: "string \<Rightarrow> 64 word \<Rightarrow> 64 word \<Rightarrow> Service \<Rightarrow> Service" where
  "AddLocalLink componentID global local s =
     (let m = (case map_of (mappings s) componentID of None \<Rightarrow> newMapping componentID | Some m \<Rightarrow> m)
      in s\<lparr>mappings := map_put componentID (add_link global local m) (mappings s)\<rparr>)"

definition ReplaceLocalLink :: "string \<Rightarrow> 64 word \<Rightarrow> 64 word \<Rightarrow> 64 word \<Rightarrow> Service \<Rightarrow> Service" where
  "ReplaceLocalLink componentID global cachedLocal newLocal s =
     (case map_of (mappings s) componentID of
        None \<Rightarrow> AddLocalLink componentID global newLocal s
      | Some m \<Rightarrow>
          let m1 = m\<lparr>localToGlobal := (localToGlobal m)(cachedLocal := None)\<rparr>
          in s\<lparr>mappings := map_put componentID (add_link global newLocal m1) (mappings s)\<rparr>)"

definition GetOrAddGlobalRefID :: "'l labels_pkg \<Rightarrow> 'l \<Rightarrow> Service \<Rightarrow> 64 word \<times> Service" where
  "GetOrAddGlobalRefID P l s =
     (if IsEmpty P l then (0, s)
      else case labelsHashToGlobal s (Hash P l) of
          Some g \<Rightarrow> (g, s)
        | None \<Rightarrow> let g = globalRefID s + 1 in
            (g, s\<lparr>globalRefID := g, labelsHashToGlobal := (labelsHashToGlobal s)(Hash P l \<mapsto> g)\<rparr>))"

definition GetLocalRefID :: "string \<Rightarrow> 64 word \<Rightarrow> Service \<Rightarrow> 64 word" where
  "GetLocalRefID componentID global s =
     (case map_of (mappings s) componentID of
        None \<Rightarrow> 0
      | Some m \<Rightarrow> (case globalToLocal m global of None \<Rightarrow> 0 | Some local \<Rightarrow> local))"

definition TrackStaleness ::
  "'l labels_pkg \<Rightarrow> ('v \<Rightarrow> bool) \<Rightarrow> int \<Rightarrow> ('l, 'v) StalenessTracker list \<Rightarrow> Service \<Rightarrow> Service" where
  "TrackStaleness P IsStaleNaN now ids s =
     (let toAdd = [\<lparr>globalID = GlobalRefID i, lastMarkedStale = now, labelHash = Hash P (Labels i)\<rparr>.
                    i \<leftarrow> ids, IsStaleNaN (Value i)];
          toRemove = [GlobalRefID i. i \<leftarrow> ids, \<not> IsStaleNaN (Value i)];
          added = foldl (\<lambda>m marker. map_put (globalID marker) marker m) (staleGlobals s) toAdd
      in s\<lparr>staleGlobals := foldl (\<lambda>m i. map_del i m) added toRemove\<rparr>)"

text \<open>Ten minutes, in nanoseconds.\<close>

definition staleDuration :: int where
  "staleDuration = 10 * 60 * 1000000000"

definition deleteStaleIDs :: "64 word \<Rightarrow> remoteWriteMapping \<Rightarrow> remoteWriteMapping" where
  "deleteStaleIDs g rw =
     (case globalToLocal rw g of
        None \<Rightarrow> rw
      | Some localID \<Rightarrow> rw\<lparr>globalToLocal := (globalToLocal rw)(g := None), localToGlobal := (localToGlobal rw)(localID := None)\<rparr>)"

definition collect_marker :: "staleMarker \<Rightarrow> Service \<Rightarrow> Service" where
  "collect_marker marker s =
     s\<lparr>staleGlobals := map_del (globalID marker) (staleGlobals s),
       labelsHashToGlobal := (labelsHashToGlobal s)(labelHash marker := None),
       mappings := map (\<lambda>(c, m). (c, deleteStaleIDs (globalID marker) m)) (mappings s)\<rparr>"

definition CheckAndRemoveStaleMarkers :: "int \<Rightarrow> Service \<Rightarrow> Service" where
  "CheckAndRemoveStaleMarkers now s =
     (let idsToBeGCed = [stale. (_, stale) \<leftarrow> staleGlobals s, \<not> (now - lastMarkedStale stale < staleDuration)]
      in fold collect_marker idsToBeGCed s)"

definition Clear :: "Service \<Rightarrow> Service" where
  "Clear s = s\<lparr>globalRefID := 0, mappings := [], labelsHashToGlobal := Map.empty, staleGlobals := []\<rparr>"

section \<open>Global IDs\<close>

text \<open>
  Global IDs are at least one and at most the counter, and different label hashes have different
  IDs.
\<close>

definition ids_ok :: "Service \<Rightarrow> bool" where
  "ids_ok s \<longleftrightarrow> (\<forall>h g. labelsHashToGlobal s h = Some g \<longrightarrow> 1 \<le> g \<and> g \<le> globalRefID s) \<and>
     (\<forall>h h' g. labelsHashToGlobal s h = Some g \<longrightarrow> labelsHashToGlobal s h' = Some g \<longrightarrow> h = h')"

text \<open>The calls that change the store; requests for a local ID change nothing.\<close>

datatype ('l, 'v) store_call = CallAddLink string "64 word" "64 word" | CallReplaceLink string "64 word" "64 word" "64 word"
  | CallGetOrAdd 'l | CallTrack int "('l, 'v) StalenessTracker list" | CallCheck int | CallClear

fun store_call_step :: "'l labels_pkg \<Rightarrow> ('v \<Rightarrow> bool) \<Rightarrow> ('l, 'v) store_call \<Rightarrow> Service \<Rightarrow> Service" where
  "store_call_step P N (CallAddLink c g l) s = AddLocalLink c g l s"
| "store_call_step P N (CallReplaceLink c g l l') s = ReplaceLocalLink c g l l' s"
| "store_call_step P N (CallGetOrAdd ls) s = snd (GetOrAddGlobalRefID P ls s)"
| "store_call_step P N (CallTrack now ids) s = TrackStaleness P N now ids s"
| "store_call_step P N (CallCheck now) s = CheckAndRemoveStaleMarkers now s"
| "store_call_step P N CallClear s = Clear s"

definition store_calls :: "'l labels_pkg \<Rightarrow> ('v \<Rightarrow> bool) \<Rightarrow> ('l, 'v) store_call list \<Rightarrow> Service \<Rightarrow> Service" where
  "store_calls P N = fold (store_call_step P N)"

lemma store_calls_simps [simp]:
  "store_calls P N [] s = s" "store_calls P N (c # cs) s = store_calls P N cs (store_call_step P N c s)"
  by (simp_all add: store_calls_def)

lemma collect_markers_frame:
  "globalRefID (fold collect_marker ms s) = globalRefID s"
  "labelsHashToGlobal (fold collect_marker ms s) h = (if h \<in> labelHash ` set ms then None else labelsHashToGlobal s h)"
  "map_of (staleGlobals (fold collect_marker ms s)) g = (if g \<in> globalID ` set ms then None else map_of (staleGlobals s) g)"
  by (induction ms arbitrary: s) (auto simp: collect_marker_def)

lemma other_calls_frame:
  "globalRefID (AddLocalLink c g l s) = globalRefID s" "labelsHashToGlobal (AddLocalLink c g l s) = labelsHashToGlobal s"
  "globalRefID (ReplaceLocalLink c g l l' s) = globalRefID s"
  "labelsHashToGlobal (ReplaceLocalLink c g l l' s) = labelsHashToGlobal s"
  "globalRefID (TrackStaleness P N now ids s) = globalRefID s"
  "labelsHashToGlobal (TrackStaleness P N now ids s) = labelsHashToGlobal s"
  by (simp_all add: AddLocalLink_def ReplaceLocalLink_def TrackStaleness_def Let_def split: option.splits)

text \<open>
  One call: the counter moves by at most one, or back to zero when the store is cleared. A hash keeps
  its ID unless the store is cleared or stale IDs are collected, and every other ID is new.
\<close>

definition grows :: "Service \<Rightarrow> Service \<Rightarrow> bool" where
  "grows s s' \<longleftrightarrow> globalRefID s \<le> globalRefID s' \<and>
     (\<forall>h g. labelsHashToGlobal s' h = Some g \<longrightarrow> labelsHashToGlobal s h = Some g \<or> globalRefID s < g)"

lemma GetOrAdd_ok:
  assumes "ids_ok s" "unat (globalRefID s) < 2 ^ 64 - 1" "GetOrAddGlobalRefID P l s = (g, s')"
  shows "ids_ok s' \<and> grows s s' \<and> unat (globalRefID s') \<le> unat (globalRefID s) + 1 \<and>
    labelsHashToGlobal s \<subseteq>\<^sub>m labelsHashToGlobal s' \<and>
    (if IsEmpty P l then g = 0 else labelsHashToGlobal s' (Hash P l) = Some g)"
proof (cases "IsEmpty P l \<or> labelsHashToGlobal s (Hash P l) \<noteq> None")
  case True
  then have "s' = s" "if IsEmpty P l then g = 0 else labelsHashToGlobal s (Hash P l) = Some g"
    using assms(3) by (auto simp: GetOrAddGlobalRefID_def split: if_splits option.splits)
  with assms(1) show ?thesis by (simp add: grows_def)
next
  case False
  let ?g = "globalRefID s + 1"
  have u: "unat ?g = unat (globalRefID s) + 1" using assms(2) by (simp add: unat_word_ariths)
  then have less: "globalRefID s < ?g" "1 \<le> ?g" by (simp_all add: word_less_nat_alt word_le_nat_alt)
  have le: "x \<le> ?g" "x \<noteq> ?g" if "x \<le> globalRefID s" for x using that less(1) by auto
  have s': "s' = s\<lparr>globalRefID := ?g, labelsHashToGlobal := (labelsHashToGlobal s)(Hash P l \<mapsto> ?g)\<rparr>" "g = ?g"
    using False assms(3) by (auto simp: GetOrAddGlobalRefID_def Let_def)
  have "ids_ok s'" using assms(1) less(2) le unfolding ids_ok_def s'(1) by (auto split: if_splits)
  moreover have "grows s s'" using less(1) by (auto simp: grows_def s'(1))
  moreover have "labelsHashToGlobal s \<subseteq>\<^sub>m labelsHashToGlobal s'" using False by (auto simp: s'(1) map_le_def dom_def)
  ultimately show ?thesis using False u by (simp add: s')
qed

lemma step_ok:
  assumes "ids_ok s" "unat (globalRefID s) < 2 ^ 64 - 1"
  shows "ids_ok (store_call_step P N c s) \<and> unat (globalRefID (store_call_step P N c s)) \<le> unat (globalRefID s) + 1 \<and>
    (c \<noteq> CallClear \<longrightarrow> grows s (store_call_step P N c s)) \<and>
    (c \<noteq> CallClear \<and> (\<forall>now. c \<noteq> CallCheck now) \<longrightarrow> labelsHashToGlobal s \<subseteq>\<^sub>m labelsHashToGlobal (store_call_step P N c s))"
proof (cases c)
  case (CallGetOrAdd l)
  with GetOrAdd_ok [OF assms prod.collapse [symmetric], of P l] show ?thesis by simp
next
  case (CallCheck now)
  with assms show ?thesis
    by (auto simp: ids_ok_def grows_def CheckAndRemoveStaleMarkers_def Let_def collect_markers_frame split: if_splits)
next
  case CallClear
  then show ?thesis by (simp add: ids_ok_def Clear_def)
qed (use assms in \<open>auto simp: ids_ok_def grows_def other_calls_frame\<close>)

lemma store_calls_ok:
  "ids_ok s \<Longrightarrow> unat (globalRefID s) + length cs < 2 ^ 64 \<Longrightarrow>
    ids_ok (store_calls P N cs s) \<and> unat (globalRefID (store_calls P N cs s)) \<le> unat (globalRefID s) + length cs"
proof (induction cs arbitrary: s)
  case (Cons c cs)
  have "unat (globalRefID s) < 2 ^ 64 - 1" using Cons.prems(2) by simp
  from step_ok [OF Cons.prems(1) this, of P N c] Cons.IH [of "store_call_step P N c s"] Cons.prems(2) show ?case by simp
qed simp

text \<open>The ID \<open>g\<close> was handed out for the hash \<open>h\<close>: no other hash has it or will get it.\<close>

definition taken :: "64 word \<Rightarrow> 64 word \<Rightarrow> Service \<Rightarrow> bool" where
  "taken h g s \<longleftrightarrow> g \<le> globalRefID s \<and> (\<forall>h'. labelsHashToGlobal s h' = Some g \<longrightarrow> h' = h)"

lemma taken_grows: "taken h g s \<Longrightarrow> grows s s' \<Longrightarrow> taken h g s'"
  unfolding taken_def grows_def by (meson leD order_trans)

lemma store_calls_keep:
  "ids_ok s \<Longrightarrow> unat (globalRefID s) + length cs < 2 ^ 64 \<Longrightarrow> CallClear \<notin> set cs \<Longrightarrow> taken h g s \<Longrightarrow>
    taken h g (store_calls P N cs s) \<and>
    ((\<forall>now. CallCheck now \<notin> set cs) \<longrightarrow> labelsHashToGlobal s h = Some g \<longrightarrow> labelsHashToGlobal (store_calls P N cs s) h = Some g)"
proof (induction cs arbitrary: s)
  case (Cons c cs)
  have "unat (globalRefID s) < 2 ^ 64 - 1" using Cons.prems(2) by simp
  note c = step_ok [OF Cons.prems(1) this, of P N c]
  have "taken h g (store_call_step P N c s)" 
    using c Cons.prems(3) taken_grows [OF Cons.prems(4)] by auto
  moreover have "labelsHashToGlobal (store_call_step P N c s) h = Some g"
    if "\<forall>now. CallCheck now \<notin> set (c # cs)" "labelsHashToGlobal s h = Some g"
  proof -
    have "c \<noteq> CallClear" "\<forall>now. c \<noteq> CallCheck now" using that(1) Cons.prems(3) by auto
    with c have "labelsHashToGlobal s \<subseteq>\<^sub>m labelsHashToGlobal (store_call_step P N c s)" by blast
    then show ?thesis using that(2) unfolding map_le_def by (metis domI)
  qed
  ultimately show ?case using Cons.IH [of "store_call_step P N c s"] c Cons.prems by simp
qed simp

text \<open>
  C40: global IDs. Take any two requests for an ID in a history of a new store of fewer than \<open>2 ^ 64\<close>
  calls, where the store is not cleared between the two (it may be before them). An empty label set
  gets the ID zero, and no other does. The two requests get the same ID only if the label sets
  have the same hash, even when stale IDs were collected in between; and if none were, label sets with
  the same hash do get the same ID. Clearing the store sets the counter back, so across it IDs are reused.
\<close>

theorem global_ids_never_reused:
  assumes "s1 = store_calls P N before newLabelStore" and "GetOrAddGlobalRefID P l s1 = (g, s2)"
    and "s3 = store_calls P N between s2" and "GetOrAddGlobalRefID P l' s3 = (g', s4)"
    and "length before + length between + 2 < 2 ^ 64" and "CallClear \<notin> set between"
  shows "(g = 0 \<longleftrightarrow> IsEmpty P l) \<and>
    (\<not> IsEmpty P l \<and> g' = g \<longrightarrow> \<not> IsEmpty P l' \<and> Hash P l' = Hash P l) \<and>
    (\<not> IsEmpty P l \<and> \<not> IsEmpty P l' \<and> Hash P l' = Hash P l \<and> (\<forall>now. CallCheck now \<notin> set between) \<longrightarrow> g' = g)"
proof -
  have new: "ids_ok newLabelStore" "unat (globalRefID newLabelStore) = 0" by (simp_all add: ids_ok_def newLabelStore_def)
  have s1: "ids_ok s1" "unat (globalRefID s1) \<le> length before"
    using store_calls_ok [OF new(1), of before] new(2) assms(1,5) by auto
  have s2: "ids_ok s2" "unat (globalRefID s2) \<le> length before + 1"
    "if IsEmpty P l then g = 0 else labelsHashToGlobal s2 (Hash P l) = Some g"
    using GetOrAdd_ok [OF s1(1) _ assms(2)] s1(2) assms(5) by auto
  have room: "unat (globalRefID s2) + length between < 2 ^ 64 - 1" using s2(2) assms(5) by simp
  then have s3: "ids_ok s3" "unat (globalRefID s3) < 2 ^ 64 - 1"
    using store_calls_ok [OF s2(1), of between P N] assms(3) by auto
  note s4 = GetOrAdd_ok [OF s3 assms(4)]
  have nonzero: "a \<noteq> 0" if "ids_ok t" "labelsHashToGlobal t h = Some a" for t h a
  proof -
    have "1 \<le> a" using that unfolding ids_ok_def by blast
    then show ?thesis by (auto simp: word_le_nat_alt)
  qed
  have keep: "taken (Hash P l) g s3 \<and>
      ((\<forall>now. CallCheck now \<notin> set between) \<longrightarrow> labelsHashToGlobal s3 (Hash P l) = Some g)" if "\<not> IsEmpty P l"
  proof -
    have "labelsHashToGlobal s2 (Hash P l) = Some g" using s2(3) that by simp
    moreover from this have "taken (Hash P l) g s2" using s2(1) unfolding taken_def ids_ok_def by blast
    ultimately show ?thesis using store_calls_keep [OF s2(1) _ assms(6)] room assms(3) by auto
  qed
  have "g = 0 \<longleftrightarrow> IsEmpty P l" using s2(3) nonzero [OF s2(1)] by (cases "IsEmpty P l") auto
  moreover have "\<not> IsEmpty P l' \<and> Hash P l' = Hash P l" if "\<not> IsEmpty P l" "g' = g"
  proof -
    have "\<not> IsEmpty P l'" using s4 calculation that by auto
    moreover from this have "labelsHashToGlobal s4 (Hash P l') = Some g" using s4 that by simp
    moreover have "taken (Hash P l) g s4" using taken_grows keep that s4 by blast
    ultimately show ?thesis unfolding taken_def by blast
  qed
  moreover have "g' = g" if "\<not> IsEmpty P l" "\<not> IsEmpty P l'" "Hash P l' = Hash P l" "\<forall>now. CallCheck now \<notin> set between"
    using keep that assms(4) by (auto simp: GetOrAddGlobalRefID_def)
  ultimately show ?thesis by blast
qed

section \<open>Local links\<close>

lemma GetLocalRefID_put:
  "GetLocalRefID c g (s\<lparr>mappings := map_put c' m (mappings s)\<rparr>) =
    (if c = c' then (case globalToLocal m g of None \<Rightarrow> 0 | Some l \<Rightarrow> l) else GetLocalRefID c g s)"
  by (simp add: GetLocalRefID_def)

text \<open>
  Local links. After a link is added or replaced, the component resolves the global ID to the new
  local ID, and every other component and global ID resolves as before; replacing also forgets the
  cached local ID unless it is the new one.
\<close>

theorem local_links_resolve:
  "GetLocalRefID c g (AddLocalLink c' g' l s) = (if c = c' \<and> g = g' then l else GetLocalRefID c g s) \<and>
   GetLocalRefID c g (ReplaceLocalLink c' g' cached l s) = (if c = c' \<and> g = g' then l else GetLocalRefID c g s) \<and>
   (\<forall>m. map_of (mappings (ReplaceLocalLink c' g' cached l s)) c' = Some m \<longrightarrow>
     localToGlobal m l = Some g' \<and> (map_of (mappings s) c' \<noteq> None \<longrightarrow> cached \<noteq> l \<longrightarrow> localToGlobal m cached = None))"
proof -
  have add: "GetLocalRefID c g (AddLocalLink c' g' l s) = (if c = c' \<and> g = g' then l else GetLocalRefID c g s)"
    by (auto simp: AddLocalLink_def Let_def GetLocalRefID_put add_link_def newMapping_def GetLocalRefID_def split: option.splits)
  have rep: "GetLocalRefID c g (ReplaceLocalLink c' g' cached l s) = (if c = c' \<and> g = g' then l else GetLocalRefID c g s)"
  proof (cases "map_of (mappings s) c'")
    case None
    then show ?thesis using add by (simp add: ReplaceLocalLink_def)
  next
    case (Some m)
    then show ?thesis by (auto simp: ReplaceLocalLink_def Let_def GetLocalRefID_put add_link_def GetLocalRefID_def)
  qed
  show ?thesis using add rep
    by (auto simp: ReplaceLocalLink_def AddLocalLink_def Let_def add_link_def split: option.splits)
qed

section \<open>Stale IDs\<close>

text \<open>Each marker is stored under its own global ID.\<close>

definition markers_ok :: "Service \<Rightarrow> bool" where
  "markers_ok s \<longleftrightarrow> map_wf (staleGlobals s) \<and> (\<forall>g m. map_of (staleGlobals s) g = Some m \<longrightarrow> globalID m = g)"

lemma globalToLocal_delete: "globalToLocal (deleteStaleIDs g m) g' = (if g' = g then None else globalToLocal m g')"
  by (auto simp: deleteStaleIDs_def split: option.splits)

lemma GetLocalRefID_collect:
  "GetLocalRefID c g (fold collect_marker ms s) = (if g \<in> globalID ` set ms then 0 else GetLocalRefID c g s)"
proof (induction ms arbitrary: s)
  case (Cons m ms)
  have "GetLocalRefID c g (collect_marker m s) = (if g = globalID m then 0 else GetLocalRefID c g s)"
    by (auto simp: GetLocalRefID_def collect_marker_def globalToLocal_delete split: option.splits)
  with Cons show ?case by auto
qed simp

text \<open>
  Collecting stale IDs, in whatever order the markers are visited: exactly the IDs marked stale
  for ten minutes or more lose their marker and their local links, and exactly the hashes of those
  markers lose their global ID; everything else stays.
\<close>

theorem stale_collection_exact:
  assumes "markers_ok s"
    and "expired = (\<lambda>g. \<exists>m. map_of (staleGlobals s) g = Some m \<and> staleDuration \<le> now - lastMarkedStale m)"
    and "s' = CheckAndRemoveStaleMarkers now s"
  shows "map_of (staleGlobals s') g = (if expired g then None else map_of (staleGlobals s) g) \<and>
    GetLocalRefID c g s' = (if expired g then 0 else GetLocalRefID c g s) \<and>
    labelsHashToGlobal s' h =
      (if \<exists>g m. expired g \<and> map_of (staleGlobals s) g = Some m \<and> labelHash m = h then None else labelsHashToGlobal s h)"
proof -
  define ms where "ms = [stale. (_, stale) \<leftarrow> staleGlobals s, \<not> (now - lastMarkedStale stale < staleDuration)]"
  have s': "s' = fold collect_marker ms s" by (simp add: assms(3) CheckAndRemoveStaleMarkers_def ms_def)
  have ms: "m \<in> set ms \<longleftrightarrow> map_of (staleGlobals s) (globalID m) = Some m \<and> staleDuration \<le> now - lastMarkedStale m" for m
  proof -
    have "m \<in> set ms \<longleftrightarrow> (\<exists>g. (g, m) \<in> set (staleGlobals s)) \<and> staleDuration \<le> now - lastMarkedStale m"
      by (auto simp: ms_def)
    moreover have "(g, m) \<in> set (staleGlobals s) \<longleftrightarrow> map_of (staleGlobals s) g = Some m" for g
      using assms(1) map_wf_in_set by (metis markers_ok_def)
    moreover have "map_of (staleGlobals s) g = Some m \<Longrightarrow> g = globalID m" for g
      using assms(1) unfolding markers_ok_def by blast
    ultimately show ?thesis by blast
  qed
  have marker: "globalID m = g" if "map_of (staleGlobals s) g = Some m" for g m
    using assms(1) that unfolding markers_ok_def by blast
  have old: "expired g \<longleftrightarrow> (\<exists>m. m \<in> set ms \<and> globalID m = g)" for g
    unfolding assms(2) ms using marker by blast
  have "g \<in> globalID ` set ms \<longleftrightarrow> expired g" for g unfolding old by auto
  moreover have "h \<in> labelHash ` set ms \<longleftrightarrow> (\<exists>g m. expired g \<and> map_of (staleGlobals s) g = Some m \<and> labelHash m = h)"
  proof
    assume "h \<in> labelHash ` set ms"
    then obtain m where "m \<in> set ms" "labelHash m = h" by auto
    with ms old show "\<exists>g m. expired g \<and> map_of (staleGlobals s) g = Some m \<and> labelHash m = h" by blast
  next
    assume "\<exists>g m. expired g \<and> map_of (staleGlobals s) g = Some m \<and> labelHash m = h"
    then obtain g m n where "map_of (staleGlobals s) g = Some m" "labelHash m = h" "n \<in> set ms" "globalID n = g"
      unfolding old by blast
    moreover from this have "n = m" using ms by auto
    ultimately show "h \<in> labelHash ` set ms" by auto
  qed
  ultimately show ?thesis by (simp add: s' collect_markers_frame GetLocalRefID_collect)
qed

section \<open>Witnesses\<close>

definition sample_labels :: "nat labels_pkg" where
  "sample_labels = \<lparr>IsEmpty = (\<lambda>l. l = 0), Hash = of_nat\<rparr>"

text \<open>A store that was used and cleared; between the two requests stale IDs are collected.\<close>

theorem global_ids_never_reused_witness:
  "fst (GetOrAddGlobalRefID sample_labels 6 (CheckAndRemoveStaleMarkers 0
     (snd (GetOrAddGlobalRefID sample_labels 5 (Clear (snd (GetOrAddGlobalRefID sample_labels 5 newLabelStore))))))) \<noteq> 1"
proof -
  let ?N = "\<lambda>v :: unit. False" and ?before = "[CallGetOrAdd 5, CallClear] :: (nat, unit) store_call list"
  let ?s1 = "store_calls sample_labels ?N ?before newLabelStore"
  let ?r = "GetOrAddGlobalRefID sample_labels 5 ?s1"
  let ?s3 = "store_calls sample_labels ?N [CallCheck 0] (snd ?r)"
  let ?r' = "GetOrAddGlobalRefID sample_labels 6 ?s3"
  have "fst ?r = 1" by (simp add: GetOrAddGlobalRefID_def Clear_def sample_labels_def newLabelStore_def Let_def)
  moreover have "\<not> IsEmpty sample_labels 5" "Hash sample_labels 6 \<noteq> Hash sample_labels 5" by (simp_all add: sample_labels_def)
  ultimately have "fst ?r' \<noteq> 1"
    using global_ids_never_reused [OF refl prod.collapse [symmetric] refl prod.collapse [symmetric],
        of ?before "[CallCheck 0]" sample_labels 5 ?N 6] by simp
  then show ?thesis by simp
qed

theorem local_links_resolve_witness:
  "GetLocalRefID ''rw'' 1 (ReplaceLocalLink ''rw'' 1 7 8 (AddLocalLink ''rw'' 1 7 newLabelStore)) = 8"
  using local_links_resolve [of "''rw''" 1 "''rw''" 1 8 "AddLocalLink ''rw'' 1 7 newLabelStore" 7] by simp

definition stale_store :: Service where
  "stale_store = newLabelStore\<lparr>staleGlobals := [(1, \<lparr>globalID = 1, lastMarkedStale = 0, labelHash = 5\<rparr>)]\<rparr>"

theorem stale_collection_exact_witness:
  "map_of (staleGlobals (CheckAndRemoveStaleMarkers staleDuration stale_store)) 1 = None"
proof -
  have "markers_ok stale_store" "\<exists>m. map_of (staleGlobals stale_store) 1 = Some m \<and> staleDuration \<le> staleDuration - lastMarkedStale m"
    by (simp_all add: stale_store_def markers_ok_def map_wf_def)
  with stale_collection_exact [OF _ refl refl, where g = 1 and s = stale_store and now = staleDuration] show ?thesis
    by simp
qed

end
