(* ===== verification/Series_Ref.thy ===== *)
theory Series_Ref
  imports Prelude "HOL-Library.Word"
begin

text \<open>
  Fan-out of Prometheus appends, \<^verbatim>\<open>internal/component/prometheus/appenders/seriesrefmapping.go\<close>: the
  store that maps one unique series reference to the references of all children, and the appender
  that uses it. Label sets and their hash, the children and the clock are arguments. Each method of
  the store is one atomic step, as its locks make it; the ticks of the cleanup goroutine are steps of
  their own. The metrics are left out.
\<close>

section \<open>The mapping store\<close>

type_synonym SeriesRef = "64 word"

record uniqRefChildren =
  childRefsOf :: "SeriesRef list"
  labelHash :: "64 word"

record SeriesRefMappingStore =
  uniqueRefToChildRefs :: "SeriesRef \<rightharpoonup> uniqRefChildren"
  labelHashToUniqueRef :: "64 word \<rightharpoonup> SeriesRef"
  nextUniqueRef :: SeriesRef
  firstRefOfCurrentGeneration :: SeriesRef
  uniqueRefTimestamps :: "(SeriesRef, int) gomap"
  cleanupStarted :: bool

definition NewSeriesRefMappingStore :: SeriesRefMappingStore where
  "NewSeriesRefMappingStore = \<lparr>uniqueRefToChildRefs = Map.empty, labelHashToUniqueRef = Map.empty, nextUniqueRef = 1,
     firstRefOfCurrentGeneration = 0, uniqueRefTimestamps = [], cleanupStarted = False\<rparr>"

text \<open>The label sets are given by their hash; a nil result is \<open>None\<close>.\<close>

definition GetMapping :: "SeriesRef \<Rightarrow> 64 word \<Rightarrow> SeriesRefMappingStore \<Rightarrow> SeriesRef list option" where
  "GetMapping uniqueRef lh s =
     (case (if uniqueRef = 0 then labelHashToUniqueRef s lh else Some uniqueRef) of
        None \<Rightarrow> None
      | Some r \<Rightarrow>
          if r < firstRefOfCurrentGeneration s then None
          else case uniqueRefToChildRefs s r of
              None \<Rightarrow> None
            | Some mapping \<Rightarrow> if labelHash mapping \<noteq> lh then None else Some (childRefsOf mapping))"

definition CreateMapping :: "SeriesRef list \<Rightarrow> 64 word \<Rightarrow> SeriesRefMappingStore \<Rightarrow> SeriesRef \<times> SeriesRefMappingStore" where
  "CreateMapping refResults lh s =
     (let uniqueRef = nextUniqueRef s in
      (uniqueRef, s\<lparr>cleanupStarted := True, nextUniqueRef := uniqueRef + 1,
         labelHashToUniqueRef := (labelHashToUniqueRef s)(lh \<mapsto> uniqueRef),
         uniqueRefToChildRefs := (uniqueRefToChildRefs s)(uniqueRef \<mapsto> \<lparr>childRefsOf = refResults, labelHash = lh\<rparr>)\<rparr>))"

definition UpdateMapping :: "SeriesRef \<Rightarrow> SeriesRef list \<Rightarrow> 64 word \<Rightarrow> SeriesRefMappingStore \<Rightarrow> SeriesRefMappingStore" where
  "UpdateMapping uniqueRef refResults newHash s =
     (if uniqueRef = 0 then s
      else
        let s1 = (case uniqueRefToChildRefs s uniqueRef of
                    Some prev \<Rightarrow> if labelHash prev \<noteq> newHash
                      then s\<lparr>labelHashToUniqueRef := (labelHashToUniqueRef s)(labelHash prev := None, newHash \<mapsto> uniqueRef)\<rparr>
                      else s
                  | None \<Rightarrow> s)
        in s1\<lparr>uniqueRefToChildRefs := (uniqueRefToChildRefs s1)(uniqueRef \<mapsto> \<lparr>childRefsOf = refResults, labelHash = newHash\<rparr>)\<rparr>)"

text \<open>A cell is the slice of references it holds; it goes back to the pool empty.\<close>

definition TrackAppendedSeries :: "int \<Rightarrow> SeriesRef list \<Rightarrow> SeriesRefMappingStore \<Rightarrow> SeriesRefMappingStore" where
  "TrackAppendedSeries ts cell s =
     s\<lparr>uniqueRefTimestamps := foldl (\<lambda>m r. map_put r ts m) (uniqueRefTimestamps s) cell\<rparr>"

definition GetCellForAppendedSeries :: "SeriesRef list" where
  "GetCellForAppendedSeries = []"

definition cleanup_ref :: "int \<Rightarrow> SeriesRef \<times> int \<Rightarrow> SeriesRefMappingStore \<Rightarrow> SeriesRefMappingStore" where
  "cleanup_ref cutoffTime e s =
     (case e of (ref, ts) \<Rightarrow>
       if ts < cutoffTime then
         let s1 = (case uniqueRefToChildRefs s ref of
                     Some v \<Rightarrow> s\<lparr>labelHashToUniqueRef := (labelHashToUniqueRef s)(labelHash v := None)\<rparr>
                   | None \<Rightarrow> s)
         in s1\<lparr>uniqueRefTimestamps := map_del ref (uniqueRefTimestamps s1),
               uniqueRefToChildRefs := (uniqueRefToChildRefs s1)(ref := None)\<rparr>
       else s)"

text \<open>One tick of the cleanup goroutine, at a time in seconds.\<close>

definition cleanupStaleRefs :: "int \<Rightarrow> SeriesRefMappingStore \<Rightarrow> SeriesRefMappingStore" where
  "cleanupStaleRefs now s = fold (cleanup_ref (now - 15 * 60)) (uniqueRefTimestamps s) s"

definition Clear :: "SeriesRefMappingStore \<Rightarrow> SeriesRef \<times> SeriesRefMappingStore" where
  "Clear s =
     (nextUniqueRef s, s\<lparr>uniqueRefToChildRefs := Map.empty, uniqueRefTimestamps := [], labelHashToUniqueRef := Map.empty,
        firstRefOfCurrentGeneration := nextUniqueRef s, cleanupStarted := False\<rparr>)"

section \<open>The fan-out appender\<close>

text \<open>
  What is appended, by the method of the appender interface that appends it. A child answers with a
  reference and possibly an error, and has a state of its own.
\<close>

datatype ('f, 'x, 'h, 'm) entry = Sample int 'f | ExemplarEntry 'x | HistogramEntry int 'h
  | HistogramSTZeroSample int int 'h | MetadataEntry 'm | STZeroSample int int

record ('l, 'f, 'x, 'h, 'm, 'e, 'c) Appender =
  call :: "('f, 'x, 'h, 'm) entry \<Rightarrow> 'l \<Rightarrow> SeriesRef \<Rightarrow> 'c \<Rightarrow> (SeriesRef \<times> 'e option) \<times> 'c"
  child_Commit :: "'c \<Rightarrow> 'e option \<times> 'c"
  child_Rollback :: "'c \<Rightarrow> 'e option \<times> 'c"

record 'c seriesRefMapping =
  start :: "int option"
  children :: "'c list"
  store :: SeriesRefMappingStore
  uniqueRefCell :: "SeriesRef list"

definition NewSeriesRefMapping :: "'c list \<Rightarrow> SeriesRefMappingStore \<Rightarrow> 'c seriesRefMapping" where
  "NewSeriesRefMapping cs st = \<lparr>start = None, children = cs, store = st, uniqueRefCell = GetCellForAppendedSeries\<rparr>"

text \<open>Calling every child with its reference; the errors are collected in order.\<close>

fun call_children :: "(SeriesRef \<Rightarrow> 'c \<Rightarrow> (SeriesRef \<times> 'e option) \<times> 'c) \<Rightarrow> SeriesRef list \<Rightarrow> 'c list \<Rightarrow>
    (SeriesRef list \<times> 'e list) \<times> 'c list" where
  "call_children af (r # rs) (c # cs) =
     (case af r c of ((newRef, err), c') \<Rightarrow>
      case call_children af rs cs of ((refs, errs), cs') \<Rightarrow>
        ((newRef # refs, (case err of None \<Rightarrow> errs | Some e \<Rightarrow> e # errs)), c' # cs'))"
| "call_children af _ _ = (([], []), [])"

definition appendToChildren ::
  "('l \<Rightarrow> 64 word) \<Rightarrow> int \<Rightarrow> SeriesRef \<Rightarrow> 'l \<Rightarrow> (SeriesRef \<Rightarrow> 'c \<Rightarrow> (SeriesRef \<times> 'e option) \<times> 'c) \<Rightarrow>
    'c seriesRefMapping \<Rightarrow> (SeriesRef \<times> 'e list) \<times> 'c seriesRefMapping" where
  "appendToChildren hash now ref lbls af s0 =
     (let s = s0\<lparr>start := (case start s0 of None \<Rightarrow> Some now | Some t \<Rightarrow> Some t)\<rparr>;
          existing = GetMapping ref (hash lbls) (store s);
          valid = (case existing of None \<Rightarrow> False | Some rs \<Rightarrow> length rs = length (children s))
      in if valid then
           let s1 = s\<lparr>uniqueRefCell := uniqueRefCell s @ [ref]\<rparr>;
               ((newRefs, errs), cs) = call_children af (the existing) (children s1);
               s2 = s1\<lparr>children := cs\<rparr>
           in if errs \<noteq> [] then ((0, errs), s2)
              else if newRefs \<noteq> the existing then ((ref, []), s2\<lparr>store := UpdateMapping ref newRefs (hash lbls) (store s2)\<rparr>)
              else ((ref, []), s2)
         else
           let ((newRefs, errs), cs) = call_children af (replicate (length (children s)) 0) (children s);
               s2 = s\<lparr>children := cs\<rparr>
           in if errs \<noteq> [] then ((0, errs), s2)
              else if \<forall>r \<in> set newRefs. r = 0 then ((ref, []), s2)
              else case CreateMapping newRefs (hash lbls) (store s2) of
                (uniqueRef, st) \<Rightarrow> ((uniqueRef, []), s2\<lparr>store := st, uniqueRefCell := uniqueRefCell s2 @ [uniqueRef]\<rparr>))"

definition Append where
  "Append A hash now ref l t v s = appendToChildren hash now ref l (\<lambda>r. call A (Sample t v) l r) s"

definition AppendExemplar where
  "AppendExemplar A hash now ref l e s = appendToChildren hash now ref l (\<lambda>r. call A (ExemplarEntry e) l r) s"

definition AppendHistogram where
  "AppendHistogram A hash now ref l t h s = appendToChildren hash now ref l (\<lambda>r. call A (HistogramEntry t h) l r) s"

definition AppendHistogramSTZeroSample where
  "AppendHistogramSTZeroSample A hash now ref l t st h s =
     appendToChildren hash now ref l (\<lambda>r. call A (HistogramSTZeroSample t st h) l r) s"

definition UpdateMetadata where
  "UpdateMetadata A hash now ref l m s = appendToChildren hash now ref l (\<lambda>r. call A (MetadataEntry m) l r) s"

definition AppendSTZeroSample where
  "AppendSTZeroSample A hash now ref l t st s = appendToChildren hash now ref l (\<lambda>r. call A (STZeroSample t st) l r) s"

fun finish_children :: "('c \<Rightarrow> 'e option \<times> 'c) \<Rightarrow> 'c list \<Rightarrow> 'e list \<times> 'c list" where
  "finish_children f [] = ([], [])"
| "finish_children f (c # cs) =
     (case f c of (err, c') \<Rightarrow> case finish_children f cs of (errs, cs') \<Rightarrow>
        ((case err of None \<Rightarrow> errs | Some e \<Rightarrow> e # errs), c' # cs'))"

text \<open>Commit and rollback hand the cell to the store and then finish every child.\<close>

definition Commit :: "('l, 'f, 'x, 'h, 'm, 'e, 'c) Appender \<Rightarrow> int \<Rightarrow> 'c seriesRefMapping \<Rightarrow> 'e list \<times> 'c seriesRefMapping" where
  "Commit A now s =
     (case finish_children (child_Commit A) (children s) of (errs, cs) \<Rightarrow>
        (errs, s\<lparr>store := TrackAppendedSeries now (uniqueRefCell s) (store s), uniqueRefCell := [], children := cs\<rparr>))"

definition Rollback :: "('l, 'f, 'x, 'h, 'm, 'e, 'c) Appender \<Rightarrow> int \<Rightarrow> 'c seriesRefMapping \<Rightarrow> 'e list \<times> 'c seriesRefMapping" where
  "Rollback A now s =
     (case finish_children (child_Rollback A) (children s) of (errs, cs) \<Rightarrow>
        (errs, s\<lparr>store := TrackAppendedSeries now (uniqueRefCell s) (store s), uniqueRefCell := [], children := cs\<rparr>))"

section \<open>Histories of the store\<close>

datatype store_event = EvCreate "SeriesRef list" "64 word" | EvUpdate SeriesRef "SeriesRef list" "64 word"
  | EvTrack int "SeriesRef list" | EvTick int | EvClear

text \<open>An event gives the new store and, if it writes a mapping, what it writes under which reference.\<close>

fun event_step :: "store_event \<Rightarrow> SeriesRefMappingStore \<Rightarrow> (SeriesRef \<times> SeriesRef list \<times> 64 word) option \<times> SeriesRefMappingStore" where
  "event_step (EvCreate rs h) s = (case CreateMapping rs h s of (u, s') \<Rightarrow> (Some (u, rs, h), s'))"
| "event_step (EvUpdate u rs h) s = (if u = 0 then None else Some (u, rs, h), UpdateMapping u rs h s)"
| "event_step (EvTrack ts cell) s = (None, TrackAppendedSeries ts cell s)"
| "event_step (EvTick now) s = (None, cleanupStaleRefs now s)"
| "event_step EvClear s = (None, snd (Clear s))"

definition run_events :: "store_event list \<Rightarrow> SeriesRefMappingStore \<Rightarrow> SeriesRefMappingStore" where
  "run_events es s = fold (\<lambda>e s. snd (event_step e s)) es s"

text \<open>The last mapping written under each reference.\<close>

fun last_write :: "store_event list \<Rightarrow> SeriesRefMappingStore \<Rightarrow> (SeriesRef \<rightharpoonup> SeriesRef list \<times> 64 word) \<Rightarrow>
    SeriesRef \<rightharpoonup> SeriesRef list \<times> 64 word" where
  "last_write [] s w = w"
| "last_write (e # es) s w =
     last_write es (snd (event_step e s)) (case fst (event_step e s) of None \<Rightarrow> w | Some (u, x) \<Rightarrow> w(u \<mapsto> x))"

text \<open>The references that creating a mapping hands out, in order.\<close>

fun issued_refs :: "store_event list \<Rightarrow> SeriesRefMappingStore \<Rightarrow> SeriesRef list" where
  "issued_refs [] s = []"
| "issued_refs (e # es) s =
     (case e of EvCreate rs h \<Rightarrow> [nextUniqueRef s] | _ \<Rightarrow> []) @ issued_refs es (snd (event_step e s))"

lemma cleanup_ref_frame:
  "nextUniqueRef (cleanup_ref c e s) = nextUniqueRef s"
  "firstRefOfCurrentGeneration (cleanup_ref c e s) = firstRefOfCurrentGeneration s"
  "uniqueRefToChildRefs (cleanup_ref c e s) r = Some m \<Longrightarrow> uniqueRefToChildRefs s r = Some m"
  by (auto simp: cleanup_ref_def Let_def split: prod.splits option.splits if_splits)

lemma cleanup_frame:
  "nextUniqueRef (fold (cleanup_ref c) es s) = nextUniqueRef s"
  "firstRefOfCurrentGeneration (fold (cleanup_ref c) es s) = firstRefOfCurrentGeneration s"
  "uniqueRefToChildRefs (fold (cleanup_ref c) es s) r = Some m \<Longrightarrow> uniqueRefToChildRefs s r = Some m"
  by (induction es arbitrary: s) (auto simp: cleanup_ref_frame(1,2) dest: cleanup_ref_frame(3))

lemma UpdateMapping_frame:
  "nextUniqueRef (UpdateMapping u rs h s) = nextUniqueRef s"
  "firstRefOfCurrentGeneration (UpdateMapping u rs h s) = firstRefOfCurrentGeneration s"
  by (simp_all add: UpdateMapping_def Let_def split: option.split)

lemma event_frame:
  "nextUniqueRef (snd (event_step e s)) = (case e of EvCreate rs h \<Rightarrow> nextUniqueRef s + 1 | _ \<Rightarrow> nextUniqueRef s)"
  "firstRefOfCurrentGeneration (snd (event_step e s)) =
    (case e of EvClear \<Rightarrow> nextUniqueRef s | _ \<Rightarrow> firstRefOfCurrentGeneration s)"
  by (cases e; simp add: CreateMapping_def Let_def UpdateMapping_frame TrackAppendedSeries_def cleanupStaleRefs_def
      cleanup_frame(1,2) Clear_def)+

lemma event_writes:
  assumes "uniqueRefToChildRefs (snd (event_step e s)) r = Some m"
  shows "(case fst (event_step e s) of Some (u, x) \<Rightarrow> u = r \<and> x = (childRefsOf m, labelHash m) \<or> u \<noteq> r \<and> uniqueRefToChildRefs s r = Some m
    | None \<Rightarrow> uniqueRefToChildRefs s r = Some m)"
  using assms
  by (cases e) (auto simp: CreateMapping_def Let_def UpdateMapping_def TrackAppendedSeries_def cleanupStaleRefs_def
      Clear_def dest: cleanup_frame(3) split: option.splits if_splits)

definition written :: "(SeriesRef \<rightharpoonup> SeriesRef list \<times> 64 word) \<Rightarrow> SeriesRefMappingStore \<Rightarrow> bool" where
  "written w s \<longleftrightarrow> (\<forall>r m. uniqueRefToChildRefs s r = Some m \<longrightarrow> w r = Some (childRefsOf m, labelHash m))"

lemma run_events_written: "written w s \<Longrightarrow> written (last_write es s w) (run_events es s)"
proof (induction es arbitrary: s w)
  case (Cons e es)
  have "written (case fst (event_step e s) of None \<Rightarrow> w | Some (u, x) \<Rightarrow> w(u \<mapsto> x)) (snd (event_step e s))"
    unfolding written_def
  proof (intro allI impI)
    fix r m assume "uniqueRefToChildRefs (snd (event_step e s)) r = Some m"
    from event_writes [OF this] Cons.prems
    show "(case fst (event_step e s) of None \<Rightarrow> w | Some (u, x) \<Rightarrow> w(u \<mapsto> x)) r = Some (childRefsOf m, labelHash m)"
      by (auto simp: written_def split: option.splits)
  qed
  from Cons.IH [OF this] show ?case by (simp add: run_events_def)
qed (simp add: run_events_def)

text \<open>The counter moves forward and the generation boundary stays between its start and the counter.\<close>

lemma run_events_counter:
  "unat (nextUniqueRef s) + length es < 2 ^ 64 \<Longrightarrow> b \<le> firstRefOfCurrentGeneration s \<Longrightarrow> b \<le> nextUniqueRef s \<Longrightarrow>
    b \<le> firstRefOfCurrentGeneration (run_events es s) \<and> nextUniqueRef s \<le> nextUniqueRef (run_events es s) \<and>
    sorted_wrt (<) (issued_refs es s) \<and> (\<forall>r \<in> set (issued_refs es s). nextUniqueRef s \<le> r)"
proof (induction es arbitrary: s)
  case (Cons e es)
  let ?s = "snd (event_step e s)"
  show ?case
  proof (cases "\<exists>rs h. e = EvCreate rs h")
    case True
    then have next': "nextUniqueRef ?s = nextUniqueRef s + 1" "firstRefOfCurrentGeneration ?s = firstRefOfCurrentGeneration s"
      and issue: "issued_refs (e # es) s = nextUniqueRef s # issued_refs es ?s" by (auto simp: event_frame)
    have un: "unat (nextUniqueRef s + 1) = unat (nextUniqueRef s) + 1" using Cons.prems(1) by (simp add: unat_word_ariths)
    then have less: "nextUniqueRef s < nextUniqueRef s + 1" by (simp add: word_less_nat_alt)
    have "unat (nextUniqueRef ?s) + length es < 2 ^ 64" using Cons.prems(1) un next'(1) by simp
    from Cons.IH [OF this] Cons.prems(2,3) less next' have
      IH: "b \<le> firstRefOfCurrentGeneration (run_events es ?s)" "nextUniqueRef s + 1 \<le> nextUniqueRef (run_events es ?s)"
        "sorted_wrt (<) (issued_refs es ?s)" "\<forall>r \<in> set (issued_refs es ?s). nextUniqueRef s + 1 \<le> r" by auto
    have "\<forall>r \<in> set (issued_refs es ?s). nextUniqueRef s < r" using IH(4) less by (meson less_le_trans)
    moreover have "nextUniqueRef s \<le> nextUniqueRef (run_events es ?s)" using IH(2) less by simp
    ultimately show ?thesis unfolding issue using IH(1,3) by (simp add: run_events_def less_imp_le)
  next
    case False
    then have "nextUniqueRef ?s = nextUniqueRef s" unfolding event_frame(1) by (auto split: store_event.split)
    moreover have "b \<le> firstRefOfCurrentGeneration ?s"
      unfolding event_frame(2) using Cons.prems(2,3) by (simp split: store_event.split)
    moreover have "issued_refs (e # es) s = issued_refs es ?s"
      unfolding issued_refs.simps using False by (auto split: store_event.split)
    moreover have "run_events (e # es) s = run_events es ?s" by (simp add: run_events_def)
    ultimately show ?thesis using Cons.IH [of ?s] Cons.prems by auto
  qed
qed (simp add: run_events_def)

text \<open>
  C37: references of an earlier generation never resolve. After the store is cleared, whatever events
  follow, a reference below the boundary that clearing returned has no mapping; the references handed
  out from then on are at least the boundary and strictly increase, so none is handed out twice.
\<close>

theorem stale_generation_never_resolves:
  assumes "Clear s = (boundary, s0)" and "unat (nextUniqueRef s) + length es < 2 ^ 64"
  shows "(\<forall>r lh. r \<noteq> 0 \<longrightarrow> r < boundary \<longrightarrow> GetMapping r lh (run_events es s0) = None) \<and>
    sorted_wrt (<) (issued_refs es s0) \<and> (\<forall>r \<in> set (issued_refs es s0). boundary \<le> r)"
proof -
  have s0: "nextUniqueRef s0 = boundary" "firstRefOfCurrentGeneration s0 = boundary" "nextUniqueRef s = boundary"
    using assms(1) by (auto simp: Clear_def)
  from run_events_counter [of s0 es boundary] assms(2) s0
  have c: "boundary \<le> firstRefOfCurrentGeneration (run_events es s0)" "sorted_wrt (<) (issued_refs es s0)"
    "\<forall>r \<in> set (issued_refs es s0). boundary \<le> r" by auto
  have "GetMapping r lh (run_events es s0) = None" if "r \<noteq> 0" "r < boundary" for r lh
    using that less_le_trans [OF that(2) c(1)] by (simp add: GetMapping_def)
  with c show ?thesis by blast
qed

text \<open>
  A mapping is only used for the series it was written for. In every history of the store, what a
  lookup returns is the last mapping written under that reference (or, for reference zero, under some
  reference), and it was written for the same label hash.
\<close>

theorem GetMapping_same_series:
  assumes "GetMapping r lh (run_events es NewSeriesRefMappingStore) = Some refs"
  shows "\<exists>u. (r \<noteq> 0 \<longrightarrow> u = r) \<and> last_write es NewSeriesRefMappingStore Map.empty u = Some (refs, lh)"
proof -
  let ?s = "run_events es NewSeriesRefMappingStore"
  have w: "written (last_write es NewSeriesRefMappingStore Map.empty) ?s"
    by (rule run_events_written) (simp add: written_def NewSeriesRefMappingStore_def)
  from assms obtain u m where u: "r \<noteq> 0 \<longrightarrow> u = r" "uniqueRefToChildRefs ?s u = Some m" "labelHash m = lh" "childRefsOf m = refs"
    by (auto simp: GetMapping_def split: option.splits if_splits)
  with w show ?thesis unfolding written_def by blast
qed

section \<open>Appending\<close>

text \<open>The loop over the children, by what each of them answers to its own reference.\<close>

lemma call_children_answers:
  "call_children af rs cs =
    ((map (fst \<circ> fst) (map2 af rs cs), [e. ((_, Some e), _) \<leftarrow> map2 af rs cs]), map snd (map2 af rs cs))"
  by (induction af rs cs rule: call_children.induct) (auto split: prod.splits option.splits)

lemma GetMapping_Create:
  assumes "CreateMapping rs h s = (u, s')" "nextUniqueRef s \<noteq> 0" "firstRefOfCurrentGeneration s \<le> nextUniqueRef s"
  shows "GetMapping u h s' = Some rs" "GetMapping 0 h s' = Some rs"
  using assms by (auto simp: CreateMapping_def GetMapping_def Let_def not_less)

lemma GetMapping_Update:
  assumes "u \<noteq> 0" "firstRefOfCurrentGeneration s \<le> u"
  shows "GetMapping u h (UpdateMapping u rs h s) = Some rs"
  using assms by (auto simp: UpdateMapping_def GetMapping_def Let_def not_less split: option.splits)

text \<open>The references that an append passes to the children.\<close>

definition passed_refs :: "SeriesRef \<Rightarrow> 64 word \<Rightarrow> 'c seriesRefMapping \<Rightarrow> SeriesRef list option" where
  "passed_refs ref lh s = (case GetMapping ref lh (store s) of
     Some rs \<Rightarrow> if length rs = length (children s) then Some rs else None | None \<Rightarrow> None)"

text \<open>
  C36: appending to all children. Child \<open>i\<close> is called once, with the \<open>i\<close>-th reference of the mapping that the
  store has for this reference, label hash and number of children, and with zero if it has none; the errors are
  those of the children, in order. If a child fails, the result is zero and the store is
  unchanged. Otherwise, with a mapping, the result is the given reference, and it maps to the references that the
  children returned from then on, except that for the reference zero the store is unchanged; without a
  mapping, if some child returned a nonzero reference, the result is a new reference that maps to them, also by
  labels alone, and if none did, the result is the given reference and the store is unchanged. The cell
  records the given reference when there was a mapping and the new reference when one was created. The
  counter of the store has not wrapped to zero and is not below the current generation.
\<close>

theorem appendToChildren_correct:
  assumes "appendToChildren hash now ref l af s = ((out, errs), s')"
    and "nextUniqueRef (store s) \<noteq> 0" and "firstRefOfCurrentGeneration (store s) \<le> nextUniqueRef (store s)"
    and "rs = (case passed_refs ref (hash l) s of None \<Rightarrow> replicate (length (children s)) 0 | Some rs \<Rightarrow> rs)"
    and "answers = map2 af rs (children s)" and "newRefs = map (fst \<circ> fst) answers"
  shows "length answers = length (children s) \<and> children s' = map snd answers \<and> errs = [e. ((_, Some e), _) \<leftarrow> answers] \<and>
    (if errs \<noteq> [] then out = 0 \<and> store s' = store s
     else if passed_refs ref (hash l) s \<noteq> None then
       out = ref \<and> (if ref = 0 then store s' = store s else GetMapping out (hash l) (store s') = Some newRefs)
     else if \<exists>r \<in> set newRefs. r \<noteq> 0 then
       out = nextUniqueRef (store s) \<and> GetMapping out (hash l) (store s') = Some newRefs \<and>
       GetMapping 0 (hash l) (store s') = Some newRefs
     else out = ref \<and> store s' = store s) \<and>
    uniqueRefCell s' = uniqueRefCell s @
      (if passed_refs ref (hash l) s \<noteq> None then [ref]
       else if errs = [] \<and> (\<exists>r \<in> set newRefs. r \<noteq> 0) then [out] else [])"
proof -
  define t where "t = s\<lparr>start := (case start s of None \<Rightarrow> Some now | Some t \<Rightarrow> Some t)\<rparr>"
  have t: "store t = store s" "children t = children s" "uniqueRefCell t = uniqueRefCell s" by (simp_all add: t_def)
  define failures where "failures = [e. ((_, Some e), _) \<leftarrow> answers]"
  have calls: "call_children af rs (children s) = ((newRefs, failures), map snd answers)"
    unfolding call_children_answers assms(5,6) failures_def ..
  show ?thesis
  proof (cases "passed_refs ref (hash l) s")
    case None
    have invalid: "\<not> (case GetMapping ref (hash l) (store t) of None \<Rightarrow> False | Some rs \<Rightarrow> length rs = length (children t))"
      using None t by (auto simp: passed_refs_def split: option.splits if_splits)
    have rs: "rs = replicate (length (children t)) 0" using assms(4) None t by simp
    obtain u st where c: "CreateMapping newRefs (hash l) (store s) = (u, st)" by fastforce
    have u: "u = nextUniqueRef (store s)" using c by (simp add: CreateMapping_def Let_def)
    have "length answers = length (children s)" using rs t assms(5) by simp
    with assms(1) invalid calls show ?thesis
      unfolding appendToChildren_def t_def [symmetric] Let_def rs t failures_def [symmetric]
      using None c u GetMapping_Create [OF c assms(2,3)] by (auto simp: t split: if_splits)
  next
    case (Some ex)
    have ex: "GetMapping ref (hash l) (store t) = Some ex" "length ex = length (children t)" "rs = ex"
      using Some assms(4) t by (auto simp: passed_refs_def split: option.splits if_splits)
    have first: "ref \<noteq> 0 \<Longrightarrow> firstRefOfCurrentGeneration (store s) \<le> ref"
      using ex(1) t by (auto simp: GetMapping_def not_less split: if_splits)
    have zero: "UpdateMapping 0 rs' h st = st" for rs' h st by (simp add: UpdateMapping_def)
    have "length answers = length (children s)" using ex t assms(5) by simp
    with assms(1) calls show ?thesis
      unfolding appendToChildren_def t_def [symmetric] Let_def ex failures_def [symmetric]
      using Some ex t zero GetMapping_Update [OF _ first] by (auto simp: t split: if_splits)
  qed
qed

text \<open>
  An append by labels alone tracks the reference zero, not the reference of the mapping it used, so
  the mapping's last use is not refreshed.
\<close>

lemma zero_ref_tracked:
  assumes "passed_refs 0 (hash l) s \<noteq> None" "appendToChildren hash now 0 l af s = (r, s')"
  shows "uniqueRefCell s' = uniqueRefCell s @ [0]"
proof -
  obtain ex where ex: "GetMapping 0 (hash l) (store s) = Some ex" "length ex = length (children s)"
    using assms(1) by (auto simp: passed_refs_def split: option.splits if_splits)
  obtain ns es cs where "call_children af ex (children s) = ((ns, es), cs)" by (metis surj_pair)
  with assms(2) ex show ?thesis by (auto simp: appendToChildren_def Let_def split: if_splits)
qed

section \<open>Witnesses\<close>

text \<open>A child that hands out its state as the reference of an unknown series.\<close>

definition sample_child :: "SeriesRef \<Rightarrow> SeriesRef \<Rightarrow> (SeriesRef \<times> unit option) \<times> SeriesRef" where
  "sample_child r c = ((if r = 0 then c else r, None), c)"

definition sample_appender :: "SeriesRef seriesRefMapping" where
  "sample_appender = NewSeriesRefMapping [7, 8] NewSeriesRefMappingStore"

theorem stale_generation_never_resolves_witness:
  "GetMapping 1 5 (run_events [EvCreate [7] 5] (snd (Clear (snd (CreateMapping [6] 5 NewSeriesRefMappingStore))))) = None"
proof -
  let ?s = "snd (CreateMapping [6] 5 NewSeriesRefMappingStore)"
  have "Clear ?s = (2, snd (Clear ?s))" "unat (nextUniqueRef ?s) + length [EvCreate [7] 5] < 2 ^ 64"
    by (simp_all add: Clear_def CreateMapping_def NewSeriesRefMappingStore_def Let_def)
  from stale_generation_never_resolves [OF this] show ?thesis by simp
qed

theorem GetMapping_same_series_witness:
  "\<exists>u. ((1 :: SeriesRef) \<noteq> 0 \<longrightarrow> u = 1) \<and> last_write [EvCreate [7] 5] NewSeriesRefMappingStore Map.empty u = Some ([7], 5)"
  by (rule GetMapping_same_series)
    (simp add: GetMapping_def run_events_def CreateMapping_def NewSeriesRefMappingStore_def Let_def)

theorem appendToChildren_correct_witness:
  "GetMapping 1 5 (store (snd (appendToChildren (\<lambda>l. l) 0 0 5 sample_child sample_appender))) = Some [7, 8]"
proof -
  obtain out errs s' where r: "appendToChildren (\<lambda>l. l) 0 0 5 sample_child sample_appender = ((out, errs), s')" by (metis surj_pair)
  have "passed_refs 0 5 sample_appender = None"
    by (simp add: passed_refs_def sample_appender_def NewSeriesRefMapping_def NewSeriesRefMappingStore_def GetMapping_def)
  moreover have "map2 sample_child (replicate (length (children sample_appender)) 0) (children sample_appender) =
      [((7, None), 7), ((8, None), 8)]"
    by (simp add: sample_appender_def NewSeriesRefMapping_def sample_child_def)
  moreover have "nextUniqueRef (store sample_appender) = 1" "firstRefOfCurrentGeneration (store sample_appender) = 0"
    by (simp_all add: sample_appender_def NewSeriesRefMapping_def NewSeriesRefMappingStore_def)
  ultimately show ?thesis
    using appendToChildren_correct [OF r _ _ refl refl refl] r by auto
qed

end
