(* ===== verification/Syntax_Ast.thy ===== *)
theory Syntax_Ast
  imports Token Token_File
begin

text \<open>
  The syntax tree of the configuration language, \<^verbatim>\<open>syntax/ast/ast.go\<close>: identifiers,
  expressions, statements and files with the positions that the parser records, the first and
  the last position of every kind of node, the secret mark of expressions, and block names.

  A Go expression is an interface value and may be nil, which the parser leaves behind where it
  reported an error: \<open>NilExpr\<close>. Pointers to tree nodes are never compared, so a pointer is the
  tree it points to.
\<close>

section \<open>Tree nodes\<close>

datatype Ident = Ident (Ident_Name: string) (Ident_NamePos: Pos)

datatype Expr =
  NilExpr
| IdentifierExpr Ident bool
| LiteralExpr Token Pos string bool
| ArrayExpr "Expr list" Pos Pos bool
| ObjectExpr "ObjectField list" Pos Pos bool
| AccessExpr Expr Ident bool
| IndexExpr Expr Expr Pos Pos bool
| CallExpr Expr "Expr list" Pos Pos bool
| UnaryExpr Token Pos Expr bool
| BinaryExpr Token Pos Expr Expr bool
| ParenExpr Expr Pos Pos bool
and ObjectField = ObjectField Ident bool Expr

datatype Stmt =
  AttributeStmt Ident Expr
| Block BlockStmt
and BlockStmt = BlockStmt (Name: "string list") (NamePos: Pos) (Label: string) (LabelPos: Pos)
    (Body: "Stmt list") (LCurlyPos: Pos) (RCurlyPos: Pos)

type_synonym body = "Stmt list"

record Comment =
  Comment_StartPos :: Pos
  Text :: string

type_synonym CommentGroup = "Comment list"

record ast_File =
  File_name :: string
  File_Body :: body
  Comments :: "CommentGroup list"

text \<open>The \<open>Node\<close> interface with the types that implement it; \<open>None\<close> is a nil interface.\<close>

datatype Node =
  FileNode ast_File
| BodyNode body
| CommentGroupNode CommentGroup
| CommentNode Comment
| StmtNode Stmt
| IdentNode Ident
| ExprNode Expr

section \<open>Secret marks\<close>

fun IsSecret :: "Expr \<Rightarrow> bool" where
  "IsSecret NilExpr = False"
| "IsSecret (IdentifierExpr i s) = s"
| "IsSecret (LiteralExpr k p v s) = s"
| "IsSecret (ArrayExpr es l r s) = s"
| "IsSecret (ObjectExpr fs l r s) = s"
| "IsSecret (AccessExpr v n s) = s"
| "IsSecret (IndexExpr v i l r s) = s"
| "IsSecret (CallExpr v as l r s) = s"
| "IsSecret (UnaryExpr k p v s) = s"
| "IsSecret (BinaryExpr k p a b s) = s"
| "IsSecret (ParenExpr e l r s) = s"

fun SetSecret :: "bool \<Rightarrow> Expr \<Rightarrow> Expr" where
  "SetSecret s NilExpr = NilExpr"
| "SetSecret s (IdentifierExpr i _) = IdentifierExpr i s"
| "SetSecret s (LiteralExpr k p v _) = LiteralExpr k p v s"
| "SetSecret s (ArrayExpr es l r _) = ArrayExpr es l r s"
| "SetSecret s (ObjectExpr fs l r _) = ObjectExpr fs l r s"
| "SetSecret s (AccessExpr v n _) = AccessExpr v n s"
| "SetSecret s (IndexExpr v i l r _) = IndexExpr v i l r s"
| "SetSecret s (CallExpr v as l r _) = CallExpr v as l r s"
| "SetSecret s (UnaryExpr k p v _) = UnaryExpr k p v s"
| "SetSecret s (BinaryExpr k p a b _) = BinaryExpr k p a b s"
| "SetSecret s (ParenExpr e l r _) = ParenExpr e l r s"

section \<open>Positions\<close>

definition Ident_StartPos :: "Ident \<Rightarrow> Pos" where
  "Ident_StartPos i = Ident_NamePos i"

definition Ident_EndPos :: "Ident \<Rightarrow> Pos" where
  "Ident_EndPos i = Pos_Add (Ident_NamePos i) (int (length (Ident_Name i)) - 1)"

fun Expr_StartPos :: "Expr \<Rightarrow> Pos" where
  "Expr_StartPos NilExpr = NoPos"
| "Expr_StartPos (IdentifierExpr i s) = Ident_StartPos i"
| "Expr_StartPos (LiteralExpr k p v s) = p"
| "Expr_StartPos (ArrayExpr es l r s) = l"
| "Expr_StartPos (ObjectExpr fs l r s) = l"
| "Expr_StartPos (AccessExpr v n s) = Expr_StartPos v"
| "Expr_StartPos (IndexExpr v i l r s) = Expr_StartPos v"
| "Expr_StartPos (CallExpr v as l r s) = Expr_StartPos v"
| "Expr_StartPos (UnaryExpr k p v s) = p"
| "Expr_StartPos (BinaryExpr k p a b s) = Expr_StartPos a"
| "Expr_StartPos (ParenExpr e l r s) = l"

fun Expr_EndPos :: "Expr \<Rightarrow> Pos" where
  "Expr_EndPos NilExpr = NoPos"
| "Expr_EndPos (IdentifierExpr i s) = Ident_EndPos i"
| "Expr_EndPos (LiteralExpr k p v s) = Pos_Add p (int (length v) - 1)"
| "Expr_EndPos (ArrayExpr es l r s) = r"
| "Expr_EndPos (ObjectExpr fs l r s) = r"
| "Expr_EndPos (AccessExpr v n s) = Ident_EndPos n"
| "Expr_EndPos (IndexExpr v i l r s) = r"
| "Expr_EndPos (CallExpr v as l r s) = r"
| "Expr_EndPos (UnaryExpr k p v s) = Expr_EndPos v"
| "Expr_EndPos (BinaryExpr k p a b s) = Expr_EndPos b"
| "Expr_EndPos (ParenExpr e l r s) = r"

fun Stmt_StartPos :: "Stmt \<Rightarrow> Pos" where
  "Stmt_StartPos (AttributeStmt n v) = Ident_StartPos n"
| "Stmt_StartPos (Block b) = NamePos b"

fun Stmt_EndPos :: "Stmt \<Rightarrow> Pos" where
  "Stmt_EndPos (AttributeStmt n v) = Expr_EndPos v"
| "Stmt_EndPos (Block b) = RCurlyPos b"

definition Body_StartPos :: "body \<Rightarrow> Pos" where
  "Body_StartPos b = (case b of [] \<Rightarrow> NoPos | s # _ \<Rightarrow> Stmt_StartPos s)"

definition Body_EndPos :: "body \<Rightarrow> Pos" where
  "Body_EndPos b = (if b = [] then NoPos else Stmt_EndPos (last b))"

definition Comment_EndPos :: "Comment \<Rightarrow> Pos" where
  "Comment_EndPos c = Pos_Add (Comment_StartPos c) (int (length (Text c)) - 1)"

fun StartPos :: "Node option \<Rightarrow> Pos" where
  "StartPos None = NoPos"
| "StartPos (Some (FileNode f)) = Body_StartPos (File_Body f)"
| "StartPos (Some (BodyNode b)) = Body_StartPos b"
| "StartPos (Some (CommentGroupNode [])) = NoPos"
| "StartPos (Some (CommentGroupNode (c # cs))) = Comment_StartPos c"
| "StartPos (Some (CommentNode c)) = Comment_StartPos c"
| "StartPos (Some (StmtNode s)) = Stmt_StartPos s"
| "StartPos (Some (IdentNode i)) = Ident_StartPos i"
| "StartPos (Some (ExprNode e)) = Expr_StartPos e"

fun EndPos :: "Node option \<Rightarrow> Pos" where
  "EndPos None = NoPos"
| "EndPos (Some (FileNode f)) = Body_EndPos (File_Body f)"
| "EndPos (Some (BodyNode b)) = Body_EndPos b"
| "EndPos (Some (CommentGroupNode cs)) = (if cs = [] then NoPos else Comment_EndPos (last cs))"
| "EndPos (Some (CommentNode c)) = Comment_EndPos c"
| "EndPos (Some (StmtNode s)) = Stmt_EndPos s"
| "EndPos (Some (IdentNode i)) = Ident_EndPos i"
| "EndPos (Some (ExprNode e)) = Expr_EndPos e"

section \<open>Block names\<close>

definition GetBlockName :: "BlockStmt \<Rightarrow> string" where
  "GetBlockName b = join (Name b) ''.''"

section \<open>Lemmas\<close>

text \<open>Marking an expression as secret changes nothing else that the tree functions read.\<close>

lemma SetSecret_simps [simp]:
  "IsSecret (SetSecret s e) \<longleftrightarrow> s \<and> e \<noteq> NilExpr"
  "Expr_StartPos (SetSecret s e) = Expr_StartPos e"
  "Expr_EndPos (SetSecret s e) = Expr_EndPos e"
  "SetSecret s (SetSecret t e) = SetSecret s e"
  by (cases e; simp)+

end
