(* ===== verification/Ast_References.thy ===== *)
theory Ast_References
  imports Syntax_Ast Dag_Graph "HOL-Library.Sublist" "HOL-Library.Monad_Syntax"
begin

text \<open>
  References between configuration blocks: the visitor of \<^verbatim>\<open>internal/util/ast\<close> that collects
  the field accesses of a block body (walking the tree the way \<^verbatim>\<open>syntax/ast/walk.go\<close> does) and the
  resolution of such an access against the nodes of the component graph.
\<close>

section \<open>Collecting traversals\<close>

type_synonym Traversal = "Ident list"

definition Traversal_String :: "Traversal \<Rightarrow> string" where
  "Traversal_String t = join (map Ident_Name t) ''.''"

record traversalWalker =
  traversals :: "Traversal list"
  buildTraversal :: bool
  currentTraversal :: Traversal

definition new_walker :: traversalWalker where
  "new_walker = \<lparr>traversals = [], buildTraversal = False, currentTraversal = []\<rparr>"

definition flush :: "traversalWalker \<Rightarrow> traversalWalker" where
  "flush tw =
     (let ts = (if buildTraversal tw \<and> length (currentTraversal tw) > 0
                then traversals tw @ [currentTraversal tw] else traversals tw)
      in \<lparr>traversals = ts, buildTraversal = False, currentTraversal = []\<rparr>)"

text \<open>
  \<open>Walk\<close> with this visitor. Identifiers and literals have no children that the visitor looks
  at; walking a nil expression panics.
\<close>

fun walk_expr :: "Expr \<Rightarrow> traversalWalker \<Rightarrow> traversalWalker option"
  and walk_exprs :: "Expr list \<Rightarrow> traversalWalker \<Rightarrow> traversalWalker option"
  and walk_fields :: "ObjectField list \<Rightarrow> traversalWalker \<Rightarrow> traversalWalker option" where
  "walk_expr NilExpr tw = None"
| "walk_expr (IdentifierExpr i s) tw =
     Some (let tw = flush tw in tw\<lparr>buildTraversal := True, currentTraversal := currentTraversal tw @ [i]\<rparr>)"
| "walk_expr (LiteralExpr k p v s) tw = Some tw"
| "walk_expr (ArrayExpr es l r s) tw = walk_exprs es tw"
| "walk_expr (ObjectExpr fs l r s) tw = walk_fields fs tw"
| "walk_expr (AccessExpr v n s) tw =
     walk_expr v tw \<bind> (\<lambda>tw. Some (if buildTraversal tw
       then tw\<lparr>currentTraversal := currentTraversal tw @ [n]\<rparr> else tw))"
| "walk_expr (IndexExpr v i l r s) tw = walk_expr v tw \<bind> (\<lambda>tw. walk_expr i (flush tw))"
| "walk_expr (CallExpr v as l r s) tw = walk_expr v tw \<bind> (\<lambda>tw. walk_exprs as (flush tw))"
| "walk_expr (UnaryExpr k p v s) tw = walk_expr v tw"
| "walk_expr (BinaryExpr k p a b s) tw = walk_expr a tw \<bind> walk_expr b"
| "walk_expr (ParenExpr e l r s) tw = walk_expr e tw"
| "walk_exprs [] tw = Some tw"
| "walk_exprs (e # es) tw = walk_expr e tw \<bind> walk_exprs es"
| "walk_fields [] tw = Some tw"
| "walk_fields (ObjectField n q v # fs) tw = walk_expr v tw \<bind> walk_fields fs"

fun walk_stmt :: "Stmt \<Rightarrow> traversalWalker \<Rightarrow> traversalWalker option"
  and walk_block :: "BlockStmt \<Rightarrow> traversalWalker \<Rightarrow> traversalWalker option"
  and walk_body :: "Stmt list \<Rightarrow> traversalWalker \<Rightarrow> traversalWalker option" where
  "walk_stmt (AttributeStmt n v) tw = walk_expr v tw"
| "walk_stmt (Block b) tw = walk_block b tw"
| "walk_block (BlockStmt n np lab lp b lc rc) tw = walk_body b tw"
| "walk_body [] tw = Some tw"
| "walk_body (s # ss) tw = walk_stmt s tw \<bind> walk_body ss"

definition TraversalsFromBody :: "body \<Rightarrow> Traversal list option" where
  "TraversalsFromBody b = walk_body b new_walker \<bind> (\<lambda>tw. Some (traversals (flush tw)))"

section \<open>Resolving traversals\<close>

record Reference =
  Target :: node
  Ref_Traversal :: Traversal

text \<open>
  The loop of \<open>ResolveTraversal\<close> moves names from the remaining to the partial traversal until
  the partial one names a node. The error holds the whole traversal.
\<close>

fun resolve_loop :: "graph \<Rightarrow> Traversal \<Rightarrow> Traversal \<Rightarrow> Traversal + Reference" where
  "resolve_loop g partial rem =
     (case GetByID g (Traversal_String partial) of
        Some n \<Rightarrow> Inr \<lparr>Target = n, Ref_Traversal = rem\<rparr>
      | None \<Rightarrow> (case rem of [] \<Rightarrow> Inl partial | i # rem' \<Rightarrow> resolve_loop g (partial @ [i]) rem'))"

declare resolve_loop.simps [simp del]

definition ResolveTraversal :: "Traversal \<Rightarrow> graph \<Rightarrow> Traversal + Reference" where
  "ResolveTraversal t g = resolve_loop g [hd t] (tl t)"

section \<open>The references of a body\<close>

text \<open>The identifiers and the subexpressions of an expression, from left to right.\<close>

fun identifiers :: "Expr \<Rightarrow> Ident list" and field_identifiers :: "ObjectField \<Rightarrow> Ident list" where
  "identifiers NilExpr = []"
| "identifiers (IdentifierExpr i s) = [i]"
| "identifiers (LiteralExpr k p v s) = []"
| "identifiers (ArrayExpr es l r s) = concat (map identifiers es)"
| "identifiers (ObjectExpr fs l r s) = concat (map field_identifiers fs)"
| "identifiers (AccessExpr v n s) = identifiers v"
| "identifiers (IndexExpr v i l r s) = identifiers v @ identifiers i"
| "identifiers (CallExpr v as l r s) = identifiers v @ concat (map identifiers as)"
| "identifiers (UnaryExpr k p v s) = identifiers v"
| "identifiers (BinaryExpr k p a b s) = identifiers a @ identifiers b"
| "identifiers (ParenExpr e l r s) = identifiers e"
| "field_identifiers (ObjectField n q v) = identifiers v"

fun subexprs :: "Expr \<Rightarrow> Expr list" and field_subexprs :: "ObjectField \<Rightarrow> Expr list" where
  "subexprs NilExpr = [NilExpr]"
| "subexprs (IdentifierExpr i s) = [IdentifierExpr i s]"
| "subexprs (LiteralExpr k p v s) = [LiteralExpr k p v s]"
| "subexprs (ArrayExpr es l r s) = concat (map subexprs es) @ [ArrayExpr es l r s]"
| "subexprs (ObjectExpr fs l r s) = concat (map field_subexprs fs) @ [ObjectExpr fs l r s]"
| "subexprs (AccessExpr v n s) = subexprs v @ [AccessExpr v n s]"
| "subexprs (IndexExpr v i l r s) = subexprs v @ subexprs i @ [IndexExpr v i l r s]"
| "subexprs (CallExpr v as l r s) = subexprs v @ concat (map subexprs as) @ [CallExpr v as l r s]"
| "subexprs (UnaryExpr k p v s) = subexprs v @ [UnaryExpr k p v s]"
| "subexprs (BinaryExpr k p a b s) = subexprs a @ subexprs b @ [BinaryExpr k p a b s]"
| "subexprs (ParenExpr e l r s) = subexprs e @ [ParenExpr e l r s]"
| "field_subexprs (ObjectField n q v) = subexprs v"

text \<open>The values of the attributes of a body, those of nested blocks included.\<close>

fun stmt_values :: "Stmt \<Rightarrow> Expr list" and block_values :: "BlockStmt \<Rightarrow> Expr list" where
  "stmt_values (AttributeStmt n v) = [v]"
| "stmt_values (Block b) = block_values b"
| "block_values (BlockStmt n np lab lp b lc rc) = concat (map stmt_values b)"

definition body_values :: "body \<Rightarrow> Expr list" where
  "body_values b = concat (map stmt_values b)"

definition body_subexprs :: "body \<Rightarrow> Expr list" where
  "body_subexprs b = concat (map subexprs (body_values b))"

definition body_identifiers :: "body \<Rightarrow> Ident list" where
  "body_identifiers b = concat (map identifiers (body_values b))"

text \<open>An identifier followed by field accesses names a path.\<close>

fun access_path :: "Expr \<Rightarrow> Ident list option" where
  "access_path (IdentifierExpr i s) = Some [i]"
| "access_path (AccessExpr v n s) = map_option (\<lambda>p. p @ [n]) (access_path v)"
| "access_path _ = None"

definition covers :: "Traversal list \<Rightarrow> Ident list \<Rightarrow> bool" where
  "covers ts p \<longleftrightarrow> (\<exists>t \<in> set ts. prefix p t)"

section \<open>Invariant of the walk\<close>

definition tw_ok :: "traversalWalker \<Rightarrow> bool" where
  "tw_ok tw \<longleftrightarrow> (buildTraversal tw \<longleftrightarrow> currentTraversal tw \<noteq> []) \<and> [] \<notin> set (traversals tw)"

definition open_traversals :: "traversalWalker \<Rightarrow> Traversal list" where
  "open_traversals tw = traversals (flush tw)"

text \<open>
  What a part of the walk adds: one traversal for each identifier, and a traversal that extends
  the path of each field access; what was collected before is only extended.
\<close>

definition walked :: "Ident list \<Rightarrow> Expr list \<Rightarrow> traversalWalker \<Rightarrow> traversalWalker \<Rightarrow> bool" where
  "walked ids subs tw tw' \<longleftrightarrow> tw_ok tw' \<and>
     map hd (open_traversals tw') = map hd (open_traversals tw) @ ids \<and>
     (\<forall>p. covers (open_traversals tw) p \<longrightarrow> covers (open_traversals tw') p) \<and>
     (\<forall>e \<in> set subs. \<forall>p. access_path e = Some p \<longrightarrow> covers (open_traversals tw') p)"

lemma walked_refl: "tw_ok tw \<Longrightarrow> \<forall>e \<in> set subs. access_path e = None \<Longrightarrow> walked [] subs tw tw"
  by (simp add: walked_def)

lemma walked_trans:
  "walked a s tw tw1 \<Longrightarrow> walked b t tw1 tw2 \<Longrightarrow> walked (a @ b) (s @ t) tw tw2"
  by (auto simp: walked_def)

lemma walked_none:
  "walked a s tw tw' \<Longrightarrow> access_path e = None \<Longrightarrow> walked a (s @ [e]) tw tw'"
  by (auto simp: walked_def)

lemma flush_simps [simp]:
  "buildTraversal (flush tw) = False" "currentTraversal (flush tw) = []"
  "flush (flush tw) = flush tw" "open_traversals (flush tw) = open_traversals tw"
  by (simp_all add: flush_def open_traversals_def Let_def)

lemma tw_ok_flush [simp]: "tw_ok tw \<Longrightarrow> tw_ok (flush tw)"
  by (auto simp: tw_ok_def flush_def Let_def)

lemma walked_flush: "walked a s tw tw' \<Longrightarrow> walked a s tw (flush tw')"
  by (simp add: walked_def)

lemma access_path_nonempty: "access_path e = Some p \<Longrightarrow> p \<noteq> []"
  by (induction e arbitrary: p rule: access_path.induct) auto

text \<open>Walking a path leaves exactly that path open.\<close>

lemma walk_access_path:
  "access_path e = Some p \<Longrightarrow>
   walk_expr e tw = Some ((flush tw)\<lparr>buildTraversal := True, currentTraversal := p\<rparr>)"
  by (induction e arbitrary: p tw rule: access_path.induct) (auto simp: Let_def)

lemma open_building:
  "buildTraversal tw \<Longrightarrow> currentTraversal tw \<noteq> [] \<Longrightarrow>
   open_traversals tw = traversals tw @ [currentTraversal tw]"
  by (simp add: open_traversals_def flush_def Let_def)

definition good :: "Expr \<Rightarrow> bool" where
  "good e \<longleftrightarrow> (\<forall>tw. tw_ok tw \<longrightarrow> NilExpr \<notin> set (subexprs e) \<longrightarrow>
     (\<exists>tw'. walk_expr e tw = Some tw' \<and> walked (identifiers e) (subexprs e) tw tw'))"

lemma goodE:
  assumes "good e" "tw_ok tw" "NilExpr \<notin> set (subexprs e)"
  obtains tw' where "walk_expr e tw = Some tw'" "walked (identifiers e) (subexprs e) tw tw'" "tw_ok tw'"
  using assms unfolding good_def walked_def by blast

lemma walk_exprs_good:
  assumes "\<forall>e \<in> set es. good e" "tw_ok tw" "NilExpr \<notin> set (concat (map subexprs es))"
  shows "\<exists>tw'. walk_exprs es tw = Some tw' \<and> tw_ok tw' \<and>
    walked (concat (map identifiers es)) (concat (map subexprs es)) tw tw'"
  using assms
proof (induction es arbitrary: tw)
  case Nil
  then show ?case by (simp add: walked_refl)
next
  case (Cons e es)
  obtain tw1 where 1: "walk_expr e tw = Some tw1" "walked (identifiers e) (subexprs e) tw tw1" "tw_ok tw1"
    using goodE [of e tw] Cons.prems by auto
  obtain tw2 where 2: "walk_exprs es tw1 = Some tw2" "tw_ok tw2"
    "walked (concat (map identifiers es)) (concat (map subexprs es)) tw1 tw2"
    using Cons.IH [OF _ 1(3)] Cons.prems by auto
  show ?case using 1 2 walked_trans [OF 1(2) 2(3)] by simp
qed

fun field_value :: "ObjectField \<Rightarrow> Expr" where
  "field_value (ObjectField n q v) = v"

lemma walk_fields_eq: "walk_fields fs tw = walk_exprs (map field_value fs) tw"
proof (induction fs arbitrary: tw)
  case (Cons f fs)
  then have "walk_fields fs = walk_exprs (map field_value fs)" by (rule ext)
  then show ?case by (cases f) simp
qed simp

lemma fields_eq:
  "concat (map field_identifiers fs) = concat (map identifiers (map field_value fs))"
  "concat (map field_subexprs fs) = concat (map subexprs (map field_value fs))"
  by (induction fs) (auto, (metis ObjectField.exhaust field_identifiers.simps field_subexprs.simps field_value.simps)+)

lemma good_access:
  assumes "good v"
  shows "good (AccessExpr v n s)"
  unfolding good_def
proof (intro allI impI)
  fix tw assume ok: "tw_ok tw" and nil: "NilExpr \<notin> set (subexprs (AccessExpr v n s))"
  obtain tw1 where 1: "walk_expr v tw = Some tw1" "walked (identifiers v) (subexprs v) tw tw1" "tw_ok tw1"
    using goodE [OF assms ok] nil by auto
  show "\<exists>tw'. walk_expr (AccessExpr v n s) tw = Some tw' \<and>
    walked (identifiers (AccessExpr v n s)) (subexprs (AccessExpr v n s)) tw tw'"
  proof (cases "buildTraversal tw1")
    case False
    then have "access_path v = None" using walk_access_path [of v _ tw] 1(1) by (cases "access_path v") auto
    with False 1 show ?thesis by (simp add: walked_none)
  next
    case True
    let ?tw = "tw1\<lparr>currentTraversal := currentTraversal tw1 @ [n]\<rparr>"
    have cur: "currentTraversal tw1 \<noteq> []" using True 1(3) by (simp add: tw_ok_def)
    have o1: "open_traversals tw1 = traversals tw1 @ [currentTraversal tw1]"
      using True cur by (rule open_building)
    have o2: "open_traversals ?tw = traversals tw1 @ [currentTraversal tw1 @ [n]]"
      using open_building [of ?tw] True by simp
    have grow: "covers (open_traversals ?tw) p" if "covers (open_traversals tw1) p" for p
      using that unfolding covers_def o1 o2 by auto
    have self: "covers (open_traversals ?tw) p" if "access_path (AccessExpr v n s) = Some p" for p
    proof -
      from that obtain q where q: "access_path v = Some q" "p = q @ [n]" by auto
      have "currentTraversal tw1 = q" using walk_access_path [OF q(1), of tw] 1(1) by simp
      with q(2) show ?thesis unfolding covers_def o2 by auto
    qed
    have "walked (identifiers v) (subexprs v @ [AccessExpr v n s]) tw ?tw"
      using 1(2,3) grow self True cur unfolding walked_def
      by (auto simp: o1 o2 tw_ok_def)
    with True 1 show ?thesis by simp
  qed
qed

lemma good_two:
  assumes "good a" "good b"
  shows "good (BinaryExpr k p a b s)" "good (IndexExpr a b l r s)"
proof -
  have step: "\<exists>tw'. walk_expr a tw \<bind> (\<lambda>tw. walk_expr b (fl tw)) = Some tw' \<and>
      walked (identifiers a @ identifiers b) (subexprs a @ subexprs b @ [e]) tw tw'"
    if ok: "tw_ok tw" and na: "NilExpr \<notin> set (subexprs a)" and nb: "NilExpr \<notin> set (subexprs b)"
      and e: "access_path e = None" and f: "fl = id \<or> fl = flush" for tw e fl
  proof -
    obtain tw1 where 1: "walk_expr a tw = Some tw1" "walked (identifiers a) (subexprs a) tw tw1" "tw_ok tw1"
      using goodE [OF assms(1) ok na] by blast
    from f 1 have fl: "walked (identifiers a) (subexprs a) tw (fl tw1)" "tw_ok (fl tw1)"
      by (auto simp: walked_flush)
    obtain tw2 where 2: "walk_expr b (fl tw1) = Some tw2" "walked (identifiers b) (subexprs b) (fl tw1) tw2"
      using goodE [OF assms(2) fl(2) nb] by blast
    show ?thesis using 1(1) 2(1) walked_none [OF walked_trans [OF fl(1) 2(2)] e] by simp
  qed
  show "good (BinaryExpr k p a b s)"
    unfolding good_def using step [of _ "BinaryExpr k p a b s" id] by simp
  show "good (IndexExpr a b l r s)"
    unfolding good_def using step [of _ "IndexExpr a b l r s" flush] by simp
qed

lemma good_wrap:
  assumes "good v"
  shows "good (UnaryExpr k p v s)" "good (ParenExpr v l r s)"
  using assms walked_none [of "identifiers v" "subexprs v" _ _ "UnaryExpr k p v s"]
    walked_none [of "identifiers v" "subexprs v" _ _ "ParenExpr v l r s"]
  by (fastforce simp: good_def)+

lemma good_expr: "good e" "good (field_value f)"
proof (induction e and f)
  case NilExpr
  show ?case by (simp add: good_def)
next
  case (IdentifierExpr i s)
  show ?case
    by (auto simp: good_def Let_def walked_def covers_def open_building tw_ok_def open_traversals_def [symmetric])
      (auto simp: flush_def open_traversals_def Let_def)
next
  case (LiteralExpr k p v s)
  show ?case by (simp add: good_def walked_refl)
next
  case (ArrayExpr es l r s)
  show ?case unfolding good_def
  proof (intro allI impI)
    fix tw assume "tw_ok tw" "NilExpr \<notin> set (subexprs (ArrayExpr es l r s))"
    with ArrayExpr obtain tw' where "walk_exprs es tw = Some tw'"
      "walked (concat (map identifiers es)) (concat (map subexprs es)) tw tw'"
      using walk_exprs_good [of es tw] by auto
    then show "\<exists>tw'. walk_expr (ArrayExpr es l r s) tw = Some tw' \<and>
      walked (identifiers (ArrayExpr es l r s)) (subexprs (ArrayExpr es l r s)) tw tw'"
      by (simp add: walked_none)
  qed
next
  case (ObjectExpr fs l r s)
  show ?case unfolding good_def
  proof (intro allI impI)
    fix tw assume "tw_ok tw" "NilExpr \<notin> set (subexprs (ObjectExpr fs l r s))"
    with ObjectExpr obtain tw' where "walk_exprs (map field_value fs) tw = Some tw'"
      "walked (concat (map identifiers (map field_value fs))) (concat (map subexprs (map field_value fs))) tw tw'"
      using walk_exprs_good [of "map field_value fs" tw] by (auto simp: fields_eq)
    then show "\<exists>tw'. walk_expr (ObjectExpr fs l r s) tw = Some tw' \<and>
      walked (identifiers (ObjectExpr fs l r s)) (subexprs (ObjectExpr fs l r s)) tw tw'"
      by (simp add: walked_none walk_fields_eq fields_eq)
  qed
next
  case (CallExpr v as l r s)
  show ?case unfolding good_def
  proof (intro allI impI)
    fix tw assume tw: "tw_ok tw" "NilExpr \<notin> set (subexprs (CallExpr v as l r s))"
    obtain tw1 where 1: "walk_expr v tw = Some tw1" "walked (identifiers v) (subexprs v) tw tw1" "tw_ok tw1"
      using goodE [OF CallExpr(1) tw(1)] tw(2) by auto
    obtain tw2 where 2: "walk_exprs as (flush tw1) = Some tw2"
      "walked (concat (map identifiers as)) (concat (map subexprs as)) (flush tw1) tw2"
      using walk_exprs_good [of as "flush tw1"] 1(3) CallExpr(2) tw(2) by auto
    show "\<exists>tw'. walk_expr (CallExpr v as l r s) tw = Some tw' \<and>
      walked (identifiers (CallExpr v as l r s)) (subexprs (CallExpr v as l r s)) tw tw'"
      using 1(1) 2(1) walked_none [OF walked_trans [OF walked_flush [OF 1(2)] 2(2)], of "CallExpr v as l r s"]
      by simp
  qed
qed (simp_all add: good_access good_two good_wrap)

lemma walk_body_values: "walk_body b tw = walk_exprs (body_values b) tw"
proof -
  have app: "walk_exprs (xs @ ys) tw = walk_exprs xs tw \<bind> walk_exprs ys" for xs ys tw
    by (induction xs arbitrary: tw) (auto split: bind_splits)
  have "walk_stmt s tw = walk_exprs (stmt_values s) tw" "walk_block b' tw = walk_exprs (block_values b') tw"
    "walk_body b tw = walk_exprs (body_values b) tw" for s b' b tw
    by (induction s tw and b' tw and b tw rule: walk_stmt_walk_block_walk_body.induct)
      (auto simp: body_values_def app split: bind_splits)
  then show ?thesis by blast
qed

lemma traversals_of_body:
  assumes "NilExpr \<notin> set (body_subexprs b)"
  obtains ts where "TraversalsFromBody b = Some ts" "map hd ts = body_identifiers b" "[] \<notin> set ts"
    "\<And>e p. e \<in> set (body_subexprs b) \<Longrightarrow> access_path e = Some p \<Longrightarrow> covers ts p"
proof -
  have new: "tw_ok new_walker" "open_traversals new_walker = []"
    by (simp_all add: tw_ok_def new_walker_def open_traversals_def flush_def)
  obtain tw where tw: "walk_exprs (body_values b) new_walker = Some tw" "tw_ok tw"
    "walked (body_identifiers b) (body_subexprs b) new_walker tw"
    using walk_exprs_good [OF _ new(1), of "body_values b"] assms good_expr(1)
    unfolding body_identifiers_def body_subexprs_def by auto
  show thesis
  proof
    show "TraversalsFromBody b = Some (open_traversals tw)"
      by (simp add: TraversalsFromBody_def walk_body_values tw(1) open_traversals_def)
    show "[] \<notin> set (open_traversals tw)"
      using tw_ok_flush [OF tw(2)] by (simp add: tw_ok_def open_traversals_def)
  qed (use tw(3) new in \<open>auto simp: walked_def\<close>)
qed

text \<open>A walk that returns met no nil expression.\<close>

lemma walk_exprs_nil:
  "\<exists>e \<in> set es. \<forall>tw. walk_expr e tw = None \<Longrightarrow> walk_exprs es tw = None"
  by (induction es arbitrary: tw) (auto split: bind_splits)

lemma walk_expr_nil:
  "NilExpr \<in> set (subexprs e) \<Longrightarrow> walk_expr e tw = None"
  "NilExpr \<in> set (field_subexprs f) \<Longrightarrow> walk_expr (field_value f) tw = None"
proof (induction e and f arbitrary: tw and tw)
  case (ArrayExpr es l r s)
  then obtain e where "e \<in> set es" "\<forall>tw. walk_expr e tw = None" by auto
  then show ?case using walk_exprs_nil [of es tw] by auto
next
  case (ObjectExpr fs l r s)
  then obtain f where "f \<in> set fs" "\<forall>tw. walk_expr (field_value f) tw = None" by auto
  then show ?case using walk_exprs_nil [of "map field_value fs" tw] by (auto simp: walk_fields_eq)
next
  case (CallExpr v as l r s)
  then consider "\<forall>tw. walk_expr v tw = None" | e where "e \<in> set as" "\<forall>tw. walk_expr e tw = None" by auto
  then show ?case
  proof cases
    case 2
    then have "walk_exprs as tw = None" for tw using walk_exprs_nil [of as tw] by auto
    then show ?thesis by (simp split: bind_splits)
  qed simp
qed (auto split: bind_splits)

lemma TraversalsFromBody_Some: "TraversalsFromBody b = Some ts \<Longrightarrow> NilExpr \<notin> set (body_subexprs b)"
  using walk_exprs_nil [of "body_values b" new_walker] walk_expr_nil(1)
  by (auto simp: TraversalsFromBody_def walk_body_values body_subexprs_def split: bind_splits)

section \<open>Resolution\<close>

text \<open>
  The name of the first \<open>k\<close> parts of a traversal; a traversal is resolved at the shortest of
  these that names a node.
\<close>

definition part_name :: "nat \<Rightarrow> Traversal \<Rightarrow> string" where
  "part_name k t = Traversal_String (take k t)"

lemma resolve_loop_shortest:
  assumes "0 < m" "m \<le> length t" "\<forall>j < m. 0 < j \<longrightarrow> GetByID g (part_name j t) = None"
  shows "(resolve_loop g (take m t) (drop m t) = Inr r \<longleftrightarrow>
     (\<exists>k. 0 < k \<and> k \<le> length t \<and> GetByID g (part_name k t) = Some (Target r) \<and> Ref_Traversal r = drop k t \<and>
       (\<forall>j < k. 0 < j \<longrightarrow> GetByID g (part_name j t) = None)))"
  using assms
proof (induction "length t - m" arbitrary: m)
  case 0
  then have m: "m = length t" by simp
  have "(\<exists>k. 0 < k \<and> k \<le> length t \<and> GetByID g (part_name k t) = Some (Target r) \<and> Ref_Traversal r = drop k t \<and>
       (\<forall>j < k. 0 < j \<longrightarrow> GetByID g (part_name j t) = None)) \<longleftrightarrow>
     GetByID g (part_name m t) = Some (Target r) \<and> Ref_Traversal r = []"
    using 0 m by (metis drop_all le_neq_implies_less option.distinct(1) order_refl)
  then show ?case
    by (cases r) (auto simp: resolve_loop.simps m part_name_def split: option.splits)
next
  case (Suc d)
  then have lt: "m < length t" by simp
  show ?case
  proof (cases "GetByID g (part_name m t)")
    case (Some n)
    have "(\<exists>k. 0 < k \<and> k \<le> length t \<and> GetByID g (part_name k t) = Some (Target r) \<and> Ref_Traversal r = drop k t \<and>
       (\<forall>j < k. 0 < j \<longrightarrow> GetByID g (part_name j t) = None)) \<longleftrightarrow>
       n = Target r \<and> Ref_Traversal r = drop m t"
      using Suc.prems Some by (metis linorder_neqE_nat option.distinct(1) option.inject)
    with Some show ?thesis
      by (cases r) (auto simp: resolve_loop.simps part_name_def)
  next
    case None
    have "resolve_loop g (take m t) (drop m t) = resolve_loop g (take (Suc m) t) (drop (Suc m) t)"
      using None lt unfolding part_name_def
      by (subst resolve_loop.simps) (simp add: Cons_nth_drop_Suc [symmetric] take_Suc_conv_app_nth)
    moreover have "\<forall>j < Suc m. 0 < j \<longrightarrow> GetByID g (part_name j t) = None"
      using Suc.prems(3) None by (auto simp: less_Suc_eq)
    ultimately show ?thesis using Suc.hyps(1) [of "Suc m"] Suc.hyps(2) lt by auto
  qed
qed

lemma ResolveTraversal_shortest:
  assumes "t \<noteq> []"
  shows "ResolveTraversal t g = Inr r \<longleftrightarrow>
    (\<exists>k. 0 < k \<and> k \<le> length t \<and> GetByID g (part_name k t) = Some (Target r) \<and> Ref_Traversal r = drop k t \<and>
      (\<forall>j < k. 0 < j \<longrightarrow> GetByID g (part_name j t) = None))"
proof -
  have "[hd t] = take 1 t" "tl t = drop 1 t" using assms by (cases t; simp)+
  then show ?thesis
    using resolve_loop_shortest [of 1 t g r] assms by (simp add: ResolveTraversal_def Suc_le_eq)
qed

lemma ResolveTraversal_cong:
  assumes "GetByID g = GetByID g'"
  shows "ResolveTraversal t g = ResolveTraversal t g'"
proof -
  have "resolve_loop g p r = resolve_loop g' p r" for p r
  proof (induction r arbitrary: p)
    case Nil
    show ?case by (simp add: resolve_loop.simps assms split: option.split)
  next
    case (Cons i r)
    then show ?case by (subst (1 2) resolve_loop.simps) (simp add: assms split: option.splits)
  qed
  then show ?thesis by (simp add: ResolveTraversal_def)
qed

text \<open>A path of which some first part names a node resolves, in any traversal that extends it.\<close>

lemma resolve_covered:
  assumes "prefix p t" "p \<noteq> []" and k: "0 < k" "k \<le> length p" "GetByID g (part_name k p) = Some n"
    "\<forall>j < k. 0 < j \<longrightarrow> GetByID g (part_name j p) = None"
  shows "ResolveTraversal t g = Inr \<lparr>Target = n, Ref_Traversal = drop k t\<rparr>"
proof -
  have same: "part_name j t = part_name j p" if "j \<le> k" for j
    using assms(1) that k(2) by (auto simp: prefix_def part_name_def)
  have "t \<noteq> []" "length p \<le> length t" using assms(1,2) by (auto simp: prefix_length_le)
  then show ?thesis
    using k same by (subst ResolveTraversal_shortest) (auto intro!: exI [of _ k])
qed

end
