(* ===== verification/Controller_Nodes.thy ===== *)
theory Controller_Nodes
  imports Ast_References Value_Cache Feature_Gate Dag_Tarjan
begin

text \<open>
  The nodes of the component controller, \<^verbatim>\<open>internal/runtime/internal/controller\<close>: component IDs
  (\<^verbatim>\<open>node_builtin_component.go\<close>), the objects behind the graph nodes, the registry of custom
  components (\<^verbatim>\<open>custom_component_registry.go\<close>), the classification and validation of configuration
  blocks (\<^verbatim>\<open>node_config.go\<close>) and the diagnostics they produce (\<^verbatim>\<open>syntax/diag/diag.go\<close>).

  A node of the graph is an address; the objects live in a heap. The record of an object holds the
  fields of all node types that the loader reads, with the type as a tag.
\<close>

section \<open>Component IDs\<close>

definition BlockComponentID :: "BlockStmt \<Rightarrow> ComponentID" where
  "BlockComponentID b = Name b @ (if Label b \<noteq> [] then [Label b] else [])"

definition ComponentID_String :: "ComponentID \<Rightarrow> string" where
  "ComponentID_String cid = join cid ''.''"

fun equals_from :: "ComponentID \<Rightarrow> ComponentID \<Rightarrow> bool" where
  "equals_from (a # as) (b # bs) \<longleftrightarrow> (if a \<noteq> b then False else equals_from as bs)"
| "equals_from _ _ \<longleftrightarrow> True"

definition ComponentID_Equals :: "ComponentID \<Rightarrow> ComponentID \<Rightarrow> bool" where
  "ComponentID_Equals cid other \<longleftrightarrow> (if length cid \<noteq> length other then False else equals_from cid other)"

lemma ComponentID_Equals_eq [simp]: "ComponentID_Equals a b \<longleftrightarrow> a = b"
proof -
  have "length a = length b \<Longrightarrow> equals_from a b \<longleftrightarrow> a = b"
    by (induction a b rule: equals_from.induct) auto
  then show ?thesis by (auto simp: ComponentID_Equals_def)
qed

text \<open>\<open>strings.SplitN\<close> with a limit of two parts.\<close>

definition ExtractImportAndDeclare :: "string \<Rightarrow> string \<times> string" where
  "ExtractImportAndDeclare componentName =
     (case split_on CHR ''.'' componentName of
        [customComponentName] \<Rightarrow> ([], customComponentName)
      | importNamespace # rest \<Rightarrow> (importNamespace, join rest ''.''))"

section \<open>Diagnostics\<close>

datatype Severity = SeverityLevelWarn | SeverityLevelError

text \<open>The messages of the controller with the values they print, and those of evaluations.\<close>

datatype message =
  BlockAlreadyDeclared string Pos
| DeclareLabelInvalid
| ServiceIDExists string
| ServiceBlockInModule string
| StabilityRefused gate_error
| DuplicateDefinition string
| InvalidConfigBlock string
| UnsupportedConfigNode string
| LoggingInModule
| TracingInModule
| ArgumentOutsideModule
| ExportOutsideModule
| ArgumentNotDefined string
| ComponentNotFound string
| ComponentNeedsLabel string
| InvalidServiceReference string string
| ReferenceNotFound string
| InvalidGraph validate_error
| EvaluationFailed string
| CacheSyncFailed cache_error
| EvalMessage string

datatype Diagnostic = Diagnostic (severity: Severity) (Message: message) (diag_StartPos: Pos) (diag_EndPos: Pos)

type_synonym Diagnostics = "Diagnostic list"

definition HasErrors :: "Diagnostics \<Rightarrow> bool" where
  "HasErrors ds \<longleftrightarrow> (\<exists>d \<in> set ds. severity d = SeverityLevelError)"

definition ErrorOrNil :: "Diagnostics \<Rightarrow> Diagnostics option" where
  "ErrorOrNil ds = (if length ds = 0 then None else Some ds)"

text \<open>An error diagnostic that spans a block, and one without a position.\<close>

definition block_error :: "message \<Rightarrow> BlockStmt \<Rightarrow> Diagnostic" where
  "block_error m b = Diagnostic SeverityLevelError m (Stmt_StartPos (Block b)) (Stmt_EndPos (Block b))"

definition plain_error :: "message \<Rightarrow> Diagnostic" where
  "plain_error m = Diagnostic SeverityLevelError m NoPos NoPos"

lemma severity_errors [simp]:
  "severity (block_error m b) = SeverityLevelError" "severity (plain_error m) = SeverityLevelError"
  by (simp_all add: block_error_def plain_error_def)

lemma HasErrors_append [simp]: "HasErrors (a @ b) \<longleftrightarrow> HasErrors a \<or> HasErrors b"
  by (auto simp: HasErrors_def)

lemma HasErrors_simps [simp]:
  "\<not> HasErrors []" "HasErrors (d # ds) \<longleftrightarrow> severity d = SeverityLevelError \<or> HasErrors ds"
  by (auto simp: HasErrors_def)

section \<open>Node objects\<close>

datatype node_type = BuiltinComponent | CustomComponent | ServiceT | DeclareT | ArgumentT | ExportT
  | LoggingT | TracingT | ImportT | ForeachT

text \<open>What an import node has read: its declares and scope, and the imports nested in it.\<close>

datatype 'v import_content = ImportContent (imported_declares: "(string, body) gomap")
  (imported_scope: "'v Scope") (import_children: "(string \<times> 'v import_content) list")

record 'v node_obj =
  node_kind :: node_type
  label :: string
  block :: "BlockStmt option"
  component_id :: ComponentID
  importNamespace :: string
  customComponentName :: string
  DependsOn :: "string list"
  stability :: Stability
  exports :: "'v any option"
  optional :: bool
  defaultValue :: "'v any option"
  export_value :: "'v any option"
  imported :: "'v import_content"
  dataFlowEdgeRefs :: "string list"

definition is_component :: "'v node_obj \<Rightarrow> bool" where
  "is_component obj \<longleftrightarrow> node_kind obj = BuiltinComponent \<or> node_kind obj = CustomComponent"

text \<open>A new object of a type for a block; the other fields have their zero values.\<close>

definition new_obj :: "node_type \<Rightarrow> string \<Rightarrow> BlockStmt option \<Rightarrow> 'v node_obj" where
  "new_obj ty lab b = \<lparr>node_kind = ty, label = lab, block = b,
     component_id = (case b of None \<Rightarrow> [] | Some b \<Rightarrow> BlockComponentID b),
     importNamespace = [], customComponentName = [], DependsOn = [], stability = StabilityUndefined,
     exports = None, optional = False, defaultValue = None, export_value = None,
     imported = ImportContent [] (NewScope []) [], dataFlowEdgeRefs = []\<rparr>"

text \<open>The check of \<open>UpdateBlock\<close>: a block for another ID makes it panic.\<close>

definition UpdateBlock :: "string \<Rightarrow> BlockStmt option \<Rightarrow> 'v node_obj \<Rightarrow> 'v node_obj option" where
  "UpdateBlock nodeID b obj =
     (let expected = (case node_kind obj of
            BuiltinComponent \<Rightarrow> component_id obj
          | CustomComponent \<Rightarrow> component_id obj
          | ServiceT \<Rightarrow> [nodeID]
          | _ \<Rightarrow> split_on CHR ''.'' nodeID)
      in case b of
           None \<Rightarrow> (if node_kind obj = ServiceT then Some (obj\<lparr>block := None\<rparr>) else None)
         | Some b' \<Rightarrow> (if ComponentID_Equals (BlockComponentID b') expected
                      then Some (obj\<lparr>block := Some b'\<rparr>) else None))"

section \<open>Custom component registries\<close>

datatype 'v registry = Registry (reg_parent: "'v registry option") (reg_scope: "'v Scope option")
  (reg_imports: "(string, 'v registry option) gomap") (reg_declares: "(string, body) gomap")

definition NewCustomComponentRegistry :: "'v registry option \<Rightarrow> 'v Scope option \<Rightarrow> 'v registry" where
  "NewCustomComponentRegistry parent sc = Registry parent sc [] []"

definition getDeclare :: "'v registry \<Rightarrow> string \<Rightarrow> body option" where
  "getDeclare reg name = map_of (reg_declares reg) name"

text \<open>A registered import whose content was not read yet is nil.\<close>

definition getImport :: "'v registry \<Rightarrow> string \<Rightarrow> 'v registry option option" where
  "getImport reg name = map_of (reg_imports reg) name"

definition registerDeclare :: "BlockStmt \<Rightarrow> 'v registry \<Rightarrow> 'v registry" where
  "registerDeclare declare_block reg =
     Registry (reg_parent reg) (reg_scope reg) (reg_imports reg)
       (map_put (Label declare_block) (Body declare_block) (reg_declares reg))"

definition registerImport :: "string \<Rightarrow> 'v registry \<Rightarrow> 'v registry" where
  "registerImport ns reg =
     Registry (reg_parent reg) (reg_scope reg) (map_put ns None (reg_imports reg)) (reg_declares reg)"

fun content_registry :: "'v import_content \<Rightarrow> 'v registry" where
  "content_registry (ImportContent decls sc children) =
     Registry None (Some sc)
       (foldl (\<lambda>im (lab, r). map_put lab (Some r) im) [] (map (\<lambda>(lab, c). (lab, content_registry c)) children)) decls"

text \<open>Updating an import that was not registered panics.\<close>

definition updateImportContent :: "string \<Rightarrow> 'v import_content \<Rightarrow> 'v registry \<Rightarrow> 'v registry option" where
  "updateImportContent lab content reg =
     (if map_of (reg_imports reg) lab = None then None
      else Some (Registry (reg_parent reg) (reg_scope reg)
             (map_put lab (Some (content_registry content)) (reg_imports reg)) (reg_declares reg)))"

fun isCustomComponent :: "'v registry option \<Rightarrow> string \<Rightarrow> bool" where
  "isCustomComponent None name = False"
| "isCustomComponent (Some (Registry parent sc imps decls)) name \<longleftrightarrow>
     getDeclare (Registry parent sc imps decls) name \<noteq> None \<or>
     getImport (Registry parent sc imps decls) name \<noteq> None \<or>
     isCustomComponent parent name"

fun findLocalDeclare :: "'v registry \<Rightarrow> string \<Rightarrow> (body \<times> 'v registry) option" where
  "findLocalDeclare (Registry parent sc imps decls) name =
     (case map_of decls name of
        Some d \<Rightarrow> Some (d, Registry parent sc imps decls)
      | None \<Rightarrow> (case parent of None \<Rightarrow> None | Some p \<Rightarrow> findLocalDeclare p name))"

text \<open>The outcome of a lookup through an import; a nil registry is dereferenced.\<close>

datatype 'a lookup = NotFound | NilRegistry | FoundAt 'a

fun findImportedDeclare :: "'v registry \<Rightarrow> string \<Rightarrow> string \<Rightarrow> (body \<times> 'v registry) lookup" where
  "findImportedDeclare (Registry parent sc imps decls) namespace name =
     (case map_of imps namespace of
        Some None \<Rightarrow> NilRegistry
      | Some (Some im) \<Rightarrow>
          (case getDeclare im name of
             Some d \<Rightarrow> FoundAt (d, im)
           | None \<Rightarrow> (case parent of None \<Rightarrow> NotFound | Some p \<Rightarrow> findImportedDeclare p namespace name))
      | None \<Rightarrow> (case parent of None \<Rightarrow> NotFound | Some p \<Rightarrow> findImportedDeclare p namespace name))"

definition getCustomComponentConfig :: "'v registry \<Rightarrow> string \<Rightarrow> string \<Rightarrow> (body \<times> 'v registry) lookup" where
  "getCustomComponentConfig reg namespace componentName =
     (if namespace = [] then (case findLocalDeclare reg componentName of None \<Rightarrow> NotFound | Some r \<Rightarrow> FoundAt r)
      else findImportedDeclare reg namespace componentName)"

section \<open>Configuration blocks\<close>

definition configBlocksUnstable :: "(string, Stability) gomap" where
  "configBlocksUnstable = [(''foreach'', StabilityExperimental)]"

definition checkFeatureStability :: "string \<Rightarrow> Stability \<Rightarrow> gate_error option" where
  "checkFeatureStability blockName minStability =
     (case map_of configBlocksUnstable blockName of
        Some blockStability \<Rightarrow> CheckAllowed blockStability minStability (''config block '' @ CHR 0x22 # blockName @ [CHR 0x22])
      | None \<Rightarrow> None)"

definition importBlockNames :: "string list" where
  "importBlockNames = [''import.file'', ''import.string'', ''import.http'', ''import.git'']"

definition NewConfigNode :: "BlockStmt \<Rightarrow> Stability \<Rightarrow> Diagnostic + 'v node_obj" where
  "NewConfigNode b minStability =
     (let name = GetBlockName b in
      case checkFeatureStability name minStability of
        Some err \<Rightarrow> Inl (block_error (StabilityRefused err) b)
      | None \<Rightarrow>
          if name = ''argument'' then Inr (new_obj ArgumentT (Label b) (Some b))
          else if name = ''export'' then Inr (new_obj ExportT (Label b) (Some b))
          else if name = ''logging'' then Inr (new_obj LoggingT [] (Some b))
          else if name = ''tracing'' then Inr (new_obj TracingT [] (Some b))
          else if name \<in> set importBlockNames then Inr (new_obj ImportT (Label b) (Some b))
          else if name = ''foreach'' then Inr (new_obj ForeachT (Label b) (Some b))
          else Inl (block_error (InvalidConfigBlock name) b))"

record ConfigNodeMap =
  logging :: "node option"
  tracing :: "node option"
  argumentMap :: "(string, node) gomap"
  exportMap :: "(string, node) gomap"
  importMap :: "(string, node) gomap"
  foreachMap :: "(string, node) gomap"

definition NewConfigNodeMap :: ConfigNodeMap where
  "NewConfigNodeMap = \<lparr>logging = None, tracing = None, argumentMap = [], exportMap = [], importMap = [], foreachMap = []\<rparr>"

definition config_Append :: "node \<Rightarrow> 'v node_obj \<Rightarrow> ConfigNodeMap \<Rightarrow> Diagnostics \<times> ConfigNodeMap" where
  "config_Append n obj m =
     (case node_kind obj of
        ArgumentT \<Rightarrow> ([], m\<lparr>argumentMap := map_put (label obj) n (argumentMap m)\<rparr>)
      | ExportT \<Rightarrow> ([], m\<lparr>exportMap := map_put (label obj) n (exportMap m)\<rparr>)
      | LoggingT \<Rightarrow> ([], m\<lparr>logging := Some n\<rparr>)
      | TracingT \<Rightarrow> ([], m\<lparr>tracing := Some n\<rparr>)
      | ImportT \<Rightarrow> ([], m\<lparr>importMap := map_put (label obj) n (importMap m)\<rparr>)
      | ForeachT \<Rightarrow> ([], m\<lparr>foreachMap := map_put (label obj) n (foreachMap m)\<rparr>)
      | _ \<Rightarrow> ([case block obj of
                Some b \<Rightarrow> block_error (UnsupportedConfigNode (GetBlockName b)) b
              | None \<Rightarrow> plain_error (UnsupportedConfigNode [])], m))"

text \<open>The position of a diagnostic about a node: that of its block.\<close>

definition node_error :: "message \<Rightarrow> 'v node_obj \<Rightarrow> Diagnostic" where
  "node_error m obj = (case block obj of Some b \<Rightarrow> block_error m b | None \<Rightarrow> plain_error m)"

lemma severity_node_error [simp]: "severity (node_error m obj) = SeverityLevelError"
  by (simp add: node_error_def split: option.splits)

definition ValidateModuleConstraints ::
  "(node \<Rightarrow> 'v node_obj) \<Rightarrow> bool \<Rightarrow> ConfigNodeMap \<Rightarrow> Diagnostics" where
  "ValidateModuleConstraints h isInModule m =
     (if isInModule then
        (case logging m of None \<Rightarrow> [] | Some n \<Rightarrow> [node_error LoggingInModule (h n)]) @
        (case tracing m of None \<Rightarrow> [] | Some n \<Rightarrow> [node_error TracingInModule (h n)])
      else map (\<lambda>(_, n). node_error ArgumentOutsideModule (h n)) (argumentMap m) @
           map (\<lambda>(_, n). node_error ExportOutsideModule (h n)) (exportMap m))"

definition ValidateUnsupportedArguments :: "'v vmap \<Rightarrow> ConfigNodeMap \<Rightarrow> Diagnostics" where
  "ValidateUnsupportedArguments args m =
     [plain_error (ArgumentNotDefined argName). argName \<leftarrow> map_keys args, map_of (argumentMap m) argName = None]"

definition config_Validate :: "(node \<Rightarrow> 'v node_obj) \<Rightarrow> bool \<Rightarrow> 'v vmap \<Rightarrow> ConfigNodeMap \<Rightarrow> Diagnostics" where
  "config_Validate h isInModule args m =
     ValidateModuleConstraints h isInModule m @ ValidateUnsupportedArguments args m"

end
