(* ===== verification/Loader.thy ===== *)
theory Loader
  imports Controller_Nodes Dag_Walk
begin

text \<open>
  The loader of the component controller, \<^verbatim>\<open>internal/runtime/internal/controller/loader.go\<close> with
  \<^verbatim>\<open>component_references.go\<close> and \<^verbatim>\<open>component_node_manager.go\<close>: a configuration is turned into a
  graph of nodes, the graph is wired and validated, and its nodes are evaluated in topological order
  with their exports going through the value cache.

  The state of the loader is a record; the objects of its nodes are in a heap that grows. What the
  loader calls through interfaces is in the record \<open>Globals\<close>: the registry of built-in components, the
  expression evaluator behind the arguments of a block, the evaluation of components, services,
  logging, tracing, import and foreach nodes (which may change the outside world), and the tables of
  the standard library's names. A panic is a value, and nothing is run after it. Logging, tracing
  spans, metrics and the mutexes of the loader have no counterpart: \<open>Apply\<close> holds the write lock.
\<close>

section \<open>State\<close>

record service =
  svc_Name :: string
  svc_DependsOn :: "string list"
  svc_Stability :: Stability

text \<open>The error of an evaluation; joined errors keep their parts.\<close>

datatype eval_error =
  EvalDiags Diagnostics
| EvalText string
| CachingError cache_error
| JoinedError eval_error cache_error
| MissingArgument string

datatype loader_panic =
  GraphPanic graph_panic
| WrongNodeType string
| BlockMismatch string
| NilExpression string
| ImportNotRegistered string
| ValidateDiverged

record ('v, 'w) Globals =
  ControllerID :: string
  MinStability :: Stability
  services :: "service list"
  registry_Get :: "string \<Rightarrow> string + 'v any option"
  stdlib_Identifiers :: "string \<Rightarrow> bool"
  stdlib_Deprecated :: "string \<Rightarrow> bool"
  stdlib_Experimental :: "string \<Rightarrow> bool"
  has_OnExportsChange :: bool
  nil_any :: "'v any"
  deepEqual :: "'v any \<Rightarrow> 'v any \<Rightarrow> bool"
  eval_argument :: "BlockStmt option \<Rightarrow> 'v Scope \<Rightarrow> eval_error + 'v any option \<times> bool"
  eval_export :: "BlockStmt option \<Rightarrow> 'v Scope \<Rightarrow> eval_error + 'v any option"
  eval_node :: "node \<Rightarrow> 'v node_obj \<Rightarrow> 'v Scope \<Rightarrow> 'w \<Rightarrow> eval_error option \<times> 'v any option \<times> 'v import_content \<times> 'w"
  field_flow :: "'v any \<Rightarrow> string \<Rightarrow> bool option"

record ('v, 'w) Loader =
  l_graph :: graph
  objects :: "(node, 'v node_obj) gomap"
  next_addr :: nat
  componentNodes :: "node list"
  serviceNodes :: "node list"
  declareNodes :: "(string, node) gomap"
  importConfigNodes :: "(string, node) gomap"
  forEachNodes :: "(string, node) gomap"
  cache :: "'v valueCache"
  blocks :: "BlockStmt list"
  moduleExportIndex :: "64 word"
  customComponentReg :: "'v registry"
  world :: 'w
  exports_sent :: "'v vmap list"

definition NewLoader :: "'w \<Rightarrow> ('v, 'w) Loader" where
  "NewLoader w = \<lparr>l_graph = empty_graph, objects = [], next_addr = 0,
     componentNodes = [], serviceNodes = [], declareNodes = [], importConfigNodes = [], forEachNodes = [],
     cache = newValueCache, blocks = [], moduleExportIndex = 0,
     customComponentReg = NewCustomComponentRegistry None None, world = w, exports_sent = []\<rparr>"

text \<open>
  The objects behind the nodes, by address. The loader only follows addresses of allocated objects;
  reading another gives some object.
\<close>

definition heap :: "('v, 'w) Loader \<Rightarrow> node \<Rightarrow> 'v node_obj" where
  "heap l n = (case map_of (objects l) n of Some obj \<Rightarrow> obj | None \<Rightarrow> new_obj DeclareT [] None)"

definition set_obj :: "node \<Rightarrow> 'v node_obj \<Rightarrow> ('v, 'w) Loader \<Rightarrow> ('v, 'w) Loader" where
  "set_obj n obj l = l\<lparr>objects := map_put n obj (objects l)\<rparr>"

lemma heap_set_obj [simp]: "heap (set_obj n obj l) = (heap l)(n := obj)"
  by (simp add: heap_def set_obj_def fun_eq_iff)

lemma heap_NewLoader [simp]: "heap (NewLoader w) = (\<lambda>_. new_obj DeclareT [] None)"
  by (simp add: heap_def NewLoader_def fun_eq_iff)

lemma heap_updates [simp]:
  "heap (l\<lparr>next_addr := a\<rparr>) = heap l" "heap (l\<lparr>declareNodes := d\<rparr>) = heap l"
  "heap (l\<lparr>importConfigNodes := m\<rparr>) = heap l" "heap (l\<lparr>forEachNodes := m\<rparr>) = heap l"
  "heap (l\<lparr>customComponentReg := r\<rparr>) = heap l" "heap (l\<lparr>cache := c\<rparr>) = heap l"
  "heap (l\<lparr>world := w\<rparr>) = heap l" "heap (l\<lparr>componentNodes := ns\<rparr>) = heap l"
  "heap (l\<lparr>serviceNodes := ns\<rparr>) = heap l" "heap (l\<lparr>l_graph := g\<rparr>) = heap l"
  "heap (l\<lparr>blocks := bs\<rparr>) = heap l" "heap (l\<lparr>moduleExportIndex := i\<rparr>) = heap l"
  "heap (l\<lparr>exports_sent := e\<rparr>) = heap l"
  by (simp_all add: heap_def fun_eq_iff)

lemma set_obj_fields [simp]:
  "l_graph (set_obj n obj l) = l_graph l" "componentNodes (set_obj n obj l) = componentNodes l"
  "serviceNodes (set_obj n obj l) = serviceNodes l" "cache (set_obj n obj l) = cache l"
  "blocks (set_obj n obj l) = blocks l" "moduleExportIndex (set_obj n obj l) = moduleExportIndex l"
  "world (set_obj n obj l) = world l" "exports_sent (set_obj n obj l) = exports_sent l"
  "declareNodes (set_obj n obj l) = declareNodes l" "importConfigNodes (set_obj n obj l) = importConfigNodes l"
  "customComponentReg (set_obj n obj l) = customComponentReg l"
  by (simp_all add: set_obj_def)

definition isRootController :: "('v, 'w) Globals \<Rightarrow> bool" where
  "isRootController G \<longleftrightarrow> ControllerID G = []"

text \<open>Allocating an object; a node is its address and its ID.\<close>

definition alloc :: "string \<Rightarrow> 'v node_obj \<Rightarrow> ('v, 'w) Loader \<Rightarrow> node \<times> ('v, 'w) Loader" where
  "alloc i obj l = (let n = Node (next_addr l) i
     in (n, (set_obj n obj l)\<lparr>next_addr := next_addr l + 1\<rparr>))"

definition set_block :: "node \<Rightarrow> BlockStmt option \<Rightarrow> ('v, 'w) Loader \<Rightarrow> loader_panic + ('v, 'w) Loader" where
  "set_block n b l = (case UpdateBlock (NodeID n) b (heap l n) of
     None \<Rightarrow> Inl (BlockMismatch (NodeID n))
   | Some obj \<Rightarrow> Inr (set_obj n obj l))"

definition graph_res :: "graph_panic + graph \<Rightarrow> loader_panic + graph" where
  "graph_res r = (case r of Inl p \<Rightarrow> Inl (GraphPanic p) | Inr g \<Rightarrow> Inr g)"

definition block_id :: "BlockStmt \<Rightarrow> string" where
  "block_id b = ComponentID_String (BlockComponentID b)"

section \<open>Filling the graph\<close>

definition splitComponentBlocks :: "('v, 'w) Globals \<Rightarrow> BlockStmt list \<Rightarrow> BlockStmt list \<times> BlockStmt list" where
  "splitComponentBlocks G bs =
     (let serviceNames = map svc_Name (services G)
      in (filter (\<lambda>b. block_id b \<notin> set serviceNames) bs, filter (\<lambda>b. block_id b \<in> set serviceNames) bs))"

text \<open>The diagnostic of \<open>blockAlreadyDefined\<close>, or the map with the block added.\<close>

definition blockAlreadyDefined ::
  "(string, BlockStmt) gomap \<Rightarrow> string \<Rightarrow> BlockStmt \<Rightarrow> Diagnostic + (string, BlockStmt) gomap" where
  "blockAlreadyDefined blockMap i b =
     (case map_of blockMap i of
        Some orig \<Rightarrow> Inl (Diagnostic SeverityLevelError (BlockAlreadyDeclared i (Stmt_StartPos (Block orig)))
          (NamePos b) (Pos_Add (NamePos b) (int (length i) - 1)))
      | None \<Rightarrow> Inr (map_put i b blockMap))"

text \<open>
  The node for a block: the node of the previous graph with that ID, which must have one of the
  expected types, updated to the block; otherwise a new one.
\<close>

definition reuse_node ::
  "(node_type \<Rightarrow> bool) \<Rightarrow> string \<Rightarrow> BlockStmt option \<Rightarrow> node \<Rightarrow> ('v, 'w) Loader \<Rightarrow> loader_panic + ('v, 'w) Loader" where
  "reuse_node ok i b n l =
     (if \<not> ok (node_kind (heap l n)) then Inl (WrongNodeType i) else set_block n b l)"

definition declare_step ::
  "BlockStmt \<Rightarrow> Diagnostics \<times> (string, BlockStmt) gomap \<times> graph \<times> ('v, 'w) Loader \<Rightarrow>
   loader_panic + Diagnostics \<times> (string, BlockStmt) gomap \<times> graph \<times> ('v, 'w) Loader" where
  "declare_step b st = (case st of (diags, blockMap, g, l) \<Rightarrow>
     let i = block_id b in
     if Label b = ''declare'' then Inr (diags @ [block_error DeclareLabelInvalid b], blockMap, g, l)
     else case blockAlreadyDefined blockMap i b of
         Inl d \<Rightarrow> Inr (diags @ [d], blockMap, g, l)
       | Inr blockMap \<Rightarrow>
           res_bind
             (case GetByID (l_graph l) i of
                Some n \<Rightarrow> res_bind (reuse_node (\<lambda>k. k = DeclareT) i (Some b) n l) (\<lambda>l. Inr (n, l))
              | None \<Rightarrow> Inr (alloc i (new_obj DeclareT (Label b) (Some b)) l))
             (\<lambda>(n, l). res_bind (graph_res (Add n g))
                (\<lambda>g. Inr (diags, blockMap, g,
                   l\<lparr>customComponentReg := registerDeclare b (customComponentReg l),
                     declareNodes := map_put (label (heap l n)) n (declareNodes l)\<rparr>))))"

definition populateDeclareNodes ::
  "BlockStmt list \<Rightarrow> graph \<Rightarrow> ('v, 'w) Loader \<Rightarrow> loader_panic + Diagnostics \<times> graph \<times> ('v, 'w) Loader" where
  "populateDeclareNodes bs g l =
     res_bind (res_fold declare_step bs ([], [], g, l\<lparr>declareNodes := []\<rparr>)) (\<lambda>(diags, _, g, l). Inr (diags, g, l))"

definition service_step ::
  "service \<Rightarrow> Diagnostics \<times> graph \<times> ('v, 'w) Loader \<Rightarrow> loader_panic + Diagnostics \<times> graph \<times> ('v, 'w) Loader" where
  "service_step svc st = (case st of (diags, g, l) \<Rightarrow>
     let i = svc_Name svc in
     if GetByID g i \<noteq> None then Inr (diags @ [plain_error (ServiceIDExists i)], g, l)
     else res_bind
       (case GetByID (l_graph l) i of
          Some n \<Rightarrow> res_bind (reuse_node (\<lambda>k. k = ServiceT) i None n l) (\<lambda>l. Inr (n, l))
        | None \<Rightarrow> Inr (alloc i ((new_obj ServiceT [] None)\<lparr>DependsOn := svc_DependsOn svc, stability := svc_Stability svc\<rparr>) l))
       (\<lambda>(n, l). res_bind (graph_res (Add n g)) (\<lambda>g. Inr (diags, g, l))))"

definition service_block_step ::
  "('v, 'w) Globals \<Rightarrow> BlockStmt \<Rightarrow> Diagnostics \<times> graph \<times> ('v, 'w) Loader \<Rightarrow>
   loader_panic + Diagnostics \<times> graph \<times> ('v, 'w) Loader" where
  "service_block_step G b st = (case st of (diags, g, l) \<Rightarrow>
     let i = block_id b in
     if \<not> isRootController G then Inr (diags @ [block_error (ServiceBlockInModule i) b], g, l)
     else case GetByID g i of
         None \<Rightarrow> Inl (WrongNodeType i)
       | Some n \<Rightarrow>
           if node_kind (heap l n) \<noteq> ServiceT then Inl (WrongNodeType i)
           else case CheckAllowed (stability (heap l n)) (MinStability G) (''block '' @ CHR 0x22 # i @ [CHR 0x22]) of
               Some err \<Rightarrow> Inr (diags @ [block_error (StabilityRefused err) b], g, l)
             | None \<Rightarrow>
                 if block (heap l n) \<noteq> None then Inr (diags @ [block_error (DuplicateDefinition i) b], g, l)
                 else res_bind (set_block n (Some b) l) (\<lambda>l. Inr (diags, g, l)))"

definition populateServiceNodes ::
  "('v, 'w) Globals \<Rightarrow> BlockStmt list \<Rightarrow> graph \<Rightarrow> ('v, 'w) Loader \<Rightarrow>
   loader_panic + Diagnostics \<times> graph \<times> ('v, 'w) Loader" where
  "populateServiceNodes G bs g l =
     res_bind (res_fold service_step (if isRootController G then services G else []) ([], g, l))
       (res_fold (service_block_step G) bs)"

text \<open>
  The node for a configuration block, or the diagnostics when there is none; a new node is not
  kept when there are errors already. A node goes into the map of configuration nodes before the errors
  found so far are looked at; then it may still be left out of the graph.
\<close>

definition config_node ::
  "('v, 'w) Globals \<Rightarrow> BlockStmt \<Rightarrow> Diagnostics \<Rightarrow> ('v, 'w) Loader \<Rightarrow>
   loader_panic + Diagnostics + node \<times> ('v, 'w) Loader" where
  "config_node G b diags l =
     (case GetByID (l_graph l) (block_id b) of
        Some n \<Rightarrow> res_bind (set_block n (Some b) l) (\<lambda>l. Inr (Inr (n, l)))
      | None \<Rightarrow> (case NewConfigNode b (MinStability G) of
            Inl d \<Rightarrow> Inr (Inl (diags @ [d]))
          | Inr obj \<Rightarrow> if HasErrors diags then Inr (Inl diags) else Inr (Inr (alloc (block_id b) obj l))))"

definition config_step ::
  "('v, 'w) Globals \<Rightarrow> BlockStmt \<Rightarrow>
   Diagnostics \<times> ConfigNodeMap \<times> (string, BlockStmt) gomap \<times> graph \<times> ('v, 'w) Loader \<Rightarrow>
   loader_panic + Diagnostics \<times> ConfigNodeMap \<times> (string, BlockStmt) gomap \<times> graph \<times> ('v, 'w) Loader" where
  "config_step G b st = (case st of (diags, nodeMap, blockMap, g, l) \<Rightarrow>
     let i = block_id b in
     case blockAlreadyDefined blockMap i b of
       Inl d \<Rightarrow> Inr (diags @ [d], nodeMap, blockMap, g, l)
     | Inr blockMap \<Rightarrow>
         res_bind (config_node G b diags l)
           (\<lambda>r. case r of
              Inl diags \<Rightarrow> Inr (diags, nodeMap, blockMap, g, l)
            | Inr (n, l) \<Rightarrow>
                let (appendDiags, nodeMap) = config_Append n (heap l n) nodeMap; diags = diags @ appendDiags in
                if HasErrors diags then Inr (diags, nodeMap, blockMap, g, l)
                else let l = (if node_kind (heap l n) = ImportT
                       then l\<lparr>customComponentReg := registerImport (label (heap l n)) (customComponentReg l)\<rparr> else l)
                     in res_bind (graph_res (Add n g)) (\<lambda>g. Inr (diags, nodeMap, blockMap, g, l))))"

text \<open>An empty node for a missing logging or tracing block of the root controller.\<close>

definition default_node ::
  "('v, 'w) Globals \<Rightarrow> node option \<Rightarrow> node_type \<Rightarrow> string \<Rightarrow> graph \<Rightarrow> ('v, 'w) Loader \<Rightarrow>
   loader_panic + graph \<times> ('v, 'w) Loader" where
  "default_node G present ty i g l =
     (if present = None \<and> isRootController G
      then (let (n, l) = alloc i (new_obj ty [] None) l in res_bind (graph_res (Add n g)) (\<lambda>g. Inr (g, l)))
      else Inr (g, l))"

definition populateConfigBlockNodes ::
  "('v, 'w) Globals \<Rightarrow> 'v vmap \<Rightarrow> BlockStmt list \<Rightarrow> graph \<Rightarrow> ('v, 'w) Loader \<Rightarrow>
   loader_panic + Diagnostics \<times> graph \<times> ('v, 'w) Loader" where
  "populateConfigBlockNodes G args bs g l =
     res_bind (res_fold (config_step G) bs ([], NewConfigNodeMap, [], g, l))
       (\<lambda>(diags, nodeMap, _, g, l).
          let diags = diags @ config_Validate (heap l) (\<not> isRootController G) args nodeMap in
          res_bind (default_node G (logging nodeMap) LoggingT ''logging'' g l)
            (\<lambda>(g, l). res_bind (default_node G (tracing nodeMap) TracingT ''tracing'' g l)
               (\<lambda>(g, l). Inr (diags, g,
                  l\<lparr>importConfigNodes := importMap nodeMap, forEachNodes := foreachMap nodeMap\<rparr>))))"

definition createComponentNode ::
  "('v, 'w) Globals \<Rightarrow> 'v registry \<Rightarrow> string \<Rightarrow> BlockStmt \<Rightarrow> message + 'v node_obj" where
  "createComponentNode G reg componentName b =
     (if isCustomComponent (Some reg) (hd (Name b))
      then (let (ns, cname) = ExtractImportAndDeclare (GetBlockName b)
            in Inr ((new_obj CustomComponent (Label b) (Some b))\<lparr>importNamespace := ns, customComponentName := cname\<rparr>))
      else case registry_Get G componentName of
          Inl err \<Rightarrow> Inl (ComponentNotFound err)
        | Inr zero_exports \<Rightarrow>
            (if Label b = [] then Inl (ComponentNeedsLabel componentName)
             else Inr ((new_obj BuiltinComponent (Label b) (Some b))\<lparr>exports := zero_exports\<rparr>)))"

definition component_step ::
  "('v, 'w) Globals \<Rightarrow> BlockStmt \<Rightarrow> Diagnostics \<times> (string, BlockStmt) gomap \<times> graph \<times> ('v, 'w) Loader \<Rightarrow>
   loader_panic + Diagnostics \<times> (string, BlockStmt) gomap \<times> graph \<times> ('v, 'w) Loader" where
  "component_step G b st = (case st of (diags, blockMap, g, l) \<Rightarrow>
     let i = block_id b in
     case blockAlreadyDefined blockMap i b of
       Inl d \<Rightarrow> Inr (diags @ [d], blockMap, g, l)
     | Inr blockMap \<Rightarrow>
         (case GetByID (l_graph l) i of
            Some n \<Rightarrow>
              res_bind (reuse_node (\<lambda>k. k = BuiltinComponent \<or> k = CustomComponent) i (Some b) n l)
                (\<lambda>l. res_bind (graph_res (Add n g)) (\<lambda>g. Inr (diags, blockMap, g, l)))
          | None \<Rightarrow>
              (case createComponentNode G (customComponentReg l) (GetBlockName b) b of
                 Inl msg \<Rightarrow> Inr (diags @ [Diagnostic SeverityLevelError msg (NamePos b)
                   (Pos_Add (NamePos b) (int (length (GetBlockName b)) - 1))], blockMap, g, l)
               | Inr obj \<Rightarrow> (let (n, l) = alloc i obj l
                   in res_bind (graph_res (Add n g)) (\<lambda>g. Inr (diags, blockMap, g, l))))))"

definition populateComponentNodes ::
  "('v, 'w) Globals \<Rightarrow> BlockStmt list \<Rightarrow> graph \<Rightarrow> ('v, 'w) Loader \<Rightarrow>
   loader_panic + Diagnostics \<times> graph \<times> ('v, 'w) Loader" where
  "populateComponentNodes G bs g l =
     res_bind (res_fold (component_step G) bs ([], [], g, l)) (\<lambda>(diags, _, g, l). Inr (diags, g, l))"

section \<open>Wiring the graph\<close>

text \<open>References of a body to declare and import nodes, through nested declare and template blocks.\<close>

fun collectCustomComponentReferences :: "('v, 'w) Loader \<Rightarrow> Stmt list \<Rightarrow> node list \<Rightarrow> node list" where
  "collectCustomComponentReferences l [] refs = refs"
| "collectCustomComponentReferences l (AttributeStmt n v # stmts) refs = collectCustomComponentReferences l stmts refs"
| "collectCustomComponentReferences l (Block (BlockStmt name np lab lp bdy lc rc) # stmts) refs =
     collectCustomComponentReferences l stmts
       (if join name ''.'' = ''declare'' \<or> join name ''.'' = ''template''
        then collectCustomComponentReferences l bdy refs
        else case map_of (declareNodes l) (hd name) of
            Some n \<Rightarrow> ns_Add n refs
          | None \<Rightarrow> (case map_of (importConfigNodes l) (hd name) of Some n \<Rightarrow> ns_Add n refs | None \<Rightarrow> refs))"

definition findCustomComponentReferences :: "('v, 'w) Loader \<Rightarrow> BlockStmt option \<Rightarrow> node list" where
  "findCustomComponentReferences l b =
     (case b of None \<Rightarrow> [] | Some b \<Rightarrow> collectCustomComponentReferences l (Body b) [])"

definition Scope_Lookup :: "('v, 'w) Globals \<Rightarrow> 'v Scope \<Rightarrow> string \<Rightarrow> bool" where
  "Scope_Lookup G sc name \<longleftrightarrow> map_of (Variables sc) name \<noteq> None \<or> stdlib_Identifiers G name"

text \<open>One traversal of a block: the reference it makes, and its diagnostics.\<close>

definition reference_step ::
  "('v, 'w) Globals \<Rightarrow> graph \<Rightarrow> 'v Scope \<Rightarrow> 'v node_obj \<Rightarrow> Traversal \<Rightarrow> Reference list \<times> Diagnostics" where
  "reference_step G g sc obj t =
     (let name = Ident_Name (hd t) in
      case ResolveTraversal t g of
        Inr ref \<Rightarrow> ([ref], [])
      | Inl partial \<Rightarrow>
          if \<not> Scope_Lookup G sc name then
            ([], if node_kind obj = ForeachT then []
                 else [Diagnostic SeverityLevelError (ReferenceNotFound (Traversal_String partial))
                         (Ident_StartPos (hd t)) (Ident_EndPos (last t))])
          else if stdlib_Deprecated G name then ([], [])
          else if stdlib_Experimental G (Traversal_String t) then
            (case CheckAllowed StabilityExperimental (MinStability G) (Traversal_String t) of
               Some err \<Rightarrow> ([], [Diagnostic SeverityLevelError (StabilityRefused err)
                   (Ident_StartPos (hd t)) (Ident_StartPos (last t))])
             | None \<Rightarrow> ([], []))
          else ([], []))"

text \<open>\<open>None\<close> when the body holds a nil expression, on which the walk panics.\<close>

definition ComponentReferences ::
  "('v, 'w) Globals \<Rightarrow> graph \<Rightarrow> 'v Scope \<Rightarrow> 'v node_obj \<Rightarrow> (Reference list \<times> Diagnostics) option" where
  "ComponentReferences G g sc obj =
     (case (case block obj of None \<Rightarrow> Some [] | Some b \<Rightarrow> TraversalsFromBody (Body b)) of
        None \<Rightarrow> None
      | Some ts \<Rightarrow> Some (concat (map (fst \<circ> reference_step G g sc obj) ts),
                         concat (map (snd \<circ> reference_step G g sc obj) ts)))"

definition AddDataFlowEdgeTo :: "node \<Rightarrow> string \<Rightarrow> ('v, 'w) Loader \<Rightarrow> ('v, 'w) Loader" where
  "AddDataFlowEdgeTo n i l =
     set_obj n ((heap l n)\<lparr>dataFlowEdgeRefs := dataFlowEdgeRefs (heap l n) @ [i]\<rparr>) l"

text \<open>
  The field of the exports that a reference reads is looked up by reflection: \<open>field_flow\<close> gives
  nothing when there is none, and whether its type is one that receives data otherwise.
\<close>

definition data_flow_step :: "('v, 'w) Globals \<Rightarrow> node \<Rightarrow> Reference \<Rightarrow> ('v, 'w) Loader \<Rightarrow> ('v, 'w) Loader" where
  "data_flow_step G cn ref l =
     (let tn = Target ref in
      if \<not> is_component (heap l tn) then l
      else case exports (heap l tn) of
          None \<Rightarrow> l
        | Some e \<Rightarrow> (case field_flow G e (Traversal_String (Ref_Traversal ref)) of
              None \<Rightarrow> l
            | Some True \<Rightarrow> AddDataFlowEdgeTo cn (NodeID tn) l
            | Some False \<Rightarrow> AddDataFlowEdgeTo tn (NodeID cn) l))"

definition setDataFlowEdges :: "('v, 'w) Globals \<Rightarrow> node \<Rightarrow> Reference list \<Rightarrow> ('v, 'w) Loader \<Rightarrow> ('v, 'w) Loader" where
  "setDataFlowEdges G n refs l = (if is_component (heap l n) then fold (data_flow_step G n) refs l else l)"

definition add_edges :: "node \<Rightarrow> node list \<Rightarrow> graph \<Rightarrow> loader_panic + graph" where
  "add_edges n targets g = res_fold (\<lambda>m g. graph_res (AddEdge (Edge n m) g)) targets g"

definition service_dep_step ::
  "node \<Rightarrow> string \<Rightarrow> Diagnostics \<times> graph \<Rightarrow> loader_panic + Diagnostics \<times> graph" where
  "service_dep_step n depName st = (case st of (diags, g) \<Rightarrow>
     case GetByID g depName of
       None \<Rightarrow> Inr (diags @ [plain_error (InvalidServiceReference (NodeID n) depName)], g)
     | Some dep \<Rightarrow> res_bind (graph_res (AddEdge (Edge n dep) g)) (\<lambda>g. Inr (diags, g)))"

definition wireCustomComponentNode :: "('v, 'w) Loader \<Rightarrow> node \<Rightarrow> graph \<Rightarrow> loader_panic + graph" where
  "wireCustomComponentNode l cc g =
     (case map_of (importConfigNodes l) (importNamespace (heap l cc)) of
        Some importNode \<Rightarrow> graph_res (AddEdge (Edge cc importNode) g)
      | None \<Rightarrow> (case map_of (declareNodes l) (customComponentName (heap l cc)) of
            Some d \<Rightarrow> add_edges cc (findCustomComponentReferences l (block (heap l d))) g
          | None \<Rightarrow> Inr g))"

definition wireForEachNode :: "('v, 'w) Loader \<Rightarrow> node \<Rightarrow> graph \<Rightarrow> loader_panic + graph" where
  "wireForEachNode l fn g = add_edges fn (findCustomComponentReferences l (block (heap l fn))) g"

text \<open>The part of the loop body that depends on the type of the node.\<close>

definition wire_kind ::
  "('v, 'w) Loader \<Rightarrow> node \<Rightarrow> Diagnostics \<times> graph \<Rightarrow> loader_panic + Diagnostics \<times> graph" where
  "wire_kind l n st = (case st of (diags, g) \<Rightarrow>
     case node_kind (heap l n) of
       ServiceT \<Rightarrow> res_fold (service_dep_step n) (DependsOn (heap l n)) (diags, g)
     | DeclareT \<Rightarrow> res_bind (add_edges n (findCustomComponentReferences l (block (heap l n))) g) (\<lambda>g. Inr (diags, g))
     | CustomComponent \<Rightarrow> res_bind (wireCustomComponentNode l n g) (\<lambda>g. Inr (diags, g))
     | ForeachT \<Rightarrow> res_bind (wireForEachNode l n g) (\<lambda>g. Inr (diags, g))
     | _ \<Rightarrow> Inr (diags, g))"

definition wire_node ::
  "('v, 'w) Globals \<Rightarrow> node \<Rightarrow> Diagnostics \<times> graph \<times> ('v, 'w) Loader \<Rightarrow>
   loader_panic + Diagnostics \<times> graph \<times> ('v, 'w) Loader" where
  "wire_node G n st = (case st of (diags, g, l) \<Rightarrow>
     res_bind (wire_kind l n (diags, g)) (\<lambda>(diags, g).
       if node_kind (heap l n) = DeclareT then Inr (diags, g, l)
       else case ComponentReferences G g (GetContext (cache l)) (heap l n) of
           None \<Rightarrow> Inl (NilExpression (NodeID n))
         | Some (refs, nodeDiags) \<Rightarrow>
             res_bind (add_edges n (map Target refs) g)
               (\<lambda>g. Inr (diags @ nodeDiags, g, setDataFlowEdges G n refs l))))"

definition ResetDataFlowEdgeTo :: "graph \<Rightarrow> ('v, 'w) Loader \<Rightarrow> ('v, 'w) Loader" where
  "ResetDataFlowEdgeTo g l =
     fold (\<lambda>n l. if is_component (heap l n) then set_obj n ((heap l n)\<lparr>dataFlowEdgeRefs := []\<rparr>) l else l)
       (Nodes g) l"

definition wireGraphEdges ::
  "('v, 'w) Globals \<Rightarrow> graph \<Rightarrow> ('v, 'w) Loader \<Rightarrow> loader_panic + Diagnostics \<times> graph \<times> ('v, 'w) Loader" where
  "wireGraphEdges G g l = res_fold (wire_node G) (Nodes g) ([], g, ResetDataFlowEdgeTo g l)"

definition multierrToDiags :: "validate_error list \<Rightarrow> Diagnostics" where
  "multierrToDiags errs = map (plain_error \<circ> InvalidGraph) errs"

definition loadNewGraph ::
  "('v, 'w) Globals \<Rightarrow> 'v vmap \<Rightarrow> BlockStmt list \<Rightarrow> BlockStmt list \<Rightarrow> BlockStmt list \<Rightarrow> ('v, 'w) Loader \<Rightarrow>
   loader_panic + Diagnostics \<times> graph \<times> ('v, 'w) Loader" where
  "loadNewGraph G args componentBlocks configBlocks declareBlocks l =
     (let (componentBlocks, serviceBlocks) = splitComponentBlocks G componentBlocks in
      res_bind (populateServiceNodes G serviceBlocks empty_graph l) (\<lambda>(diags, g, l).
      res_bind (populateDeclareNodes declareBlocks g l) (\<lambda>(declareDiags, g, l).
      res_bind (populateConfigBlockNodes G args configBlocks g l) (\<lambda>(configDiags, g, l).
      res_bind (populateComponentNodes G componentBlocks g l) (\<lambda>(componentDiags, g, l).
      res_bind (wireGraphEdges G g l) (\<lambda>(wireDiags, g, l).
        let diags = diags @ declareDiags @ configDiags @ componentDiags @ wireDiags in
        case Validate g of
          None \<Rightarrow> Inl ValidateDiverged
        | Some errs \<Rightarrow> Inr (diags @ multierrToDiags errs, g, l)))))))"

section \<open>Evaluation\<close>

text \<open>
  \<open>Evaluate\<close> of the node types: declare nodes do nothing; argument and export nodes decode their
  block and keep the result; the others are \<open>eval_node\<close>.
\<close>

definition Evaluate ::
  "('v, 'w) Globals \<Rightarrow> node \<Rightarrow> 'v Scope \<Rightarrow> ('v, 'w) Loader \<Rightarrow> eval_error option \<times> ('v, 'w) Loader" where
  "Evaluate G n sc l =
     (let obj = heap l n; upd = (\<lambda>obj'. set_obj n obj' l) in
      case node_kind obj of
        DeclareT \<Rightarrow> (None, l)
      | ArgumentT \<Rightarrow> (case eval_argument G (block obj) sc of
            Inl err \<Rightarrow> (Some err, l)
          | Inr (d, opt) \<Rightarrow> (None, upd (obj\<lparr>defaultValue := d, optional := opt\<rparr>)))
      | ExportT \<Rightarrow> (case eval_export G (block obj) sc of
            Inl err \<Rightarrow> (Some err, l)
          | Inr v \<Rightarrow> (None, upd (obj\<lparr>export_value := v\<rparr>)))
      | _ \<Rightarrow> (case eval_node G n obj sc (world l) of
            (err, ex, im, w) \<Rightarrow> (err, (upd (obj\<lparr>exports := ex, imported := im\<rparr>))\<lparr>world := w\<rparr>)))"

definition any_value :: "('v, 'w) Globals \<Rightarrow> 'v any option \<Rightarrow> 'v any" where
  "any_value G v = (case v of None \<Rightarrow> nil_any G | Some v \<Rightarrow> v)"

definition postEvaluate ::
  "('v, 'w) Globals \<Rightarrow> node \<Rightarrow> eval_error option \<Rightarrow> ('v, 'w) Loader \<Rightarrow>
   loader_panic + eval_error option \<times> ('v, 'w) Loader" where
  "postEvaluate G n err l =
     (let obj = heap l n in
      if is_component obj then
        (case CacheExports (component_id obj) (exports obj) (cache l) of
           (None, c) \<Rightarrow> Inr (err, l\<lparr>cache := c\<rparr>)
         | (Some err2, c) \<Rightarrow>
             Inr (Some (case err of Some e \<Rightarrow> JoinedError e err2 | None \<Rightarrow> CachingError err2), l\<lparr>cache := c\<rparr>))
      else if node_kind obj = ArgumentT then
        (if GetModuleArgument (label obj) (cache l) = None then
           (if optional obj
            then Inr (err, l\<lparr>cache := CacheModuleArgument (label obj) (any_value G (defaultValue obj)) (cache l)\<rparr>)
            else Inr (Some (MissingArgument (label obj)), l))
         else Inr (err, l))
      else if node_kind obj = ImportT then
        (case updateImportContent (label obj) (imported obj) (customComponentReg l) of
           None \<Rightarrow> Inl (ImportNotRegistered (label obj))
         | Some reg \<Rightarrow> Inr (err, l\<lparr>customComponentReg := reg\<rparr>))
      else Inr (err, l))"

definition evaluate ::
  "('v, 'w) Globals \<Rightarrow> node \<Rightarrow> ('v, 'w) Loader \<Rightarrow> loader_panic + eval_error option \<times> ('v, 'w) Loader" where
  "evaluate G n l = (case Evaluate G n (GetContext (cache l)) l of (err, l) \<Rightarrow> postEvaluate G n err l)"

text \<open>The diagnostics inside an error, as \<open>errors.As\<close> finds them.\<close>

fun as_diagnostics :: "eval_error \<Rightarrow> Diagnostics option" where
  "as_diagnostics (EvalDiags ds) = Some ds"
| "as_diagnostics (JoinedError e err2) = as_diagnostics e"
| "as_diagnostics _ = None"

definition failed_diag :: "string \<Rightarrow> 'v node_obj \<Rightarrow> eval_error \<Rightarrow> Diagnostics" where
  "failed_diag what obj err =
     (case as_diagnostics err of Some ds \<Rightarrow> ds | None \<Rightarrow> [node_error (EvaluationFailed what) obj])"

definition cache_export_value :: "('v, 'w) Globals \<Rightarrow> node \<Rightarrow> ('v, 'w) Loader \<Rightarrow> ('v, 'w) Loader" where
  "cache_export_value G n l =
     (if node_kind (heap l n) = ExportT
      then l\<lparr>cache := CacheModuleExportValue (deepEqual G) (label (heap l n)) (any_value G (export_value (heap l n))) (cache l)\<rparr>
      else l)"

record ('v, 'w) apply_state =
  as_components :: "node list"
  as_componentIDs :: "(string, ComponentID) gomap"
  as_services :: "node list"
  as_diags :: Diagnostics
  as_loader :: "('v, 'w) Loader"

text \<open>
  The callback of the walk in \<open>Apply\<close>. It never returns an error, so that as many nodes as
  possible are evaluated; a panic ends the walk.
\<close>

definition apply_node :: "('v, 'w) Globals \<Rightarrow> (loader_panic, ('v, 'w) apply_state) walk_func" where
  "apply_node G n st =
     (let obj = heap (as_loader st) n;
          st = (if is_component obj
                then st\<lparr>as_components := as_components st @ [n],
                        as_componentIDs := map_put (ComponentID_String (component_id obj)) (component_id obj) (as_componentIDs st)\<rparr>
                else if node_kind obj = ServiceT then st\<lparr>as_services := as_services st @ [n]\<rparr> else st)
      in case evaluate G n (as_loader st) of
           Inl p \<Rightarrow> (Some p, st)
         | Inr (err, l) \<Rightarrow>
             (None, st\<lparr>as_loader := cache_export_value G n l,
                       as_diags := as_diags st @
                         (case err of None \<Rightarrow> []
                          | Some e \<Rightarrow> if is_component obj then failed_diag ''component'' (heap l n) e
                                     else if node_kind obj = ServiceT then failed_diag ''service'' (heap l n) e
                                     else [node_error (EvaluationFailed ''config block'') (heap l n)])\<rparr>))"

record 'v ApplyOptions =
  Args :: "'v vmap"
  ComponentBlocks :: "BlockStmt list"
  ConfigBlocks :: "BlockStmt list"
  DeclareBlocks :: "BlockStmt list"
  opt_CustomComponentRegistry :: "'v registry option"
  ArgScope :: "'v Scope option"

text \<open>The part of \<open>Apply\<close> before the new graph is built.\<close>

definition prepare :: "'v ApplyOptions \<Rightarrow> ('v, 'w) Loader \<Rightarrow> ('v, 'w) Loader" where
  "prepare opts l =
     (let c = (case ArgScope opts of None \<Rightarrow> cache l | Some sc \<Rightarrow> UpdateScopeVariables (Some (Variables sc)) (cache l));
          c = fold (\<lambda>(key, value). CacheModuleArgument key value) (Args opts) c
      in l\<lparr>cache := SyncModuleArgs (Args opts) c,
           customComponentReg := NewCustomComponentRegistry (opt_CustomComponentRegistry opts) (ArgScope opts)\<rparr>)"

text \<open>The module's exports are sent when they changed since they were sent last.\<close>

definition send_exports :: "('v, 'w) Globals \<Rightarrow> ('v, 'w) Loader \<Rightarrow> ('v, 'w) Loader" where
  "send_exports G l =
     (if has_OnExportsChange G \<and> ExportChangeIndex (cache l) \<noteq> moduleExportIndex l
      then l\<lparr>moduleExportIndex := ExportChangeIndex (cache l),
             exports_sent := exports_sent l @ [CreateModuleExports (cache l)]\<rparr>
      else l)"

text \<open>The part of \<open>Apply\<close> that evaluates the new graph.\<close>

definition apply_start :: "Diagnostics \<Rightarrow> ('v, 'w) Loader \<Rightarrow> ('v, 'w) apply_state" where
  "apply_start diags l =
     \<lparr>as_components = [], as_componentIDs = [], as_services = [], as_diags = diags,
      as_loader = l\<lparr>cache := ClearModuleExports (cache l)\<rparr>\<rparr>"

definition evaluate_graph ::
  "('v, 'w) Globals \<Rightarrow> 'v ApplyOptions \<Rightarrow> Diagnostics \<Rightarrow> graph \<Rightarrow> ('v, 'w) Loader \<Rightarrow>
   loader_panic + Diagnostics \<times> ('v, 'w) Loader" where
  "evaluate_graph G opts diags g l =
     (case WalkTopological g (Leaves g) (apply_node G) (apply_start diags l) of
        (Some p, st) \<Rightarrow> Inl p
      | (None, st) \<Rightarrow>
          (let l = (as_loader st)\<lparr>componentNodes := as_components st, serviceNodes := as_services st, l_graph := g\<rparr>
           in case SyncIDs (as_componentIDs st) (cache l) of
                (Some err, c) \<Rightarrow> Inr (as_diags st @ [plain_error (CacheSyncFailed err)], l\<lparr>cache := c\<rparr>)
              | (None, c) \<Rightarrow> Inr (as_diags st, send_exports G (l\<lparr>cache := c, blocks := ComponentBlocks opts\<rparr>))))"

definition Apply ::
  "('v, 'w) Globals \<Rightarrow> 'v ApplyOptions \<Rightarrow> ('v, 'w) Loader \<Rightarrow> loader_panic + Diagnostics \<times> ('v, 'w) Loader" where
  "Apply G opts l =
     res_bind (loadNewGraph G (Args opts) (ComponentBlocks opts) (ConfigBlocks opts) (DeclareBlocks opts) (prepare opts l))
       (\<lambda>(diags, g, l). if HasErrors diags then Inr (diags, l) else evaluate_graph G opts diags g l)"

section \<open>Accessors\<close>

definition loader_Variables :: "('v, 'w) Loader \<Rightarrow> 'v vmap" where
  "loader_Variables l = Variables (GetContext (cache l))"

definition Components :: "('v, 'w) Loader \<Rightarrow> node list" where
  "Components l = componentNodes l"

definition loader_Graph :: "('v, 'w) Loader \<Rightarrow> graph" where
  "loader_Graph l = Clone (l_graph l)"

end
