(* ===== verification/Loader_Graph.thy ===== *)
theory Loader_Graph
  imports Loader
begin

text \<open>
  Properties of the graph that the loader builds from a configuration: it is well formed, what the
  loader had loaded before is left in place while it is built, and every reference of a block to
  another node is an edge.
\<close>

section \<open>What building leaves in place\<close>

text \<open>The part of the loader that is only replaced once the new graph is accepted.\<close>

definition core :: "('v, 'w) Loader \<Rightarrow>
  graph \<times> node list \<times> node list \<times> 'v valueCache \<times> BlockStmt list \<times> 64 word \<times> 'w \<times> 'v vmap list" where
  "core l = (l_graph l, componentNodes l, serviceNodes l, cache l, blocks l, moduleExportIndex l, world l, exports_sent l)"

lemma core_updates [simp]:
  "core (set_obj n obj l) = core l" "core (l\<lparr>next_addr := a\<rparr>) = core l"
  "core (l\<lparr>declareNodes := d\<rparr>) = core l" "core (l\<lparr>importConfigNodes := m\<rparr>) = core l"
  "core (l\<lparr>forEachNodes := m\<rparr>) = core l" "core (l\<lparr>customComponentReg := r\<rparr>) = core l"
  by (simp_all add: core_def)

lemma graph_res_Inr [simp]: "graph_res r = Inr g \<longleftrightarrow> r = Inr g"
  by (auto simp: graph_res_def split: sum.splits)

lemmas step_splits = option.splits sum.splits if_splits prod.splits

text \<open>
  The values in the objects are well-formed. What the loader gets from outside is assumed to be,
  too, where that matters.
\<close>

definition opt_wf :: "'v any option \<Rightarrow> bool" where
  "opt_wf v \<longleftrightarrow> (\<forall>x. v = Some x \<longrightarrow> any_wf x)"

definition obj_wf :: "'v node_obj \<Rightarrow> bool" where
  "obj_wf obj \<longleftrightarrow> opt_wf (exports obj) \<and> opt_wf (defaultValue obj) \<and> opt_wf (export_value obj)"

definition heap_wf :: "('v, 'w) Loader \<Rightarrow> bool" where
  "heap_wf l \<longleftrightarrow> (\<forall>n. obj_wf (heap l n))"

definition globals_wf :: "('v, 'w) Globals \<Rightarrow> bool" where
  "globals_wf G \<longleftrightarrow> any_wf (nil_any G) \<and>
     (\<forall>name e. registry_Get G name = Inr e \<longrightarrow> opt_wf e) \<and>
     (\<forall>b sc d opt. eval_argument G b sc = Inr (d, opt) \<longrightarrow> opt_wf d) \<and>
     (\<forall>b sc v. eval_export G b sc = Inr v \<longrightarrow> opt_wf v) \<and>
     (\<forall>n obj sc w err ex im w'. eval_node G n obj sc w = (err, ex, im, w') \<longrightarrow> opt_wf ex)"

lemma opt_wf_simps [simp]: "opt_wf None" "opt_wf (Some x) \<longleftrightarrow> any_wf x"
  by (simp_all add: opt_wf_def)

lemma obj_wf_simps [simp]:
  "obj_wf (new_obj ty lab b)" "obj_wf (obj\<lparr>block := b\<rparr>) = obj_wf obj"
  "obj_wf (obj\<lparr>dataFlowEdgeRefs := e\<rparr>) = obj_wf obj" "obj_wf (obj\<lparr>DependsOn := d\<rparr>) = obj_wf obj"
  "obj_wf (obj\<lparr>stability := st\<rparr>) = obj_wf obj" "obj_wf (obj\<lparr>importNamespace := i\<rparr>) = obj_wf obj"
  "obj_wf (obj\<lparr>customComponentName := i\<rparr>) = obj_wf obj"
  by (simp_all add: obj_wf_def new_obj_def)

lemma heap_wf_put: "heap_wf l \<Longrightarrow> obj_wf obj \<Longrightarrow> heap_wf (set_obj n obj l)"
  by (simp add: heap_wf_def)

lemma heap_wf_updates [simp]:
  "heap_wf (l\<lparr>next_addr := a\<rparr>) = heap_wf l" "heap_wf (l\<lparr>declareNodes := d\<rparr>) = heap_wf l"
  "heap_wf (l\<lparr>importConfigNodes := m\<rparr>) = heap_wf l" "heap_wf (l\<lparr>forEachNodes := m\<rparr>) = heap_wf l"
  "heap_wf (l\<lparr>customComponentReg := r\<rparr>) = heap_wf l" "heap_wf (l\<lparr>cache := c\<rparr>) = heap_wf l"
  "heap_wf (l\<lparr>world := w\<rparr>) = heap_wf l" "heap_wf (l\<lparr>componentNodes := ns\<rparr>) = heap_wf l"
  "heap_wf (l\<lparr>serviceNodes := ns\<rparr>) = heap_wf l" "heap_wf (l\<lparr>l_graph := g\<rparr>) = heap_wf l"
  "heap_wf (l\<lparr>blocks := bs\<rparr>) = heap_wf l" "heap_wf (l\<lparr>moduleExportIndex := i\<rparr>) = heap_wf l"
  "heap_wf (l\<lparr>exports_sent := e\<rparr>) = heap_wf l"
  by (simp_all add: heap_wf_def)

text \<open>
  A step keeps the loader: its core, that its objects are well-formed, and all of the objects that were there
  before but their blocks and their data flow edges.
\<close>

definition kept_obj :: "'v node_obj \<Rightarrow> 'v node_obj \<Rightarrow> bool" where
  "kept_obj a b \<longleftrightarrow> a\<lparr>block := None, dataFlowEdgeRefs := []\<rparr> = b\<lparr>block := None, dataFlowEdgeRefs := []\<rparr>"

lemma kept_obj_simps [simp]:
  "kept_obj a a" "kept_obj a (b\<lparr>block := c\<rparr>) = kept_obj a b" "kept_obj a (b\<lparr>dataFlowEdgeRefs := d\<rparr>) = kept_obj a b"
  by (simp_all add: kept_obj_def)

lemma kept_obj_trans: "kept_obj a b \<Longrightarrow> kept_obj b c \<Longrightarrow> kept_obj a c"
  by (simp add: kept_obj_def)

lemma kept_obj_fields:
  "kept_obj a b \<Longrightarrow> node_kind b = node_kind a \<and> label b = label a \<and> component_id b = component_id a \<and> exports b = exports a \<and>
     export_value b = export_value a \<and> defaultValue b = defaultValue a \<and> imported b = imported a"
  by (cases a; cases b) (simp add: kept_obj_def)

lemma next_addr_set_obj [simp]: "next_addr (set_obj n obj l) = next_addr l"
  by (simp add: set_obj_def)

definition keeps :: "('v, 'w) Globals \<Rightarrow> ('v, 'w) Loader \<Rightarrow> ('v, 'w) Loader \<Rightarrow> bool" where
  "keeps G l l' \<longleftrightarrow> core l' = core l \<and> (globals_wf G \<longrightarrow> heap_wf l \<longrightarrow> heap_wf l') \<and>
     next_addr l \<le> next_addr l' \<and> (\<forall>n. addr n < next_addr l \<longrightarrow> kept_obj (heap l n) (heap l' n))"

lemma keeps_refl [simp]: "keeps G l l"
  by (simp add: keeps_def)

lemma keeps_trans: "keeps G a b \<Longrightarrow> keeps G b c \<Longrightarrow> keeps G a c"
  unfolding keeps_def by (auto intro: kept_obj_trans order_trans dest: less_le_trans)

lemma keeps_updates [simp]:
  "keeps G l (l'\<lparr>declareNodes := d\<rparr>) = keeps G l l'" "keeps G l (l'\<lparr>importConfigNodes := m\<rparr>) = keeps G l l'"
  "keeps G l (l'\<lparr>forEachNodes := m\<rparr>) = keeps G l l'" "keeps G l (l'\<lparr>customComponentReg := r\<rparr>) = keeps G l l'"
  by (simp_all add: keeps_def)

lemma keeps_alloc [simp]: "alloc i obj l = (n, l') \<Longrightarrow> (globals_wf G \<Longrightarrow> obj_wf obj) \<Longrightarrow> keeps G l l'"
  by (auto simp: alloc_def Let_def keeps_def intro: heap_wf_put)

lemma UpdateBlock_Some: "UpdateBlock i b obj = Some obj' \<Longrightarrow> \<exists>c. obj' = obj\<lparr>block := c\<rparr>"
  by (auto simp: UpdateBlock_def Let_def split: option.splits node_type.splits if_splits)

lemma keeps_set_block [simp]: "set_block n b l = Inr l' \<Longrightarrow> keeps G l l'"
  by (auto simp: set_block_def keeps_def heap_wf_def dest!: UpdateBlock_Some split: option.splits)

lemma keeps_reuse [simp]: "reuse_node ok i b n l = Inr l' \<Longrightarrow> keeps G l l'"
  by (auto simp: reuse_node_def split: if_splits)

definition built :: "('v, 'w) Globals \<Rightarrow> ('v, 'w) Loader \<Rightarrow> graph \<Rightarrow> ('v, 'w) Loader \<Rightarrow> bool" where
  "built G l0 g l \<longleftrightarrow> graph_inv g \<and> keeps G l0 l"

lemma built_Add: "built G l0 g l \<Longrightarrow> Add n g = Inr g' \<Longrightarrow> keeps G l l' \<Longrightarrow> built G l0 g' l'"
  by (auto simp: built_def intro: Add_inv keeps_trans)

lemma built_keeps: "built G l0 g l \<Longrightarrow> keeps G l l' \<Longrightarrow> built G l0 g l'"
  by (auto simp: built_def intro: keeps_trans)

lemma declare_step_built:
  assumes "built G l0 g l" "declare_step b (ds, bm, g, l) = Inr (ds', bm', g', l')"
  shows "built G l0 g' l'"
  using assms
  by (auto simp: declare_step_def Let_def res_bind_Inr elim!: built_Add split: step_splits)

lemma service_step_built:
  assumes "built G l0 g l" "service_step s (ds, g, l) = Inr (ds', g', l')"
  shows "built G l0 g' l'"
  using assms
  by (auto simp: service_step_def Let_def res_bind_Inr elim!: built_Add split: step_splits)

lemma service_block_step_built:
  assumes "built G l0 g l" "service_block_step G b (ds, g, l) = Inr (ds', g', l')"
  shows "built G l0 g' l'"
  using assms
  by (auto simp: service_block_step_def Let_def res_bind_Inr elim!: built_keeps split: step_splits)

lemma config_node_keeps: "config_node G b ds l = Inr (Inr (n, l')) \<Longrightarrow> keeps G l l'"
  by (auto simp: config_node_def NewConfigNode_def Let_def res_bind_Inr split: step_splits)

lemma config_step_built:
  assumes "built G l0 g l" "config_step G b (ds, m, bm, g, l) = Inr (ds', m', bm', g', l')"
  shows "built G l0 g' l'"
proof (cases "blockAlreadyDefined bm (block_id b) b")
  case (Inl d)
  with assms show ?thesis by (simp add: config_step_def)
next
  case bm: (Inr bm1)
  show ?thesis
  proof (cases "config_node G b ds l")
    case (Inl p)
    with assms bm show ?thesis by (simp add: config_step_def)
  next
    case node: (Inr r)
    show ?thesis
    proof (cases r)
      case (Inl ds1)
      with assms bm node show ?thesis by (simp add: config_step_def)
    next
      case (Inr nl)
      obtain n l1 where nl: "nl = (n, l1)" by (cases nl)
      obtain ds2 m2 where ap: "config_Append n (heap l1 n) m = (ds2, m2)" by (cases "config_Append n (heap l1 n) m")
      have core: "keeps G l l1" using node Inr nl by (simp add: config_node_keeps)
      show ?thesis
      proof (cases "HasErrors (ds @ ds2)")
        case True
        with assms core show ?thesis
          by (auto simp: config_step_def bm node Inr nl ap simp del: HasErrors_append intro: built_keeps)
      next
        case False
        then have "Add n g = Inr g' \<and> keeps G l1 l'"
          using assms(2)
          by (auto simp: config_step_def bm node Inr nl ap res_bind_Inr Let_def simp del: HasErrors_append split: if_splits)
        with assms(1) core show ?thesis by (auto intro: built_Add keeps_trans)
      qed
    qed
  qed
qed

lemma createComponentNode_wf: "globals_wf G \<Longrightarrow> createComponentNode G reg name b = Inr obj \<Longrightarrow> obj_wf obj"
  by (auto simp: createComponentNode_def globals_wf_def obj_wf_def new_obj_def split: if_splits sum.splits prod.splits)

lemma component_step_built:
  assumes "built G l0 g l" "component_step G b (ds, bm, g, l) = Inr (ds', bm', g', l')"
  shows "built G l0 g' l'"
  using assms
  by (auto simp: component_step_def Let_def res_bind_Inr createComponentNode_wf elim!: built_Add split: step_splits)

lemma default_node_built:
  assumes "built G l0 g l" "default_node G present ty i g l = Inr (g', l')"
  shows "built G l0 g' l'"
  using assms
  by (auto simp: default_node_def Let_def res_bind_Inr elim!: built_Add split: step_splits)

lemma populateServiceNodes_built:
  assumes "built G l0 g l" "populateServiceNodes G bs g l = Inr (ds, g', l')"
  shows "built G l0 g' l'"
proof -
  let ?I = "\<lambda>(ds :: Diagnostics, g, l). built G l0 g l"
  obtain st where st: "res_fold service_step (if isRootController G then services G else []) ([], g, l) = Inr st"
    "res_fold (service_block_step G) bs st = Inr (ds, g', l')"
    using assms(2) by (auto simp: populateServiceNodes_def res_bind_Inr)
  have "?I st"
    by (rule res_fold_invariant [OF _ _ st(1)]) (use assms(1) in \<open>auto intro: service_step_built\<close>)
  then have "?I (ds, g', l')"
    by (intro res_fold_invariant [OF _ _ st(2), of ?I]) (auto intro: service_block_step_built)
  then show ?thesis by simp
qed

lemma populateDeclareNodes_built:
  assumes "built G l0 g l" "populateDeclareNodes bs g l = Inr (ds, g', l')"
  shows "built G l0 g' l'"
proof -
  let ?I = "\<lambda>(ds :: Diagnostics, bm :: (string, BlockStmt) gomap, g, l). built G l0 g l"
  obtain bm where st: "res_fold declare_step bs ([], [], g, l\<lparr>declareNodes := []\<rparr>) = Inr (ds, bm, g', l')"
    using assms(2) by (auto simp: populateDeclareNodes_def res_bind_Inr)
  have "?I (ds, bm, g', l')"
    by (rule res_fold_invariant [OF _ _ st]) (use assms(1) in \<open>auto intro: declare_step_built built_keeps\<close>)
  then show ?thesis by simp
qed

lemma populateConfigBlockNodes_built:
  assumes "built G l0 g l" "populateConfigBlockNodes G args bs g l = Inr (ds, g', l')"
  shows "built G l0 g' l'"
proof -
  let ?I = "\<lambda>(ds :: Diagnostics, m :: ConfigNodeMap, bm :: (string, BlockStmt) gomap, g, l). built G l0 g l"
  obtain ds1 m bm g1 l1 g2 l2 l3 where st: "res_fold (config_step G) bs ([], NewConfigNodeMap, [], g, l) = Inr (ds1, m, bm, g1, l1)"
    "default_node G (logging m) LoggingT ''logging'' g1 l1 = Inr (g2, l2)"
    "default_node G (tracing m) TracingT ''tracing'' g2 l2 = Inr (g', l3)"
    "keeps G l3 l'"
    using assms(2) by (auto simp: populateConfigBlockNodes_def Let_def res_bind_Inr)
  have "?I (ds1, m, bm, g1, l1)"
    by (rule res_fold_invariant [OF _ _ st(1)]) (use assms(1) in \<open>auto intro: config_step_built\<close>)
  then have "built G l0 g1 l1" by simp
  from default_node_built [OF default_node_built [OF this st(2)] st(3)] show ?thesis
    using st(4) by (rule built_keeps)
qed

lemma populateComponentNodes_built:
  assumes "built G l0 g l" "populateComponentNodes G bs g l = Inr (ds, g', l')"
  shows "built G l0 g' l'"
proof -
  let ?I = "\<lambda>(ds :: Diagnostics, bm :: (string, BlockStmt) gomap, g, l). built G l0 g l"
  obtain bm where st: "res_fold (component_step G) bs ([], [], g, l) = Inr (ds, bm, g', l')"
    using assms(2) by (auto simp: populateComponentNodes_def res_bind_Inr)
  have "?I (ds, bm, g', l')"
    by (rule res_fold_invariant [OF _ _ st]) (use assms(1) in \<open>auto intro: component_step_built\<close>)
  then show ?thesis by simp
qed

section \<open>Wiring\<close>

text \<open>What wiring changes: edges are added, and data flow edges are recorded in the objects.\<close>

definition wired :: "graph \<Rightarrow> graph \<Rightarrow> bool" where
  "wired g g' \<longleftrightarrow> nodes g' = nodes g \<and> nodeByID g' = nodeByID g \<and> edge_rel g \<subseteq> edge_rel g' \<and>
     (graph_inv g \<longrightarrow> graph_inv g')"

definition same_obj :: "'v node_obj \<Rightarrow> 'v node_obj \<Rightarrow> bool" where
  "same_obj a b \<longleftrightarrow> a\<lparr>dataFlowEdgeRefs := []\<rparr> = b\<lparr>dataFlowEdgeRefs := []\<rparr>"

definition same_loader :: "('v, 'w) Loader \<Rightarrow> ('v, 'w) Loader \<Rightarrow> bool" where
  "same_loader l l' \<longleftrightarrow> core l' = core l \<and> next_addr l' = next_addr l \<and> (\<forall>n. same_obj (heap l n) (heap l' n)) \<and>
     declareNodes l' = declareNodes l \<and> importConfigNodes l' = importConfigNodes l"

lemma wired_refl [simp]: "wired g g"
  by (simp add: wired_def)

lemma wired_trans: "wired a b \<Longrightarrow> wired b c \<Longrightarrow> wired a c"
  by (auto simp: wired_def)

lemma wired_GetByID: "wired g g' \<Longrightarrow> GetByID g' = GetByID g"
  by (simp add: wired_def GetByID_def fun_eq_iff)

lemma same_obj_refl [simp]: "same_obj a a"
  by (simp add: same_obj_def)

lemma same_obj_fields:
  "same_obj a b \<Longrightarrow> node_kind b = node_kind a \<and> block b = block a"
  by (cases a; cases b) (simp add: same_obj_def)

lemma same_loader_refl [simp]: "same_loader l l"
  by (simp add: same_loader_def)

lemma same_obj_kept: "same_obj a b \<Longrightarrow> obj_wf a = obj_wf b \<and> kept_obj a b"
  by (cases a; cases b) (simp add: same_obj_def kept_obj_def obj_wf_def)

lemma same_loader_keeps:
  assumes "same_loader l l'"
  shows "keeps G l l'"
proof -
  have "obj_wf (heap l n) = obj_wf (heap l' n) \<and> kept_obj (heap l n) (heap l' n)" for n
    using assms same_obj_kept [of "heap l n" "heap l' n"] by (simp add: same_loader_def)
  with assms show ?thesis by (simp add: same_loader_def keeps_def heap_wf_def)
qed

lemma same_loader_trans: "same_loader a b \<Longrightarrow> same_loader b c \<Longrightarrow> same_loader a c"
  by (simp add: same_loader_def same_obj_def)

lemma AddEdge_wired:
  assumes "AddEdge (Edge a b) g = Inr g'"
  shows "wired g g'" "(a, b) \<in> edge_rel g'"
  using assms AddEdge_inv [of g "Edge a b" g']
  by (auto simp: wired_def AddEdge_def edge_rel_def split: if_splits)

lemma add_edges_wired:
  assumes "add_edges n ms g = Inr g'"
  shows "wired g g'" "\<forall>m \<in> set ms. (n, m) \<in> edge_rel g'"
  using assms unfolding add_edges_def
proof (induction ms arbitrary: g)
  case (Cons m ms)
  {
    case 1
    then obtain g1 where g1: "AddEdge (Edge n m) g = Inr g1"
      "res_fold (\<lambda>m g. graph_res (AddEdge (Edge n m) g)) ms g1 = Inr g'" by (auto simp: res_bind_Inr)
    then show ?case using Cons.IH(1) AddEdge_wired(1) wired_trans by blast
  next
    case 2
    then obtain g1 where g1: "AddEdge (Edge n m) g = Inr g1"
      "res_fold (\<lambda>m g. graph_res (AddEdge (Edge n m) g)) ms g1 = Inr g'" by (auto simp: res_bind_Inr)
    have "(n, m) \<in> edge_rel g'"
      using AddEdge_wired(2) [OF g1(1)] Cons.IH(1) [OF g1(2)] unfolding wired_def by blast
    with Cons.IH(2) [OF g1(2)] show ?case by simp
  }
qed simp_all

lemma wire_kind_wired: "wire_kind l n (ds, g) = Inr (ds', g') \<Longrightarrow> wired g g' \<and> (\<exists>x. ds' = ds @ x)"
proof -
  have svc: "res_fold (service_dep_step n) deps (ds, g) = Inr (ds', g') \<Longrightarrow> wired g g' \<and> (\<exists>x. ds' = ds @ x)" for deps ds g
  proof (induction deps arbitrary: ds g)
    case (Cons d deps)
    then obtain ds1 g1 where "service_dep_step n d (ds, g) = Inr (ds1, g1)" "res_fold (service_dep_step n) deps (ds1, g1) = Inr (ds', g')"
      by (auto simp: res_bind_Inr)
    moreover from this(1) have "wired g g1 \<and> (\<exists>x. ds1 = ds @ x)"
      by (auto simp: service_dep_step_def res_bind_Inr AddEdge_wired split: option.splits)
    ultimately show ?case using Cons.IH wired_trans by fastforce
  qed simp
  assume "wire_kind l n (ds, g) = Inr (ds', g')"
  then show ?thesis
    by (cases "node_kind (heap l n)")
      (auto simp: wire_kind_def wireCustomComponentNode_def wireForEachNode_def res_bind_Inr svc
        AddEdge_wired add_edges_wired(1) split: option.splits)
qed

lemma same_AddDataFlowEdgeTo [simp]: "same_loader l (AddDataFlowEdgeTo n i l)"
  by (simp add: same_loader_def AddDataFlowEdgeTo_def same_obj_def)

lemma same_setDataFlowEdges: "same_loader l (setDataFlowEdges G n refs l)"
proof -
  have step: "same_loader l (data_flow_step G n ref l)" for ref l
    by (auto simp: data_flow_step_def Let_def split: option.splits bool.splits)
  have "same_loader l (fold (data_flow_step G n) refs l)" for l
  proof (induction refs arbitrary: l)
    case (Cons r refs)
    show ?case using same_loader_trans [OF step Cons.IH] by simp
  qed simp
  then show ?thesis by (simp add: setDataFlowEdges_def)
qed

lemma ComponentReferences_cong:
  assumes "GetByID g = GetByID g'" "node_kind obj = node_kind obj'" "block obj = block obj'"
  shows "ComponentReferences G g sc obj = ComponentReferences G g' sc obj'"
proof -
  have "reference_step G g sc obj = reference_step G g' sc obj'"
    by (intro ext) (simp only: reference_step_def assms(2) ResolveTraversal_cong [OF assms(1)])
  then show ?thesis unfolding ComponentReferences_def assms(3) by (simp only:)
qed

text \<open>One node: its references are edges afterwards, and their diagnostics are reported.\<close>

definition node_wired :: "('v, 'w) Globals \<Rightarrow> graph \<Rightarrow> ('v, 'w) Loader \<Rightarrow> node \<Rightarrow> Diagnostics \<Rightarrow> graph \<Rightarrow> bool" where
  "node_wired G g l n ds g' \<longleftrightarrow> (node_kind (heap l n) \<noteq> DeclareT \<longrightarrow>
     (\<exists>refs ds0. ComponentReferences G g (GetContext (cache l)) (heap l n) = Some (refs, ds0) \<and>
        set ds0 \<subseteq> set ds \<and> (\<forall>r \<in> set refs. (n, Target r) \<in> edge_rel g')))"

lemma wire_node_wired:
  assumes "wire_node G n (ds, g, l) = Inr (ds', g', l')"
  shows "wired g g' \<and> same_loader l l' \<and> (\<exists>x. ds' = ds @ x) \<and> node_wired G g l n ds' g'"
proof -
  obtain ds1 g1 where k: "wire_kind l n (ds, g) = Inr (ds1, g1)"
    using assms by (auto simp: wire_node_def res_bind_Inr)
  then have w1: "wired g g1" "\<exists>x. ds1 = ds @ x" using wire_kind_wired by blast+
  show ?thesis
  proof (cases "node_kind (heap l n) = DeclareT")
    case True
    with assms k w1 show ?thesis by (auto simp: wire_node_def node_wired_def)
  next
    case False
    have cong: "ComponentReferences G g1 (GetContext (cache l)) (heap l n) =
      ComponentReferences G g (GetContext (cache l)) (heap l n)"
      using wired_GetByID [OF w1(1)] by (intro ComponentReferences_cong) auto
    obtain refs ds0 where refs: "ComponentReferences G g (GetContext (cache l)) (heap l n) = Some (refs, ds0)"
      using assms k False cong by (auto simp: wire_node_def split: option.splits)
    with assms k False cong have "add_edges n (map Target refs) g1 = Inr g'" "ds' = ds1 @ ds0"
      "l' = setDataFlowEdges G n refs l"
      by (auto simp: wire_node_def res_bind_Inr)
    with w1 refs add_edges_wired [of n "map Target refs" g1 g'] same_setDataFlowEdges show ?thesis
      by (auto simp: node_wired_def intro: wired_trans)
  qed
qed

lemma node_wired_mono:
  assumes "node_wired G g l n ds g'" "wired g' g''" "set ds \<subseteq> set ds'"
  shows "node_wired G g l n ds' g''"
  using assms unfolding node_wired_def wired_def by blast

lemma node_wired_shift:
  assumes "node_wired G g1 l1 n ds g'" "wired g g1" "same_loader l l1"
  shows "node_wired G g l n ds g'"
proof -
  have "same_obj (heap l n) (heap l1 n)" "cache l1 = cache l" using assms(3) by (auto simp: same_loader_def core_def)
  moreover from this(1) have "ComponentReferences G g1 (GetContext (cache l1)) (heap l1 n) =
      ComponentReferences G g (GetContext (cache l1)) (heap l n)"
    using wired_GetByID [OF assms(2)] by (intro ComponentReferences_cong) (auto dest: same_obj_fields)
  ultimately show ?thesis using assms(1) by (auto simp: node_wired_def dest: same_obj_fields)
qed

lemma wire_nodes_wired:
  assumes "res_fold (wire_node G) ns (ds, g, l) = Inr (ds', g', l')"
  shows "wired g g' \<and> same_loader l l' \<and> (\<exists>x. ds' = ds @ x) \<and> (\<forall>n \<in> set ns. node_wired G g l n ds' g')"
  using assms
proof (induction ns arbitrary: ds g l)
  case (Cons n ns)
  then obtain ds1 g1 l1 where 1: "wire_node G n (ds, g, l) = Inr (ds1, g1, l1)"
    "res_fold (wire_node G) ns (ds1, g1, l1) = Inr (ds', g', l')" by (auto simp: res_bind_Inr)
  note one = wire_node_wired [OF 1(1)] and rest = Cons.IH [OF 1(2)]
  have "wired g g'" "same_loader l l'" "\<exists>x. ds' = ds @ x"
    using one rest wired_trans same_loader_trans by fastforce+
  moreover have "node_wired G g l n ds' g'"
    using one rest by (auto intro: node_wired_mono)
  moreover have "\<forall>m \<in> set ns. node_wired G g l m ds' g'"
    using one rest by (auto intro: node_wired_shift)
  ultimately show ?case by simp
qed simp

lemma same_ResetDataFlowEdgeTo: "same_loader l (ResetDataFlowEdgeTo g l)"
proof -
  have "same_loader l (fold (\<lambda>n l. if is_component (heap l n)
      then set_obj n ((heap l n)\<lparr>dataFlowEdgeRefs := []\<rparr>) l else l) ns l)" for ns
  proof (induction ns arbitrary: l)
    case (Cons n ns)
    have "same_loader l (if is_component (heap l n)
      then set_obj n ((heap l n)\<lparr>dataFlowEdgeRefs := []\<rparr>) l else l)"
      by (simp add: same_loader_def same_obj_def)
    from same_loader_trans [OF this Cons.IH] show ?case by simp
  qed simp
  then show ?thesis by (simp add: ResetDataFlowEdgeTo_def)
qed

section \<open>The graph of a configuration\<close>

lemma loadNewGraph_parts:
  assumes "loadNewGraph G args cbs fbs dbs l = Inr (diags, g, l')"
  obtains g0 l0 ds errs where "built G l g0 l0" "wired g0 g" "same_loader l0 l'" "vertices g0 = vertices g"
    "set ds \<subseteq> set diags" "\<forall>n \<in> vertices g. node_wired G g0 l0 n ds g"
    "Validate g = Some errs" "set (multierrToDiags errs) \<subseteq> set diags"
proof -
  obtain cb sb where split: "splitComponentBlocks G cbs = (cb, sb)" by (cases "splitComponentBlocks G cbs")
  obtain ds1 g1 l1 ds2 g2 l2 ds3 g3 l3 ds4 g4 l4 ds5 errs where
    1: "populateServiceNodes G sb empty_graph l = Inr (ds1, g1, l1)" and
    2: "populateDeclareNodes dbs g1 l1 = Inr (ds2, g2, l2)" and
    3: "populateConfigBlockNodes G args fbs g2 l2 = Inr (ds3, g3, l3)" and
    4: "populateComponentNodes G cb g3 l3 = Inr (ds4, g4, l4)" and
    5: "wireGraphEdges G g4 l4 = Inr (ds5, g, l')" and
    V: "Validate g = Some errs" and d: "diags = (ds1 @ ds2 @ ds3 @ ds4 @ ds5) @ multierrToDiags errs"
    using assms by (auto simp: loadNewGraph_def split res_bind_Inr Let_def split: option.splits)
  have "built G l empty_graph l" by (simp add: built_def graph_inv_empty)
  from populateComponentNodes_built [OF populateConfigBlockNodes_built [OF populateDeclareNodes_built
      [OF populateServiceNodes_built [OF this 1] 2] 3] 4]
  have b: "built G l g4 (ResetDataFlowEdgeTo g4 l4)"
    using built_keeps same_loader_keeps [OF same_ResetDataFlowEdgeTo] by blast
  have w: "wired g4 g" "same_loader (ResetDataFlowEdgeTo g4 l4) l'"
    "\<forall>n \<in> set (nodes g4). node_wired G g4 (ResetDataFlowEdgeTo g4 l4) n ds5 g"
    using wire_nodes_wired [OF 5 [unfolded wireGraphEdges_def]] by simp_all
  have "vertices g4 = vertices g" using w(1) by (simp add: wired_def vertices_def)
  with b w V d show thesis by (intro that [of g4 _ ds5 errs]) (auto simp: vertices_def)
qed

lemma loadNewGraph_inv:
  assumes "loadNewGraph G args cbs fbs dbs l = Inr (diags, g, l')"
  shows "graph_inv g" "keeps G l l'"
proof -
  obtain g0 l0 where p: "built G l g0 l0" "wired g0 g" "same_loader l0 l'"
    using loadNewGraph_parts [OF assms] by metis
  then show "graph_inv g" by (simp add: built_def wired_def)
  have "keeps G l l0" "keeps G l0 l'" using p same_loader_keeps by (auto simp: built_def)
  then show "keeps G l l'" by (rule keeps_trans)
qed

lemma loadNewGraph_node_wired:
  assumes "loadNewGraph G args cbs fbs dbs l = Inr (diags, g, l')" "n \<in> vertices g"
  shows "node_wired G g l' n diags g"
proof -
  obtain g0 l0 ds errs where p: "wired g0 g" "same_loader l0 l'" "set ds \<subseteq> set diags"
    "\<forall>n \<in> vertices g. node_wired G g0 l0 n ds g"
    using loadNewGraph_parts [OF assms(1)] by metis
  have "same_obj (heap l0 n) (heap l' n)" "cache l' = cache l0" using p(2) by (auto simp: same_loader_def core_def)
  moreover from this(1) have "ComponentReferences G g (GetContext (cache l')) (heap l' n) =
      ComponentReferences G g0 (GetContext (cache l')) (heap l0 n)"
    using wired_GetByID [OF p(1)] by (intro ComponentReferences_cong) (auto dest: same_obj_fields)
  moreover have "node_wired G g0 l0 n diags g"
    using p(3,4) assms(2) node_wired_mono [of G g0 l0 n ds g g diags] by simp
  ultimately show ?thesis by (auto simp: node_wired_def dest: same_obj_fields)
qed

text \<open>The first \<open>k\<close> names of a traversal are the shortest part of it that names the node \<open>m\<close>.\<close>

definition names_node :: "graph \<Rightarrow> Traversal \<Rightarrow> nat \<Rightarrow> node \<Rightarrow> bool" where
  "names_node g t k m \<longleftrightarrow> 0 < k \<and> k \<le> length t \<and> GetByID g (part_name k t) = Some m \<and>
     (\<forall>j < k. 0 < j \<longrightarrow> GetByID g (part_name j t) = None)"

lemma reference_step_resolved:
  assumes "t \<noteq> []" "\<forall>d \<in> set (snd (reference_step G g sc obj t)). severity d \<noteq> SeverityLevelError"
  shows "(\<exists>k m ref. names_node g t k m \<and> fst (reference_step G g sc obj t) = [ref] \<and> Target ref = m) \<or>
    Scope_Lookup G sc (Ident_Name (hd t)) \<or> node_kind obj = ForeachT"
proof (cases "ResolveTraversal t g")
  case (Inr ref)
  then have "fst (reference_step G g sc obj t) = [ref]" by (simp add: reference_step_def)
  moreover from Inr obtain k where "names_node g t k (Target ref)"
    using ResolveTraversal_shortest [OF assms(1)] unfolding names_node_def by blast
  ultimately show ?thesis by blast
next
  case (Inl partial)
  with assms(2) show ?thesis by (auto simp: reference_step_def split: if_splits)
qed

end
