(* ===== verification/Loader_Apply.thy ===== *)
theory Loader_Apply
  imports Loader_Graph
begin

text \<open>
  Properties of loading a configuration: a rejected configuration leaves what was loaded before in
  place; an accepted one is evaluated in an order in which every node comes after the nodes it
  depends on, and the scope a node is evaluated in holds the current exports of every component it
  depends on. The loader's state stays well-formed.
\<close>

section \<open>What evaluating a node changes\<close>

text \<open>The fields of an object that only loading sets.\<close>

definition static :: "'v node_obj \<Rightarrow> node_type \<times> string \<times> BlockStmt option \<times> ComponentID" where
  "static obj = (node_kind obj, label obj, block obj, component_id obj)"

lemma static_component: "static a = static b \<Longrightarrow> is_component a = is_component b \<and> component_id a = component_id b \<and> node_kind a = node_kind b"
  by (simp add: static_def is_component_def)

lemma Evaluate_frame:
  assumes "Evaluate G n sc l = (err, l')"
  shows "\<exists>obj. heap l' = (heap l)(n := obj) \<and> static obj = static (heap l n) \<and>
      (globals_wf G \<longrightarrow> obj_wf (heap l n) \<longrightarrow> obj_wf obj)"
    and "cache l' = cache l"
proof -
  have self: "heap l = (heap l)(n := heap l n)" by simp
  show "\<exists>obj. heap l' = (heap l)(n := obj) \<and> static obj = static (heap l n) \<and>
      (globals_wf G \<longrightarrow> obj_wf (heap l n) \<longrightarrow> obj_wf obj)"
    using assms self
    by (cases "node_kind (heap l n)")
      (fastforce simp: Evaluate_def Let_def static_def obj_wf_def globals_wf_def split: sum.splits prod.splits)+
  show "cache l' = cache l"
    using assms
    by (cases "node_kind (heap l n)") (auto simp: Evaluate_def Let_def split: sum.splits prod.splits)
qed

text \<open>The cache after a node was evaluated.\<close>

definition cached :: "('v, 'w) Globals \<Rightarrow> 'v node_obj \<Rightarrow> 'v valueCache \<Rightarrow> 'v valueCache" where
  "cached G obj c =
     (if is_component obj then snd (CacheExports (component_id obj) (exports obj) c)
      else if node_kind obj = ArgumentT \<and> GetModuleArgument (label obj) c = None \<and> optional obj
      then CacheModuleArgument (label obj) (any_value G (defaultValue obj)) c
      else if node_kind obj = ExportT
      then CacheModuleExportValue (deepEqual G) (label obj) (any_value G (export_value obj)) c
      else c)"

lemma postEvaluate_frame:
  assumes "postEvaluate G n err l = Inr (err', l')"
  shows "heap l' = heap l" "cache (cache_export_value G n l') = cached G (heap l n) (cache l)"
    "heap (cache_export_value G n l') = heap l"
  using assms
  by (auto simp: postEvaluate_def cached_def cache_export_value_def is_component_def Let_def
      split: if_splits option.splits prod.splits)

lemma cached_wf:
  assumes "vc_wf c" "obj_wf obj" "globals_wf G"
  shows "vc_wf (cached G obj c)"
proof -
  have any: "any_wf (any_value G v)" if "opt_wf v" for v
    using that assms(3) by (cases v) (auto simp: any_value_def globals_wf_def)
  have "call_wf (CallCacheExports (component_id obj) (exports obj))"
    using assms(2) by (cases "exports obj") (auto simp: obj_wf_def)
  from cache_call_wf [OF assms(1) this] cache_call_wf [OF assms(1), of "CallCacheArgument k v" for k v]
    cache_call_wf [OF assms(1), of "CallCacheExportValue k v" "deepEqual G" for k v] assms(2) any
    assms(1)
  show ?thesis by (auto simp: cached_def obj_wf_def)
qed

text \<open>One visit of the walk.\<close>

lemma apply_node_ok:
  assumes "apply_node G n st = (None, st')"
  shows "\<exists>obj. heap (as_loader st') = (heap (as_loader st))(n := obj) \<and>
      static obj = static (heap (as_loader st) n) \<and>
      (globals_wf G \<longrightarrow> obj_wf (heap (as_loader st) n) \<longrightarrow> obj_wf obj) \<and>
      cache (as_loader st') = cached G obj (cache (as_loader st))"
    and "as_components st' = as_components st @ (if is_component (heap (as_loader st) n) then [n] else [])"
    and "as_services st' = as_services st @ (if node_kind (heap (as_loader st) n) = ServiceT then [n] else [])"
proof -
  let ?l = "as_loader st"
  obtain err1 l1 where E: "Evaluate G n (GetContext (cache ?l)) ?l = (err1, l1)" by fastforce
  have ev: "evaluate G n ?l = postEvaluate G n err1 l1" by (simp add: evaluate_def E)
  obtain err l2 where P: "postEvaluate G n err1 l1 = Inr (err, l2)" and l': "as_loader st' = cache_export_value G n l2"
    using assms by (auto simp: apply_node_def Let_def ev split: sum.splits if_splits)
  obtain obj where obj: "heap l1 = (heap ?l)(n := obj)" "static obj = static (heap ?l n)"
    "globals_wf G \<longrightarrow> obj_wf (heap ?l n) \<longrightarrow> obj_wf obj"
    using Evaluate_frame(1) [OF E] by blast
  show "\<exists>obj. heap (as_loader st') = (heap ?l)(n := obj) \<and> static obj = static (heap ?l n) \<and>
      (globals_wf G \<longrightarrow> obj_wf (heap ?l n) \<longrightarrow> obj_wf obj) \<and>
      cache (as_loader st') = cached G obj (cache ?l)"
    using obj postEvaluate_frame [OF P] Evaluate_frame(2) [OF E] by (intro exI [of _ obj]) (simp add: l')
  show "as_components st' = as_components st @ (if is_component (heap ?l n) then [n] else [])"
    and "as_services st' = as_services st @ (if node_kind (heap ?l n) = ServiceT then [n] else [])"
    using assms
    by (cases "is_component (heap ?l n)"; cases "node_kind (heap ?l n) = ServiceT";
      auto simp: apply_node_def Let_def ev P is_component_def)+
qed

section \<open>A sequence of visits\<close>

lemma visit_all_Cons_None:
  "visit_all fn (n # ns) s = (None, s') \<longleftrightarrow> (\<exists>s1. fn n s = (None, s1) \<and> visit_all fn ns s1 = (None, s'))"
  by (auto split: prod.splits option.splits)

lemma visits_ok:
  assumes "visit_all (apply_node G) ns st = (None, st')"
  shows "(\<forall>m. static (heap (as_loader st') m) = static (heap (as_loader st) m)) \<and>
    (\<forall>m. m \<notin> set ns \<longrightarrow> heap (as_loader st') m = heap (as_loader st) m) \<and>
    as_components st' = as_components st @ filter (\<lambda>m. is_component (heap (as_loader st) m)) ns \<and>
    as_services st' = as_services st @ filter (\<lambda>m. node_kind (heap (as_loader st) m) = ServiceT) ns"
  using assms
proof (induction ns arbitrary: st)
  case (Cons n ns)
  then obtain st1 where 1: "apply_node G n st = (None, st1)" "visit_all (apply_node G) ns st1 = (None, st')"
    unfolding visit_all_Cons_None by blast
  note one = apply_node_ok [OF 1(1)] and IH = Cons.IH [OF 1(2)]
  have st1: "static (heap (as_loader st1) m) = static (heap (as_loader st) m)" for m
    using one(1) by (auto split: if_splits)
  then have kinds: "is_component (heap (as_loader st1) m) = is_component (heap (as_loader st) m)"
    "node_kind (heap (as_loader st1) m) = node_kind (heap (as_loader st) m)" for m
    using static_component by blast+
  show ?case using IH one st1 by (auto simp: kinds)
qed simp

section \<open>Exports in the scope\<close>

lemma get_path_unblocked: "get_path m p = Some v \<Longrightarrow> \<not> blocked m p"
  by (induction m p rule: get_path.induct) (auto split: option.splits any.splits if_splits)

text \<open>Caching under one ID does not block another that is not related to it.\<close>

lemma cache_path_unblocked:
  assumes p: "p \<noteq> []" "\<not> blocked m p" and q: "\<not> blocked m q" "\<not> prefix p q" "\<not> prefix q p"
  shows "\<not> blocked (snd (cache_path p v m)) q"
proof
  assume "blocked (snd (cache_path p v m)) q"
  then obtain r x where r: "strict_prefix r q" "get_path (snd (cache_path p v m)) r = Some (Plain x)"
    unfolding blocked_iff by blast
  consider "prefix p r" | "prefix r p" "\<not> prefix p r" | "\<not> prefix p r" "\<not> prefix r p" by blast
  then show False
  proof cases
    case 1
    then have "prefix p q" using r(1) by (meson prefix_order.less_imp_le prefix_order.trans)
    with q(2) show False ..
  next
    case 2
    then have "strict_prefix r p" by (auto simp: strict_prefix_def)
    then have "blocked (snd (cache_path p v m)) p" using r(2) unfolding blocked_iff by blast
    with get_path_unblocked cache_path_ok [OF p, of v] show False by blast
  next
    case 3
    then have "get_path m r = Some (Plain x)" using cache_path_other [of p r v m] r(2) by simp
    with r(1) q(1) show False unfolding blocked_iff by blast
  qed
qed

definition export_val :: "'v node_obj \<Rightarrow> 'v any" where
  "export_val obj = (case exports obj of None \<Rightarrow> MapVal [] | Some e \<Rightarrow> e)"

definition exports_in :: "'v valueCache \<Rightarrow> 'v node_obj \<Rightarrow> bool" where
  "exports_in c obj \<longleftrightarrow> get_path (Variables (scope c)) (component_id obj) = Some (export_val obj)"

text \<open>No component's ID is a part of another's, and nothing that is not a map is in its way.\<close>

definition ids_apart :: "(node \<Rightarrow> 'v node_obj) \<Rightarrow> node set \<Rightarrow> bool" where
  "ids_apart h N \<longleftrightarrow> (\<forall>m \<in> N. is_component (h m) \<longrightarrow> component_id (h m) \<noteq> [] \<and>
     (\<forall>m' \<in> N. is_component (h m') \<longrightarrow> m' \<noteq> m \<longrightarrow> \<not> prefix (component_id (h m)) (component_id (h m'))))"

definition ids_free :: "'v valueCache \<Rightarrow> (node \<Rightarrow> 'v node_obj) \<Rightarrow> node set \<Rightarrow> bool" where
  "ids_free c h N \<longleftrightarrow> (\<forall>m \<in> N. is_component (h m) \<longrightarrow> \<not> blocked (Variables (scope c)) (component_id (h m)))"

lemma cached_scope:
  "\<not> is_component obj \<Longrightarrow> scope (cached G obj c) = scope c"
  "is_component obj \<Longrightarrow> Variables (scope (cached G obj c)) =
     snd (cache_path (component_id obj) (export_val obj) (Variables (scope c)))"
  by (auto simp: cached_def CacheModuleArgument_def CacheModuleExportValue_def Let_def CacheExports_frame export_val_def)

text \<open>Caching the exports of one component keeps the others in the scope.\<close>

lemma cache_exports_step:
  assumes ids: "ids_apart h N" "ids_free c h N" and n: "n \<in> N" "is_component (h n)"
    and vars: "Variables (scope c') = snd (cache_path (component_id (h n)) (export_val (h n)) (Variables (scope c)))"
    and D: "D \<subseteq> N" "\<And>m. m \<in> D \<Longrightarrow> m \<noteq> n \<Longrightarrow> is_component (h m) \<Longrightarrow> exports_in c (h m)"
  shows "ids_free c' h N" "m \<in> insert n D \<Longrightarrow> is_component (h m) \<Longrightarrow> exports_in c' (h m)"
proof -
  let ?p = "component_id (h n)"
  have free: "?p \<noteq> []" "\<not> blocked (Variables (scope c)) ?p" using ids n by (auto simp: ids_apart_def ids_free_def)
  have apart: "\<not> prefix ?p (component_id (h m))" "\<not> prefix (component_id (h m)) ?p" if "m \<in> N" "m \<noteq> n" "is_component (h m)" for m
    using ids(1) n that by (auto simp: ids_apart_def)
  have self: "get_path (Variables (scope c')) ?p = Some (export_val (h n))" using cache_path_ok [OF free] by (simp add: vars)
  have "\<not> blocked (Variables (scope c')) (component_id (h m))" if m: "m \<in> N" "is_component (h m)" for m
  proof (cases "m = n")
    case True
    then show ?thesis using get_path_unblocked [OF self] by simp
  next
    case False
    have "\<not> blocked (Variables (scope c)) (component_id (h m))" using ids(2) m by (simp add: ids_free_def)
    then show ?thesis unfolding vars by (intro cache_path_unblocked free apart m False)
  qed
  then show "ids_free c' h N" by (simp add: ids_free_def)
  show "exports_in c' (h m)" if m: "m \<in> insert n D" "is_component (h m)" for m
  proof (cases "m = n")
    case True
    then show ?thesis using self by (simp add: exports_in_def)
  next
    case False
    then have "m \<in> D" "m \<in> N" using m(1) D(1) by auto
    then show ?thesis
      using D(2) [OF \<open>m \<in> D\<close> False m(2)] cache_path_other [OF apart [OF \<open>m \<in> N\<close> False m(2)], of "export_val (h n)" "Variables (scope c)"]
      by (simp add: exports_in_def vars)
  qed
qed

text \<open>The invariant of the walk: \<open>D\<close> are the nodes visited so far.\<close>

definition walk_inv :: "node set \<Rightarrow> node set \<Rightarrow> ('v, 'w) Loader \<Rightarrow> bool" where
  "walk_inv N D l \<longleftrightarrow> vc_wf (cache l) \<and> heap_wf l \<and> ids_apart (heap l) N \<and> ids_free (cache l) (heap l) N \<and>
     (\<forall>m \<in> D. is_component (heap l m) \<longrightarrow> exports_in (cache l) (heap l m))"

lemma ids_static:
  assumes "\<And>m. static (h' m) = static (h m)"
  shows "ids_apart h' N = ids_apart h N" "ids_free c h' N = ids_free c h N"
proof -
  have "is_component (h' m) = is_component (h m) \<and> component_id (h' m) = component_id (h m)" for m
    using static_component [OF assms] by blast
  then show "ids_apart h' N = ids_apart h N" "ids_free c h' N = ids_free c h N"
    by (simp_all add: ids_apart_def ids_free_def)
qed

lemma walk_inv_step:
  assumes G: "globals_wf G" and inv: "walk_inv N D (as_loader st)" and n: "n \<in> N" "n \<notin> D" "D \<subseteq> N"
    and step: "apply_node G n st = (None, st')"
  shows "walk_inv N (insert n D) (as_loader st')"
proof -
  let ?l = "as_loader st" and ?l' = "as_loader st'"
  obtain obj where obj: "heap ?l' = (heap ?l)(n := obj)" "static obj = static (heap ?l n)"
    "globals_wf G \<longrightarrow> obj_wf (heap ?l n) \<longrightarrow> obj_wf obj" "cache ?l' = cached G obj (cache ?l)"
    using apply_node_ok(1) [OF step] by blast
  have wf: "obj_wf obj" using obj(3) G inv by (simp add: walk_inv_def heap_wf_def)
  have st: "static (heap ?l' m) = static (heap ?l m)" for m using obj(1,2) by simp
  note ids = ids_static [of "heap ?l'" "heap ?l", OF st]
  have "vc_wf (cache ?l')" unfolding obj(4) using inv wf G by (intro cached_wf) (simp_all add: walk_inv_def)
  moreover have "heap_wf ?l'" using inv wf by (simp add: walk_inv_def heap_wf_def obj(1))
  moreover have "ids_apart (heap ?l') N" using inv ids(1) by (simp add: walk_inv_def)
  moreover have "ids_free (cache ?l') (heap ?l') N \<and>
    (\<forall>m \<in> insert n D. is_component (heap ?l' m) \<longrightarrow> exports_in (cache ?l') (heap ?l' m))"
  proof (cases "is_component obj")
    case False
    then have sc: "scope (cache ?l') = scope (cache ?l)" unfolding obj(4) by (rule cached_scope(1))
    have "ids_free (cache ?l') (heap ?l') N" using inv sc by (simp add: ids(2)) (simp add: walk_inv_def ids_free_def)
    moreover have "exports_in (cache ?l') (heap ?l' m)" if "m \<in> insert n D" "is_component (heap ?l' m)" for m
      using that False inv sc by (auto simp: obj(1) walk_inv_def exports_in_def split: if_splits)
    ultimately show ?thesis by blast
  next
    case True
    let ?h = "heap ?l'"
    have h: "?h n = obj" by (simp add: obj(1))
    have "ids_apart ?h N" "ids_free (cache ?l) ?h N" using inv ids by (simp_all add: walk_inv_def)
    moreover have "Variables (scope (cache ?l')) = snd (cache_path (component_id (?h n)) (export_val (?h n)) (Variables (scope (cache ?l))))"
      unfolding obj(4) h by (rule cached_scope(2) [OF True])
    moreover have "exports_in (cache ?l) (?h m)" if "m \<in> D" "m \<noteq> n" "is_component (?h m)" for m
      using that inv by (simp add: obj(1) walk_inv_def)
    ultimately show ?thesis using cache_exports_step [of ?h N "cache ?l" n "cache ?l'" D] n True h by blast
  qed
  ultimately show ?thesis by (simp add: walk_inv_def)
qed

lemma visits_wf:
  assumes "globals_wf G" "visit_all (apply_node G) ns st = (None, st')"
    "vc_wf (cache (as_loader st))" "heap_wf (as_loader st)"
  shows "vc_wf (cache (as_loader st')) \<and> heap_wf (as_loader st')"
  using assms(2-)
proof (induction ns arbitrary: st)
  case (Cons n ns)
  then obtain st1 where 1: "apply_node G n st = (None, st1)" "visit_all (apply_node G) ns st1 = (None, st')"
    unfolding visit_all_Cons_None by blast
  obtain obj where obj: "heap (as_loader st1) = (heap (as_loader st))(n := obj)"
    "globals_wf G \<longrightarrow> obj_wf (heap (as_loader st) n) \<longrightarrow> obj_wf obj"
    "cache (as_loader st1) = cached G obj (cache (as_loader st))"
    using apply_node_ok(1) [OF 1(1)] by blast
  then have "obj_wf obj" using assms(1) Cons.prems(3) by (simp add: heap_wf_def)
  then have "vc_wf (cache (as_loader st1))" "heap_wf (as_loader st1)"
    using cached_wf [OF Cons.prems(2) _ assms(1)] obj Cons.prems(3) by (simp_all add: heap_wf_def)
  then show ?case by (rule Cons.IH [OF 1(2)])
qed simp

lemma walk_inv_visits:
  assumes "globals_wf G" "walk_inv N D (as_loader st)" "set ns \<subseteq> N" "D \<subseteq> N" "distinct ns" "set ns \<inter> D = {}"
    "visit_all (apply_node G) ns st = (None, st')"
  shows "walk_inv N (D \<union> set ns) (as_loader st')"
  using assms
proof (induction ns arbitrary: st D)
  case (Cons n ns)
  then obtain st1 where 1: "apply_node G n st = (None, st1)" "visit_all (apply_node G) ns st1 = (None, st')"
    unfolding visit_all_Cons_None by blast
  have "walk_inv N (insert n D) (as_loader st1)"
    using Cons.prems by (intro walk_inv_step [OF _ _ _ _ _ 1(1)]) auto
  from Cons.IH [OF Cons.prems(1) this _ _ _ _ 1(2)] Cons.prems show ?case by auto
qed simp

section \<open>Loading a configuration\<close>

definition loader_wf :: "('v, 'w) Loader \<Rightarrow> bool" where
  "loader_wf l \<longleftrightarrow> graph_inv (l_graph l) \<and> vc_wf (cache l) \<and> heap_wf l"

lemma NewLoader_wf: "loader_wf (NewLoader w)"
  using value_cache_calls_parts(1) [of "[]" newValueCache]
  by (simp add: loader_wf_def NewLoader_def graph_inv_empty heap_wf_def heap_def)

definition opts_wf :: "'v ApplyOptions \<Rightarrow> bool" where
  "opts_wf opts \<longleftrightarrow> (\<forall>sc. ArgScope opts = Some sc \<longrightarrow> any_wf (MapVal (Variables sc))) \<and>
     (\<forall>(k, v) \<in> set (Args opts). any_wf v)"

definition load :: "('v, 'w) Globals \<Rightarrow> 'v ApplyOptions \<Rightarrow> ('v, 'w) Loader \<Rightarrow>
    loader_panic + Diagnostics \<times> graph \<times> ('v, 'w) Loader" where
  "load G opts l =
     loadNewGraph G (Args opts) (ComponentBlocks opts) (ConfigBlocks opts) (DeclareBlocks opts) (prepare opts l)"

lemma prepare_core: "core (prepare opts l) =
    (l_graph l, componentNodes l, serviceNodes l, cache (prepare opts l), blocks l, moduleExportIndex l, world l, exports_sent l)"
  by (simp add: prepare_def core_def Let_def)

lemma prepare_wf: "loader_wf l \<Longrightarrow> opts_wf opts \<Longrightarrow> loader_wf (prepare opts l)"
proof -
  assume l: "loader_wf l" and opts: "opts_wf opts"
  have args: "vc_wf (fold (\<lambda>(key, value). CacheModuleArgument key value) as c)"
    if "vc_wf c" "\<forall>(k, v) \<in> set as. any_wf v" for as c
    using that
  proof (induction as arbitrary: c)
    case (Cons a as)
    obtain k v where a: "a = (k, v)" by (cases a)
    have "vc_wf (CacheModuleArgument k v c)"
      using cache_call_wf [of c "CallCacheArgument k v"] Cons.prems by (simp add: a)
    with Cons show ?case by (simp add: a)
  qed simp
  have sc: "vc_wf (case ArgScope opts of None \<Rightarrow> cache l | Some sc \<Rightarrow> UpdateScopeVariables (Some (Variables sc)) (cache l))"
    using l opts cache_call_wf [of "cache l" "CallUpdateScope (Some (Variables sc))" for sc]
    by (auto simp: loader_wf_def opts_wf_def simp del: any_wf.simps(2) split: option.splits)
  have "vc_wf (SyncModuleArgs (Args opts) (fold (\<lambda>(key, value). CacheModuleArgument key value) (Args opts)
    (case ArgScope opts of None \<Rightarrow> cache l | Some sc \<Rightarrow> UpdateScopeVariables (Some (Variables sc)) (cache l))))"
    using cache_call_wf [OF args [OF sc], of _ "CallSyncArgs (Args opts)"] opts by (auto simp: opts_wf_def)
  with l show ?thesis by (simp add: loader_wf_def prepare_def Let_def)
qed

lemma load_ok:
  assumes "load G opts l = Inr (diags, g, l1)" "\<not> HasErrors diags"
  shows "graph_inv g" "acyclic (edge_rel g)" "keeps G (prepare opts l) l1"
proof -
  note L = assms(1) [unfolded load_def]
  show g: "graph_inv g" and "keeps G (prepare opts l) l1" by (rule loadNewGraph_inv [OF L])+
  obtain errs where "Validate g = Some errs" "set (multierrToDiags errs) \<subseteq> set diags"
    using loadNewGraph_parts [OF L] by metis
  moreover from this(2) assms(2) have "errs = []"
    by (cases errs) (auto simp: multierrToDiags_def HasErrors_def)
  ultimately show "acyclic (edge_rel g)" using Validate_acyclic [OF g] by auto
qed

lemma load_wf:
  assumes "globals_wf G" "opts_wf opts" "loader_wf l" "load G opts l = Inr (diags, g, l1)"
  shows "vc_wf (cache l1)" "heap_wf l1" "l_graph l1 = l_graph l"
proof -
  have "keeps G (prepare opts l) l1" using assms(4) unfolding load_def by (rule loadNewGraph_inv)
  moreover have "loader_wf (prepare opts l)" using assms(2,3) by (rule prepare_wf [rotated])
  ultimately show "vc_wf (cache l1)" "heap_wf l1" "l_graph l1 = l_graph l"
    using assms(1) by (auto simp: keeps_def core_def loader_wf_def prepare_def Let_def)
qed

lemma Apply_load: "Apply G opts l =
    res_bind (load G opts l) (\<lambda>(diags, g, l). if HasErrors diags then Inr (diags, l) else evaluate_graph G opts diags g l)"
  by (simp add: Apply_def load_def)

text \<open>
  C4: when a configuration is loaded without errors, every identifier in the block of a node that is not a
  \<open>declare\<close> node (whose body is not evaluated, and is not wired) starts a traversal, and every traversal either leads to an edge to the node that its shortest matching
  part names, or its first name is a variable or a standard library name (or the block is a foreach
  block, whose inner names are resolved later); a field access in the block that names a node is an
  edge to that node.
\<close>

theorem references_are_edges:
  assumes "load G opts l = Inr (diags, g, l')" and "\<not> HasErrors diags"
    and "n \<in> vertices g" and "node_kind (heap l' n) \<noteq> DeclareT" and "block (heap l' n) = Some b"
  shows "\<exists>ts. TraversalsFromBody (Body b) = Some ts \<and> map hd ts = body_identifiers (Body b) \<and>
    (\<forall>t \<in> set ts. (\<exists>k m. names_node g t k m \<and> (n, m) \<in> edge_rel g) \<or>
       Scope_Lookup G (GetContext (cache l')) (Ident_Name (hd t)) \<or> node_kind (heap l' n) = ForeachT) \<and>
    (\<forall>e p k m. e \<in> set (body_subexprs (Body b)) \<longrightarrow> access_path e = Some p \<longrightarrow> names_node g p k m \<longrightarrow>
       (n, m) \<in> edge_rel g)"
proof -
  let ?step = "reference_step G g (GetContext (cache l')) (heap l' n)"
  obtain refs ds0 where refs: "ComponentReferences G g (GetContext (cache l')) (heap l' n) = Some (refs, ds0)"
    "set ds0 \<subseteq> set diags" "\<forall>r \<in> set refs. (n, Target r) \<in> edge_rel g"
    using loadNewGraph_node_wired [OF assms(1) [unfolded load_def] assms(3)] assms(4) unfolding node_wired_def by blast
  obtain ts where ts: "TraversalsFromBody (Body b) = Some ts"
    using refs(1) assms(5) by (auto simp: ComponentReferences_def split: option.splits)
  then have eqs: "refs = concat (map (fst \<circ> ?step) ts)" "ds0 = concat (map (snd \<circ> ?step) ts)"
    using refs(1) assms(5) by (auto simp: ComponentReferences_def)
  obtain props: "map hd ts = body_identifiers (Body b)" "[] \<notin> set ts"
    "\<And>e p. e \<in> set (body_subexprs (Body b)) \<Longrightarrow> access_path e = Some p \<Longrightarrow> covers ts p"
    by (rule traversals_of_body [OF TraversalsFromBody_Some [OF ts]]) (simp add: ts)
  have edge: "(n, Target r) \<in> edge_rel g" if "t \<in> set ts" "r \<in> set (fst (?step t))" for t r
    using refs(3) that unfolding eqs(1) by (auto simp: comp_def)
  have "(\<exists>k m. names_node g t k m \<and> (n, m) \<in> edge_rel g) \<or>
       Scope_Lookup G (GetContext (cache l')) (Ident_Name (hd t)) \<or> node_kind (heap l' n) = ForeachT"
    if t: "t \<in> set ts" for t
  proof -
    have "\<forall>d \<in> set (snd (?step t)). severity d \<noteq> SeverityLevelError"
      using assms(2) refs(2) t unfolding eqs(2) HasErrors_def by (auto simp: comp_def)
    moreover have "t \<noteq> []" using props(2) t by metis
    ultimately consider k m ref where "names_node g t k m" "fst (?step t) = [ref]" "Target ref = m"
      | "Scope_Lookup G (GetContext (cache l')) (Ident_Name (hd t)) \<or> node_kind (heap l' n) = ForeachT"
      using reference_step_resolved [of t G g "GetContext (cache l')" "heap l' n"] by blast
    then show ?thesis
    proof cases
      case 1
      then show ?thesis using edge [OF t, of ref] by auto
    qed simp
  qed
  moreover have "(n, m) \<in> edge_rel g"
    if e: "e \<in> set (body_subexprs (Body b))" "access_path e = Some p" and m: "names_node g p k m" for e p k m
  proof -
    obtain t where t: "t \<in> set ts" "prefix p t" using props(3) [OF e] by (auto simp: covers_def)
    then have "ResolveTraversal t g = Inr \<lparr>Target = m, Ref_Traversal = drop k t\<rparr>"
      using m access_path_nonempty [OF e(2)] unfolding names_node_def by (intro resolve_covered) auto
    then show ?thesis using edge [OF t(1)] by (simp add: reference_step_def)
  qed
  ultimately show ?thesis using ts props(1) by blast
qed

text \<open>The cache that a configuration is loaded with.\<close>

lemma fold_CacheModuleArgument:
  "fold (\<lambda>(key, value). CacheModuleArgument key value) as c =
     c\<lparr>moduleArguments := fold (\<lambda>(key, value). map_put key (MapVal [(''value'', value)])) as (moduleArguments c)\<rparr>"
  by (induction as arbitrary: c) (auto simp: CacheModuleArgument_def)

lemma prepare_cache:
  "Variables (scope (cache (prepare opts l))) =
     (case ArgScope opts of None \<Rightarrow> Variables (scope (cache l)) | Some sc \<Rightarrow> deepCopyMap (Variables sc))"
  "moduleExports (cache (prepare opts l)) = moduleExports (cache l)" "componentIds (cache (prepare opts l)) = componentIds (cache l)"
  "moduleChangedIndex (cache (prepare opts l)) = moduleChangedIndex (cache l)"
  by (simp_all add: prepare_def Let_def fold_CacheModuleArgument SyncModuleArgs_def UpdateScopeVariables_def split: option.split)


lemma topo_walk: "WalkTopological g (Leaves g) fn s = visit_all fn (topo_order g (Leaves g)) s"
  by (simp add: WalkTopological_def topo_loop_eq topo_order_eq)

lemma Apply_accepted:
  assumes "Apply G opts l = Inr (ds, l')" "load G opts l = Inr (diags, g, l1)" "\<not> HasErrors diags"
  obtains st where "visit_all (apply_node G) (topo_order g (Leaves g)) (apply_start diags l1) = (None, st)"
    "l_graph l' = g" "componentNodes l' = as_components st" "serviceNodes l' = as_services st"
    "heap l' = heap (as_loader st)" "cache l' = snd (SyncIDs (as_componentIDs st) (cache (as_loader st)))"
proof -
  have E: "evaluate_graph G opts diags g l1 = Inr (ds, l')" using assms by (simp add: Apply_load)
  then obtain st where st: "visit_all (apply_node G) (topo_order g (Leaves g)) (apply_start diags l1) = (None, st)"
    by (auto simp: evaluate_graph_def topo_walk split: prod.splits option.splits)
  obtain e c where S: "SyncIDs (as_componentIDs st) (cache (as_loader st)) = (e, c)" by fastforce
  have "l_graph l' = g \<and> componentNodes l' = as_components st \<and> serviceNodes l' = as_services st \<and>
    heap l' = heap (as_loader st) \<and> cache l' = c"
    using E by (auto simp: evaluate_graph_def topo_walk st S send_exports_def Let_def split: option.splits)
  with st show thesis by (intro that [of st]) (auto simp: S)
qed

text \<open>
  C2: a configuration without errors is evaluated along the topological order of its graph from the
  leaves: an order of all the nodes, each once, in which every node comes after the nodes it depends
  on. Afterwards the loader has that graph, and its components and services are those of the graph
  in the order of their evaluation.
\<close>

theorem accepted_configuration_evaluated_in_order:
  assumes "Apply G opts l = Inr (ds, l')" and "load G opts l = Inr (diags, g, l1)" and "\<not> HasErrors diags"
    and "order = topo_order g (Leaves g)"
  shows "set order = vertices g \<and> distinct order \<and>
    (\<forall>xs n ys. order = xs @ n # ys \<longrightarrow> set (Dependencies g n) \<subseteq> set xs) \<and>
    (\<exists>st. visit_all (apply_node G) order (apply_start diags l1) = (None, st) \<and> heap l' = heap (as_loader st)) \<and>
    l_graph l' = g \<and>
    componentNodes l' = filter (\<lambda>n. is_component (heap l1 n)) order \<and>
    serviceNodes l' = filter (\<lambda>n. node_kind (heap l1 n) = ServiceT) order"
proof -
  obtain st where st: "visit_all (apply_node G) order (apply_start diags l1) = (None, st)" "l_graph l' = g"
    "componentNodes l' = as_components st" "serviceNodes l' = as_services st" "heap l' = heap (as_loader st)"
    using Apply_accepted [OF assms(1-3)] unfolding assms(4) by metis
  with visits_ok [OF st(1)] WalkTopological_from_leaves [OF load_ok(1,2) [OF assms(2,3)]] assms(4)
  show ?thesis by (auto simp: apply_start_def)
qed

text \<open>
  C3: when a node is evaluated while a configuration is loaded, the scope it is given holds, for every
  component that the node depends on, the current exports of that component under its ID. This needs that
  no component's ID is a part of another's, that no plain variable of the scope is in their way, and that
  the ID does not start with the name under which the module arguments are found; otherwise one component
  can take the place of another in the scope.
\<close>

theorem evaluation_sees_exports:
  assumes "globals_wf G" and "opts_wf opts" and "loader_wf l"
    and "load G opts l = Inr (diags, g, l1)" and "\<not> HasErrors diags"
    and "ids_apart (heap l1) (vertices g)" and "ids_free (cache l1) (heap l1) (vertices g)"
    and "topo_order g (Leaves g) = xs @ n # ys"
    and "visit_all (apply_node G) xs (apply_start diags l1) = (None, st)"
    and "(n, m) \<in> edge_rel g" and "is_component (heap l1 m)" and "hd (component_id (heap l1 m)) \<noteq> argumentLabel"
  shows "get_path (Variables (GetContext (cache (as_loader st)))) (component_id (heap l1 m)) =
    Some (export_val (heap (as_loader st) m))"
proof -
  let ?s = "apply_start diags l1"
  note g = load_ok(1,2) [OF assms(4,5)] and wf = load_wf [OF assms(1-4)]
  note order = WalkTopological_from_leaves [OF g]
  have "set (Dependencies g n) \<subseteq> set xs" using order assms(8) by blast
  then have m: "m \<in> set xs" "m \<in> vertices g"
    using assms(10) graph_inv_endpoints [OF g(1) assms(10)] by (auto simp: edge_rel_def)
  have sc: "scope (ClearModuleExports c) = scope c" for c :: "'a valueCache" by (simp add: ClearModuleExports_def)
  have start: "walk_inv (vertices g) {} (as_loader ?s)"
    using wf(1,2) assms(6,7) cache_call_wf [of "cache l1" CallClearExports]
    by (simp add: walk_inv_def apply_start_def ids_free_def sc)
  have inv: "walk_inv (vertices g) (set xs) (as_loader st)"
    using walk_inv_visits [OF assms(1) start, of xs] assms(8,9) order by auto
  have st: "static (heap (as_loader st) m) = static (heap l1 m)"
    using visits_ok [OF assms(9)] by (simp add: apply_start_def)
  then have id: "component_id (heap (as_loader st) m) = component_id (heap l1 m)" "is_component (heap (as_loader st) m)"
    using static_component [OF st] assms(11) by auto
  have "component_id (heap l1 m) \<noteq> []" using assms(6,11) m(2) by (auto simp: ids_apart_def)
  moreover have "exports_in (cache (as_loader st)) (heap (as_loader st) m)" "vc_wf (cache (as_loader st))"
    using inv m(1) id(2) by (auto simp: walk_inv_def)
  ultimately show ?thesis using assms(12) by (simp add: exports_in_def id(1) GetContext_path)
qed

lemma Apply_loader_wf:
  assumes "globals_wf G" "opts_wf opts" "loader_wf l" "Apply G opts l = Inr (ds, l')"
  shows "loader_wf l'"
proof -
  obtain diags g l1 where load: "load G opts l = Inr (diags, g, l1)" using assms(4) by (auto simp: Apply_load res_bind_Inr)
  note wf = load_wf [OF assms(1-3) load]
  show ?thesis
  proof (cases "HasErrors diags")
    case True
    then have "l' = l1" using assms(4) load by (auto simp: Apply_load)
    with wf assms(3) show ?thesis by (simp add: loader_wf_def)
  next
    case False
    obtain st where st: "visit_all (apply_node G) (topo_order g (Leaves g)) (apply_start diags l1) = (None, st)"
      "l_graph l' = g" "heap l' = heap (as_loader st)"
      "cache l' = snd (SyncIDs (as_componentIDs st) (cache (as_loader st)))"
      using Apply_accepted [OF assms(4) load False] by metis
    have "vc_wf (cache (as_loader st)) \<and> heap_wf (as_loader st)"
      using visits_wf [OF assms(1) st(1)] wf cache_call_wf [of "cache l1" CallClearExports]
      by (simp add: apply_start_def)
    with cache_call_wf [of "cache (as_loader st)" "CallSyncIDs (as_componentIDs st)"] st load_ok(1) [OF load False]
    show ?thesis by (simp add: loader_wf_def heap_wf_def)
  qed
qed

text \<open>
  The state of the loader stays well-formed: its graph has its invariant, and the maps in the
  value cache and in the objects have distinct keys; the new loader is well-formed.
\<close>

theorem loader_stays_wf:
  fixes l :: "('v, 'w) Loader"
  assumes "globals_wf G" and "opts_wf opts" and "loader_wf l" and "Apply G opts l = Inr (ds, l')"
  shows "loader_wf (NewLoader w :: ('v, 'w) Loader) \<and> loader_wf l'"
  using Apply_loader_wf [OF assms] by (simp add: NewLoader_wf)

section \<open>Examples\<close>

text \<open>
  A root controller with two kinds of components, \<open>a\<close> and \<open>b\<close>, whose evaluation exports a number,
  and a configuration in which the component \<open>b.y\<close> reads the exports of \<open>a.x\<close>.
\<close>

definition sample_globals :: "(nat, unit) Globals" where
  "sample_globals = \<lparr>ControllerID = [], MinStability = StabilityGenerallyAvailable, services = [],
     registry_Get = (\<lambda>name. if name = ''a'' \<or> name = ''b'' then Inr (Some (Plain 0)) else Inl name),
     stdlib_Identifiers = (\<lambda>_. False), stdlib_Deprecated = (\<lambda>_. False), stdlib_Experimental = (\<lambda>_. False),
     has_OnExportsChange = False, nil_any = Plain 0, deepEqual = (\<lambda>_ _. False),
     eval_argument = (\<lambda>_ _. Inr (None, False)), eval_export = (\<lambda>_ _. Inr None),
     eval_node = (\<lambda>n obj sc w. (None, Some (Plain 7), imported obj, w)), field_flow = (\<lambda>_ _. None)\<rparr>"

definition sample_block :: "string list \<Rightarrow> string \<Rightarrow> body \<Rightarrow> BlockStmt" where
  "sample_block name lab bdy = BlockStmt name NoPos lab NoPos bdy NoPos NoPos"

definition sample_reference :: Stmt where
  "sample_reference = AttributeStmt (Ident ''in'' NoPos)
     (AccessExpr (IdentifierExpr (Ident ''a'' NoPos) False) (Ident ''x'' NoPos) False)"

definition sample_options :: "BlockStmt list \<Rightarrow> BlockStmt list \<Rightarrow> nat ApplyOptions" where
  "sample_options comps confs = \<lparr>Args = [], ComponentBlocks = comps, ConfigBlocks = confs, DeclareBlocks = [],
     opt_CustomComponentRegistry = None, ArgScope = None\<rparr>"

definition sample_opts :: "nat ApplyOptions" where
  "sample_opts = sample_options [sample_block [''b''] ''y'' [sample_reference], sample_block [''a''] ''x'' []] []"

definition sample_load :: "loader_panic + Diagnostics \<times> graph \<times> (nat, unit) Loader" where
  "sample_load = load sample_globals sample_opts (NewLoader ())"

abbreviation (input) node_ax :: node where "node_ax \<equiv> Node 3 ''a.x''"
abbreviation (input) node_by :: node where "node_by \<equiv> Node 2 ''b.y''"

lemma sample_load_graph:
  "case sample_load of Inl _ \<Rightarrow> False | Inr (ds, g, l) \<Rightarrow> ds = [] \<and>
     nodes g = [Node 0 ''logging'', Node 1 ''tracing'', node_by, node_ax] \<and>
     edge_set (outEdges g) node_by = [node_ax] \<and> GetByID g ''a.x'' = Some node_ax \<and> GetByID g ''a'' = None \<and>
     Variables (scope (cache l)) = []"
  by code_simp

lemma sample_load_order:
  "case sample_load of Inl _ \<Rightarrow> False | Inr (ds, g, l) \<Rightarrow>
     topo_order g (Leaves g) = [node_ax, node_by, Node 1 ''tracing'', Node 0 ''logging'']"
  by code_simp

lemma sample_load_ids:
  "case sample_load of Inl _ \<Rightarrow> False | Inr (ds, g, l) \<Rightarrow>
     map (\<lambda>n. (is_component (heap l n), component_id (heap l n))) [Node 0 ''logging'', Node 1 ''tracing'', node_by, node_ax] =
       [(False, []), (False, []), (True, [''b'', ''y'']), (True, [''a'', ''x''])]"
  by code_simp

lemma sample_load_block:
  "case sample_load of Inl _ \<Rightarrow> False | Inr (ds, g, l) \<Rightarrow>
     node_kind (heap l node_by) = BuiltinComponent \<and>
     block (heap l node_by) = Some (sample_block [''b''] ''y'' [sample_reference])"
  by code_simp

lemma sample_load_visit:
  "case sample_load of Inl _ \<Rightarrow> False
   | Inr (ds, g, l) \<Rightarrow> (case visit_all (apply_node sample_globals) [node_ax] (apply_start ds l) of
         (None, st) \<Rightarrow> exports (heap (as_loader st) node_ax) = Some (Plain 7) | (Some _, _) \<Rightarrow> False)"
  by code_simp

lemma sample_Apply_value:
  "case Apply sample_globals sample_opts (NewLoader ()) of Inl _ \<Rightarrow> False
   | Inr (ds, l) \<Rightarrow> ds = [] \<and> componentNodes l = [node_ax, node_by]"
  by code_simp

text \<open>
  A configuration with an import and a component of it, and a second one that repeats a new
  import before the old one.
\<close>

definition import_opts :: "string list \<Rightarrow> nat ApplyOptions" where
  "import_opts labels = sample_options [sample_block [''b'', ''foo''] ''x'' []]
     (map (\<lambda>lab. sample_block [''import'', ''file''] lab []) labels)"

lemma import_reload_value:
  "case Apply sample_globals (import_opts [''b'']) (NewLoader ()) of Inl _ \<Rightarrow> False
   | Inr (ds, l) \<Rightarrow> ds = [] \<and> (case Apply sample_globals (import_opts [''a'', ''a'', ''b'']) l of
         Inl (GraphPanic UnknownEndpoint) \<Rightarrow> True | _ \<Rightarrow> False)"
  by code_simp

section \<open>The properties at the examples\<close>

lemma sample_wf: "globals_wf sample_globals" "opts_wf sample_opts"
  by (auto simp: globals_wf_def sample_globals_def opts_wf_def sample_opts_def sample_options_def split: if_splits)

lemma sample_loaded:
  obtains g l where "load sample_globals sample_opts (NewLoader ()) = Inr ([], g, l)"
    "vertices g = {Node 0 ''logging'', Node 1 ''tracing'', node_by, node_ax}" "(node_by, node_ax) \<in> edge_rel g"
    "GetByID g ''a.x'' = Some node_ax" "GetByID g ''a'' = None" "Variables (scope (cache l)) = []"
    "topo_order g (Leaves g) = [node_ax, node_by, Node 1 ''tracing'', Node 0 ''logging'']"
    "\<not> is_component (heap l (Node 0 ''logging''))" "\<not> is_component (heap l (Node 1 ''tracing''))"
    "is_component (heap l node_by)" "component_id (heap l node_by) = [''b'', ''y'']"
    "is_component (heap l node_ax)" "component_id (heap l node_ax) = [''a'', ''x'']"
    "node_kind (heap l node_by) = BuiltinComponent"
    "block (heap l node_by) = Some (sample_block [''b''] ''y'' [sample_reference])"
    "\<exists>st. visit_all (apply_node sample_globals) [node_ax] (apply_start [] l) = (None, st) \<and>
       exports (heap (as_loader st) node_ax) = Some (Plain 7)"
proof -
  obtain ds g l where L: "sample_load = Inr (ds, g, l)"
    using sample_load_graph that by (auto split: sum.splits)
  note vals = sample_load_graph sample_load_order sample_load_ids sample_load_block sample_load_visit
  show thesis
    using L [unfolded sample_load_def] vals [unfolded L sum.case prod.case]
    by (intro that [of g l])
      (auto simp: vertices_def edge_rel_def split: prod.splits option.splits)
qed

theorem references_are_edges_witness:
  "\<exists>g l. load sample_globals sample_opts (NewLoader ()) = Inr ([], g, l) \<and> node_by \<in> vertices g \<and>
     block (heap l node_by) = Some (sample_block [''b''] ''y'' [sample_reference]) \<and> (node_by, node_ax) \<in> edge_rel g"
proof -
  obtain g l where gl: "load sample_globals sample_opts (NewLoader ()) = Inr ([], g, l)"
    "node_by \<in> vertices g" "node_kind (heap l node_by) \<noteq> DeclareT"
    "block (heap l node_by) = Some (sample_block [''b''] ''y'' [sample_reference])"
    "GetByID g ''a.x'' = Some node_ax" "GetByID g ''a'' = None"
    by (rule sample_loaded) simp
  let ?e = "AccessExpr (IdentifierExpr (Ident ''a'' NoPos) False) (Ident ''x'' NoPos) False"
  have "?e \<in> set (body_subexprs (Body (sample_block [''b''] ''y'' [sample_reference])))"
    by (simp add: body_subexprs_def body_values_def sample_block_def sample_reference_def)
  moreover have "access_path ?e = Some [Ident ''a'' NoPos, Ident ''x'' NoPos]" by simp
  moreover have "names_node g [Ident ''a'' NoPos, Ident ''x'' NoPos] 2 node_ax"
    using gl(5,6) by (auto simp: names_node_def part_name_def Traversal_String_def less_Suc_eq numeral_2_eq_2)
  ultimately show ?thesis
    using references_are_edges [OF gl(1) _ gl(2,3,4)] gl by fastforce
qed

theorem accepted_configuration_evaluated_in_order_witness:
  "\<exists>ds l. Apply sample_globals sample_opts (NewLoader ()) = Inr (ds, l) \<and> componentNodes l = [node_ax, node_by]"
proof -
  obtain ds l' where A: "Apply sample_globals sample_opts (NewLoader ()) = Inr (ds, l')"
    using sample_Apply_value by (cases "Apply sample_globals sample_opts (NewLoader ())") auto
  obtain g l where gl: "load sample_globals sample_opts (NewLoader ()) = Inr ([], g, l)"
    "topo_order g (Leaves g) = [node_ax, node_by, Node 1 ''tracing'', Node 0 ''logging'']"
    "\<not> is_component (heap l (Node 0 ''logging''))" "\<not> is_component (heap l (Node 1 ''tracing''))"
    "is_component (heap l node_by)" "is_component (heap l node_ax)"
    by (rule sample_loaded) simp
  show ?thesis
    using accepted_configuration_evaluated_in_order [OF A gl(1) _ gl(2) [symmetric]] A gl by auto
qed

theorem evaluation_sees_exports_witness:
  "\<exists>l st. visit_all (apply_node sample_globals) [node_ax] (apply_start [] l) = (None, st) \<and>
     get_path (Variables (GetContext (cache (as_loader st)))) [''a'', ''x''] = Some (Plain 7)"
proof -
  obtain g l where gl: "load sample_globals sample_opts (NewLoader ()) = Inr ([], g, l)"
    "vertices g = {Node 0 ''logging'', Node 1 ''tracing'', node_by, node_ax}"
    "(node_by, node_ax) \<in> edge_rel g" "Variables (scope (cache l)) = []"
    "topo_order g (Leaves g) = [node_ax] @ node_by # [Node 1 ''tracing'', Node 0 ''logging'']"
    and c: "\<not> is_component (heap l (Node 0 ''logging''))" "\<not> is_component (heap l (Node 1 ''tracing''))"
    "is_component (heap l node_by)" "component_id (heap l node_by) = [''b'', ''y'']"
    "is_component (heap l node_ax)" "component_id (heap l node_ax) = [''a'', ''x'']"
    and "\<exists>st. visit_all (apply_node sample_globals) [node_ax] (apply_start [] l) = (None, st) \<and>
       exports (heap (as_loader st) node_ax) = Some (Plain 7)"
    by (rule sample_loaded) simp
  then obtain st where st: "visit_all (apply_node sample_globals) [node_ax] (apply_start [] l) = (None, st)"
    "exports (heap (as_loader st) node_ax) = Some (Plain 7)" by blast
  have ids: "ids_apart (heap l) (vertices g)" "ids_free (cache l) (heap l) (vertices g)"
    using c by (auto simp: gl(2) gl(4) ids_apart_def ids_free_def)
  have "get_path (Variables (GetContext (cache (as_loader st)))) (component_id (heap l node_ax)) =
    Some (export_val (heap (as_loader st) node_ax))"
    by (rule evaluation_sees_exports [OF sample_wf NewLoader_wf gl(1) _ ids gl(5) st(1) gl(3) c(5)])
      (simp_all add: c(6) argumentLabel_def)
  with st c(6) show ?thesis by (auto simp: export_val_def)
qed

theorem loader_stays_wf_witness:
  "\<exists>ds l. Apply sample_globals sample_opts (NewLoader ()) = Inr (ds, l) \<and> loader_wf l"
proof -
  obtain ds l' where A: "Apply sample_globals sample_opts (NewLoader ()) = Inr (ds, l')"
    using sample_Apply_value by (cases "Apply sample_globals sample_opts (NewLoader ())") auto
  from loader_stays_wf [OF sample_wf NewLoader_wf A, THEN conjunct2] A show ?thesis by blast
qed

text \<open>A configuration that declares a component twice.\<close>

definition duplicate_opts :: "nat ApplyOptions" where
  "duplicate_opts = sample_options [sample_block [''a''] ''x'' [], sample_block [''a''] ''x'' []] []"

lemma duplicate_value:
  "case Apply sample_globals duplicate_opts (NewLoader ()) of Inl _ \<Rightarrow> False
   | Inr (ds, l) \<Rightarrow> map Message ds = [BlockAlreadyDeclared ''a.x'' NoPos]"
  "case load sample_globals duplicate_opts (NewLoader ()) of Inl _ \<Rightarrow> False
   | Inr (ds, g, l) \<Rightarrow> HasErrors ds"
  by code_simp+

text \<open>After a load, a configuration that declares a component twice and comes with an argument scope.\<close>

definition rejected_opts :: "nat ApplyOptions" where
  "rejected_opts = duplicate_opts\<lparr>ArgScope := Some (NewScope [(''module_path'', Plain 1)])\<rparr>"

lemma rejected_value:
  "case Apply sample_globals sample_opts (NewLoader ()) of Inl _ \<Rightarrow> False
   | Inr (ds, l) \<Rightarrow> get_path (Variables (scope (cache l))) [''a'', ''x''] = Some (Plain 7) \<and>
       (case Apply sample_globals rejected_opts l of Inl _ \<Rightarrow> False | Inr (ds, l') \<Rightarrow> True) \<and>
       (case load sample_globals rejected_opts l of Inl _ \<Rightarrow> False | Inr (ds, g, l') \<Rightarrow> HasErrors ds)"
  by code_simp


text \<open>
  Reloading can panic. The loader has loaded an import and a component of it; a new
  configuration repeats the block of another import before the block of the old one. The node of
  the old import is then in the map of imports but not in the new graph, and wiring the component
  to it is an edge to an unknown node.
\<close>

theorem reload_after_error_panics:
  "\<exists>l. Apply sample_globals (import_opts [''b'']) (NewLoader ()) = Inr ([], l) \<and>
     Apply sample_globals (import_opts [''a'', ''a'', ''b'']) l = Inl (GraphPanic UnknownEndpoint)"
proof -
  obtain ds l where l: "Apply sample_globals (import_opts [''b'']) (NewLoader ()) = Inr (ds, l)"
    using import_reload_value that by (auto split: sum.splits)
  note v = import_reload_value [unfolded l sum.case prod.case]
  then have "Apply sample_globals (import_opts [''a'', ''a'', ''b'']) l = Inl (GraphPanic UnknownEndpoint)"
    by (cases "Apply sample_globals (import_opts [''a'', ''a'', ''b'']) l")
      (auto split: loader_panic.splits graph_panic.splits)
  with v l show ?thesis by blast
qed

end
