(* ===== verification/Loader_Update.thy ===== *)
theory Loader_Update
  imports Loader_Apply Worker_Pool
begin

text \<open>
  Re-evaluation after a component changed its exports, \<^verbatim>\<open>loader.go\<close>: \<open>EvaluateDependants\<close> puts the
  exports of the updated nodes into the cache and submits every node that depends directly on one
  of them to the worker pool, and \<open>concurrentEvalFn\<close> is what a worker then runs.

  What the other goroutines do while the loader waits before it retries a submission is an
  argument, \<open>wait\<close>: from the number of retries and the pool it gives the pool at the end of the wait
  and whether the context is still alive.
\<close>

section \<open>Paths\<close>

text \<open>
  \<open>path.Clean\<close> on the elements of a path, and \<open>path.Join\<close>. The stack holds the elements kept so far,
  the last one first.
\<close>

fun clean_elems :: "bool \<Rightarrow> string list \<Rightarrow> string list \<Rightarrow> string list" where
  "clean_elems rooted [] acc = rev acc"
| "clean_elems rooted (e # es) acc =
     (if e = [] \<or> e = ''.'' then clean_elems rooted es acc
      else if e = ''..'' then
        (case acc of
           [] \<Rightarrow> clean_elems rooted es (if rooted then [] else [''..''])
         | s # ss \<Rightarrow> clean_elems rooted es (if s = ''..'' then ''..'' # acc else ss))
      else clean_elems rooted es (e # acc))"

definition path_Clean :: "string \<Rightarrow> string" where
  "path_Clean p =
     (let rooted = (p \<noteq> [] \<and> hd p = CHR ''/'');
          out = (if rooted then ''/'' else []) @ join (clean_elems rooted (split_on CHR ''/'' p) []) ''/''
      in if out = [] then ''.'' else out)"

definition path_Join :: "string list \<Rightarrow> string" where
  "path_Join elems =
     (let es = dropWhile (\<lambda>e. e = []) elems in if es = [] then [] else path_Clean (join (filter (\<lambda>e. e \<noteq> []) es) ''/''))"

section \<open>Submitting the dependants\<close>

record QueuedNode =
  q_Node :: node
  LastUpdatedTime :: int

type_synonym eval_task = "node \<times> QueuedNode"

definition MaxRetries :: nat where
  "MaxRetries = 20"

text \<open>
  The retry loop: \<open>remaining\<close> submissions may still be tried. \<open>None\<close> is a submission that blocks.
\<close>

fun submit_loop ::
  "(nat \<Rightarrow> eval_task fixedWorkerPool \<Rightarrow> eval_task fixedWorkerPool \<times> bool) \<Rightarrow> nat \<Rightarrow> nat \<Rightarrow> bool \<Rightarrow> string \<Rightarrow> eval_task \<Rightarrow>
   submit_error option \<Rightarrow> eval_task fixedWorkerPool \<Rightarrow> (submit_error option \<times> eval_task fixedWorkerPool) option" where
  "submit_loop wait 0 retries alive key f err p = Some (err, p)"
| "submit_loop wait (Suc remaining) retries alive key f err p =
     (if \<not> alive then Some (err, p)
      else case SubmitWithKey key f p of
          None \<Rightarrow> None
        | Some (None, p) \<Rightarrow> Some (None, p)
        | Some (Some e, p) \<Rightarrow>
            (case wait retries p of (p, alive) \<Rightarrow> submit_loop wait remaining (retries + 1) alive key f (Some e) p))"

text \<open>The exports or the imported content of an updated node, and the nodes that depend on it.\<close>

definition collect_parent ::
  "QueuedNode \<Rightarrow> (node, QueuedNode) gomap \<times> ('v, 'w) Loader \<Rightarrow>
   loader_panic + (node, QueuedNode) gomap \<times> ('v, 'w) Loader" where
  "collect_parent parent st = (case st of (deps, l) \<Rightarrow>
     let n = q_Node parent; obj = heap l n in
     res_bind
       (if is_component obj
        then Inr (l\<lparr>cache := snd (CacheExports (component_id obj) (exports obj) (cache l))\<rparr>)
        else if node_kind obj = ImportT then
          (case updateImportContent (label obj) (imported obj) (customComponentReg l) of
             None \<Rightarrow> Inl (ImportNotRegistered (label obj))
           | Some reg \<Rightarrow> Inr (l\<lparr>customComponentReg := reg\<rparr>))
        else Inr l)
       (\<lambda>l. Inr (snd (WalkIncomingNodes (l_graph l) n (\<lambda>m deps. (None :: unit option, map_put m parent deps)) deps), l)))"

definition submit_key :: "('v, 'w) Globals \<Rightarrow> node \<Rightarrow> string" where
  "submit_key G n = path_Join [ControllerID G, NodeID n]"

fun submit_all ::
  "('v, 'w) Globals \<Rightarrow> (nat \<Rightarrow> eval_task fixedWorkerPool \<Rightarrow> eval_task fixedWorkerPool \<times> bool) \<Rightarrow> bool \<Rightarrow>
   (node \<times> QueuedNode) list \<Rightarrow> eval_task fixedWorkerPool \<Rightarrow> eval_task fixedWorkerPool option" where
  "submit_all G wait alive [] p = Some p"
| "submit_all G wait alive ((n, parent) # deps) p =
     (case submit_loop wait MaxRetries 0 alive (submit_key G n) (n, parent) None p of
        None \<Rightarrow> None
      | Some (err, p) \<Rightarrow> submit_all G wait alive deps p)"

definition EvaluateDependants ::
  "('v, 'w) Globals \<Rightarrow> (nat \<Rightarrow> eval_task fixedWorkerPool \<Rightarrow> eval_task fixedWorkerPool \<times> bool) \<Rightarrow> bool \<Rightarrow> QueuedNode list \<Rightarrow>
   ('v, 'w) Loader \<Rightarrow> eval_task fixedWorkerPool \<Rightarrow> loader_panic + ('v, 'w) Loader \<times> eval_task fixedWorkerPool option" where
  "EvaluateDependants G wait alive updatedNodes l p =
     (if length updatedNodes = 0 then Inr (l, Some p)
      else res_bind (res_fold collect_parent updatedNodes ([], l))
        (\<lambda>(deps, l). Inr (l, submit_all G wait alive deps p)))"

text \<open>What a worker runs for a submitted node.\<close>

definition concurrentEvalFn ::
  "('v, 'w) Globals \<Rightarrow> node \<Rightarrow> ('v, 'w) Loader \<Rightarrow> loader_panic + eval_error option \<times> ('v, 'w) Loader" where
  "concurrentEvalFn G n l =
     res_bind (evaluate G n l) (\<lambda>(err, l). Inr (err, send_exports G (cache_export_value G n l)))"

section \<open>Collecting\<close>

lemma walk_incoming_put:
  "snd (walk_incoming_loop (\<lambda>m deps. (None :: unit option, map_put m parent deps)) ns deps) =
    fold (\<lambda>m deps. map_put m parent deps) ns deps"
  by (induction ns arbitrary: deps) simp_all

lemma dom_fold_put: "dom (map_of (fold (\<lambda>m deps. map_put m v deps) ns deps)) = dom (map_of deps) \<union> set ns"
  by (induction ns arbitrary: deps) auto

lemma map_wf_fold_put: "map_wf deps \<Longrightarrow> map_wf (fold (\<lambda>m deps. map_put m v deps) ns deps)"
  by (induction ns arbitrary: deps) simp_all

lemma collect_parent_ok:
  assumes "collect_parent u (deps, l) = Inr (deps', l')" "graph_inv (l_graph l)"
  shows "l_graph l' = l_graph l" "map_wf deps \<Longrightarrow> map_wf deps'"
    "dom (map_of deps') = dom (map_of deps) \<union> {n. (n, q_Node u) \<in> edge_rel (l_graph l)}"
proof -
  let ?put = "\<lambda>m deps. map_put m u deps"
  have d: "deps' = fold ?put (preds (l_graph l) (q_Node u)) deps" and g: "l_graph l' = l_graph l"
    using assms(1)
    by (auto simp: collect_parent_def Let_def res_bind_Inr WalkIncomingNodes_def walk_incoming_put
        split: if_splits option.splits)
  show "l_graph l' = l_graph l" by (fact g)
  show "map_wf deps \<Longrightarrow> map_wf deps'" unfolding d by (rule map_wf_fold_put)
  show "dom (map_of deps') = dom (map_of deps) \<union> {n. (n, q_Node u) \<in> edge_rel (l_graph l)}"
    unfolding d dom_fold_put using graph_inv_converse [OF assms(2)] by blast
qed

lemma collect_all_ok:
  assumes "res_fold collect_parent us (deps, l) = Inr (deps', l')" "graph_inv (l_graph l)" "map_wf deps"
  shows "map_wf deps' \<and> dom (map_of deps') = dom (map_of deps) \<union> {n. \<exists>u \<in> set us. (n, q_Node u) \<in> edge_rel (l_graph l)}"
  using assms
proof (induction us arbitrary: deps l)
  case (Cons u us)
  then obtain d1 l1 where 1: "collect_parent u (deps, l) = Inr (d1, l1)" "res_fold collect_parent us (d1, l1) = Inr (deps', l')"
    by (auto simp: res_bind_Inr)
  note c = collect_parent_ok [OF 1(1) Cons.prems(2)]
  from Cons.IH [OF 1(2)] Cons.prems(2,3) c show ?case by auto
qed simp

text \<open>The exports of the updated components are in the scope afterwards.\<close>

lemma collect_parent_cache:
  assumes "collect_parent u (deps, l) = Inr (deps', l')"
  shows "heap l' = heap l" "is_component (heap l (q_Node u)) \<Longrightarrow> Variables (scope (cache l')) =
      snd (cache_path (component_id (heap l (q_Node u))) (export_val (heap l (q_Node u))) (Variables (scope (cache l))))"
    "\<not> is_component (heap l (q_Node u)) \<Longrightarrow> cache l' = cache l"
  using assms
  by (auto simp: collect_parent_def Let_def res_bind_Inr CacheExports_frame export_val_def split: if_splits option.splits)

lemma collect_all_caches:
  assumes "res_fold collect_parent us (deps, l) = Inr (deps', l')" "ids_apart (heap l) N" "ids_free (cache l) (heap l) N"
    "q_Node ` set us \<subseteq> N" "D \<subseteq> N" "\<And>m. m \<in> D \<Longrightarrow> is_component (heap l m) \<Longrightarrow> exports_in (cache l) (heap l m)"
    "m \<in> D \<union> q_Node ` set us" "is_component (heap l m)"
  shows "exports_in (cache l') (heap l m)"
  using assms
proof (induction us arbitrary: deps l D)
  case (Cons u us)
  then obtain d1 l1 where 1: "collect_parent u (deps, l) = Inr (d1, l1)" "res_fold collect_parent us (d1, l1) = Inr (deps', l')"
    by (auto simp: res_bind_Inr)
  note c = collect_parent_cache [OF 1(1)]
  let ?n = "q_Node u"
  have n: "?n \<in> N" using Cons.prems(4) by simp
  have "ids_free (cache l1) (heap l) N \<and> (\<forall>m \<in> insert ?n D. is_component (heap l m) \<longrightarrow> exports_in (cache l1) (heap l m))"
  proof (cases "is_component (heap l ?n)")
    case True
    show ?thesis
      using cache_exports_step [OF Cons.prems(2,3) n True c(2) [OF True] Cons.prems(5)] Cons.prems(6) by blast
  next
    case False
    with c(3) Cons.prems(3,6) show ?thesis by auto
  qed
  with Cons.IH [OF 1(2), of "insert ?n D"] Cons.prems(2,4,5,7,8) n c(1) show ?case by auto
qed simp

section \<open>Submitting\<close>

definition pending_keys :: "eval_task fixedWorkerPool \<Rightarrow> string set" where
  "pending_keys p = fst ` set_mset (pending_tasks (workQueue p))"

lemma waiting_pending:
  assumes "queue_inv w" "waiting w key \<noteq> None"
  shows "key \<in> fst ` set_mset (pending_tasks w)"
proof -
  have "key \<in> set (waitingOrder w)" using assms by (auto simp: queue_inv_def queue_shape_def)
  then show ?thesis by (force simp: pending_tasks_def waiting_tasks_def)
qed

lemma SubmitWithKey_room:
  assumes "queue_inv (workQueue p)" "QueueSize p < maxSize (workQueue p)"
  obtains p' where "SubmitWithKey key f p = Some (None, p')" "queue_inv (workQueue p')"
    "QueueSize p' \<le> QueueSize p + 1" "maxSize (workQueue p') = maxSize (workQueue p)"
    "pending_keys p' = insert key (pending_keys p)"
proof -
  obtain r w' where t: "tryEnqueue key f (workQueue p) = Some (r, w')" "queue_inv w'"
    "maxSize w' = maxSize (workQueue p)" "queueSize w' = queueSize (workQueue p) + (if r = Inr True then 1 else 0)"
    using tryEnqueue_inv [OF assms(1)] by metis
  have r: "r \<noteq> Inl QueueFull" and idle: "r \<noteq> Inr True \<Longrightarrow> waiting (workQueue p) key \<noteq> None"
    using t(1) assms(2) by (auto simp: tryEnqueue_def QueueSize_def split: if_splits)
  then obtain b where b: "r = Inr b" by (cases r) (auto intro: submit_error.exhaust)
  have "fst ` set_mset (pending_tasks w') = insert key (fst ` set_mset (pending_tasks (workQueue p)))"
    using tryEnqueue_pending [OF assms(1) t(1)] idle waiting_pending [OF assms(1), of key] by auto
  with t b show thesis
    by (intro that [of "p\<lparr>workQueue := w'\<rparr>"]) (auto simp: SubmitWithKey_def pending_keys_def QueueSize_def)
qed

lemma submit_all_room:
  assumes "queue_inv (workQueue p)" "QueueSize p + int (length deps) \<le> maxSize (workQueue p)"
  shows "\<exists>p'. submit_all G wait True deps p = Some p' \<and>
    pending_keys p' = pending_keys p \<union> submit_key G ` fst ` set deps"
  using assms
proof (induction deps arbitrary: p)
  case (Cons d deps)
  obtain n u where d: "d = (n, u)" by (cases d)
  obtain p1 where p1: "SubmitWithKey (submit_key G n) (n, u) p = Some (None, p1)" "queue_inv (workQueue p1)"
    "QueueSize p1 \<le> QueueSize p + 1" "maxSize (workQueue p1) = maxSize (workQueue p)"
    "pending_keys p1 = insert (submit_key G n) (pending_keys p)"
    using SubmitWithKey_room [OF Cons.prems(1), of "submit_key G n" "(n, u)"] Cons.prems(2) by auto
  have "submit_loop wait MaxRetries 0 True (submit_key G n) (n, u) None p = Some (None, p1)"
    by (simp add: MaxRetries_def numeral_eq_Suc p1(1))
  moreover from Cons.IH [OF p1(2)] p1(3,4) Cons.prems(2) obtain p' where
    "submit_all G wait True deps p1 = Some p'" "pending_keys p' = pending_keys p1 \<union> submit_key G ` fst ` set deps"
    by auto
  ultimately show ?case using p1(5) by (auto simp: d)
qed simp

text \<open>
  C16: after some nodes changed their exports, every node that depends directly on one of them, and
  no other, is handed to the worker pool: when the pool has room for them, the call returns without
  blocking, and afterwards the keys of the tasks waiting for a worker are those from before together
  with the keys of the dependants. The exports of each updated component are then in the scope under its
  ID, provided that no ID of an updated component is a part of another's and nothing is in their way.
\<close>

theorem EvaluateDependants_submits:
  assumes "NewFixedWorkerPool workers_n queue_n = Inr p0" and "pool_run p0 es p" and "graph_inv (l_graph l)" and "us \<noteq> []"
    and "EvaluateDependants G wait True us l p = Inr (l', r)"
    and "D = {n. \<exists>u \<in> set us. (n, q_Node u) \<in> edge_rel (l_graph l)}"
    and "QueueSize p + int (card D) \<le> maxSize (workQueue p)"
  shows "(\<exists>p'. r = Some p' \<and> pending_keys p' = pending_keys p \<union> submit_key G ` D) \<and>
    (ids_apart (heap l) (q_Node ` set us) \<longrightarrow> ids_free (cache l) (heap l) (q_Node ` set us) \<longrightarrow>
      (\<forall>u \<in> set us. is_component (heap l (q_Node u)) \<longrightarrow> exports_in (cache l') (heap l (q_Node u))))"
proof -
  have q: "queue_inv (workQueue p)" using pool_run_inv [OF assms(2)] NewFixedWorkerPool_inv [OF assms(1)] by (auto simp: pool_inv_def)
  obtain deps where deps: "res_fold collect_parent us ([], l) = Inr (deps, l')" "r = submit_all G wait True deps p"
    using assms(4,5) by (auto simp: EvaluateDependants_def res_bind_Inr)
  have d: "map_wf deps" "dom (map_of deps) = D"
    using collect_all_ok [OF deps(1) assms(3)] assms(6) by auto
  have keys: "fst ` set deps = D" using d(2) by (simp add: dom_map_of_conv_image_fst)
  moreover have "length deps = card D"
    using distinct_card [of "map fst deps"] d(1) keys by (simp add: map_wf_def)
  ultimately have "\<exists>p'. r = Some p' \<and> pending_keys p' = pending_keys p \<union> submit_key G ` D"
    using submit_all_room [OF q, of deps G wait] assms(7) deps(2) by simp
  moreover have "exports_in (cache l') (heap l (q_Node u))"
    if "ids_apart (heap l) (q_Node ` set us)" "ids_free (cache l) (heap l) (q_Node ` set us)" "u \<in> set us" "is_component (heap l (q_Node u))" for u
    by (rule collect_all_caches [OF deps(1) that(1,2) subset_refl empty_subsetI _ _ that(4)]) (use that(3) in auto)
  ultimately show ?thesis by blast
qed

section \<open>Evaluation by a worker\<close>

lemma send_exports_fields [simp]:
  "heap (send_exports G l) = heap l" "cache (send_exports G l) = cache l" "l_graph (send_exports G l) = l_graph l" "world (send_exports G l) = world l"
  by (simp_all add: send_exports_def)

lemma cache_export_value_fields [simp]:
  "heap (cache_export_value G n l) = heap l" "l_graph (cache_export_value G n l) = l_graph l" "world (cache_export_value G n l) = world l"
  "moduleExportIndex (cache_export_value G n l) = moduleExportIndex l" "exports_sent (cache_export_value G n l) = exports_sent l"
  by (simp_all add: cache_export_value_def)

lemma postEvaluate_fields:
  assumes "postEvaluate G n e l = Inr (e', l')"
  shows "l_graph l' = l_graph l" "world l' = world l" "moduleExportIndex l' = moduleExportIndex l" "exports_sent l' = exports_sent l"
    "node_kind (heap l n) = ExportT \<Longrightarrow> e' = e"
  using assms by (auto simp: postEvaluate_def is_component_def Let_def split: if_splits option.splits prod.splits)

lemma Evaluate_fields:
  assumes "Evaluate G n sc l = (e, l')"
  shows "l_graph l' = l_graph l" "moduleExportIndex l' = moduleExportIndex l" "exports_sent l' = exports_sent l"
  using assms by (auto simp: Evaluate_def Let_def split: prod.splits sum.splits node_type.splits)

lemma Evaluate_component:
  assumes "Evaluate G n sc l = (e, l')" "is_component (heap l n)"
  obtains ex im w where "eval_node G n (heap l n) sc (world l) = (e, ex, im, w)" "heap l' n = (heap l n)\<lparr>exports := ex, imported := im\<rparr>"
    "world l' = w"
  using assms by (auto simp: Evaluate_def is_component_def Let_def split: prod.splits)

lemma Evaluate_export:
  assumes "Evaluate G n sc l = (e, l')" "node_kind (heap l n) = ExportT"
  shows "case eval_export G (block (heap l n)) sc of
      Inl failure \<Rightarrow> e = Some failure \<and> heap l' n = heap l n | Inr v \<Rightarrow> e = None \<and> export_value (heap l' n) = v"
  using assms by (auto simp: Evaluate_def Let_def split: sum.splits)


section \<open>Examples\<close>

definition sample_update_pool :: "eval_task fixedWorkerPool" where
  "sample_update_pool = \<lparr>workQueue = \<lparr>maxSize = 4, tasksToRun = [], waitingOrder = [], waiting = Map.empty, running = {}\<rparr>,
     quit = False, workers = [Idle]\<rparr>"

definition sample_update :: "QueuedNode list" where
  "sample_update = [\<lparr>q_Node = node_ax, LastUpdatedTime = 0\<rparr>]"

lemma sample_update_value:
  "case Apply sample_globals sample_opts (NewLoader ()) of Inl _ \<Rightarrow> False
   | Inr (ds, l) \<Rightarrow> edge_set (inEdges (l_graph l)) node_ax = [node_by] \<and>
       (case EvaluateDependants sample_globals (\<lambda>_ p. (p, True)) True sample_update l sample_update_pool of
          Inl _ \<Rightarrow> False | Inr _ \<Rightarrow> True) \<and>
       (case concurrentEvalFn sample_globals node_by l of Inl _ \<Rightarrow> False | Inr (err, l') \<Rightarrow> err = None)"
  by code_simp

lemma sample_updated:
  obtains ds l where "Apply sample_globals sample_opts (NewLoader ()) = Inr (ds, l)" "loader_wf l"
    "set (preds (l_graph l) node_ax) = {node_by}"
    "\<exists>l' r. EvaluateDependants sample_globals (\<lambda>_ p. (p, True)) True sample_update l sample_update_pool = Inr (l', r)"
    "\<exists>l'. concurrentEvalFn sample_globals node_by l = Inr (None, l')"
proof -
  obtain ds l where A: "Apply sample_globals sample_opts (NewLoader ()) = Inr (ds, l)"
    using sample_update_value that by (auto split: sum.splits)
  from sample_update_value [unfolded A sum.case prod.case] show thesis
    by (intro that [OF A Apply_loader_wf [OF sample_wf NewLoader_wf A]]) (auto split: sum.splits)
qed

theorem EvaluateDependants_submits_witness:
  "\<exists>l l' p'. EvaluateDependants sample_globals (\<lambda>_ p. (p, True)) True sample_update l sample_update_pool = Inr (l', Some p') \<and>
     pending_keys p' = {submit_key sample_globals node_by}"
proof -
  obtain ds l l' r where l: "loader_wf l" "set (preds (l_graph l) node_ax) = {node_by}"
    "EvaluateDependants sample_globals (\<lambda>_ p. (p, True)) True sample_update l sample_update_pool = Inr (l', r)"
    using sample_updated by metis
  have g: "graph_inv (l_graph l)" using l(1) by (simp add: loader_wf_def)
  have new: "NewFixedWorkerPool 1 4 = Inr sample_update_pool"
    by (simp add: NewFixedWorkerPool_def newWorkQueue_def sample_update_pool_def)
  have D: "{node_by} = {n. \<exists>u \<in> set sample_update. (n, q_Node u) \<in> edge_rel (l_graph l)}"
    using l(2) graph_inv_converse [OF g] by (auto simp: sample_update_def)
  have "QueueSize sample_update_pool + int (card {node_by}) \<le> maxSize (workQueue sample_update_pool)" "pending_keys sample_update_pool = {}"
    by (simp_all add: sample_update_pool_def QueueSize_def queueSize_def pending_keys_def pending_tasks_def)
  with EvaluateDependants_submits [OF new pool_run.none g _ l(3) D] l(3) show ?thesis by (auto simp: sample_update_def)
qed


end
