(* ===== verification/Scanner_Text.thy ===== *)
theory Scanner_Text
  imports Scanner_Scan
begin

text \<open>
  The literals of two kinds of tokens: a string literal is not empty, and a comment starts with its
  two-character opening. The parser indexes into both.
\<close>

lemma scanString_nonempty:
  assumes "scan_inv v" "1 \<le> offset v"
  shows "fst (scanString until esc ml v) \<noteq> []"
proof -
  let ?s = "string_loop (offset v - 1) until esc ml v"
  have "scan_inv ?s" "input ?s = input v" "offset v \<le> offset ?s"
    using assms(1) string_body.keeps_inv string_body.keeps_input string_body.offset_mono by blast+
  moreover have "offset ?s \<le> length (input ?s)"
    using \<open>scan_inv ?s\<close> cursor_readOffset [of ?s] by (simp add: scan_inv_def)
  ultimately show ?thesis using assms(2) by (auto simp: scanString_eq byte_slice_def)
qed

lemma stripCR_loop_length: "length c \<le> length (stripCR_loop bc b c)"
proof (induction b arbitrary: c)
  case (Cons x b)
  from Cons [of "c @ [x]"] Cons [of c] show ?case by simp
qed simp

lemma stripCR_keeps:
  assumes "x \<noteq> CHR 0x0D" "y \<noteq> CHR 0x0D"
  shows "2 \<le> length (stripCR (x # y # r) bc)"
  using assms stripCR_loop_length [of "[x, y]" bc r] by (simp add: stripCR_def)

text \<open>What \<open>scanComment\<close> makes of the text it has read.\<close>

definition comment_text :: "string \<Rightarrow> nat \<Rightarrow> bool \<Rightarrow> string" where
  "comment_text l n bc =
     (if 0 < n \<and> 1 \<le> length l \<and> l ! (length l - 1) = CHR 0x0D
      then (if 0 < n - 1 then stripCR (take (length l - 1) l) bc else take (length l - 1) l)
      else (if 0 < n then stripCR l bc else l))"

lemma comment_text_length:
  assumes "x \<noteq> CHR 0x0D" "y \<noteq> CHR 0x0D"
  shows "2 \<le> length (comment_text (x # y # r) n bc)"
proof (cases "0 < n \<and> (x # y # r) ! (length (x # y # r) - 1) = CHR 0x0D")
  case True
  with assms have "r \<noteq> []" by auto
  then have "take (length (x # y # r) - 1) (x # y # r) = x # y # butlast r"
    by (simp add: butlast_conv_take take_Cons')
  with True show ?thesis using stripCR_keeps [OF assms, of "butlast r" bc] by (simp add: comment_text_def)
next
  case False
  then show ?thesis using stripCR_keeps [OF assms, of r bc] by (auto simp: comment_text_def)
qed

lemma comment_text_pair:
  "(case (if 0 < n \<and> 1 \<le> length l \<and> l ! (length l - 1) = CHR 0x0D then (take (length l - 1) l, n - 1) else (l, n)) of
      (l, n) \<Rightarrow> (if 0 < n then stripCR l bc else l, s)) = (comment_text l n bc, s)"
  by (simp add: comment_text_def)

lemma scanComment_state:
  "\<exists>s' bc n. fst (scanComment v) = comment_text (byte_slice (offset v - 1) (offset s') (input s')) n bc \<and>
     advances (scan_next v) s'"
proof -
  obtain n s where l: "line_comment_loop 0 (scan_next v) = (n, s)" by fastforce
  obtain c m t where b: "block_comment_loop 0 (scan_next v) = (c, m, t)" by (metis prod_cases3)
  let ?t = "if c then t else onError (offset v - 1) CommentNotTerminated t"
  have "advances (scan_next v) s" "advances (scan_next v) t"
    using line_comment.forward [of "scan_next v" 0] block_comment.forward [of "scan_next v" 0] by (simp_all add: l b)
  then have adv: "advances (scan_next v) s" "advances (scan_next v) ?t"
    by (simp_all add: advances_onError)
  show ?thesis
  proof (cases "ch v = rune (CHR ''/'')")
    case True
    have "scanComment v = (comment_text (byte_slice (offset v - 1) (offset s) (input s)) n False, s)"
      unfolding scanComment_def l Let_def if_P [OF True] prod.case by (rule comment_text_pair)
    with adv(1) show ?thesis by (metis fst_conv)
  next
    case False
    have "scanComment v = (comment_text (byte_slice (offset v - 1) (offset ?t) (input ?t)) m True, ?t)"
      unfolding scanComment_def b Let_def if_not_P [OF False] prod.case by (rule comment_text_pair)
    with adv(2) show ?thesis by (metis fst_conv)
  qed
qed

lemma scanComment_length:
  assumes v: "scan_inv v" "1 \<le> offset v" "ch v = rune c" "c = CHR ''/'' \<or> c = CHR ''*''"
    and slash: "input v ! (offset v - 1) = CHR ''/''"
  shows "2 \<le> length (fst (scanComment v))"
proof -
  obtain s' bc n where eq: "fst (scanComment v) = comment_text (byte_slice (offset v - 1) (offset s') (input s')) n bc"
    and adv: "advances (scan_next v) s'"
    using scanComment_state by metis
  have lo: "byte c < 128" using v(4) by (auto simp: byte_def)
  note c = cursor_byte [OF v(1,3) lo]
  have s': "scan_inv s'" "input s' = input v" "offset v + 1 \<le> offset s'"
    using adv next_char.keeps_inv [OF v(1)] c(4) by (simp_all add: advances_def)
  then have le: "offset s' \<le> length (input v)" using cursor_readOffset [of s'] by (simp add: scan_inv_def)
  have "drop (offset v - 1) (take (offset s') (input v)) =
      input v ! (offset v - 1) # input v ! offset v # drop (offset v + 1) (take (offset s') (input v))"
    using Cons_nth_drop_Suc [of "offset v - 1" "take (offset s') (input v)"]
      Cons_nth_drop_Suc [of "offset v" "take (offset s') (input v)"] v(2) s'(3) le by simp
  then have "byte_slice (offset v - 1) (offset s') (input s') = CHR ''/'' # c # drop (offset v + 1) (take (offset s') (input v))"
    using slash c(3) s'(2) by (simp add: byte_slice_def)
  with comment_text_length show ?thesis using v(4) by (auto simp: eq)
qed

text \<open>An outcome of the scanner with a usable literal.\<close>

fun text_ok :: "scan_outcome \<Rightarrow> bool" where
  "text_ok (Finish t l it s') \<longleftrightarrow> (t = STRING \<longrightarrow> l \<noteq> []) \<and> (t = COMMENT \<longrightarrow> 2 \<le> length l)"
| "text_ok (Return t l s') \<longleftrightarrow> t \<noteq> STRING \<and> t \<noteq> COMMENT"
| "text_ok (Again s') \<longleftrightarrow> True"

lemma text_ok_if: "(P \<Longrightarrow> text_ok a) \<Longrightarrow> (\<not> P \<Longrightarrow> text_ok b) \<Longrightarrow> text_ok (if P then a else b)"
  by simp

lemma text_ok_switch2:
  "{a, b} \<inter> {STRING, COMMENT} = {} \<Longrightarrow> text_ok (case switch2 a b nxt s of (t, s') \<Rightarrow> Finish t [] it s')"
  by (auto simp: switch2_def)

lemma text_ok_string:
  assumes "scan_inv v" "1 \<le> offset v"
  shows "text_ok (case scanString until esc ml v of (l, s') \<Rightarrow> Finish t l it s') \<or> t = COMMENT"
  using scanString_nonempty [OF assms] by (simp add: case_prod_beta)

lemma text_ok_slash:
  assumes s: "scan_inv s" "ch s = rune (CHR ''/'')"
  shows "text_ok (scan_slash n (scan_next s))"
proof -
  let ?n = "scan_next s"
  let ?p = "if insertTerm ?n then findLineEnd ?n else (False, ?n)"
  note c = cursor_byte [OF s slash_low]
  have n: "scan_inv ?n" using next_char.keeps_inv [OF s(1)] .
  let ?t = "snd (line_end_loop ?n)" let ?r = "rewind (offset s) ?t"
  have "advances ?n ?t" by (rule line_end.forward)
  then have t: "scan_inv ?t" "input ?t = input s" "offset s \<le> offset ?t"
    using n c(4) by (simp_all add: advances_def)
  have r: "scan_inv ?r" using scan_inv_rewind(1) [OF t s] .
  have "offset (scan_next ?r) = offset ?n"
    using cursor_next(2) [of ?r] r c(4) by (simp add: scan_inv_def rewind_def del: scan_next_simps)
  moreover have "snd (findLineEnd ?n) = scan_next ?r" using c(4) by (simp add: findLineEnd_state)
  ultimately have off: "offset (snd ?p) = offset ?n" by simp
  have adv: "advances ?n (snd ?p)" using findLineEnd_advances [OF s] by simp
  then have p: "scan_inv (snd ?p)" "input (snd ?p) = input s" using n by (simp_all add: advances_def)
  with off n cursor_unique [of "snd ?p" ?n] have ch: "ch (snd ?p) = ch ?n" by (simp add: scan_inv_def)
  have "2 \<le> length (fst (scanComment (snd ?p)))" if "ch ?n = rune (CHR ''/'') \<or> ch ?n = rune (CHR ''*'')"
    using scanComment_length [OF p(1)] that ch off c(3,4) p(2) by (metis add_diff_cancel_right' le_add2)
  then show ?thesis unfolding scan_slash_def by (cases "insertTerm s") (auto simp: case_prod_beta)
qed

lemma text_ok_other:
  assumes s: "scan_inv s"
  shows "text_ok (scan_other n (ch s) (scan_next s))"
proof -
  have str: "text_ok (case scanString until esc ml v of (l, s') \<Rightarrow> Finish t l it s')"
    if "ch s = rune q" "byte q < 128" "v = scan_next s \<or> v = onError n m (scan_next s)" "t \<noteq> COMMENT" for until esc ml v t it q m
  proof -
    have "advances (scan_next s) v" "offset v = offset (scan_next s)"
      using that(3) by (auto simp: advances_onError)
    then have "scan_inv v" "1 \<le> offset v"
      using next_char.keeps_inv [OF s] cursor_byte(4) [OF s that(1,2)] by (simp_all add: advances_def)
    from text_ok_string [OF this] that(4) show ?thesis by blast
  qed
  have ill: "text_ok (case scanString until esc ml (onError n m (scan_next s)) of (l, s') \<Rightarrow> Finish ILLEGAL l it s')" for until esc ml it m
    by (simp add: case_prod_beta)
  have lo: "byte (CHR 0x22) < 128" "byte (CHR 0x60) < 128" by (simp_all add: byte_def)
  note double = str [OF _ lo(1) disjI1 [OF refl]] and backquoted = str [OF _ lo(2) disjI1 [OF refl]]
  show ?thesis
    unfolding scan_other_def Let_def
    by (intro text_ok_if text_ok_switch2 ill double backquoted text_ok_slash [OF s]; (assumption | simp))
qed

lemma text_ok_token: "scan_inv s \<Longrightarrow> text_ok (scan_token u s)"
  using text_ok_other by (auto simp: scan_token_def Let_def Lookup_def scanNumber_stages case_prod_beta)

lemma Scan_text:
  assumes "scan_inv s" "Scan u s = (n, t, l, s')"
  shows "(t = STRING \<longrightarrow> l \<noteq> []) \<and> (t = COMMENT \<longrightarrow> 2 \<le> length l)"
  using assms
proof (induction u s rule: Scan.induct)
  case (1 u s)
  let ?t = "skipWhitespace s"
  have t: "scan_inv ?t" using skip_white.keeps_inv [OF 1(2)] .
  note ok = text_ok_token [OF t, of u]
  show ?case
  proof (cases "scan_token u ?t")
    case (Again v)
    have "moves ?t v" using scan_token_ok [OF t skipWhitespace_not_white, of u] Again by simp
    then show ?thesis using 1(1) [OF refl refl Again] 1(3) Scan_Again [OF Again] by (simp add: moves_def)
  qed (use ok 1(3) in \<open>auto simp: Scan.simps [of u s] Let_def split: if_splits\<close>)
qed

end
