(* ===== verification/Parser.thy ===== *)
theory Parser
  imports Syntax_Ast Identifier "HOL-Library.Monad_Syntax"
begin

text \<open>
  The parser of the configuration language, \<^verbatim>\<open>syntax/parser/internal.go\<close> and \<^verbatim>\<open>parser.go\<close>: a
  recursive descent over the tokens of the scanner that goes on after errors.

  The parser owns one file, the line table of its scanner; its address is 0. Errors that the scanner
  reports while it scans a token become diagnostics once the token is scanned: the line of a reported
  offset does not depend on later lines. Messages are values with what they print.

  A parse function gives \<open>None\<close> when its fuel runs out or when a literal is too short for the
  indexing the code does with it. The loops that skip tokens have as much fuel as there can be tokens,
  the mutually recursive functions get theirs from the caller. \<open>Parser_Progress\<close> shows that the parser
  never gives \<open>None\<close>.
\<close>

section \<open>State\<close>

datatype parse_message =
  ScanMessage scan_error
| ExpectedToken Token Token
| AttributeNameDotted
| AttributeLabel
| ExpectedAttributeOrBlock Token
| ExpectedBlockBody Token
| ExpectedIdentifier Token
| LabelNotDoubleQuoted string
| LabelNotIdentifier string
| ExpectedLabel Token
| BlockAsExpression
| ExpectedExpression Token
| MissingCommaInExpressions
| MissingCommaInFields
| ExpectedFieldName Token

record parse_diag =
  d_StartPos :: Position
  d_EndPos :: Position
  d_Message :: parse_message

record parser =
  diags :: "parse_diag list"
  scanner :: Scanner
  comments :: "CommentGroup list"
  pos :: Pos
  tok :: Token
  lit :: string
  lastError :: Position

type_synonym 'a parse = "('a \<times> parser) option"
type_synonym token_triple = "Pos \<times> Token \<times> string"

definition zero_Position :: Position where
  "zero_Position = \<lparr>Filename = [], Offset = 0, Line = 0, Column = 0\<rparr>"

definition position :: "parser \<Rightarrow> Pos \<Rightarrow> Position" where
  "position p q = (case PositionFor [0 \<mapsto> src_file (scanner p)] (Some 0) q of Inl _ \<Rightarrow> zero_Position | Inr r \<Rightarrow> r)"

definition offset_pos :: "nat \<Rightarrow> Pos" where
  "offset_pos n = \<lparr>pos_file = Some 0, off = int n\<rparr>"

definition scan_diag :: "parser \<Rightarrow> nat \<times> scan_error \<Rightarrow> parse_diag" where
  "scan_diag p e = \<lparr>d_StartPos = position p (offset_pos (fst e)), d_EndPos = zero_Position, d_Message = ScanMessage (snd e)\<rparr>"

definition add_diag :: "Pos \<Rightarrow> Pos \<Rightarrow> parse_message \<Rightarrow> parser \<Rightarrow> parser" where
  "add_diag a b m p = p\<lparr>diags := diags p @ [\<lparr>d_StartPos = position p a, d_EndPos = position p b, d_Message = m\<rparr>]\<rparr>"

definition addErrorf :: "parse_message \<Rightarrow> parser \<Rightarrow> parser" where
  "addErrorf m p =
     (let q = position p (pos p) in
      if Line (lastError p) = Line q then p
      else p\<lparr>lastError := q, diags := diags p @ [\<lparr>d_StartPos = q, d_EndPos = zero_Position, d_Message = m\<rparr>]\<rparr>)"

section \<open>Tokens\<close>

definition next0 :: "unicode \<Rightarrow> parser \<Rightarrow> parser" where
  "next0 u p =
     (case Scan u (scanner p) of (n, t, l, s) \<Rightarrow>
        let p' = p\<lparr>scanner := s, pos := offset_pos n, tok := t, lit := l\<rparr>
        in p'\<lparr>diags := diags p @ map (scan_diag p') (drop (length (errs (scanner p))) (errs s))\<rparr>)"

text \<open>How many tokens there can be, the current one included, with room to spare.\<close>

definition remaining :: "parser \<Rightarrow> nat" where
  "remaining p = 2 * tokens_left (scanner p) + (if tok p = EOF then 0 else 1)"

definition consumeComment :: "unicode \<Rightarrow> parser \<Rightarrow> (Comment \<times> int \<times> parser) option" where
  "consumeComment u p =
     (case lit p of
        _ # c # _ \<Rightarrow>
          Some (\<lparr>Comment_StartPos = pos p, Text = lit p\<rparr>,
                Line (position p (pos p)) + (if c = CHR ''*'' then int (length (filter (\<lambda>c. c = CHR 0x0A) (lit p))) else 0),
                next0 u p)
      | _ \<Rightarrow> None)"

fun comment_group_loop :: "nat \<Rightarrow> unicode \<Rightarrow> int \<Rightarrow> parser \<Rightarrow> CommentGroup parse" where
  "comment_group_loop 0 u endline p = None"
| "comment_group_loop (Suc n) u endline p =
     (if tok p = COMMENT \<and> Line (position p (pos p)) \<le> endline + 1
      then do {
        (comment, endline, p) \<leftarrow> consumeComment u p;
        (cs, p) \<leftarrow> comment_group_loop n u endline p;
        Some (comment # cs, p)
      }
      else Some ([], p))"

definition consumeCommentGroup :: "nat \<Rightarrow> unicode \<Rightarrow> parser \<Rightarrow> parser option" where
  "consumeCommentGroup n u p = do {
     (cs, p) \<leftarrow> comment_group_loop n u (Line (position p (pos p))) p;
     Some (p\<lparr>comments := comments p @ [cs]\<rparr>)
   }"

fun next_loop :: "nat \<Rightarrow> unicode \<Rightarrow> parser \<Rightarrow> parser option" where
  "next_loop 0 u p = None"
| "next_loop (Suc n) u p = (if tok p = COMMENT then consumeCommentGroup n u p \<bind> next_loop n u else Some p)"

definition parser_next :: "unicode \<Rightarrow> parser \<Rightarrow> parser option" where
  "parser_next u p = (let p = next0 u p in next_loop (remaining p + 2) u p)"

fun advance_loop :: "nat \<Rightarrow> unicode \<Rightarrow> Token list \<Rightarrow> parser \<Rightarrow> parser option" where
  "advance_loop 0 u to p = None"
| "advance_loop (Suc n) u to p =
     (if tok p \<noteq> EOF then if tok p \<in> set to then Some p else parser_next u p \<bind> advance_loop n u to else Some p)"

definition advance :: "unicode \<Rightarrow> Token \<Rightarrow> parser \<Rightarrow> parser option" where
  "advance u to p = advance_loop (remaining p + 1) u [to] p"

definition advanceAny :: "unicode \<Rightarrow> Token list \<Rightarrow> parser \<Rightarrow> parser option" where
  "advanceAny u to p = advance_loop (remaining p + 1) u to p"

definition expect :: "unicode \<Rightarrow> Token \<Rightarrow> parser \<Rightarrow> token_triple parse" where
  "expect u t p = do {
     p' \<leftarrow> parser_next u (if tok p \<noteq> t then addErrorf (ExpectedToken t (tok p)) p else p);
     Some ((pos p, tok p, lit p), p')
   }"

text \<open>Each opening and closing token changes one counter.\<close>

definition count_pair :: "Token \<Rightarrow> Token \<Rightarrow> Token \<Rightarrow> int \<Rightarrow> int" where
  "count_pair opening closing t c = (if t = opening then c + 1 else if t = closing then c - 1 else c)"

fun consume_loop :: "nat \<Rightarrow> unicode \<Rightarrow> int \<Rightarrow> int \<Rightarrow> int \<Rightarrow> parser \<Rightarrow> parser option" where
  "consume_loop 0 u curlyPairs brackPairs parenPairs p = None"
| "consume_loop (Suc n) u curlyPairs brackPairs parenPairs p =
     (if tok p \<noteq> EOF then
        (let curlyPairs = count_pair LCURLY RCURLY (tok p) curlyPairs;
             brackPairs = count_pair LBRACK RBRACK (tok p) brackPairs;
             parenPairs = count_pair LPAREN RPAREN (tok p) parenPairs
         in if tok p = TERMINATOR \<and> curlyPairs \<le> 0 \<and> brackPairs \<le> 0 \<and> parenPairs \<le> 0 then Some p
            else parser_next u p \<bind> consume_loop n u curlyPairs brackPairs parenPairs)
      else Some p)"

definition consumeStatement :: "unicode \<Rightarrow> parser \<Rightarrow> parser option" where
  "consumeStatement u p = consume_loop (remaining p + 1) u 0 0 0 p"

section \<open>Block names\<close>

record blockName =
  Fragments :: "string list"
  bn_Label :: string
  Start :: Pos
  bn_LabelPos :: Pos

definition ValidAttribute :: "blockName \<Rightarrow> bool" where
  "ValidAttribute n \<longleftrightarrow> length (Fragments n) = 1 \<and> bn_Label n = []"

fun fragments_loop :: "nat \<Rightarrow> unicode \<Rightarrow> parser \<Rightarrow> string list parse" where
  "fragments_loop 0 u p = None"
| "fragments_loop (Suc n) u p =
     (if tok p = DOT then do {
        p \<leftarrow> parser_next u p;
        let p = (if tok p \<noteq> IDENT then addErrorf (ExpectedIdentifier (tok p)) p else p);
        let fragment = lit p;
        p \<leftarrow> parser_next u p;
        (fs, p) \<leftarrow> fragments_loop n u p;
        Some (fragment # fs, p)
      }
      else Some ([], p))"

text \<open>The literal without its first and its last byte.\<close>

definition unquote :: "string \<Rightarrow> string" where
  "unquote l = butlast (tl l)"

text \<open>The label and its position, with the errors that the label causes.\<close>

definition block_label :: "unicode \<Rightarrow> parser \<Rightarrow> (string \<times> Pos) parse" where
  "block_label u p =
     (if tok p \<noteq> STRING then Some (([], NoPos), addErrorf (ExpectedLabel (tok p)) p)
      else case lit p of
        [] \<Rightarrow> None
      | c # _ \<Rightarrow>
          (let p = (if c \<noteq> CHR 0x22 then addErrorf (LabelNotDoubleQuoted (lit p)) p else p);
               l = (if length (lit p) > 2 then unquote (lit p) else []);
               p = (if length (lit p) > 2 \<and> \<not> IsValidIdentifier u l then addErrorf (LabelNotIdentifier l) p else p)
           in Some ((l, pos p), p)))"

definition parseBlockName :: "unicode \<Rightarrow> parser \<Rightarrow> blockName option parse" where
  "parseBlockName u p =
     (if tok p \<noteq> IDENT then Some (None, addErrorf (ExpectedIdentifier (tok p)) p)
      else do {
        let start = pos p;
        let first = lit p;
        p \<leftarrow> parser_next u p;
        (fs, p) \<leftarrow> fragments_loop (remaining p + 1) u p;
        if tok p \<noteq> ASSIGN \<and> tok p \<noteq> LCURLY then do {
          ((l, lp), p) \<leftarrow> block_label u p;
          p \<leftarrow> parser_next u p;
          Some (Some \<lparr>Fragments = first # fs, bn_Label = l, Start = start, bn_LabelPos = lp\<rparr>, p)
        }
        else Some (Some \<lparr>Fragments = first # fs, bn_Label = [], Start = start, bn_LabelPos = NoPos\<rparr>, p)
      })"

section \<open>Statements and expressions\<close>

definition isUnaryOp :: "Token \<Rightarrow> bool" where
  "isUnaryOp t \<longleftrightarrow> t = NOT \<or> t = SUB"

definition statementEnd :: "Token list" where
  "statementEnd = [TERMINATOR, RPAREN, RCURLY, RBRACK, COMMA]"

text \<open>
  The name of an object field; where the code leaves the name nil, after an error, it is
  \<open>nil_Ident\<close>.
\<close>

definition nil_Ident :: Ident where
  "nil_Ident = Ident [] NoPos"

definition field_name :: "Pos \<Rightarrow> Token \<Rightarrow> string \<Rightarrow> Ident \<times> bool" where
  "field_name ps t l = (if t = STRING \<and> length l > 2 then (Ident (unquote l) ps, True) else (Ident l ps, False))"

definition parse_field_name :: "unicode \<Rightarrow> parser \<Rightarrow> (Ident \<times> bool) parse" where
  "parse_field_name u p =
     (if tok p = STRING \<or> tok p = IDENT
      then do { p' \<leftarrow> parser_next u p; Some (field_name (pos p) (tok p) (lit p), p') }
      else do { p \<leftarrow> advance u ASSIGN (addErrorf (ExpectedFieldName (tok p)) p); Some ((nil_Ident, False), p) })"

definition attribute_checks :: "blockName \<Rightarrow> parser \<Rightarrow> parser" where
  "attribute_checks bn p =
     (if length (Fragments bn) \<noteq> 1
      then add_diag (Start bn) (Pos_Add (Start bn) (int (length (join (Fragments bn) ''.'')) - 1)) AttributeNameDotted p
      else if bn_LabelPos bn \<noteq> NoPos
      then add_diag (bn_LabelPos bn) (Pos_Add (bn_LabelPos bn) (int (length (bn_Label bn)) + 1)) AttributeLabel p
      else p)"

text \<open>
  The parse functions call each other. Each is defined over a record of the functions it calls, and
  \<open>parsers_at\<close> ties the knot: the functions with fuel \<open>n + 1\<close> call those with fuel \<open>n\<close>. \<open>p_binops\<close> is
  the loop of \<open>parseBinOp\<close>, \<open>p_opers\<close> the loop of \<open>parseUnaryExpr\<close>; \<open>parseBody\<close>, \<open>parseExpressionList\<close>
  and \<open>parseFieldList\<close> are loops themselves and give what the iterations still to come collect.
\<close>

record parsers =
  p_body :: "Token \<Rightarrow> parser \<Rightarrow> body parse"
  p_statement :: "parser \<Rightarrow> Stmt option parse"
  p_binop :: "int \<Rightarrow> parser \<Rightarrow> Expr parse"
  p_binops :: "int \<Rightarrow> Expr \<Rightarrow> parser \<Rightarrow> Expr parse"
  p_pow :: "parser \<Rightarrow> Expr parse"
  p_unary :: "parser \<Rightarrow> Expr parse"
  p_opers :: "Expr \<Rightarrow> parser \<Rightarrow> Expr parse"
  p_primary :: "parser \<Rightarrow> Expr parse"
  p_exprs :: "Token \<Rightarrow> parser \<Rightarrow> Expr list parse"
  p_fields :: "Token \<Rightarrow> parser \<Rightarrow> ObjectField list parse"
  p_field :: "parser \<Rightarrow> ObjectField parse"

definition ParseExpression :: "parsers \<Rightarrow> parser \<Rightarrow> Expr parse" where
  "ParseExpression P p = p_binop P 1 p"

definition parseBody :: "unicode \<Rightarrow> parsers \<Rightarrow> Token \<Rightarrow> parser \<Rightarrow> body parse" where
  "parseBody u P until p =
     (if tok p \<noteq> until \<and> tok p \<noteq> EOF then do {
        (stmt, p) \<leftarrow> p_statement P p;
        let ss = (case stmt of None \<Rightarrow> [] | Some s \<Rightarrow> [s]);
        if tok p = until then Some (ss, p)
        else do {
          p \<leftarrow> (if tok p \<noteq> TERMINATOR then consumeStatement u (addErrorf (ExpectedToken TERMINATOR (tok p)) p) else Some p);
          p \<leftarrow> parser_next u p;
          (rest, p) \<leftarrow> p_body P until p;
          Some (ss @ rest, p)
        }
      }
      else Some ([], p))"

definition parseStatement :: "unicode \<Rightarrow> parsers \<Rightarrow> parser \<Rightarrow> Stmt option parse" where
  "parseStatement u P p = do {
     (name, p) \<leftarrow> parseBlockName u p;
     case name of
       None \<Rightarrow> do { p \<leftarrow> advance u IDENT p; Some (None, p) }
     | Some bn \<Rightarrow>
         if tok p = ASSIGN then do {
           p \<leftarrow> parser_next u p;
           (v, p) \<leftarrow> ParseExpression P (attribute_checks bn p);
           Some (Some (AttributeStmt (Ident (Fragments bn ! 0) (Start bn)) v), p)
         }
         else if tok p = LCURLY then do {
           ((lc, _, _), p) \<leftarrow> expect u LCURLY p;
           (b, p) \<leftarrow> p_body P RCURLY p;
           ((rc, _, _), p) \<leftarrow> expect u RCURLY p;
           Some (Some (Block (BlockStmt (Fragments bn) (Start bn) (bn_Label bn) (bn_LabelPos bn) b lc rc)), p)
         }
         else do {
           p \<leftarrow> advance u IDENT (addErrorf (if ValidAttribute bn then ExpectedAttributeOrBlock (tok p) else ExpectedBlockBody (tok p)) p);
           Some (None, p)
         }
   }"

definition parseBinOp :: "unicode \<Rightarrow> parsers \<Rightarrow> int \<Rightarrow> parser \<Rightarrow> Expr parse" where
  "parseBinOp u P inPrec p = do {
     (lhs, p) \<leftarrow> p_pow P p;
     p_binops P inPrec lhs p
   }"

definition binop_loop :: "unicode \<Rightarrow> parsers \<Rightarrow> int \<Rightarrow> Expr \<Rightarrow> parser \<Rightarrow> Expr parse" where
  "binop_loop u P inPrec lhs p =
     (if BinaryPrecedence (tok p) < inPrec then Some (lhs, p)
      else do {
        p' \<leftarrow> parser_next u p;
        (rhs, p') \<leftarrow> p_binop P (BinaryPrecedence (tok p) + 1) p';
        p_binops P inPrec (BinaryExpr (tok p) (pos p) lhs rhs False) p'
      })"

definition parsePowExpr :: "unicode \<Rightarrow> parsers \<Rightarrow> parser \<Rightarrow> Expr parse" where
  "parsePowExpr u P p = do {
     (lhs, p) \<leftarrow> p_unary P p;
     if tok p = POW then do {
       p' \<leftarrow> parser_next u p;
       (rhs, p') \<leftarrow> p_pow P p';
       Some (BinaryExpr POW (pos p) lhs rhs False, p')
     }
     else Some (lhs, p)
   }"

definition parseUnaryExpr :: "unicode \<Rightarrow> parsers \<Rightarrow> parser \<Rightarrow> Expr parse" where
  "parseUnaryExpr u P p =
     (if isUnaryOp (tok p) then do {
        p' \<leftarrow> parser_next u p;
        (v, p') \<leftarrow> p_unary P p';
        Some (UnaryExpr (tok p) (pos p) v False, p')
      }
      else do {
        (e, p) \<leftarrow> p_primary P p;
        p_opers P e p
      })"

definition oper_loop :: "unicode \<Rightarrow> parsers \<Rightarrow> Expr \<Rightarrow> parser \<Rightarrow> Expr parse" where
  "oper_loop u P e p =
     (if tok p = DOT then do {
        p \<leftarrow> parser_next u p;
        ((namePos, _, name), p) \<leftarrow> expect u IDENT p;
        p_opers P (AccessExpr e (Ident name namePos) False) p
      }
      else if tok p = LBRACK then do {
        ((lb, _, _), p) \<leftarrow> expect u LBRACK p;
        (i, p) \<leftarrow> ParseExpression P p;
        ((rb, _, _), p) \<leftarrow> expect u RBRACK p;
        p_opers P (IndexExpr e i lb rb False) p
      }
      else if tok p = LPAREN then do {
        ((lp, _, _), p) \<leftarrow> expect u LPAREN p;
        (args, p) \<leftarrow> (if tok p \<noteq> RPAREN then p_exprs P RPAREN p else Some ([], p));
        ((rp, _, _), p) \<leftarrow> expect u RPAREN p;
        p_opers P (CallExpr e args lp rp False) p
      }
      else if tok p = STRING \<or> tok p = LCURLY then do {
        p \<leftarrow> (if tok p = STRING then parser_next u p else Some p);
        ((_, t, _), p) \<leftarrow> expect u LCURLY p;
        if t \<noteq> LCURLY then do { p \<leftarrow> consumeStatement u p; Some (e, p) }
        else do {
          (_, p) \<leftarrow> p_body P RCURLY p;
          ((end_pos, t, _), p) \<leftarrow> expect u RCURLY p;
          if t \<noteq> RCURLY then do { p \<leftarrow> consumeStatement u p; Some (e, p) }
          else p_opers P e (add_diag (Expr_StartPos e) end_pos BlockAsExpression p)
        }
      }
      else Some (e, p))"

definition parsePrimaryExpr :: "unicode \<Rightarrow> parsers \<Rightarrow> parser \<Rightarrow> Expr parse" where
  "parsePrimaryExpr u P p =
     (if tok p = IDENT then do {
        p' \<leftarrow> parser_next u p;
        Some (IdentifierExpr (Ident (lit p) (pos p)) False, p')
      }
      else if tok p \<in> {STRING, NUMBER, FLOAT, BOOL, NULL} then do {
        p' \<leftarrow> parser_next u p;
        Some (LiteralExpr (tok p) (pos p) (lit p) False, p')
      }
      else if tok p = LPAREN then do {
        ((lp, _, _), p) \<leftarrow> expect u LPAREN p;
        (e, p) \<leftarrow> ParseExpression P p;
        ((rp, _, _), p) \<leftarrow> expect u RPAREN p;
        Some (ParenExpr e lp rp False, p)
      }
      else if tok p = LBRACK then do {
        ((lb, _, _), p) \<leftarrow> expect u LBRACK p;
        (es, p) \<leftarrow> (if tok p \<noteq> RBRACK then p_exprs P RBRACK p else Some ([], p));
        ((rb, _, _), p) \<leftarrow> expect u RBRACK p;
        Some (ArrayExpr es lb rb False, p)
      }
      else if tok p = LCURLY then do {
        ((lc, _, _), p) \<leftarrow> expect u LCURLY p;
        (fs, p) \<leftarrow> (if tok p \<noteq> RBRACK then p_fields P RCURLY p else Some ([], p));
        ((rc, _, _), p) \<leftarrow> expect u RCURLY p;
        Some (ObjectExpr fs lc rc False, p)
      }
      else do {
        p' \<leftarrow> advanceAny u statementEnd (addErrorf (ExpectedExpression (tok p)) p);
        Some (LiteralExpr NULL (pos p) ''null'' False, p')
      })"

definition parseExpressionList :: "unicode \<Rightarrow> parsers \<Rightarrow> Token \<Rightarrow> parser \<Rightarrow> Expr list parse" where
  "parseExpressionList u P until p =
     (if tok p \<noteq> until \<and> tok p \<noteq> EOF then do {
        (e, p) \<leftarrow> ParseExpression P p;
        if tok p = until then Some ([e], p)
        else do {
          p \<leftarrow> parser_next u (if tok p \<noteq> COMMA then addErrorf MissingCommaInExpressions p else p);
          (es, p) \<leftarrow> p_exprs P until p;
          Some (e # es, p)
        }
      }
      else Some ([], p))"

definition parseFieldList :: "unicode \<Rightarrow> parsers \<Rightarrow> Token \<Rightarrow> parser \<Rightarrow> ObjectField list parse" where
  "parseFieldList u P until p =
     (if tok p \<noteq> until \<and> tok p \<noteq> EOF then do {
        (f, p) \<leftarrow> p_field P p;
        if tok p = until then Some ([f], p)
        else do {
          p \<leftarrow> parser_next u (if tok p \<noteq> COMMA then addErrorf MissingCommaInFields p else p);
          (fs, p) \<leftarrow> p_fields P until p;
          Some (f # fs, p)
        }
      }
      else Some ([], p))"

definition parseField :: "unicode \<Rightarrow> parsers \<Rightarrow> parser \<Rightarrow> ObjectField parse" where
  "parseField u P p = do {
     ((name, quoted), p) \<leftarrow> parse_field_name u p;
     (_, p) \<leftarrow> expect u ASSIGN p;
     (v, p) \<leftarrow> ParseExpression P p;
     Some (ObjectField name quoted v, p)
   }"

primrec parsers_at :: "unicode \<Rightarrow> nat \<Rightarrow> parsers" where
  "parsers_at u 0 = \<lparr>p_body = (\<lambda>_ _. None), p_statement = (\<lambda>_. None), p_binop = (\<lambda>_ _. None), p_binops = (\<lambda>_ _ _. None),
     p_pow = (\<lambda>_. None), p_unary = (\<lambda>_. None), p_opers = (\<lambda>_ _. None), p_primary = (\<lambda>_. None),
     p_exprs = (\<lambda>_ _. None), p_fields = (\<lambda>_ _. None), p_field = (\<lambda>_. None)\<rparr>"
| "parsers_at u (Suc n) = (let P = parsers_at u n in
     \<lparr>p_body = parseBody u P, p_statement = parseStatement u P, p_binop = parseBinOp u P, p_binops = binop_loop u P,
      p_pow = parsePowExpr u P, p_unary = parseUnaryExpr u P, p_opers = oper_loop u P, p_primary = parsePrimaryExpr u P,
      p_exprs = parseExpressionList u P, p_fields = parseFieldList u P, p_field = parseField u P\<rparr>)"

section \<open>Entry points\<close>

definition newParser :: "unicode \<Rightarrow> string \<Rightarrow> string \<Rightarrow> parser option" where
  "newParser u name src =
     (let s = New (NewFile name) src True IncludeComments;
          p = \<lparr>diags = [], scanner = s, comments = [], pos = NoPos, tok = ILLEGAL, lit = [], lastError = zero_Position\<rparr>
      in parser_next u (p\<lparr>diags := map (scan_diag p) (errs s)\<rparr>))"

text \<open>Enough fuel for the tokens that can still come.\<close>

definition parse_fuel :: "parser \<Rightarrow> nat" where
  "parse_fuel p = 8 * remaining p + 8"

definition parse_file :: "unicode \<Rightarrow> parser \<Rightarrow> ast_File parse" where
  "parse_file u p = do {
     (b, p) \<leftarrow> p_body (parsers_at u (parse_fuel p)) EOF p;
     Some (\<lparr>File_name = File_Name (src_file (scanner p)), File_Body = b, Comments = comments p\<rparr>, p)
   }"

definition ParseFile :: "unicode \<Rightarrow> string \<Rightarrow> string \<Rightarrow> (parse_diag list + ast_File) option" where
  "ParseFile u name data = do {
     p \<leftarrow> newParser u name data;
     (f, p) \<leftarrow> parse_file u p;
     Some (if length (diags p) > 0 then Inl (diags p) else Inr f)
   }"

definition parse_expression :: "unicode \<Rightarrow> string \<Rightarrow> (parse_diag list + Expr) option" where
  "parse_expression u expr = do {
     p \<leftarrow> newParser u [] expr;
     (e, p) \<leftarrow> ParseExpression (parsers_at u (parse_fuel p)) p;
     (_, p) \<leftarrow> expect u TERMINATOR p;
     Some (if length (diags p) > 0 then Inl (diags p) else Inr e)
   }"

end
