(* ===== verification/Parser_Progress.thy ===== *)
theory Parser_Progress
  imports Parser Scanner_Text "HOL-Library.Sublist"
begin

text \<open>
  Every parse function returns: the parser state stays consistent, tokens are used up, diagnostics are
  only added, and the fuel of the entry points is enough. So parsing ends for every input.
\<close>

section \<open>Consistent parsers\<close>

definition parser_ok :: "parser \<Rightarrow> bool" where
  "parser_ok p \<longleftrightarrow> scan_inv (scanner p) \<and> (tok p = STRING \<longrightarrow> lit p \<noteq> []) \<and> (tok p = COMMENT \<longrightarrow> 2 \<le> length (lit p)) \<and>
     (\<exists>n. pos p = offset_pos n) \<and> (diags p = [] \<longrightarrow> Line (lastError p) = 0)"

text \<open>
  From \<open>p\<close> to \<open>p'\<close> the parser stays consistent, does not go back, and only adds diagnostics.
\<close>

definition onward :: "parser \<Rightarrow> parser \<Rightarrow> bool" where
  "onward p p' \<longleftrightarrow> parser_ok p' \<and> remaining p' \<le> remaining p \<and> prefix (diags p) (diags p') \<and>
     (tok p \<noteq> EOF \<and> tok p' = EOF \<longrightarrow> remaining p' < remaining p)"

text \<open>Reaching the end of the file counts as using up a token.\<close>

lemma remaining_parity: "odd (remaining p) \<longleftrightarrow> tok p \<noteq> EOF"
  by (simp add: remaining_def)

lemma onwardI:
  assumes "parser_ok p'" "remaining p' \<le> remaining p" "prefix (diags p) (diags p')"
  shows "onward p p'"
proof -
  have "remaining p' \<noteq> remaining p" if "tok p \<noteq> EOF" "tok p' = EOF"
    using that remaining_parity by metis
  with assms show ?thesis by (auto simp: onward_def)
qed

lemma onward_refl: "parser_ok p \<Longrightarrow> onward p p"
  by (simp add: onward_def)

lemma onward_trans [trans]: "onward p q \<Longrightarrow> onward q r \<Longrightarrow> onward p r"
  by (rule onwardI) (auto simp: onward_def intro: prefix_order.trans)

lemma onward_ok: "onward p q \<Longrightarrow> parser_ok q"
  by (simp add: onward_def)

lemma onward_no_diags: "onward p q \<Longrightarrow> diags q = [] \<Longrightarrow> diags p = []"
  by (auto simp: onward_def)

lemma position_line:
  assumes "scan_inv (scanner p)"
  shows "1 \<le> Line (position p (offset_pos n))"
proof -
  have wf: "lines_wf (lines (src_file (scanner p)))"
    using assms lines_wf_line_starts by (auto simp: scan_inv_def line_table_wf_def)
  from searchInts_correct [OF wf, of "int n"] show ?thesis
    by (auto simp: position_def PositionFor_def offset_pos_def NoPos_def)
qed

lemma addErrorf_simps [simp]:
  "scanner (addErrorf m p) = scanner p" "pos (addErrorf m p) = pos p" "tok (addErrorf m p) = tok p"
  "lit (addErrorf m p) = lit p" "comments (addErrorf m p) = comments p" "remaining (addErrorf m p) = remaining p"
  by (simp_all add: addErrorf_def Let_def remaining_def)

lemma add_diag_simps [simp]:
  "scanner (add_diag a b m p) = scanner p" "pos (add_diag a b m p) = pos p" "tok (add_diag a b m p) = tok p"
  "lit (add_diag a b m p) = lit p" "comments (add_diag a b m p) = comments p" "remaining (add_diag a b m p) = remaining p"
  "diags (add_diag a b m p) \<noteq> []"
  by (simp_all add: add_diag_def remaining_def)

text \<open>An error is never lost altogether: afterwards there are diagnostics.\<close>

lemma addErrorf_diags:
  assumes "parser_ok p"
  shows "diags (addErrorf m p) \<noteq> []" "onward p (addErrorf m p)"
proof -
  obtain n where n: "pos p = offset_pos n" using assms by (auto simp: parser_ok_def)
  have "1 \<le> Line (position p (pos p))" unfolding n using assms by (intro position_line) (simp add: parser_ok_def)
  with assms show ne: "diags (addErrorf m p) \<noteq> []" by (auto simp: addErrorf_def Let_def parser_ok_def)
  then have "parser_ok (addErrorf m p)" using assms by (simp add: parser_ok_def)
  moreover have "prefix (diags p) (diags (addErrorf m p))" by (simp add: addErrorf_def Let_def)
  ultimately show "onward p (addErrorf m p)" by (simp add: onwardI)
qed

lemma add_diag_onward: "parser_ok p \<Longrightarrow> onward p (add_diag a b m p)"
  by (rule onwardI) (simp_all add: parser_ok_def, simp add: add_diag_def)

lemma attribute_checks_simps [simp]:
  "scanner (attribute_checks bn p) = scanner p" "tok (attribute_checks bn p) = tok p" "remaining (attribute_checks bn p) = remaining p"
  by (simp_all add: attribute_checks_def)

lemma attribute_checks_onward: "parser_ok p \<Longrightarrow> onward p (attribute_checks bn p)"
  by (simp add: attribute_checks_def add_diag_onward onward_refl)

lemma attribute_checks_no_diags:
  "diags (attribute_checks bn p) = [] \<Longrightarrow>
    length (Fragments bn) = 1 \<and> bn_LabelPos bn = NoPos \<and> attribute_checks bn p = p"
  by (auto simp: attribute_checks_def split: if_splits)

section \<open>Reading tokens\<close>

text \<open>A step that uses up a token unless it is at the end of the file.\<close>

definition stepped :: "parser \<Rightarrow> parser \<Rightarrow> bool" where
  "stepped p p' \<longleftrightarrow> onward p p' \<and> (tok p \<noteq> EOF \<longrightarrow> remaining p' < remaining p)"

lemma next0_stepped:
  assumes "parser_ok p"
  shows "stepped p (next0 u p)"
proof -
  obtain n t l s where sc: "Scan u (scanner p) = (n, t, l, s)" by (metis prod_cases4)
  have inv: "scan_inv (scanner p)" using assms by (simp add: parser_ok_def)
  have post: "scan_inv s" "left s \<le> left (scanner p)" "t = EOF \<longrightarrow> \<not> insertTerm s"
    "t \<noteq> EOF \<longrightarrow> tokens_left s < tokens_left (scanner p)"
    using Scan_post [OF inv sc] unfolding scan_post_def moves_def by blast+
  have new: "scanner (next0 u p) = s" "pos (next0 u p) = offset_pos n" "tok (next0 u p) = t" "lit (next0 u p) = l"
    "lastError (next0 u p) = lastError p" "prefix (diags p) (diags (next0 u p))"
    by (simp_all add: next0_def sc Let_def)
  have "tokens_left s \<le> tokens_left (scanner p)" if "t = EOF" using that post(2,3) by (simp add: tokens_left_def)
  then have "remaining (next0 u p) \<le> remaining p \<and> (tok p \<noteq> EOF \<longrightarrow> remaining (next0 u p) < remaining p)"
    using post(4) unfolding remaining_def new by (cases "t = EOF") auto
  moreover have "parser_ok (next0 u p)"
    using post(1) Scan_text [OF inv sc] assms new(6) unfolding parser_ok_def new by auto
  ultimately show ?thesis using new(6) by (simp add: stepped_def onwardI)
qed

lemma onward_comments [simp]: "onward p (q\<lparr>comments := cs\<rparr>) = onward p q"
  by (simp add: onward_def parser_ok_def remaining_def)

lemma remaining_comments [simp]: "remaining (p\<lparr>comments := cs\<rparr>) = remaining p"
  by (simp add: remaining_def)

lemma stepped_onward: "stepped p q \<Longrightarrow> onward p q"
  by (simp add: stepped_def)

lemma stepped_less: "stepped p q \<Longrightarrow> tok p \<noteq> EOF \<Longrightarrow> remaining q < remaining p"
  by (simp add: stepped_def)

lemma comment_group_loop_returns:
  assumes "parser_ok p" "remaining p < n"
  shows "\<exists>cs p'. comment_group_loop n u e p = Some (cs, p') \<and> onward p p' \<and>
    (tok p = COMMENT \<and> Line (position p (pos p)) \<le> e + 1 \<longrightarrow> remaining p' < remaining p)"
  using assms
proof (induction n arbitrary: e p)
  case (Suc n)
  show ?case
  proof (cases "tok p = COMMENT \<and> Line (position p (pos p)) \<le> e + 1")
    case True
    then have "2 \<le> length (lit p)" using Suc.prems(1) by (simp add: parser_ok_def)
    then obtain a c r where l: "lit p = a # c # r" by (cases "lit p"; cases "tl (lit p)") auto
    have st: "stepped p (next0 u p)" by (rule next0_stepped [OF Suc.prems(1)])
    then have less: "remaining (next0 u p) < remaining p" using True by (simp add: stepped_def)
    let ?e = "Line (position p (pos p)) + (if c = CHR ''*'' then int (length (filter (\<lambda>c. c = CHR 0x0A) (lit p))) else 0)"
    obtain cs p' where q: "comment_group_loop n u ?e (next0 u p) = Some (cs, p')" "onward (next0 u p) p'"
      using Suc.IH [of "next0 u p" ?e] onward_ok [OF stepped_onward [OF st]] Suc.prems(2) less by auto
    have "remaining p' \<le> remaining (next0 u p)" using q(2) by (simp add: onward_def)
    with less have "remaining p' < remaining p" by simp
    moreover have "onward p p'" using stepped_onward [OF st] q(2) by (rule onward_trans)
    moreover have "consumeComment u p = Some (\<lparr>Comment_StartPos = pos p, Text = lit p\<rparr>, ?e, next0 u p)"
      by (simp add: consumeComment_def l)
    ultimately show ?thesis using True q(1) by simp
  next
    case False
    then show ?thesis using Suc.prems(1) by (auto simp: onward_refl)
  qed
qed simp

lemma next_loop_returns:
  assumes "parser_ok p" "remaining p + 1 < n"
  shows "\<exists>p'. next_loop n u p = Some p' \<and> onward p p' \<and> tok p' \<noteq> COMMENT"
  using assms
proof (induction n arbitrary: p)
  case (Suc n)
  show ?case
  proof (cases "tok p = COMMENT")
    case True
    obtain cs q where q: "comment_group_loop n u (Line (position p (pos p))) p = Some (cs, q)" "onward p q" "remaining q < remaining p"
      using comment_group_loop_returns [OF Suc.prems(1), of n u "Line (position p (pos p))"] Suc.prems(2) True by auto
    let ?q = "q\<lparr>comments := comments q @ [cs]\<rparr>"
    have "parser_ok ?q" using q(2) by (metis onward_comments onward_ok)
    then obtain p' where "next_loop n u ?q = Some p'" "onward ?q p'" "tok p' \<noteq> COMMENT"
      using Suc.IH [of ?q] q(3) Suc.prems(2) by auto
    moreover have "onward p ?q" using q(2) by simp
    ultimately show ?thesis using True q(1) onward_trans by (fastforce simp: consumeCommentGroup_def)
  next
    case False
    then show ?thesis using Suc.prems(1) by (simp add: onward_refl)
  qed
qed simp

lemma parser_next_returns:
  assumes "parser_ok p"
  obtains p' where "parser_next u p = Some p'" "stepped p p'" "tok p' \<noteq> COMMENT"
proof -
  have st: "stepped p (next0 u p)" by (rule next0_stepped [OF assms])
  then obtain p' where "next_loop (remaining (next0 u p) + 2) u (next0 u p) = Some p'" "onward (next0 u p) p'" "tok p' \<noteq> COMMENT"
    using next_loop_returns [of "next0 u p" "remaining (next0 u p) + 2" u] by (auto simp: stepped_def onward_def)
  with st that [of p'] show thesis
    using onward_trans [OF stepped_onward [OF st]] by (auto simp: parser_next_def Let_def stepped_def onward_def)
qed

lemma parser_next_stepped: "parser_ok p \<Longrightarrow> parser_next u p = Some p' \<Longrightarrow> stepped p p'"
  by (metis parser_next_returns option.inject)

lemma advance_loop_returns:
  assumes "parser_ok p" "remaining p < n"
  shows "\<exists>p'. advance_loop n u to p = Some p' \<and> onward p p' \<and> (tok p' = EOF \<or> tok p' \<in> set to)"
  using assms
proof (induction n arbitrary: p)
  case (Suc n)
  obtain q where q: "parser_next u p = Some q" "stepped p q" using parser_next_returns [OF Suc.prems(1)] by blast
  show ?case
  proof (cases "tok p = EOF \<or> tok p \<in> set to")
    case True
    then show ?thesis using Suc.prems(1) by (auto simp: onward_refl)
  next
    case False
    then have "remaining q < n" using q(2) Suc.prems(2) by (simp add: stepped_def)
    then obtain p' where "advance_loop n u to q = Some p'" "onward q p'" "tok p' = EOF \<or> tok p' \<in> set to"
      using Suc.IH [of q] q(2) by (auto simp: stepped_def onward_def)
    then show ?thesis using False q onward_trans [OF stepped_onward [OF q(2)]] by (intro exI [of _ p']) auto
  qed
qed simp

lemma consume_loop_returns:
  assumes "parser_ok p" "remaining p < n"
  shows "\<exists>p'. consume_loop n u a b c p = Some p' \<and> onward p p'"
  using assms
proof (induction n arbitrary: p a b c)
  case (Suc n)
  obtain q where q: "parser_next u p = Some q" "stepped p q" using parser_next_returns [OF Suc.prems(1)] by blast
  have "\<exists>p'. consume_loop n u a b c q = Some p' \<and> onward p p'" if "tok p \<noteq> EOF" for a b c
    using Suc.IH [of q a b c] Suc.prems(2) stepped_less [OF q(2) that] onward_trans [OF stepped_onward [OF q(2)]]
      onward_ok [OF stepped_onward [OF q(2)]] by auto
  then show ?case using q(1) onward_refl [OF Suc.prems(1)] by (simp add: Let_def)
qed simp

lemma advance_returns: "parser_ok p \<Longrightarrow> \<exists>p'. advance u t p = Some p' \<and> onward p p'"
  using advance_loop_returns [of p "remaining p + 1" u "[t]"] by (auto simp: advance_def)

lemma advanceAny_returns: "parser_ok p \<Longrightarrow> \<exists>p'. advanceAny u to p = Some p' \<and> onward p p'"
  using advance_loop_returns [of p "remaining p + 1" u to] by (auto simp: advanceAny_def)

lemma consumeStatement_returns: "parser_ok p \<Longrightarrow> \<exists>p'. consumeStatement u p = Some p' \<and> onward p p'"
  using consume_loop_returns [of p "remaining p + 1" u] by (auto simp: consumeStatement_def)

text \<open>An expected token was there unless there are diagnostics.\<close>

lemma expect_returns:
  assumes "parser_ok p"
  obtains p' where "expect u t p = Some ((pos p, tok p, lit p), p')" "stepped p p'"
    "diags p' = [] \<longrightarrow> tok p = t \<and> parser_next u p = Some p'"
proof -
  let ?q = "if tok p \<noteq> t then addErrorf (ExpectedToken t (tok p)) p else p"
  have q: "onward p ?q" "remaining ?q = remaining p" "tok ?q = tok p" "tok p \<noteq> t \<Longrightarrow> diags ?q \<noteq> []"
    using assms by (simp_all add: onward_refl addErrorf_diags)
  obtain p' where p': "parser_next u ?q = Some p'" "stepped ?q p'" using parser_next_returns [OF onward_ok [OF q(1)]] by blast
  have "stepped p p'" using p'(2) q(2,3) onward_trans [OF q(1)] by (simp add: stepped_def)
  moreover have "tok p = t \<and> parser_next u p = Some p'" if "diags p' = []"
    using onward_no_diags [OF stepped_onward [OF p'(2)] that] q(4) p'(1) by (cases "tok p = t") auto
  ultimately show thesis using p'(1) that [of p'] by (simp add: expect_def)
qed

section \<open>Running a parse function\<close>

text \<open>From \<open>p\<close> the parse function returns, the parser moves onward, and the result satisfies \<open>Q\<close>.\<close>

definition runs :: "parser \<Rightarrow> 'a parse \<Rightarrow> ('a \<Rightarrow> parser \<Rightarrow> bool) \<Rightarrow> bool" where
  "runs p r Q \<longleftrightarrow> (\<exists>x p'. r = Some (x, p') \<and> onward p p' \<and> Q x p')"

lemma runs_Some: "onward p p' \<Longrightarrow> Q x p' \<Longrightarrow> runs p (Some (x, p')) Q"
  by (simp add: runs_def)

lemma runs_weaken: "runs p r Q \<Longrightarrow> (\<And>x p'. onward p p' \<Longrightarrow> Q x p' \<Longrightarrow> R x p') \<Longrightarrow> runs p r R"
  by (auto simp: runs_def)

lemma runs_bind:
  assumes "runs p r Q" "\<And>x p'. onward p p' \<Longrightarrow> Q x p' \<Longrightarrow> runs p' (f (x, p')) R"
  shows "runs p (r \<bind> f) R"
  using assms onward_trans by (fastforce simp: runs_def)

lemma runs_from: "onward p q \<Longrightarrow> runs q r Q \<Longrightarrow> runs p r Q"
  using onward_trans by (fastforce simp: runs_def)

lemma runs_next:
  assumes "parser_ok p" "\<And>p'. stepped p p' \<Longrightarrow> runs p' (f p') Q"
  shows "runs p (parser_next u p \<bind> f) Q"
proof -
  obtain p' where "parser_next u p = Some p'" "stepped p p'" using parser_next_returns [OF assms(1)] by blast
  with assms(2) [of p'] runs_from [OF stepped_onward] show ?thesis by simp
qed

lemma runs_expect:
  assumes "parser_ok p" "\<And>p'. stepped p p' \<Longrightarrow> runs p' (f ((pos p, tok p, lit p), p')) Q"
  shows "runs p (expect u t p \<bind> f) Q"
proof -
  obtain p' where "expect u t p = Some ((pos p, tok p, lit p), p')" "stepped p p'"
    using expect_returns [OF assms(1)] by metis
  with assms(2) [of p'] runs_from [OF stepped_onward] show ?thesis by simp
qed

lemma runs_opt:
  assumes "\<exists>p'. r = Some p' \<and> onward p p'" "\<And>p'. onward p p' \<Longrightarrow> runs p' (f p') Q"
  shows "runs p (r \<bind> f) Q"
proof -
  obtain p' where "r = Some p'" "onward p p'" using assms(1) by blast
  with assms(2) [of p'] runs_from show ?thesis by simp
qed

lemma runs_if: "(b \<Longrightarrow> runs p r Q) \<Longrightarrow> (\<not> b \<Longrightarrow> runs p s Q) \<Longrightarrow> runs p (if b then r else s) Q"
  by simp

lemma fragments_loop_returns:
  assumes "parser_ok p" "remaining p < n"
  shows "runs p (fragments_loop n u p) (\<lambda>_ _. True)"
  using assms
proof (induction n arbitrary: p)
  case (Suc n)
  have "runs p (parser_next u p \<bind> (\<lambda>q. let q = (if tok q \<noteq> IDENT then addErrorf (ExpectedIdentifier (tok q)) q else q);
      fragment = lit q in parser_next u q \<bind> (\<lambda>q. fragments_loop n u q \<bind> (\<lambda>(fs, q). Some (fragment # fs, q))))) (\<lambda>_ _. True)"
    if dot: "tok p = DOT"
  proof (rule runs_next [OF Suc.prems(1)])
    fix q assume q: "stepped p q"
    let ?q = "if tok q \<noteq> IDENT then addErrorf (ExpectedIdentifier (tok q)) q else q"
    have ok: "parser_ok q" using onward_ok [OF stepped_onward [OF q]] .
    then have q': "onward q ?q" by (simp add: onward_refl addErrorf_diags)
    have less: "remaining ?q < n" using stepped_less [OF q] dot Suc.prems(2) by simp
    have "runs ?q (parser_next u ?q \<bind> (\<lambda>r. fragments_loop n u r \<bind> (\<lambda>(fs, r). Some (lit ?q # fs, r)))) (\<lambda>_ _. True)"
      using onward_ok [OF q']
    proof (rule runs_next)
      fix r assume r: "stepped ?q r"
      then have "parser_ok r" "remaining r < n" using less by (auto simp: stepped_def onward_def)
      then show "runs r (fragments_loop n u r \<bind> (\<lambda>(fs, r). Some (lit ?q # fs, r))) (\<lambda>_ _. True)"
        by (intro runs_bind [OF Suc.IH]) (auto intro: runs_Some onward_refl onward_ok)
    qed
    from runs_from [OF q' this] show "runs q (let q = ?q; fragment = lit q in parser_next u q \<bind>
        (\<lambda>q. fragments_loop n u q \<bind> (\<lambda>(fs, q). Some (fragment # fs, q)))) (\<lambda>_ _. True)"
      unfolding Let_def .
  qed
  then show ?case using onward_refl [OF Suc.prems(1)] by (auto simp: runs_Some Let_def)
qed simp

lemma block_label_returns:
  assumes "parser_ok p"
  shows "runs p (block_label u p) (\<lambda>_ _. True)"
proof (cases "tok p = STRING")
  case True
  then obtain c r where l: "lit p = c # r" using assms by (cases "lit p") (auto simp: parser_ok_def)
  let ?p = "if c \<noteq> CHR 0x22 then addErrorf (LabelNotDoubleQuoted (lit p)) p else p"
  have p: "onward p ?p" using assms by (simp add: onward_refl addErrorf_diags)
  let ?l = "if length (lit p) > 2 then unquote (lit p) else []"
  let ?q = "if length (lit p) > 2 \<and> \<not> IsValidIdentifier u ?l then addErrorf (LabelNotIdentifier ?l) ?p else ?p"
  have "onward ?p ?q" using onward_ok [OF p] by (simp add: onward_refl addErrorf_diags)
  with p have "onward p ?q" by (rule onward_trans)
  moreover have "block_label u p = Some ((?l, pos ?q), ?q)"
    using True by (auto simp: block_label_def l Let_def)
  ultimately show ?thesis by (simp add: runs_Some)
next
  case False
  then show ?thesis using assms by (simp add: block_label_def runs_Some addErrorf_diags)
qed

section \<open>The parse functions return\<close>

text \<open>
  A parse function with \<open>n\<close> units of fuel returns when the tokens that can still come need at most
  that much: eight per token, and as many as the longest chain of calls that reads no token.
\<close>

definition returns :: "nat \<Rightarrow> nat \<Rightarrow> (parser \<Rightarrow> 'a parse) \<Rightarrow> bool" where
  "returns k n f \<longleftrightarrow> (\<forall>p. parser_ok p \<longrightarrow> 8 * remaining p + k \<le> n \<longrightarrow> runs p (f p) (\<lambda>_ _. True))"

lemma returnsD: "returns k n f \<Longrightarrow> parser_ok p \<Longrightarrow> 8 * remaining p + k \<le> n \<Longrightarrow> runs p (f p) (\<lambda>_ _. True)"
  by (simp add: returns_def)

text \<open>One rule for each way in which a parse function goes on; \<open>p\<close> is the state that was reached.\<close>

lemma call_at:
  assumes "returns k n f" "onward p q" "8 * remaining q + k \<le> n" "\<And>x p'. onward q p' \<Longrightarrow> runs p' (g x p') Q"
  shows "runs p (f q \<bind> (\<lambda>(x, p'). g x p')) Q"
  by (rule runs_from [OF assms(2)], rule runs_bind [OF returnsD [OF assms(1) onward_ok [OF assms(2)] assms(3)]])
    (simp add: assms(4))

lemma call_tail:
  assumes "returns k n f" "onward p q" "8 * remaining q + k \<le> n"
  shows "runs p (f q) (\<lambda>_ _. True)"
  by (rule runs_from [OF assms(2) returnsD [OF assms(1) onward_ok [OF assms(2)] assms(3)]])

lemma next_at:
  assumes "onward p q" "\<And>p'. stepped q p' \<Longrightarrow> runs p' (f p') Q"
  shows "runs p (parser_next u q \<bind> f) Q"
  using assms onward_ok by (intro runs_from [OF assms(1)] runs_next) blast+

lemma expect_at:
  assumes "onward p q" "\<And>p'. stepped q p' \<Longrightarrow> runs p' (f (pos q) (tok q) (lit q) p') Q"
  shows "runs p (expect u t q \<bind> (\<lambda>((a, b, c), p'). f a b c p')) Q"
  using assms onward_ok by (intro runs_from [OF assms(1)] runs_expect) auto

lemma expect_drop_at:
  assumes "onward p q" "\<And>p'. stepped q p' \<Longrightarrow> runs p' (f p') Q"
  shows "runs p (expect u t q \<bind> (\<lambda>(_, p'). f p')) Q"
  using assms onward_ok by (intro runs_from [OF assms(1)] runs_expect) auto

lemma skip_at:
  assumes "onward p q" "\<And>p'. onward q p' \<Longrightarrow> runs p' (f p') Q"
  shows "runs p (consumeStatement u q \<bind> f) Q" "runs p (advance u t q \<bind> f) Q" "runs p (advanceAny u ts q \<bind> f) Q"
  using assms consumeStatement_returns [OF onward_ok [OF assms(1)]] advance_returns [OF onward_ok [OF assms(1)]]
    advanceAny_returns [OF onward_ok [OF assms(1)]]
  by (blast intro: runs_from [OF assms(1)] runs_opt)+

lemma branch_at:
  assumes "b \<Longrightarrow> runs p (r \<bind> f) Q" "\<not> b \<Longrightarrow> runs p (s \<bind> f) Q"
  shows "runs p ((if b then r else s) \<bind> f) Q"
  using assms by simp

lemma Some_at:
  assumes "onward p q" "runs q (f q) Q"
  shows "runs p (Some q \<bind> f) Q"
  using runs_from [OF assms] by simp

lemma Some_pair_at:
  assumes "onward p q" "runs q (f x q) Q"
  shows "runs p (Some (x, q) \<bind> (\<lambda>(x, p'). f x p')) Q"
  using runs_from [OF assms] by simp

lemma onward_if: "(b \<Longrightarrow> onward p q) \<Longrightarrow> (\<not> b \<Longrightarrow> onward p r) \<Longrightarrow> onward p (if b then q else r)"
  by simp

lemmas runs_rules = runs_if runs_Some branch_at next_at expect_at expect_drop_at skip_at Some_at Some_pair_at onward_if onward_refl addErrorf_diags(2)
  add_diag_onward attribute_checks_onward TrueI

lemma fragments_at:
  assumes "onward p q" "\<And>x p'. onward q p' \<Longrightarrow> runs p' (f x p') Q"
  shows "runs p (fragments_loop (remaining q + 1) u q \<bind> (\<lambda>(x, p'). f x p')) Q"
  by (rule runs_from [OF assms(1)], rule runs_bind [OF fragments_loop_returns [OF onward_ok [OF assms(1)]]])
    (simp_all add: assms(2) del: fragments_loop.simps)

lemma label_at:
  assumes "onward p q" "\<And>l lp p'. onward q p' \<Longrightarrow> runs p' (f l lp p') Q"
  shows "runs p (block_label u q \<bind> (\<lambda>((l, lp), p'). f l lp p')) Q"
  using assms(2) block_label_returns [OF onward_ok [OF assms(1)]]
  by (intro runs_from [OF assms(1)]) (auto intro!: runs_bind)

lemma parseBlockName_returns:
  assumes "parser_ok p"
  shows "runs p (parseBlockName u p) (\<lambda>bn p'. bn \<noteq> None \<longrightarrow> remaining p' < remaining p)"
  unfolding parseBlockName_def Let_def
  by (intro runs_rules fragments_at label_at; insert assms; auto simp: stepped_def onward_def)

lemma name_at:
  assumes "onward p q" "\<And>p'. onward q p' \<Longrightarrow> runs p' (g p') Q"
    "\<And>bn p'. onward q p' \<Longrightarrow> remaining p' < remaining q \<Longrightarrow> runs p' (h bn p') Q"
  shows "runs p (parseBlockName u q \<bind> (\<lambda>(name, p'). case name of None \<Rightarrow> g p' | Some bn \<Rightarrow> h bn p')) Q"
  by (rule runs_from [OF assms(1)], rule runs_bind [OF parseBlockName_returns [OF onward_ok [OF assms(1)]]])
    (simp add: assms(2,3) split: option.split)

lemma parse_field_name_returns:
  assumes "parser_ok p"
  shows "runs p (parse_field_name u p) (\<lambda>_ _. True)"
  unfolding parse_field_name_def
  by (intro runs_rules; insert assms; auto simp: stepped_def onward_def)

lemma field_name_at:
  assumes "onward p q" "\<And>i b p'. onward q p' \<Longrightarrow> runs p' (f i b p') Q"
  shows "runs p (parse_field_name u q \<bind> (\<lambda>((i, b), p'). f i b p')) Q"
  by (rule runs_from [OF assms(1)], rule runs_bind [OF parse_field_name_returns [OF onward_ok [OF assms(1)]]])
    (simp add: assms(2) split: prod.split)

lemma BinaryPrecedence_EOF [simp]: "BinaryPrecedence EOF = 0"
  by (simp add: BinaryPrecedence_def LowestPrecedence_def)

locale parse_calls =
  fixes P :: parsers and n :: nat
  assumes body: "returns 2 n (p_body P until)"
    and statement: "returns 1 n (p_statement P)"
    and binop: "1 \<le> k \<Longrightarrow> returns 4 n (p_binop P k)"
    and binops: "1 \<le> k \<Longrightarrow> returns 1 n (p_binops P k e)"
    and pow: "returns 3 n (p_pow P)"
    and unary: "returns 2 n (p_unary P)"
    and opers: "returns 1 n (p_opers P e)"
    and primary: "returns 1 n (p_primary P)"
    and exprs: "returns 5 n (p_exprs P until)"
    and fields: "returns 6 n (p_fields P until)"
    and field: "returns 5 n (p_field P)"
begin

lemma expression: "returns 4 n (ParseExpression P)"
  using binop [of 1] by (simp add: returns_def ParseExpression_def)

lemmas calls = call_at [OF body] call_at [OF statement] call_at [OF binop] call_at [OF pow] call_at [OF unary] call_at [OF primary]
  call_at [OF exprs] call_at [OF fields] call_at [OF field] call_at [OF expression]
  call_tail [OF binops] call_tail [OF opers]

lemma body_step: "returns 2 (Suc n) (parseBody u P until)"
  unfolding returns_def parseBody_def Let_def
  by (intro allI impI runs_rules calls; auto simp: stepped_def onward_def split: if_splits)

lemma statement_step: "returns 1 (Suc n) (parseStatement u P)"
  unfolding returns_def parseStatement_def
  by (intro allI impI runs_rules calls name_at; auto simp: stepped_def onward_def split: if_splits)

lemma binop_step: "1 \<le> k \<Longrightarrow> returns 4 (Suc n) (parseBinOp u P k)"
  unfolding returns_def parseBinOp_def Let_def
  by (intro allI impI runs_rules calls; auto simp: stepped_def onward_def split: if_splits)

lemma binops_step: "1 \<le> k \<Longrightarrow> returns 1 (Suc n) (binop_loop u P k e)"
  unfolding returns_def binop_loop_def
  by (intro allI impI runs_rules calls; auto simp: stepped_def onward_def split: if_splits)

lemma pow_step: "returns 3 (Suc n) (parsePowExpr u P)"
  unfolding returns_def parsePowExpr_def Let_def
  by (intro allI impI runs_rules calls; auto simp: stepped_def onward_def split: if_splits)

lemma unary_step: "returns 2 (Suc n) (parseUnaryExpr u P)"
  unfolding returns_def parseUnaryExpr_def Let_def isUnaryOp_def
  by (intro allI impI runs_rules calls; auto simp: stepped_def onward_def split: if_splits)

lemma opers_step: "returns 1 (Suc n) (oper_loop u P e)"
  unfolding returns_def oper_loop_def Let_def
  by (intro allI impI runs_rules calls; auto simp: stepped_def onward_def split: if_splits)

lemma primary_step: "returns 1 (Suc n) (parsePrimaryExpr u P)"
  unfolding returns_def parsePrimaryExpr_def Let_def
  by (intro allI impI runs_rules calls; auto simp: stepped_def onward_def split: if_splits)

lemma exprs_step: "returns 5 (Suc n) (parseExpressionList u P until)"
  unfolding returns_def parseExpressionList_def Let_def
  by (intro allI impI runs_rules calls; auto simp: stepped_def onward_def split: if_splits)

lemma fields_step: "returns 6 (Suc n) (parseFieldList u P until)"
  unfolding returns_def parseFieldList_def Let_def
  by (intro allI impI runs_rules calls; auto simp: stepped_def onward_def split: if_splits)

lemma field_step: "returns 5 (Suc n) (parseField u P)"
  unfolding returns_def parseField_def
  by (intro allI impI runs_rules calls field_name_at; auto simp: stepped_def onward_def split: if_splits)

end

lemmas call_steps = parse_calls.body_step parse_calls.statement_step parse_calls.binop_step parse_calls.binops_step
  parse_calls.pow_step parse_calls.unary_step parse_calls.opers_step parse_calls.primary_step parse_calls.exprs_step
  parse_calls.fields_step parse_calls.field_step

lemma parsers_at_calls: "parse_calls (parsers_at u n) n"
proof (induction n)
  case 0
  show ?case by unfold_locales (simp_all add: returns_def)
next
  case (Suc n)
  show ?case by unfold_locales (simp_all add: Let_def call_steps [OF Suc] del: One_nat_def)
qed

interpretation parsing: parse_calls "parsers_at u n" n for u n
  by (rule parsers_at_calls)

section \<open>The entry points return\<close>

lemma next0_pos: "next0 u (p\<lparr>pos := q\<rparr>) = next0 u p"
  by (simp add: next0_def Let_def split: prod.split)

lemma newParser_returns:
  obtains p where "newParser u name src = Some p" "parser_ok p"
proof -
  let ?s = "New (NewFile name) src True IncludeComments"
  let ?p = "\<lparr>diags = [], scanner = ?s, comments = [], pos = NoPos, tok = ILLEGAL, lit = [], lastError = zero_Position\<rparr>"
  let ?q = "?p\<lparr>diags := map (scan_diag ?p) (errs ?s)\<rparr>"
  have "parser_ok (?q\<lparr>pos := offset_pos 0\<rparr>)"
    using New_inv(1) [of "NewFile name" src] by (auto simp: parser_ok_def NewFile_def zero_Position_def)
  then obtain p where "parser_next u (?q\<lparr>pos := offset_pos 0\<rparr>) = Some p" "stepped (?q\<lparr>pos := offset_pos 0\<rparr>) p"
    using parser_next_returns by metis
  moreover have "parser_next u (?q\<lparr>pos := offset_pos 0\<rparr>) = parser_next u ?q"
    by (simp only: parser_next_def next0_pos)
  ultimately show thesis by (intro that [of p]) (simp_all add: newParser_def Let_def stepped_def onward_def)
qed

lemma parseBody_returns:
  assumes "parser_ok p"
  obtains b p' where "p_body (parsers_at u (parse_fuel p)) until p = Some (b, p')" "onward p p'"
  using returnsD [OF parsing.body [where n = "parse_fuel p" and u = u and until = until] assms] by (auto simp: parse_fuel_def runs_def)

lemma ParseFile_Some: "\<exists>r. ParseFile u name data = Some r \<and> r \<noteq> Inl []"
proof -
  obtain p where p: "newParser u name data = Some p" "parser_ok p" by (rule newParser_returns)
  obtain b p' where "p_body (parsers_at u (parse_fuel p)) EOF p = Some (b, p')" using parseBody_returns [OF p(2)] by metis
  with p(1) show ?thesis by (simp add: ParseFile_def parse_file_def)
qed

text \<open>
  C11: parsing a file ends for every input and returns a file or at least one diagnostic: no input makes
  the parser loop, recurse without end, or index past the end of a literal.
\<close>

theorem ParseFile_returns:
  "(\<exists>f. ParseFile u name data = Some (Inr f)) \<or> (\<exists>d ds. ParseFile u name data = Some (Inl (d # ds)))"
proof -
  obtain r where r: "ParseFile u name data = Some r" "r \<noteq> Inl []" using ParseFile_Some by blast
  then show ?thesis by (cases r) (auto simp: neq_Nil_conv)
qed

lemma parse_expression_returns: "\<exists>r. parse_expression u expr = Some r"
proof -
  obtain p where p: "newParser u [] expr = Some p" "parser_ok p" by (rule newParser_returns)
  obtain e p' where "ParseExpression (parsers_at u (parse_fuel p)) p = Some (e, p')" "onward p p'"
    using returnsD [OF parsing.expression [where n = "parse_fuel p" and u = u] p(2)] by (auto simp: parse_fuel_def runs_def)
  moreover obtain q where "expect u TERMINATOR p' = Some ((pos p', tok p', lit p'), q)"
    using expect_returns [OF onward_ok [OF \<open>onward p p'\<close>]] by metis
  ultimately show ?thesis using p(1) by (simp add: parse_expression_def)
qed

end
