(* ===== verification/Parser_Grammar.thy ===== *)
theory Parser_Grammar
  imports Parser_Progress
begin

text \<open>
  The grammar that the comments of \<^verbatim>\<open>syntax/parser/internal.go\<close> give, over lists of tokens and with the
  tree that each production builds, and the proof that the parser accepts nothing else: when it ends
  without a diagnostic, the tokens it read derive the tree it returns.
\<close>

section \<open>Grammar\<close>

text \<open>
  The levels of an expression: 1 to 5 are the levels of left-associative binary operators, 6 is a power,
  7 a unary operation, 8 an operand with accesses, indexes and calls, 9 a primary expression.
\<close>

inductive expr_toks :: "int \<Rightarrow> token_triple list \<Rightarrow> Expr \<Rightarrow> bool"
  and exprs_toks :: "token_triple list \<Rightarrow> Expr list \<Rightarrow> bool"
  and fields_toks :: "token_triple list \<Rightarrow> ObjectField list \<Rightarrow> bool" where
  et_up: "expr_toks (k + 1) ts e \<Longrightarrow> 1 \<le> k \<Longrightarrow> k \<le> 8 \<Longrightarrow> expr_toks k ts e"
| et_binary: "expr_toks k a l \<Longrightarrow> expr_toks (k + 1) b r \<Longrightarrow> BinaryPrecedence t = k \<Longrightarrow> 1 \<le> k \<Longrightarrow> k \<le> 5 \<Longrightarrow>
    expr_toks k (a @ (ps, t, s) # b) (BinaryExpr t ps l r False)"
| et_pow: "expr_toks 7 a l \<Longrightarrow> expr_toks 6 b r \<Longrightarrow> expr_toks 6 (a @ (ps, POW, s) # b) (BinaryExpr POW ps l r False)"
| et_unary: "isUnaryOp t \<Longrightarrow> expr_toks 7 a e \<Longrightarrow> expr_toks 7 ((ps, t, s) # a) (UnaryExpr t ps e False)"
| et_access: "expr_toks 8 a e \<Longrightarrow> expr_toks 8 (a @ [(dp, DOT, s), (np, IDENT, name)]) (AccessExpr e (Ident name np) False)"
| et_index: "expr_toks 8 a e \<Longrightarrow> expr_toks 1 b i \<Longrightarrow>
    expr_toks 8 (a @ (lb, LBRACK, s) # b @ [(rb, RBRACK, s')]) (IndexExpr e i lb rb False)"
| et_call: "expr_toks 8 a e \<Longrightarrow> exprs_toks b as \<Longrightarrow>
    expr_toks 8 (a @ (lp, LPAREN, s) # b @ [(rp, RPAREN, s')]) (CallExpr e as lp rp False)"
| et_ident: "expr_toks 9 [(ps, IDENT, name)] (IdentifierExpr (Ident name ps) False)"
| et_literal: "t \<in> {STRING, NUMBER, FLOAT, BOOL, NULL} \<Longrightarrow> expr_toks 9 [(ps, t, l)] (LiteralExpr t ps l False)"
| et_paren: "expr_toks 1 a e \<Longrightarrow> expr_toks 9 ((lp, LPAREN, s) # a @ [(rp, RPAREN, s')]) (ParenExpr e lp rp False)"
| et_array: "exprs_toks a es \<Longrightarrow> expr_toks 9 ((lb, LBRACK, s) # a @ [(rb, RBRACK, s')]) (ArrayExpr es lb rb False)"
| et_object: "fields_toks a fs \<Longrightarrow> expr_toks 9 ((lc, LCURLY, s) # a @ [(rc, RCURLY, s')]) (ObjectExpr fs lc rc False)"
| es_none: "exprs_toks [] []"
| es_last: "expr_toks 1 a e \<Longrightarrow> exprs_toks a [e]"
| es_more: "expr_toks 1 a e \<Longrightarrow> exprs_toks b es \<Longrightarrow> exprs_toks (a @ (cp, COMMA, s) # b) (e # es)"
| fs_none: "fields_toks [] []"
| fs_last: "t = STRING \<or> t = IDENT \<Longrightarrow> field_name ps t l = (i, q) \<Longrightarrow> expr_toks 1 a e \<Longrightarrow>
    fields_toks ((ps, t, l) # (ap, ASSIGN, s) # a) [ObjectField i q e]"
| fs_more: "t = STRING \<or> t = IDENT \<Longrightarrow> field_name ps t l = (i, q) \<Longrightarrow> expr_toks 1 a e \<Longrightarrow> fields_toks b fs \<Longrightarrow>
    fields_toks ((ps, t, l) # (ap, ASSIGN, s) # a @ (cp, COMMA, s') # b) (ObjectField i q e # fs)"

fun fragment_toks :: "token_triple list \<Rightarrow> string list \<Rightarrow> bool" where
  "fragment_toks [] fs \<longleftrightarrow> fs = []"
| "fragment_toks ((_, t, _) # (_, t', f) # ts) fs \<longleftrightarrow> t = DOT \<and> t' = IDENT \<and> (\<exists>gs. fs = f # gs \<and> fragment_toks ts gs)"
| "fragment_toks _ fs \<longleftrightarrow> False"

text \<open>A label is a double quoted string that is empty or holds an identifier.\<close>

fun label_toks :: "unicode \<Rightarrow> token_triple list \<Rightarrow> string \<Rightarrow> Pos \<Rightarrow> bool" where
  "label_toks u [] l lp \<longleftrightarrow> l = [] \<and> lp = NoPos"
| "label_toks u [(ps, t, s)] l lp \<longleftrightarrow> t = STRING \<and> lp = ps \<and> ps \<noteq> NoPos \<and> s \<noteq> [] \<and> hd s = CHR 0x22 \<and>
     (if length s > 2 then l = unquote s \<and> IsValidIdentifier u l else l = [])"
| "label_toks u _ l lp \<longleftrightarrow> False"

inductive stmt_toks :: "unicode \<Rightarrow> token_triple list \<Rightarrow> Stmt \<Rightarrow> bool"
  and body_toks :: "unicode \<Rightarrow> token_triple list \<Rightarrow> body \<Rightarrow> bool" for u where
  st_attribute: "expr_toks 1 a v \<Longrightarrow>
    stmt_toks u ((ps, IDENT, name) # (ap, ASSIGN, s) # a) (AttributeStmt (Ident name ps) v)"
| st_block: "fragment_toks fts fs \<Longrightarrow> label_toks u lts l lp \<Longrightarrow> body_toks u a b \<Longrightarrow>
    stmt_toks u ((ps, IDENT, f) # fts @ lts @ (lc, LCURLY, s) # a @ [(rc, RCURLY, s')])
      (Block (BlockStmt (f # fs) ps l lp b lc rc))"
| bd_none: "body_toks u [] []"
| bd_last: "stmt_toks u a s \<Longrightarrow> body_toks u a [s]"
| bd_more: "stmt_toks u a s \<Longrightarrow> body_toks u b ss \<Longrightarrow> body_toks u (a @ (tp, TERMINATOR, l) # b) (s # ss)"

section \<open>The tokens a parser reads\<close>

definition current :: "parser \<Rightarrow> token_triple" where
  "current p = (pos p, tok p, lit p)"

fun reads :: "unicode \<Rightarrow> parser \<Rightarrow> token_triple list \<Rightarrow> parser \<Rightarrow> bool" where
  "reads u p [] p' \<longleftrightarrow> p' = p"
| "reads u p (t # ts) p' \<longleftrightarrow> current p = t \<and> (\<exists>q. parser_next u p = Some q \<and> reads u q ts p')"

lemma reads_append: "reads u p (a @ b) r \<longleftrightarrow> (\<exists>q. reads u p a q \<and> reads u q b r)"
  by (induction a arbitrary: p) auto

text \<open>
  Languages: sets of token lists. \<open>clean u p p' X\<close> says that a parser that got from \<open>p\<close> to \<open>p'\<close> without a
  diagnostic has read a word of \<open>X\<close>. After an error the language is empty.
\<close>

type_synonym language = "token_triple list set"

definition cat :: "language \<Rightarrow> language \<Rightarrow> language" where
  "cat X Y = {a @ b |a b. a \<in> X \<and> b \<in> Y}"

definition clean :: "unicode \<Rightarrow> parser \<Rightarrow> parser \<Rightarrow> language \<Rightarrow> bool" where
  "clean u p p' X \<longleftrightarrow> (diags p' = [] \<longrightarrow> (\<exists>ts \<in> X. reads u p ts p'))"

lemma in_cat [simp]: "ts \<in> cat X Y \<longleftrightarrow> (\<exists>a b. ts = a @ b \<and> a \<in> X \<and> b \<in> Y)"
  by (auto simp: cat_def)

lemma clean_mono: "clean u p p' X \<Longrightarrow> X \<subseteq> Y \<Longrightarrow> clean u p p' Y"
  by (auto simp: clean_def)

lemma clean_refl: "clean u p p {[]}"
  by (simp add: clean_def)

lemma clean_cat:
  assumes "clean u p q X" "onward q r" "clean u q r Y"
  shows "clean u p r (cat X Y)"
  using assms onward_no_diags [OF assms(2)] reads_append by (fastforce simp: clean_def)

lemma clean_next: "parser_next u p = Some q \<Longrightarrow> clean u p q {[current p]}"
  by (simp add: clean_def)

lemma clean_error: "diags q \<noteq> [] \<Longrightarrow> clean u p q X"
  by (simp add: clean_def)

section \<open>Following a parse function\<close>

text \<open>
  \<open>tracks u p\<^sub>0 X p r E Y\<close>: from \<open>p\<close>, reached from \<open>p\<^sub>0\<close> by reading a word of \<open>X\<close>, the rest \<open>r\<close> of a parse function
  returns a result with \<open>E\<close>, having read a word of \<open>Y\<close> since \<open>p\<^sub>0\<close>.
\<close>

definition tracks :: "unicode \<Rightarrow> parser \<Rightarrow> language \<Rightarrow> parser \<Rightarrow> 'a parse \<Rightarrow> ('a \<Rightarrow> parser \<Rightarrow> bool) \<Rightarrow> ('a \<Rightarrow> language) \<Rightarrow> bool" where
  "tracks u p0 X p r E Y \<longleftrightarrow>
     (onward p0 p \<longrightarrow> clean u p0 p X \<longrightarrow> runs p r (\<lambda>x p'. E x p' \<and> clean u p0 p' (Y x)))"

text \<open>The contract of a parse function: what it delivers from the states with \<open>I\<close>.\<close>

definition delivers :: "unicode \<Rightarrow> (parser \<Rightarrow> bool) \<Rightarrow> (parser \<Rightarrow> 'a parse) \<Rightarrow> ('a \<Rightarrow> parser \<Rightarrow> bool) \<Rightarrow> ('a \<Rightarrow> language) \<Rightarrow> bool" where
  "delivers u I f E L \<longleftrightarrow> (\<forall>p. parser_ok p \<longrightarrow> I p \<longrightarrow>
     runs p (f p) (\<lambda>x p'. E x p' \<and> clean u p p' (L x)))"

abbreviation fuel :: "nat \<Rightarrow> nat \<Rightarrow> parser \<Rightarrow> bool" where
  "fuel k n p \<equiv> 8 * remaining p + k \<le> n"
abbreviation anything :: "'a \<Rightarrow> parser \<Rightarrow> bool" where
  "anything \<equiv> \<lambda>_ _. True"

lemma deliversI:
  assumes "\<And>p. parser_ok p \<Longrightarrow> I p \<Longrightarrow> tracks u p {[]} p (f p) E L"
  shows "delivers u I f E L"
  using assms clean_refl onward_refl by (simp add: delivers_def tracks_def)

lemma t_bind:
  assumes "onward p0 p \<Longrightarrow> clean u p0 p X \<Longrightarrow>
    \<exists>v q Z. r = Some v \<and> onward p q \<and> clean u p0 q Z \<and> tracks u p0 Z q (f v) E Y"
  shows "tracks u p0 X p (r \<bind> f) E Y"
  unfolding tracks_def
proof (intro impI)
  assume p: "onward p0 p" "clean u p0 p X"
  then obtain v q Z where v: "r = Some v" "onward p q" "clean u p0 q Z" "tracks u p0 Z q (f v) E Y"
    using assms by blast
  then show "runs p (r \<bind> f) (\<lambda>x p'. E x p' \<and> clean u p0 p' (Y x))"
    using onward_trans [OF p(1) v(2)] runs_from [OF v(2)] by (simp add: tracks_def)
qed

lemma t_next:
  assumes "\<And>p'. stepped p p' \<Longrightarrow> tracks u p0 (cat X {[current p]}) p' (f p') E Y"
  shows "tracks u p0 X p (parser_next u p \<bind> f) E Y"
proof (rule t_bind)
  assume p: "onward p0 p" "clean u p0 p X"
  obtain q where q: "parser_next u p = Some q" "stepped p q" using parser_next_returns [OF onward_ok [OF p(1)]] by metis
  note on = stepped_onward [OF q(2)]
  show "\<exists>v q Z. parser_next u p = Some v \<and> onward p q \<and> clean u p0 q Z \<and> tracks u p0 Z q (f v) E Y"
    using q(1) on clean_cat [OF p(2) on clean_next [OF q(1)]] assms [OF q(2)] by blast
qed

lemma stepped_after_error:
  assumes "parser_ok p" "stepped (addErrorf m p) q"
  shows "stepped p q" "diags q \<noteq> []"
proof -
  note e = addErrorf_diags [OF assms(1), of m]
  have on: "onward (addErrorf m p) q" by (rule stepped_onward [OF assms(2)])
  show "stepped p q" using onward_trans [OF e(2) on] assms(2) by (simp add: stepped_def)
  show "diags q \<noteq> []" using e(1) onward_no_diags [OF on] by blast
qed

lemma t_next_error:
  assumes "\<And>p'. stepped p p' \<Longrightarrow> tracks u p0 (if b then {} else cat X {[current p]}) p' (f p') E Y"
  shows "tracks u p0 X p (parser_next u (if b then addErrorf m p else p) \<bind> f) E Y"
proof (cases b)
  case True
  show ?thesis
  proof (rule t_bind)
    assume "onward p0 p"
    then have ok: "parser_ok p" by (rule onward_ok)
    then obtain q where q: "parser_next u (addErrorf m p) = Some q" "stepped (addErrorf m p) q"
      using parser_next_returns [OF onward_ok [OF addErrorf_diags(2)]] by metis
    note q' = stepped_after_error [OF ok q(2)]
    show "\<exists>v q Z. parser_next u (if b then addErrorf m p else p) = Some v \<and> onward p q \<and> clean u p0 q Z \<and> tracks u p0 Z q (f v) E Y"
      using True q(1) stepped_onward [OF q'(1)] clean_error [OF q'(2), of u p0 "{}"] assms [OF q'(1)] by auto
  qed
next
  case False
  then have "tracks u p0 X p (parser_next u p \<bind> f) E Y" using assms by (intro t_next) simp
  with False show ?thesis by simp
qed

lemma t_expect:
  assumes "\<And>p'. stepped p p' \<Longrightarrow>
    tracks u p0 (if tok p = t then cat X {[current p]} else {}) p' (f (pos p) (tok p) (lit p) p') E Y"
  shows "tracks u p0 X p (expect u t p \<bind> (\<lambda>((a, b, c), p'). f a b c p')) E Y"
proof (rule t_bind, goal_cases)
  case 1
  note p = 1
  obtain q where q: "expect u t p = Some ((pos p, tok p, lit p), q)" "stepped p q"
    "diags q = [] \<longrightarrow> tok p = t \<and> parser_next u p = Some q"
    using expect_returns [OF onward_ok [OF p(1)]] by metis
  note on = stepped_onward [OF q(2)]
  have "clean u p0 q (if tok p = t then cat X {[current p]} else {})"
    using clean_cat [OF p(2) on clean_next] q(3) clean_error by (cases "diags q = []") auto
  with on assms [OF q(2)] show ?case unfolding q(1) by (intro exI conjI) auto
qed

lemma t_expect_drop:
  assumes "\<And>p'. stepped p p' \<Longrightarrow> tracks u p0 (if tok p = t then cat X {[current p]} else {}) p' (f p') E Y"
  shows "tracks u p0 X p (expect u t p \<bind> (\<lambda>(_, p'). f p')) E Y"
proof -
  have "tracks u p0 X p (expect u t p \<bind> (\<lambda>((a, b, c), p'). f p')) E Y" by (rule t_expect) (rule assms)
  then show ?thesis by (simp add: case_prod_beta')
qed

lemma t_call:
  assumes "delivers u I f E' L" "I p"
    "\<And>x p'. onward p p' \<Longrightarrow> E' x p' \<Longrightarrow> tracks u p0 (cat X (L x)) p' (g x p') E Y"
  shows "tracks u p0 X p (f p \<bind> (\<lambda>(x, p'). g x p')) E Y"
proof (rule t_bind)
  assume p: "onward p0 p" "clean u p0 p X"
  obtain x q where q: "f p = Some (x, q)" "onward p q" "E' x q" "clean u p q (L x)"
    using assms(1,2) onward_ok [OF p(1)] by (auto simp: delivers_def runs_def)
  then show "\<exists>v q Z. f p = Some v \<and> onward p q \<and> clean u p0 q Z \<and> tracks u p0 Z q (case v of (x, p') \<Rightarrow> g x p') E Y"
    using clean_cat [OF p(2) q(2,4)] assms(3) [OF q(2,3)] by auto
qed

lemma t_Some:
  assumes "onward p0 p \<Longrightarrow> E x p" "X \<subseteq> Y x"
  shows "tracks u p0 X p (Some (x, p)) E Y"
  using assms clean_mono onward_refl [OF onward_ok] by (auto simp: tracks_def intro!: runs_Some)

lemma t_tail:
  assumes "delivers u I f E' L" "I p"
    "\<And>x p'. onward p p' \<Longrightarrow> E' x p' \<Longrightarrow> E x p' \<and> cat X (L x) \<subseteq> Y x"
  shows "tracks u p0 X p (f p) E Y"
proof -
  have "tracks u p0 X p (f p \<bind> (\<lambda>(x, p'). Some (x, p'))) E Y"
    by (rule t_call [OF assms(1,2)]) (rule t_Some; simp add: assms(3))
  then show ?thesis by simp
qed

lemma t_if: "(b \<Longrightarrow> tracks u p0 X p r E Y) \<Longrightarrow> (\<not> b \<Longrightarrow> tracks u p0 X p s E Y) \<Longrightarrow> tracks u p0 X p (if b then r else s) E Y"
  by simp

lemma t_branch:
  "(b \<Longrightarrow> tracks u p0 X p (r \<bind> f) E Y) \<Longrightarrow> (\<not> b \<Longrightarrow> tracks u p0 X p (s \<bind> f) E Y) \<Longrightarrow>
    tracks u p0 X p ((if b then r else s) \<bind> f) E Y"
  by simp

lemma t_Some_bind: "tracks u p0 X p (f p) E Y \<Longrightarrow> tracks u p0 X p (Some p \<bind> f) E Y"
  by simp

lemma t_Some_pair: "tracks u p0 X p (f x p) E Y \<Longrightarrow> tracks u p0 X p (Some (x, p) \<bind> (\<lambda>(x, p). f x p)) E Y"
  by simp

text \<open>Skipping tokens after an error.\<close>

lemma t_skip_error:
  assumes "\<And>p'. onward p p' \<Longrightarrow> tracks u p0 {} p' (f p') E Y"
  shows "tracks u p0 X p (consumeStatement u (addErrorf m p) \<bind> f) E Y"
    "tracks u p0 X p (advance u t (addErrorf m p) \<bind> f) E Y" "tracks u p0 X p (advanceAny u ts (addErrorf m p) \<bind> f) E Y"
proof -
  have skip: "tracks u p0 X p (r \<bind> f) E Y"
    if ret: "parser_ok (addErrorf m p) \<Longrightarrow> \<exists>p'. r = Some p' \<and> onward (addErrorf m p) p'" for r
  proof (rule t_bind)
    assume "onward p0 p"
    then have e: "diags (addErrorf m p) \<noteq> []" "onward p (addErrorf m p)" using addErrorf_diags onward_ok by blast+
    obtain q where q: "r = Some q" "onward (addErrorf m p) q" using ret [OF onward_ok [OF e(2)]] by blast
    have "diags q \<noteq> []" using e(1) onward_no_diags [OF q(2)] by blast
    then show "\<exists>v q Z. r = Some v \<and> onward p q \<and> clean u p0 q Z \<and> tracks u p0 Z q (f v) E Y"
      using q(1) onward_trans [OF e(2) q(2)] clean_error assms by blast
  qed
  show "tracks u p0 X p (consumeStatement u (addErrorf m p) \<bind> f) E Y" using consumeStatement_returns by (intro skip) blast
  show "tracks u p0 X p (advance u t (addErrorf m p) \<bind> f) E Y" using advance_returns by (intro skip) blast
  show "tracks u p0 X p (advanceAny u ts (addErrorf m p) \<bind> f) E Y" using advanceAny_returns by (intro skip) blast
qed

lemma t_skip_after:
  assumes "X = {}" "\<And>p'. onward p p' \<Longrightarrow> tracks u p0 {} p' (f p') E Y"
  shows "tracks u p0 X p (consumeStatement u p \<bind> f) E Y" "tracks u p0 X p (advance u t p \<bind> f) E Y"
proof -
  have skip: "tracks u p0 X p (r \<bind> f) E Y" if ret: "parser_ok p \<Longrightarrow> \<exists>p'. r = Some p' \<and> onward p p'" for r
  proof (rule t_bind)
    assume p: "onward p0 p" "clean u p0 p X"
    then have ne: "diags p \<noteq> []" by (auto simp: assms(1) clean_def)
    obtain q where q: "r = Some q" "onward p q" using ret [OF onward_ok [OF p(1)]] by blast
    have "diags q \<noteq> []" using ne onward_no_diags [OF q(2)] by blast
    then show "\<exists>v q Z. r = Some v \<and> onward p q \<and> clean u p0 q Z \<and> tracks u p0 Z q (f v) E Y"
      using q clean_error assms(2) by blast
  qed
  show "tracks u p0 X p (consumeStatement u p \<bind> f) E Y" using consumeStatement_returns by (rule skip)
  show "tracks u p0 X p (advance u t p \<bind> f) E Y" using advance_returns by (rule skip)
qed

lemma t_Some_error:
  assumes "onward p0 p \<Longrightarrow> E x (addErrorf m p)"
  shows "tracks u p0 X p (Some (x, addErrorf m p)) E Y"
  using assms addErrorf_diags [OF onward_ok [of p0 p]] by (auto simp: tracks_def intro!: runs_Some clean_error)

lemmas t_rules = t_if t_Some_error t_branch t_next t_next_error t_expect t_expect_drop t_Some t_Some_bind t_Some_pair t_skip_error t_skip_after

lemma if_addErrorf [simp]:
  "lit (if b then addErrorf m p else p) = lit p" "pos (if b then addErrorf m p else p) = pos p"
  "tok (if b then addErrorf m p else p) = tok p" "remaining (if b then addErrorf m p else p) = remaining p"
  by simp_all

lemma current_eq: "current p = (pos p, tok p, lit p)"
  by (simp add: current_def)

section \<open>Block and field names\<close>

lemma fragments_sound: "delivers u (\<lambda>p. remaining p < n) (fragments_loop n u) anything (\<lambda>fs. {ts. fragment_toks ts fs})"
proof (induction n)
  case (Suc n)
  show ?case
  proof (rule deliversI)
    fix p assume "parser_ok p" "remaining p < Suc n"
    then show "tracks u p {[]} p (fragments_loop (Suc n) u p) anything (\<lambda>fs. {ts. fragment_toks ts fs})"
      unfolding fragments_loop.simps Let_def if_addErrorf
      by (intro t_rules t_call [OF Suc]; auto simp: stepped_def onward_def current_eq)
  qed
qed (simp add: delivers_def)

declare fragments_loop.simps [simp del]

lemma ok_pos: "parser_ok p \<Longrightarrow> pos p \<noteq> NoPos"
  by (auto simp: parser_ok_def offset_pos_def NoPos_def)

text \<open>A good label leaves the parser at the label.\<close>

lemma block_label_cases:
  assumes "parser_ok p"
  obtains l lp p' where "block_label u p = Some ((l, lp), p')" "onward p p'" "tok p' = tok p" "remaining p' = remaining p"
    "diags p' = [] \<longrightarrow> p' = p \<and> label_toks u [current p] l lp"
proof (cases "tok p = STRING")
  case False
  then show thesis using that addErrorf_diags [OF assms] by (simp add: block_label_def)
next
  case True
  then obtain c r where l: "lit p = c # r" using assms by (cases "lit p") (auto simp: parser_ok_def)
  let ?p = "if c \<noteq> CHR 0x22 then addErrorf (LabelNotDoubleQuoted (lit p)) p else p"
  let ?l = "if length (lit p) > 2 then unquote (lit p) else []"
  let ?q = "if length (lit p) > 2 \<and> \<not> IsValidIdentifier u ?l then addErrorf (LabelNotIdentifier ?l) ?p else ?p"
  have p: "onward p ?p" using assms by (simp add: onward_refl addErrorf_diags)
  have q: "onward ?p ?q" using onward_ok [OF p] by (simp add: onward_refl addErrorf_diags)
  have "?q = p \<and> label_toks u [current p] ?l (pos ?q)" if d: "diags ?q = []"
  proof -
    have "diags ?p = []" by (rule onward_no_diags [OF q d])
    then have "c = CHR 0x22" using addErrorf_diags(1) [OF assms] by (auto split: if_splits)
    moreover have "length (lit p) > 2 \<longrightarrow> IsValidIdentifier u ?l"
      using d addErrorf_diags(1) [OF onward_ok [OF p]] by (auto split: if_splits)
    ultimately show ?thesis using True ok_pos [OF assms] by (cases "length (lit p) > 2") (simp_all add: current_eq l)
  qed
  moreover have "block_label u p = Some ((?l, pos ?q), ?q)"
    using True by (simp add: block_label_def l Let_def)
  moreover have "tok ?q = tok p" "remaining ?q = remaining p" by simp_all
  ultimately show thesis using onward_trans [OF p q] by (intro that [of ?l "pos ?q" ?q]) blast+
qed

lemma t_label:
  assumes "\<And>l lp p'. onward p p' \<Longrightarrow> remaining p' = remaining p \<Longrightarrow> tok p' = tok p \<Longrightarrow>
    tracks u p0 {ts. ts \<in> X \<and> label_toks u [current p'] l lp} p' (f l lp p') E Y"
  shows "tracks u p0 X p (block_label u p \<bind> (\<lambda>((l, lp), p'). f l lp p')) E Y"
proof (rule t_bind, goal_cases)
  case 1
  obtain l lp p' where l: "block_label u p = Some ((l, lp), p')" "onward p p'" "tok p' = tok p" "remaining p' = remaining p"
    "diags p' = [] \<longrightarrow> p' = p \<and> label_toks u [current p] l lp"
    using block_label_cases [OF onward_ok [OF 1(1)]] by metis
  have "clean u p0 p' {ts. ts \<in> X \<and> label_toks u [current p'] l lp}" using 1(2) l(5) by (auto simp: clean_def)
  with l(2) assms [OF l(2,4,3)] show ?case unfolding l(1) by (intro exI conjI) auto
qed

definition name_toks :: "unicode \<Rightarrow> blockName \<Rightarrow> language" where
  "name_toks u bn = {(Start bn, IDENT, f) # fts @ lts |f fs fts lts. Fragments bn = f # fs \<and> fragment_toks fts fs \<and>
     label_toks u lts (bn_Label bn) (bn_LabelPos bn)}"

lemma name_toks_plain:
  "fragment_toks fts fs \<Longrightarrow>
    (ps, IDENT, f) # fts \<in> name_toks u \<lparr>Fragments = f # fs, bn_Label = [], Start = ps, bn_LabelPos = NoPos\<rparr>"
  by (simp add: name_toks_def) (metis append_Nil2 label_toks.simps(1))

lemma name_toks_label:
  "fragment_toks fts fs \<Longrightarrow> label_toks u [t] l lp \<Longrightarrow>
    (ps, IDENT, f) # fts @ [t] \<in> name_toks u \<lparr>Fragments = f # fs, bn_Label = l, Start = ps, bn_LabelPos = lp\<rparr>"
  by (auto simp: name_toks_def)

lemma parseBlockName_sound:
  "delivers u (\<lambda>p. remaining p < m) (parseBlockName u) (\<lambda>bn p'. bn = None \<or> remaining p' + 1 < m)
    (\<lambda>bn. case bn of None \<Rightarrow> {} | Some bn \<Rightarrow> name_toks u bn)"
proof (rule deliversI)
  fix p assume "parser_ok p" "remaining p < m"
  then show "tracks u p {[]} p (parseBlockName u p) (\<lambda>bn p'. bn = None \<or> remaining p' + 1 < m)
      (\<lambda>bn. case bn of None \<Rightarrow> {} | Some bn \<Rightarrow> name_toks u bn)"
    unfolding parseBlockName_def Let_def
    by (intro t_rules t_call [OF fragments_sound] t_label)
      (auto simp: stepped_def onward_def current_eq name_toks_plain name_toks_label simp del: label_toks.simps)
qed

lemma t_name:
  assumes "\<And>p'. onward p p' \<Longrightarrow> tracks u p0 {} p' (g p') E Y"
    "\<And>bn p'. onward p p' \<Longrightarrow> remaining p' < remaining p \<Longrightarrow> tracks u p0 (cat X (name_toks u bn)) p' (h bn p') E Y"
  shows "tracks u p0 X p (parseBlockName u p \<bind> (\<lambda>(name, p'). case name of None \<Rightarrow> g p' | Some bn \<Rightarrow> h bn p')) E Y"
proof (rule t_call [OF parseBlockName_sound [of u "Suc (remaining p)"]])
  fix x :: "blockName option" and p' assume "onward p p'" "x = None \<or> remaining p' + 1 < Suc (remaining p)"
  then show "tracks u p0 (cat X (case x of None \<Rightarrow> {} | Some bn \<Rightarrow> name_toks u bn)) p'
      (case x of None \<Rightarrow> g p' | Some bn \<Rightarrow> h bn p') E Y"
    using assms by (cases x) (auto simp: cat_def)
qed simp

lemma parse_field_name_sound:
  "delivers u (\<lambda>p. True) (parse_field_name u) anything
    (\<lambda>(i, q). {[(ps, t, l)] |ps t l. (t = STRING \<or> t = IDENT) \<and> field_name ps t l = (i, q)})"
proof (rule deliversI)
  fix p assume "parser_ok p"
  then show "tracks u p {[]} p (parse_field_name u p) anything
      (\<lambda>(i, q). {[(ps, t, l)] |ps t l. (t = STRING \<or> t = IDENT) \<and> field_name ps t l = (i, q)})"
    unfolding parse_field_name_def
    by (intro t_rules) (auto simp: current_eq)
qed

lemma t_field_name:
  assumes "\<And>i q p'. onward p p' \<Longrightarrow>
    tracks u p0 (cat X {[(ps, t, l)] |ps t l. (t = STRING \<or> t = IDENT) \<and> field_name ps t l = (i, q)}) p' (f i q p') E Y"
  shows "tracks u p0 X p (parse_field_name u p \<bind> (\<lambda>((i, q), p'). f i q p')) E Y"
proof -
  have "tracks u p0 X p (parse_field_name u p \<bind> (\<lambda>(x, p'). case x of (i, q) \<Rightarrow> f i q p')) E Y"
    by (rule t_call [OF parse_field_name_sound]) (auto split: prod.split intro: assms)
  then show ?thesis by (simp add: case_prod_beta')
qed

text \<open>An attribute is parsed further as if its name had been fine.\<close>

lemma t_attribute:
  assumes "delivers u I f E' L" "\<And>q. onward p q \<Longrightarrow> remaining q = remaining p \<Longrightarrow> I q"
    "\<And>x p'. onward p p' \<Longrightarrow> E' x p' \<Longrightarrow>
      tracks u p0 (if length (Fragments bn) = 1 \<and> bn_LabelPos bn = NoPos then cat X (L x) else {}) p' (g x p') E Y"
  shows "tracks u p0 X p (f (attribute_checks bn p) \<bind> (\<lambda>(x, p'). g x p')) E Y"
proof (rule t_bind, goal_cases)
  case 1
  let ?q = "attribute_checks bn p"
  have q: "onward p ?q" by (rule attribute_checks_onward [OF onward_ok [OF 1(1)]])
  have "I ?q" using assms(2) [OF q] by simp
  with assms(1) onward_ok [OF q] obtain x r where r: "f ?q = Some (x, r)" "onward ?q r" "E' x r" "clean u ?q r (L x)"
    by (auto simp: delivers_def runs_def)
  note on = onward_trans [OF q r(2)]
  have "clean u p0 r (if length (Fragments bn) = 1 \<and> bn_LabelPos bn = NoPos then cat X (L x) else {})"
  proof (cases "diags ?q = []")
    case True
    from attribute_checks_no_diags [OF True] clean_cat [OF 1(2) on, of "L x"] r(4) show ?thesis by simp
  next
    case False
    then show ?thesis using onward_no_diags [OF r(2)] clean_error by blast
  qed
  with on assms(3) [OF on r(3)] show ?case unfolding r(1) by (intro exI conjI) auto
qed

section \<open>Soundness\<close>

lemma expr_toks_lower:
  assumes "expr_toks j ts e" "1 \<le> k" "k \<le> j" "j \<le> 9"
  shows "expr_toks k ts e"
proof -
  have "expr_toks (k + int d) ts e \<Longrightarrow> 1 \<le> k \<Longrightarrow> k + int d \<le> 9 \<Longrightarrow> expr_toks k ts e" for d k
  proof (induction d arbitrary: k)
    case (Suc d)
    have "expr_toks (k + 1) ts e" by (rule Suc.IH) (use Suc.prems in \<open>simp_all add: algebra_simps\<close>)
    then show ?case by (rule et_up) (use Suc.prems in simp_all)
  qed simp
  from this [of k "nat (j - k)"] assms show ?thesis by simp
qed

lemma lower_steps:
  "expr_toks 9 ts e \<Longrightarrow> expr_toks 8 ts e" "expr_toks 8 ts e \<Longrightarrow> expr_toks 7 ts e" "expr_toks 7 ts e \<Longrightarrow> expr_toks 6 ts e"
  using et_up [of 8 ts e] et_up [of 7 ts e] et_up [of 6 ts e] by simp_all

definition field_toks :: "token_triple list \<Rightarrow> ObjectField \<Rightarrow> bool" where
  "field_toks ts f \<longleftrightarrow> (\<exists>ps t l ap s a i q e. ts = (ps, t, l) # (ap, ASSIGN, s) # a \<and> (t = STRING \<or> t = IDENT) \<and>
     field_name ps t l = (i, q) \<and> expr_toks 1 a e \<and> f = ObjectField i q e)"

lemma fields_one: "field_toks a f \<Longrightarrow> fields_toks a [f]"
  by (auto simp: field_toks_def intro: fs_last)

lemma fields_cons: "field_toks a f \<Longrightarrow> fields_toks b fs \<Longrightarrow> fields_toks (a @ (cp, COMMA, s) # b) (f # fs)"
  by (auto simp: field_toks_def intro: fs_more)

lemma array_empty: "expr_toks 9 [(lb, LBRACK, s), (rb, RBRACK, s')] (ArrayExpr [] lb rb False)"
  using et_array [OF es_none] by simp

lemma stmt_attribute:
  assumes "a \<in> name_toks u bn" "length (Fragments bn) = Suc 0" "bn_LabelPos bn = NoPos" "expr_toks 1 b v"
  shows "stmt_toks u (a @ (ap, ASSIGN, s) # b) (AttributeStmt (Ident (Fragments bn ! 0) (Start bn)) v)"
proof -
  obtain f fs fts lts where a: "a = (Start bn, IDENT, f) # fts @ lts" "Fragments bn = f # fs" "fragment_toks fts fs"
    "label_toks u lts (bn_Label bn) (bn_LabelPos bn)"
    using assms(1) by (auto simp: name_toks_def)
  have "fts = []" using a(2,3) assms(2) by (cases "(fts, fs)" rule: fragment_toks.cases) auto
  moreover have "lts = []" using a(4) assms(3) by (cases "(u, lts, bn_Label bn, bn_LabelPos bn)" rule: label_toks.cases) auto
  ultimately show ?thesis using st_attribute [OF assms(4)] by (simp add: a(1,2))
qed

lemma stmt_block:
  assumes "a \<in> name_toks u bn" "body_toks u b bs"
  shows "stmt_toks u (a @ (lc, LCURLY, s) # b @ [(rc, RCURLY, s')])
    (Block (BlockStmt (Fragments bn) (Start bn) (bn_Label bn) (bn_LabelPos bn) bs lc rc))"
  using assms by (auto simp: name_toks_def intro: st_block)

text \<open>What turns the operand \<open>e\<close> into the operand \<open>x\<close>: further accesses, indexes and calls.\<close>

definition more :: "Expr \<Rightarrow> Expr \<Rightarrow> language" where
  "more e x = {ts. \<forall>ts0. expr_toks 8 ts0 e \<longrightarrow> expr_toks 8 (ts0 @ ts) x}"

lemma moreD: "b \<in> more e x \<Longrightarrow> expr_toks 8 a e \<Longrightarrow> expr_toks 8 (a @ b) x"
  by (simp add: more_def)

lemma more_refl: "[] \<in> more e e"
  by (simp add: more_def)

lemma more_access:
  assumes "b \<in> more (AccessExpr e (Ident name np) False) x"
  shows "(dp, DOT, s) # (np, IDENT, name) # b \<in> more e x"
  using moreD [OF assms et_access] by (simp add: more_def)

lemma more_index:
  assumes "b \<in> more (IndexExpr e i lb rb False) x" "expr_toks 1 c i"
  shows "(lb, LBRACK, s) # c @ (rb, RBRACK, s') # b \<in> more e x"
  using moreD [OF assms(1) et_index [OF _ assms(2)]] by (simp add: more_def)

lemma more_call:
  assumes "b \<in> more (CallExpr e as lp rp False) x" "exprs_toks c as"
  shows "(lp, LPAREN, s) # c @ (rp, RPAREN, s') # b \<in> more e x"
  using moreD [OF assms(1) et_call [OF _ assms(2)]] by (simp add: more_def)

lemma more_call_none:
  "b \<in> more (CallExpr e [] lp rp False) x \<Longrightarrow> (lp, LPAREN, s) # (rp, RPAREN, s') # b \<in> more e x"
  using more_call [OF _ es_none] by fastforce

lemmas more_rules = more_refl more_access more_index more_call more_call_none

lemma t_tail_diag:
  assumes "delivers u I f E' L" "I (add_diag a b m p)" "\<And>x p'. onward p p' \<Longrightarrow> E' x p' \<Longrightarrow> E x p'"
  shows "tracks u p0 X p (f (add_diag a b m p)) E Y"
  unfolding tracks_def
proof (intro impI)
  assume "onward p0 p"
  then have q: "onward p (add_diag a b m p)" using add_diag_onward onward_ok by blast
  with assms(1,2) onward_ok obtain x r where r: "f (add_diag a b m p) = Some (x, r)" "onward (add_diag a b m p) r" "E' x r"
    unfolding delivers_def runs_def by blast
  have "diags r \<noteq> []" using onward_no_diags [OF r(2)] add_diag_simps(7) by blast
  then show "runs p (f (add_diag a b m p)) (\<lambda>x p'. E x p' \<and> clean u p0 p' (Y x))"
    using r assms(3) onward_trans [OF q r(2)] clean_error by (auto simp: runs_def)
qed

lemma precedence_bounds: "0 \<le> BinaryPrecedence t" "BinaryPrecedence t \<le> 6" "BinaryPrecedence t = 6 \<longleftrightarrow> t = POW"
  by (cases t; simp add: BinaryPrecedence_def LowestPrecedence_def)+

locale parse_sound =
  fixes u :: unicode and P :: parsers and n :: nat
  assumes body: "delivers u (fuel 2 n) (p_body P until) (\<lambda>b p'. tok p' = until \<or> tok p' = EOF) (\<lambda>b. {ts. body_toks u ts b})"
    and statement: "delivers u (fuel 1 n) (p_statement P) anything (\<lambda>s. case s of None \<Rightarrow> {} | Some s \<Rightarrow> {ts. stmt_toks u ts s})"
    and binop: "1 \<le> k \<Longrightarrow> k \<le> 6 \<Longrightarrow>
      delivers u (fuel 4 n) (p_binop P k) (\<lambda>e p'. BinaryPrecedence (tok p') < k) (\<lambda>e. {ts. expr_toks k ts e})"
    and binops: "1 \<le> k \<Longrightarrow> k \<le> j \<Longrightarrow> j \<le> 6 \<Longrightarrow>
      delivers u (\<lambda>p. fuel 1 n p \<and> BinaryPrecedence (tok p) \<le> j \<and> tok p \<noteq> POW) (p_binops P k e)
        (\<lambda>x p'. BinaryPrecedence (tok p') < k) (\<lambda>x. {ts. \<forall>ts0. expr_toks j ts0 e \<longrightarrow> expr_toks k (ts0 @ ts) x})"
    and pow: "delivers u (fuel 3 n) (p_pow P) (\<lambda>e p'. tok p' \<noteq> POW) (\<lambda>e. {ts. expr_toks 6 ts e})"
    and unary: "delivers u (fuel 2 n) (p_unary P) anything (\<lambda>e. {ts. expr_toks 7 ts e})"
    and opers: "delivers u (fuel 1 n) (p_opers P e) anything (more e)"
    and primary: "delivers u (fuel 1 n) (p_primary P) anything (\<lambda>e. {ts. expr_toks 9 ts e})"
    and exprs: "delivers u (fuel 5 n) (p_exprs P until) anything (\<lambda>es. {ts. exprs_toks ts es})"
    and fields: "delivers u (fuel 6 n) (p_fields P until) anything (\<lambda>fs. {ts. fields_toks ts fs})"
    and field: "delivers u (fuel 5 n) (p_field P) anything (\<lambda>f. {ts. field_toks ts f})"
begin

lemma expression: "delivers u (fuel 4 n) (ParseExpression P) anything (\<lambda>e. {ts. expr_toks 1 ts e})"
  using binop [of 1] by (auto simp: delivers_def ParseExpression_def runs_def)

lemma pow_step: "delivers u (fuel 3 (Suc n)) (parsePowExpr u P) (\<lambda>e p'. tok p' \<noteq> POW) (\<lambda>e. {ts. expr_toks 6 ts e})"
  unfolding parsePowExpr_def
  by (rule deliversI, intro t_rules t_call [OF unary] t_call [OF pow])
    (auto simp: stepped_def onward_def current_eq et_pow lower_steps)

lemma unary_step: "delivers u (fuel 2 (Suc n)) (parseUnaryExpr u P) anything (\<lambda>e. {ts. expr_toks 7 ts e})"
  unfolding parseUnaryExpr_def
  by (rule deliversI, intro t_rules t_call [OF unary] t_call [OF primary] t_tail [OF opers])
    (auto simp: stepped_def onward_def current_eq isUnaryOp_def et_unary lower_steps moreD)

lemma field_step: "delivers u (fuel 5 (Suc n)) (parseField u P) anything (\<lambda>f. {ts. field_toks ts f})"
  unfolding parseField_def
  by (rule deliversI, intro t_rules t_field_name t_call [OF expression])
    (auto simp: stepped_def onward_def current_eq field_toks_def split: if_splits)

lemma exprs_step: "delivers u (fuel 5 (Suc n)) (parseExpressionList u P until) anything (\<lambda>es. {ts. exprs_toks ts es})"
  unfolding parseExpressionList_def
  by (rule deliversI, intro t_rules t_call [OF expression] t_call [OF exprs])
    (auto simp: stepped_def onward_def current_eq es_none es_last es_more split: if_splits)

lemma fields_step: "delivers u (fuel 6 (Suc n)) (parseFieldList u P until) anything (\<lambda>fs. {ts. fields_toks ts fs})"
  unfolding parseFieldList_def
  by (rule deliversI, intro t_rules t_call [OF field] t_call [OF fields])
    (auto simp: stepped_def onward_def current_eq fs_none fields_one fields_cons split: if_splits)

lemma binop_step:
  assumes "1 \<le> k" "k \<le> 6"
  shows "delivers u (fuel 4 (Suc n)) (parseBinOp u P k) (\<lambda>e p'. BinaryPrecedence (tok p') < k) (\<lambda>e. {ts. expr_toks k ts e})"
  unfolding parseBinOp_def
  by (rule deliversI, intro t_rules t_call [OF pow] t_tail [OF binops [OF assms(1,2) order_refl]])
    (auto simp: stepped_def onward_def precedence_bounds)

lemma binops_step:
  assumes "1 \<le> k" "k \<le> j" "j \<le> 6"
  shows "delivers u (\<lambda>p. fuel 1 (Suc n) p \<and> BinaryPrecedence (tok p) \<le> j \<and> tok p \<noteq> POW) (binop_loop u P k e)
    (\<lambda>x p'. BinaryPrecedence (tok p') < k) (\<lambda>x. {ts. \<forall>ts0. expr_toks j ts0 e \<longrightarrow> expr_toks k (ts0 @ ts) x})"
proof (rule deliversI)
  fix p assume ok: "parser_ok p" and p: "fuel 1 (Suc n) p \<and> BinaryPrecedence (tok p) \<le> j \<and> tok p \<noteq> POW"
  let ?c = "BinaryPrecedence (tok p)"
  have c: "1 \<le> ?c" "?c \<le> j" "?c + 1 \<le> 6" "tok p \<noteq> EOF" if "\<not> ?c < k"
  proof -
    show "1 \<le> ?c" "?c \<le> j" "tok p \<noteq> EOF" using that assms(1) p by auto
    show "?c + 1 \<le> 6" using precedence_bounds [of "tok p"] p by auto
  qed
  have step: "expr_toks k (ts0 @ (pos p, tok p, lit p) # a @ b) x"
    if "\<not> ?c < k" "expr_toks j ts0 e" "expr_toks (?c + 1) a rhs"
      "\<forall>ts0. expr_toks ?c ts0 (BinaryExpr (tok p) (pos p) e rhs False) \<longrightarrow> expr_toks k (ts0 @ b) x" for ts0 a b rhs x
    using that(4) [rule_format, OF et_binary [OF expr_toks_lower [OF that(2) c(1,2) [OF that(1)]] that(3) refl c(1) [OF that(1)], of "pos p" "lit p"]]
      c(3) [OF that(1)] assms(3) by simp
  show "tracks u p {[]} p (binop_loop u P k e p) (\<lambda>x p'. BinaryPrecedence (tok p') < k)
      (\<lambda>x. {ts. \<forall>ts0. expr_toks j ts0 e \<longrightarrow> expr_toks k (ts0 @ ts) x})"
  proof (cases "?c < k")
    case True
    then show ?thesis unfolding binop_loop_def using expr_toks_lower [of j _ e k] assms by (auto intro!: t_Some)
  next
    case False
    note c = c [OF False]
    have kc: "k \<le> ?c" "?c \<le> 6" using False c(3) by auto
    show ?thesis
      unfolding binop_loop_def if_not_P [OF False]
    proof (intro t_next t_call [OF binop] t_tail [OF binops [OF assms(1) kc]])
      show "1 \<le> ?c + 1" "?c + 1 \<le> 6" using c by auto
    next
      fix p' assume "stepped p p'"
      then show "fuel 4 n p'" using p c(4) by (auto simp: stepped_def)
    next
      fix p' rhs q assume "stepped p p'" "onward p' q" "BinaryPrecedence (tok q) < ?c + 1"
      then show "fuel 1 n q \<and> BinaryPrecedence (tok q) \<le> ?c \<and> tok q \<noteq> POW"
        using p c(3,4) precedence_bounds [of "tok q"] by (auto simp: stepped_def onward_def)
    next
      fix rhs x q assume "BinaryPrecedence (tok q) < k"
      then show "BinaryPrecedence (tok q) < k \<and>
          cat (cat (cat {[]} {[current p]}) {ts. expr_toks (?c + 1) ts rhs})
            {ts. \<forall>ts0. expr_toks ?c ts0 (BinaryExpr (tok p) (pos p) e rhs False) \<longrightarrow> expr_toks k (ts0 @ ts) x}
          \<subseteq> {ts. \<forall>ts0. expr_toks j ts0 e \<longrightarrow> expr_toks k (ts0 @ ts) x}"
        using step [OF False] by (auto simp: current_eq)
    qed
  qed
qed

lemma opers_step: "delivers u (fuel 1 (Suc n)) (oper_loop u P e) anything (more e)"
  unfolding oper_loop_def
  by (rule deliversI, intro t_rules t_call [OF expression] t_call [OF exprs] t_call [OF body] t_tail [OF opers] t_tail_diag [OF opers])
    (auto simp: stepped_def onward_def current_eq more_rules split: if_splits)

lemma primary_step: "delivers u (fuel 1 (Suc n)) (parsePrimaryExpr u P) anything (\<lambda>e. {ts. expr_toks 9 ts e})"
  unfolding parsePrimaryExpr_def
  by (rule deliversI, intro t_rules t_call [OF expression] t_call [OF exprs] t_call [OF fields])
    (auto simp: stepped_def onward_def current_eq et_ident et_literal et_paren et_array et_object es_none fs_none array_empty split: if_splits)

lemma statement_step: "delivers u (fuel 1 (Suc n)) (parseStatement u P) anything
    (\<lambda>s. case s of None \<Rightarrow> {} | Some s \<Rightarrow> {ts. stmt_toks u ts s})"
  unfolding parseStatement_def
  by (rule deliversI, intro t_rules t_name t_attribute [OF expression] t_call [OF body])
    (auto simp: stepped_def onward_def current_eq stmt_attribute stmt_block split: if_splits)

lemma body_step: "delivers u (fuel 2 (Suc n)) (parseBody u P until) (\<lambda>b p'. tok p' = until \<or> tok p' = EOF) (\<lambda>b. {ts. body_toks u ts b})"
  unfolding parseBody_def Let_def
  by (rule deliversI, intro t_rules t_call [OF statement] t_call [OF body])
    (auto simp: stepped_def onward_def current_eq bd_none bd_last bd_more split: if_splits option.splits)

end

lemmas sound_steps = parse_sound.body_step parse_sound.statement_step parse_sound.binop_step parse_sound.binops_step
  parse_sound.pow_step parse_sound.unary_step parse_sound.opers_step parse_sound.primary_step parse_sound.exprs_step
  parse_sound.fields_step parse_sound.field_step

lemma parsers_at_sound: "parse_sound u (parsers_at u n) n"
proof (induction n)
  case 0
  show ?case by unfold_locales (simp_all add: delivers_def)
next
  case (Suc n)
  show ?case by unfold_locales (simp_all only: parsers_at.simps Let_def parsers.simps sound_steps [OF Suc])
qed

interpretation sound: parse_sound u "parsers_at u n" n for u n
  by (rule parsers_at_sound)

text \<open>The tokens that a parser reads from a file without errors, up to the end of the file.\<close>

definition file_read :: "unicode \<Rightarrow> string \<Rightarrow> string \<Rightarrow> token_triple list \<Rightarrow> bool" where
  "file_read u name data ts \<longleftrightarrow>
     (\<exists>p p'. newParser u name data = Some p \<and> reads u p ts p' \<and> tok p' = EOF \<and> diags p' = [])"

lemma ParseFile_sound:
  assumes "ParseFile u name data = Some (Inr f)"
  shows "\<exists>ts. file_read u name data ts \<and> body_toks u ts (File_Body f)"
proof -
  obtain p where p: "newParser u name data = Some p" "parser_ok p" by (rule newParser_returns)
  have "runs p (p_body (parsers_at u (parse_fuel p)) EOF p)
      (\<lambda>b p'. (tok p' = EOF \<or> tok p' = EOF) \<and> clean u p p' {ts. body_toks u ts b})"
    using sound.body [where u = u and n = "parse_fuel p" and until = EOF] p(2) by (simp add: delivers_def parse_fuel_def)
  then obtain b p' where b: "p_body (parsers_at u (parse_fuel p)) EOF p = Some (b, p')" "tok p' = EOF"
    "clean u p p' {ts. body_toks u ts b}"
    by (auto simp: runs_def)
  with assms p(1) have "diags p' = []" "File_Body f = b" by (auto simp: ParseFile_def parse_file_def split: if_splits)
  with b p(1) show ?thesis by (auto simp: clean_def file_read_def)
qed

end
