(* ===== verification/Parser_Complete.thy ===== *)
theory Parser_Complete
  imports Parser_Grammar
begin

text \<open>
  The parser accepts every file of the grammar: when the tokens of a file derive a body, parsing returns
  this body. With the soundness of \<open>Parser_Grammar\<close> the parser accepts exactly the grammar.

  A parse function eventually gives a result when it gives it for all large enough fuel. The fuel of the
  entry points is large enough, because more fuel does not change a result.
\<close>

section \<open>Results with enough fuel\<close>

definition ev :: "unicode \<Rightarrow> (parsers \<Rightarrow> 'a option) \<Rightarrow> 'a \<Rightarrow> bool" where
  "ev u f r \<longleftrightarrow> (\<exists>N. \<forall>n\<ge>N. f (parsers_at u n) = Some r)"

lemma ev_const: "f = (\<lambda>_. Some r) \<Longrightarrow> ev u f r"
  by (simp add: ev_def)

lemma ev_unique: "ev u f r \<Longrightarrow> ev u f r' \<Longrightarrow> r = r'"
  unfolding ev_def by (metis nat_le_linear option.inject)

lemma ev_bind:
  assumes "ev u f x" "ev u (\<lambda>P. g P x) r"
  shows "ev u (\<lambda>P. f P \<bind> g P) r"
proof -
  obtain N M where "\<forall>n\<ge>N. f (parsers_at u n) = Some x" "\<forall>n\<ge>M. g (parsers_at u n) x = Some r"
    using assms by (auto simp: ev_def)
  then show ?thesis unfolding ev_def by (intro exI [of _ "max N M"]) simp
qed

lemma ev_through:
  assumes "ev u f x"
  shows "ev u (\<lambda>P. f P \<bind> g P) r \<longleftrightarrow> ev u (\<lambda>P. g P x) r"
proof
  obtain N where N: "\<forall>n\<ge>N. f (parsers_at u n) = Some x" using assms by (auto simp: ev_def)
  assume "ev u (\<lambda>P. f P \<bind> g P) r"
  then obtain M where M: "\<forall>n\<ge>M. f (parsers_at u n) \<bind> g (parsers_at u n) = Some r" by (auto simp: ev_def)
  have "g (parsers_at u n) x = Some r" if "max N M \<le> n" for n using N M that by (metis bind.bind_lunit max.boundedE)
  then show "ev u (\<lambda>P. g P x) r" unfolding ev_def by blast
qed (rule ev_bind [OF assms])

lemma ev_Suc:
  assumes "\<And>n. f (parsers_at u (Suc n)) = g (parsers_at u n)" "ev u g r"
  shows "ev u f r"
proof -
  obtain N where N: "\<forall>n\<ge>N. g (parsers_at u n) = Some r" using assms(2) by (auto simp: ev_def)
  have "f (parsers_at u n) = Some r" if "Suc N \<le> n" for n
  proof -
    from that obtain m where "n = Suc m" "N \<le> m" by (cases n) auto
    with N assms(1) show ?thesis by simp
  qed
  then show ?thesis by (auto simp: ev_def)
qed

lemma ev_calls:
  "ev u (\<lambda>P. parseBody u P until p) rb \<Longrightarrow> ev u (\<lambda>P. p_body P until p) rb"
  "ev u (\<lambda>P. parseStatement u P p) rs \<Longrightarrow> ev u (\<lambda>P. p_statement P p) rs"
  "ev u (\<lambda>P. parseBinOp u P k p) r \<Longrightarrow> ev u (\<lambda>P. p_binop P k p) r"
  "ev u (\<lambda>P. binop_loop u P k e p) r \<Longrightarrow> ev u (\<lambda>P. p_binops P k e p) r"
  "ev u (\<lambda>P. parsePowExpr u P p) r \<Longrightarrow> ev u (\<lambda>P. p_pow P p) r"
  "ev u (\<lambda>P. parseUnaryExpr u P p) r \<Longrightarrow> ev u (\<lambda>P. p_unary P p) r"
  "ev u (\<lambda>P. oper_loop u P e p) r \<Longrightarrow> ev u (\<lambda>P. p_opers P e p) r"
  "ev u (\<lambda>P. parsePrimaryExpr u P p) r \<Longrightarrow> ev u (\<lambda>P. p_primary P p) r"
  "ev u (\<lambda>P. parseExpressionList u P until p) re \<Longrightarrow> ev u (\<lambda>P. p_exprs P until p) re"
  "ev u (\<lambda>P. parseFieldList u P until p) rf \<Longrightarrow> ev u (\<lambda>P. p_fields P until p) rf"
  "ev u (\<lambda>P. parseField u P p) rg \<Longrightarrow> ev u (\<lambda>P. p_field P p) rg"
  by (erule ev_Suc [rotated], simp add: Let_def)+

section \<open>More fuel does not change a result\<close>

definition below :: "'a option \<Rightarrow> 'a option \<Rightarrow> bool" where
  "below a b \<longleftrightarrow> a = None \<or> a = b"

lemma below_refl: "below a a"
  by (simp add: below_def)

lemma below_bind: "below a b \<Longrightarrow> (\<And>x. below (f x) (g x)) \<Longrightarrow> below (a \<bind> f) (b \<bind> g)"
  by (cases "a = None") (auto simp: below_def split: bind_splits)

lemma below_if: "(c \<Longrightarrow> below a b) \<Longrightarrow> (\<not> c \<Longrightarrow> below a' b') \<Longrightarrow> below (if c then a else a') (if c then b else b')"
  by simp

lemma below_pair: "(\<And>x y. below (f x y) (g x y)) \<Longrightarrow> below (case z of (x, y) \<Rightarrow> f x y) (case z of (x, y) \<Rightarrow> g x y)"
  by (cases z) simp

lemma below_pair_at:
  "(\<And>x y. below (f x y w) (g x y w)) \<Longrightarrow> below ((case z of (x, y) \<Rightarrow> f x y) w) ((case z of (x, y) \<Rightarrow> g x y) w)"
  by (cases z) simp

lemma below_option: "below a b \<Longrightarrow> (\<And>x. below (f x) (g x)) \<Longrightarrow>
    below (case z of None \<Rightarrow> a | Some x \<Rightarrow> f x) (case z of None \<Rightarrow> b | Some x \<Rightarrow> g x)"
  by (cases z) simp_all

definition fuller :: "parsers \<Rightarrow> parsers \<Rightarrow> bool" where
  "fuller P Q \<longleftrightarrow> (\<forall>t p. below (p_body P t p) (p_body Q t p)) \<and> (\<forall>p. below (p_statement P p) (p_statement Q p)) \<and>
     (\<forall>k p. below (p_binop P k p) (p_binop Q k p)) \<and> (\<forall>k e p. below (p_binops P k e p) (p_binops Q k e p)) \<and>
     (\<forall>p. below (p_pow P p) (p_pow Q p)) \<and> (\<forall>p. below (p_unary P p) (p_unary Q p)) \<and>
     (\<forall>e p. below (p_opers P e p) (p_opers Q e p)) \<and> (\<forall>p. below (p_primary P p) (p_primary Q p)) \<and>
     (\<forall>t p. below (p_exprs P t p) (p_exprs Q t p)) \<and> (\<forall>t p. below (p_fields P t p) (p_fields Q t p)) \<and>
     (\<forall>p. below (p_field P p) (p_field Q p))"

lemma fuller_calls:
  assumes "fuller P Q"
  shows "below (p_body P t p) (p_body Q t p)" "below (p_statement P p) (p_statement Q p)" "below (p_binop P k p) (p_binop Q k p)"
    "below (p_binops P k e p) (p_binops Q k e p)" "below (p_pow P p) (p_pow Q p)" "below (p_unary P p) (p_unary Q p)"
    "below (p_opers P e p) (p_opers Q e p)" "below (p_primary P p) (p_primary Q p)" "below (p_exprs P t p) (p_exprs Q t p)"
    "below (p_fields P t p) (p_fields Q t p)" "below (p_field P p) (p_field Q p)"
    "below (ParseExpression P p) (ParseExpression Q p)"
  using assms by (simp_all add: fuller_def ParseExpression_def)

lemmas below_rules = below_if below_pair below_pair_at below_option below_bind below_refl

lemma fuller_steps:
  assumes "fuller P Q"
  shows "below (parseBody u P t p) (parseBody u Q t p)" "below (parseStatement u P p) (parseStatement u Q p)"
    "below (parseBinOp u P k p) (parseBinOp u Q k p)" "below (binop_loop u P k e p) (binop_loop u Q k e p)"
    "below (parsePowExpr u P p) (parsePowExpr u Q p)" "below (parseUnaryExpr u P p) (parseUnaryExpr u Q p)"
    "below (oper_loop u P e p) (oper_loop u Q e p)" "below (parsePrimaryExpr u P p) (parsePrimaryExpr u Q p)"
    "below (parseExpressionList u P t p) (parseExpressionList u Q t p)"
    "below (parseFieldList u P t p) (parseFieldList u Q t p)" "below (parseField u P p) (parseField u Q p)"
  unfolding parseBody_def parseStatement_def parseBinOp_def binop_loop_def parsePowExpr_def parseUnaryExpr_def oper_loop_def
    parsePrimaryExpr_def parseExpressionList_def parseFieldList_def parseField_def Let_def
  by (intro fuller_calls [OF assms] below_rules)+

lemma parsers_at_fuller: "fuller (parsers_at u n) (parsers_at u (Suc n))"
proof (induction n)
  case 0
  show ?case by (simp add: fuller_def below_def)
next
  case (Suc n)
  show ?case
    unfolding fuller_def parsers_at.simps(2) [of u "Suc n"]
    using fuller_steps [OF Suc] by (simp add: Let_def)
qed

lemma body_fuel:
  assumes "p_body (parsers_at u n) t p = Some r" "n \<le> m"
  shows "p_body (parsers_at u m) t p = Some r"
  using assms(2)
proof (induction rule: dec_induct)
  case (step k)
  then show ?case using fuller_calls(1) [OF parsers_at_fuller [of u k], of t p] by (simp only: below_def) simp
qed (rule assms(1))

section \<open>Expressions\<close>

definition postfix :: "Token \<Rightarrow> bool" where
  "postfix t \<longleftrightarrow> t \<in> {DOT, LBRACK, LPAREN, STRING, LCURLY}"

text \<open>The tokens that end an expression.\<close>

definition closing :: "Token \<Rightarrow> bool" where
  "closing t \<longleftrightarrow> t \<in> {TERMINATOR, RPAREN, RCURLY, RBRACK, COMMA, EOF}"

text \<open>The tokens that start an expression of level \<open>k\<close>.\<close>

definition starts :: "int \<Rightarrow> Token \<Rightarrow> bool" where
  "starts k t \<longleftrightarrow> t \<in> {IDENT, STRING, NUMBER, FLOAT, BOOL, NULL, LPAREN, LBRACK, LCURLY} \<or> k \<le> 7 \<and> isUnaryOp t"

lemma expr_first:
  "expr_toks k ts e \<Longrightarrow> \<exists>ps t l r. ts = (ps, t, l) # r \<and> starts k t"
  "exprs_toks ts es \<Longrightarrow> True" "fields_toks ts fs \<Longrightarrow> True"
  by (induction rule: expr_toks_exprs_toks_fields_toks.inducts) (auto simp: starts_def)

lemma starts_not_closing: "starts k t \<Longrightarrow> \<not> closing t"
  by (auto simp: starts_def closing_def isUnaryOp_def)

text \<open>
  What it means that an expression of level \<open>k\<close> with tree \<open>e\<close> is read between \<open>p\<close> and \<open>p'\<close>: the functions for
  the left-recursive levels go on from \<open>p'\<close> with \<open>e\<close> read, the others return \<open>e\<close>.
\<close>

definition parses_bin :: "unicode \<Rightarrow> int \<Rightarrow> parser \<Rightarrow> Expr \<Rightarrow> parser \<Rightarrow> bool" where
  "parses_bin u k p e p' \<longleftrightarrow> (\<forall>j r. 1 \<le> j \<longrightarrow> j \<le> k \<longrightarrow> \<not> postfix (tok p') \<longrightarrow> tok p' \<noteq> POW \<longrightarrow> BinaryPrecedence (tok p') \<le> k \<longrightarrow>
     ev u (\<lambda>P. p_binops P j e p') r \<longrightarrow> ev u (\<lambda>P. p_binop P j p) r)"

definition parses :: "unicode \<Rightarrow> int \<Rightarrow> parser \<Rightarrow> Expr \<Rightarrow> parser \<Rightarrow> bool" where
  "parses u k p e p' \<longleftrightarrow>
     (if k = 9 then ev u (\<lambda>P. p_primary P p) (e, p')
      else if k = 8 then \<forall>r. ev u (\<lambda>P. p_opers P e p') r \<longrightarrow> ev u (\<lambda>P. p_unary P p) r
      else if k = 7 then \<not> postfix (tok p') \<longrightarrow> ev u (\<lambda>P. p_unary P p) (e, p')
      else if k = 6 then \<not> postfix (tok p') \<and> tok p' \<noteq> POW \<longrightarrow> ev u (\<lambda>P. p_pow P p) (e, p')
      else parses_bin u k p e p')"

lemma reads_one: "reads u p ((a, t, l) # ts) r \<longleftrightarrow>
    pos p = a \<and> tok p = t \<and> lit p = l \<and> (\<exists>q. parser_next u p = Some q \<and> reads u q ts r)"
  by (auto simp: current_def)

lemma expect_ok: "tok p = t \<Longrightarrow> parser_next u p = Some q \<Longrightarrow> expect u t p = Some ((pos p, t, lit p), q)"
  by (simp add: expect_def)

lemma ev_Some: "ev u (\<lambda>_. Some r) r"
  by (simp add: ev_const)

lemma parses_bin_low:
  assumes "parses u k p e p'" "k \<le> 6"
  shows "parses_bin u k p e p'"
proof (cases "k = 6")
  case True
  show ?thesis
    unfolding parses_bin_def
  proof (intro allI impI)
    fix j r assume "\<not> postfix (tok p')" "tok p' \<noteq> POW" "ev u (\<lambda>P. p_binops P j e p') r"
    then show "ev u (\<lambda>P. p_binop P j p) r"
      using assms True by (intro ev_calls) (auto simp: parseBinOp_def parses_def intro: ev_bind)
  qed
qed (use assms in \<open>simp add: parses_def\<close>)

lemma opers_end: "\<not> postfix (tok p) \<Longrightarrow> ev u (\<lambda>P. p_opers P e p) (e, p)"
  by (intro ev_calls ev_const) (auto simp: oper_loop_def postfix_def)

lemma binops_end: "BinaryPrecedence (tok p) < k \<Longrightarrow> ev u (\<lambda>P. p_binops P k e p) (e, p)"
  by (intro ev_calls ev_const) (auto simp: binop_loop_def)

lemma parses_up:
  assumes "parses u (k + 1) p e p'" "1 \<le> k" "k \<le> 8" "k = 8 \<Longrightarrow> \<not> isUnaryOp (tok p)"
  shows "parses u k p e p'"
proof -
  consider "k = 8" | "k = 7" | "k = 6" | "k \<le> 5" using assms(3) by fastforce
  then show ?thesis
  proof cases
    case 1
    then have "ev u (\<lambda>P. p_unary P p) r" if "ev u (\<lambda>P. p_opers P e p') r" for r
      using assms that by (intro ev_calls) (auto simp: parseUnaryExpr_def parses_def intro: ev_bind)
    with 1 show ?thesis by (simp add: parses_def)
  next
    case 2
    then show ?thesis using assms(1) opers_end by (simp add: parses_def)
  next
    case 3
    then have "ev u (\<lambda>P. p_pow P p) (e, p')" if "\<not> postfix (tok p')" "tok p' \<noteq> POW"
      using assms(1) that by (intro ev_calls) (auto simp: parsePowExpr_def parses_def ev_Some intro!: ev_bind)
    with 3 show ?thesis by (simp add: parses_def)
  next
    case 4
    then have "parses_bin u (k + 1) p e p'" using assms(1) by (intro parses_bin_low) simp_all
    with 4 show ?thesis by (auto simp: parses_def parses_bin_def)
  qed
qed

lemma parses_binary:
  assumes "parses u k p l p1" "tok p1 = t" "parser_next u p1 = Some p2" "parses u (k + 1) p2 r p'"
    "BinaryPrecedence t = k" "1 \<le> k" "k \<le> 5" "\<not> postfix t"
  shows "parses u k p (BinaryExpr t (pos p1) l r False) p'"
proof -
  have bins: "parses_bin u k p l p1" "parses_bin u (k + 1) p2 r p'" using assms parses_bin_low by auto
  have "ev u (\<lambda>P. p_binop P j p) x"
    if j: "1 \<le> j" "j \<le> k" and p': "\<not> postfix (tok p')" "tok p' \<noteq> POW" "BinaryPrecedence (tok p') \<le> k"
      and x: "ev u (\<lambda>P. p_binops P j (BinaryExpr t (pos p1) l r False) p') x" for j x
  proof -
    have "ev u (\<lambda>P. p_binop P (k + 1) p2) (r, p')"
      using bins(2) p' assms(6) binops_end [of p' "k + 1"] by (auto simp: parses_bin_def)
    then have "ev u (\<lambda>P. binop_loop u P j l p1) x"
      using x j assms(2,3,5) by (auto simp: binop_loop_def intro: ev_bind)
    then have "ev u (\<lambda>P. p_binops P j l p1) x" by (rule ev_calls)
    moreover have "t \<noteq> POW" using precedence_bounds(3) [of t] assms(5,7) by auto
    ultimately show ?thesis using bins(1) j assms(2,5,8) by (cases x) (auto simp: parses_bin_def)
  qed
  then show ?thesis using assms(7) by (auto simp: parses_def parses_bin_def)
qed

lemma parses_pow:
  assumes "parses u 7 p l p1" "tok p1 = POW" "parser_next u p1 = Some p2" "parses u 6 p2 r p'"
  shows "parses u 6 p (BinaryExpr POW (pos p1) l r False) p'"
proof -
  have "ev u (\<lambda>P. p_pow P p) (BinaryExpr POW (pos p1) l r False, p')" if "\<not> postfix (tok p') \<and> tok p' \<noteq> POW"
    using assms that by (intro ev_calls) (auto simp: parsePowExpr_def parses_def postfix_def ev_Some intro!: ev_bind)
  then show ?thesis by (simp add: parses_def)
qed

lemma parses_unary:
  assumes "isUnaryOp (tok p)" "parser_next u p = Some q" "parses u 7 q e p'"
  shows "parses u 7 p (UnaryExpr (tok p) (pos p) e False) p'"
proof -
  have "ev u (\<lambda>P. p_unary P p) (UnaryExpr (tok p) (pos p) e False, p')" if "\<not> postfix (tok p')"
    using assms that by (intro ev_calls) (auto simp: parseUnaryExpr_def parses_def ev_Some intro!: ev_bind)
  then show ?thesis by (simp add: parses_def)
qed

lemma parses_more:
  assumes "parses u 8 p e p1" "\<And>r. ev u (\<lambda>P. p_opers P x p') r \<Longrightarrow> ev u (\<lambda>P. oper_loop u P e p1) r"
  shows "parses u 8 p x p'"
  using assms ev_calls(7) by (auto simp: parses_def)

text \<open>A whole expression, before a token that ends it.\<close>

lemma expression_parsed:
  assumes "parses u 1 p e p'" "closing (tok p')"
  shows "ev u (\<lambda>P. ParseExpression P p) (e, p')"
proof -
  have "\<not> postfix (tok p')" "tok p' \<noteq> POW" "BinaryPrecedence (tok p') < 1"
    using assms(2) by (auto simp: closing_def postfix_def BinaryPrecedence_def LowestPrecedence_def)
  with parses_bin_low [OF assms(1)] binops_end show ?thesis by (auto simp: parses_bin_def ParseExpression_def)
qed

definition parses_list :: "unicode \<Rightarrow> parser \<Rightarrow> Expr list \<Rightarrow> parser \<Rightarrow> bool" where
  "parses_list u p es p' \<longleftrightarrow> (tok p' = RPAREN \<or> tok p' = RBRACK \<longrightarrow> ev u (\<lambda>P. p_exprs P (tok p') p) (es, p'))"

definition parses_fields :: "unicode \<Rightarrow> parser \<Rightarrow> ObjectField list \<Rightarrow> parser \<Rightarrow> bool" where
  "parses_fields u p fs p' \<longleftrightarrow> (tok p' = RCURLY \<longrightarrow> ev u (\<lambda>P. p_fields P RCURLY p) (fs, p'))"

lemma exprs_none: "parses_list u p [] p"
  unfolding parses_list_def by (intro impI ev_calls ev_const) (auto simp: parseExpressionList_def)

lemma exprs_last:
  assumes "parses u 1 p e p'" "\<not> closing (tok p)"
  shows "parses_list u p [e] p'"
  unfolding parses_list_def
proof (intro impI ev_calls)
  assume t: "tok p' = RPAREN \<or> tok p' = RBRACK"
  then have "ev u (\<lambda>P. ParseExpression P p) (e, p')" using assms(1) by (intro expression_parsed) (auto simp: closing_def)
  then show "ev u (\<lambda>P. parseExpressionList u P (tok p') p) ([e], p')"
    using t assms(2) by (auto simp: parseExpressionList_def closing_def ev_Some intro!: ev_bind)
qed

lemma exprs_more:
  assumes "parses u 1 p e p1" "\<not> closing (tok p)" "tok p1 = COMMA" "parser_next u p1 = Some p2" "parses_list u p2 es p'"
  shows "parses_list u p (e # es) p'"
  unfolding parses_list_def
proof (intro impI ev_calls)
  assume t: "tok p' = RPAREN \<or> tok p' = RBRACK"
  have "ev u (\<lambda>P. ParseExpression P p) (e, p1)" using assms(1,3) by (intro expression_parsed) (auto simp: closing_def)
  moreover have "ev u (\<lambda>P. p_exprs P (tok p') p2) (es, p')" using assms(5) t by (simp add: parses_list_def)
  moreover have "tok p \<noteq> tok p'" "tok p \<noteq> EOF" "tok p1 \<noteq> tok p'" using t assms(2,3) by (auto simp: closing_def)
  ultimately show "ev u (\<lambda>P. parseExpressionList u P (tok p') p) (e # es, p')"
    using assms(3,4) by (auto simp: parseExpressionList_def ev_Some intro!: ev_bind)
qed

lemma fields_none: "parses_fields u p [] p"
  unfolding parses_fields_def by (intro impI ev_calls ev_const) (auto simp: parseFieldList_def)

lemma field_parsed:
  assumes "tok p = STRING \<or> tok p = IDENT" "parser_next u p = Some p1" "tok p1 = ASSIGN" "parser_next u p1 = Some p2"
    "parses u 1 p2 e p'" "closing (tok p')" "field_name (pos p) (tok p) (lit p) = (i, q)"
  shows "ev u (\<lambda>P. p_field P p) (ObjectField i q e, p')"
proof -
  have "parse_field_name u p = Some ((i, q), p1)" using assms(1,2,7) by (simp add: parse_field_name_def)
  then show ?thesis
    using assms expression_parsed [OF assms(5,6)]
    by (intro ev_calls) (auto simp: parseField_def expect_def ev_Some intro!: ev_bind)
qed

lemma fields_last:
  assumes "ev u (\<lambda>P. p_field P p) (f, p')" "\<not> closing (tok p)"
  shows "parses_fields u p [f] p'"
  unfolding parses_fields_def
  using assms by (intro impI ev_calls) (auto simp: parseFieldList_def closing_def ev_Some intro!: ev_bind)

lemma fields_more:
  assumes "ev u (\<lambda>P. p_field P p) (f, p1)" "\<not> closing (tok p)" "tok p1 = COMMA" "parser_next u p1 = Some p2" "parses_fields u p2 fs p'"
  shows "parses_fields u p (f # fs) p'"
  unfolding parses_fields_def
  using assms by (intro impI ev_calls) (auto simp: parseFieldList_def parses_fields_def closing_def ev_Some intro!: ev_bind)

lemma reads_starts:
  assumes "expr_toks k ts e" "reads u p ts p'"
  shows "starts k (tok p)"
  using expr_first(1) [OF assms(1)] assms(2) by (auto simp: reads_one simp del: reads.simps)

lemma reads_open: "expr_toks k ts e \<Longrightarrow> reads u p ts p' \<Longrightarrow> \<not> closing (tok p)"
  using reads_starts starts_not_closing by blast

lemma parses_access:
  assumes "parses u 8 p e p1" "tok p1 = DOT" "parser_next u p1 = Some p2" "tok p2 = IDENT" "parser_next u p2 = Some p'"
  shows "parses u 8 p (AccessExpr e (Ident (lit p2) (pos p2)) False) p'"
  using assms by (intro parses_more [OF assms(1)]) (simp add: oper_loop_def expect_ok)

lemma parses_index:
  assumes "parses u 8 p e p1" "tok p1 = LBRACK" "parser_next u p1 = Some p2" "parses u 1 p2 i p3" "tok p3 = RBRACK"
    "parser_next u p3 = Some p'"
  shows "parses u 8 p (IndexExpr e i (pos p1) (pos p3) False) p'"
  using assms expression_parsed [OF assms(4)]
  by (intro parses_more [OF assms(1)]) (auto simp: oper_loop_def expect_ok closing_def intro!: ev_bind ev_Some)

lemma parses_arguments:
  assumes "parses_list u p es p'" "tok p' = t" "t = RPAREN \<or> t = RBRACK"
  shows "ev u (\<lambda>P. if tok p \<noteq> t then p_exprs P t p else Some ([], p)) (es, p')"
proof -
  have es: "ev u (\<lambda>P. p_exprs P t p) (es, p')" using assms by (auto simp: parses_list_def)
  have "(es, p') = ([], p)" if "tok p = t"
  proof -
    have "ev u (\<lambda>P. p_exprs P t p) ([], p)" using that by (intro ev_calls ev_const) (auto simp: parseExpressionList_def)
    then show ?thesis using es by (intro ev_unique)
  qed
  with es show ?thesis by (cases "tok p = t") (auto intro: ev_const)
qed

lemma parses_call:
  assumes "parses u 8 p e p1" "tok p1 = LPAREN" "parser_next u p1 = Some p2" "parses_list u p2 es p3" "tok p3 = RPAREN"
    "parser_next u p3 = Some p'"
  shows "parses u 8 p (CallExpr e es (pos p1) (pos p3) False) p'"
proof (rule parses_more [OF assms(1)])
  fix r assume r: "ev u (\<lambda>P. p_opers P (CallExpr e es (pos p1) (pos p3) False) p') r"
  have "ev u (\<lambda>P. if tok p2 \<noteq> RPAREN then p_exprs P RPAREN p2 else Some ([], p2)) (es, p3)"
    by (rule parses_arguments [OF assms(4,5)]) simp
  with r assms(2,3,5,6) show "ev u (\<lambda>P. oper_loop u P e p1) r" by (simp add: oper_loop_def expect_ok ev_through)
qed

lemma parses_primary: "ev u (\<lambda>P. parsePrimaryExpr u P p) (e, p') \<Longrightarrow> parses u 9 p e p'"
  by (simp add: parses_def ev_calls)

lemma parses_atom:
  assumes "parser_next u p = Some p'"
  shows "tok p = IDENT \<Longrightarrow> parses u 9 p (IdentifierExpr (Ident (lit p) (pos p)) False) p'"
    "tok p \<in> {STRING, NUMBER, FLOAT, BOOL, NULL} \<Longrightarrow> parses u 9 p (LiteralExpr (tok p) (pos p) (lit p) False) p'"
  using assms by (auto simp: parsePrimaryExpr_def intro!: parses_primary ev_const)

lemma parses_paren:
  assumes "tok p = LPAREN" "parser_next u p = Some p1" "parses u 1 p1 e p2" "tok p2 = RPAREN" "parser_next u p2 = Some p'"
  shows "parses u 9 p (ParenExpr e (pos p) (pos p2) False) p'"
proof -
  have "ev u (\<lambda>P. ParseExpression P p1) (e, p2)" using assms(4) by (intro expression_parsed [OF assms(3)]) (simp add: closing_def)
  then show ?thesis using assms by (intro parses_primary) (simp add: parsePrimaryExpr_def expect_ok ev_through ev_Some)
qed

lemma parses_array:
  assumes "tok p = LBRACK" "parser_next u p = Some p1" "parses_list u p1 es p2" "tok p2 = RBRACK" "parser_next u p2 = Some p'"
  shows "parses u 9 p (ArrayExpr es (pos p) (pos p2) False) p'"
proof -
  have "ev u (\<lambda>P. if tok p1 \<noteq> RBRACK then p_exprs P RBRACK p1 else Some ([], p1)) (es, p2)"
    by (rule parses_arguments [OF assms(3,4)]) simp
  then show ?thesis
    using assms(1,2,4,5) by (intro parses_primary) (simp add: parsePrimaryExpr_def expect_ok ev_through ev_Some)
qed

lemma parses_object:
  assumes "tok p = LCURLY" "parser_next u p = Some p1" "parses_fields u p1 fs p2" "tok p2 = RCURLY" "parser_next u p2 = Some p'"
    "tok p1 \<noteq> RBRACK"
  shows "parses u 9 p (ObjectExpr fs (pos p) (pos p2) False) p'"
  using assms by (intro parses_primary) (simp add: parses_fields_def parsePrimaryExpr_def expect_ok ev_through ev_Some)

text \<open>The first token of the fields is the start of one or the closing token.\<close>

lemma fields_first:
  assumes "fields_toks ts fs" "reads u p ts p'" "tok p' = RCURLY"
  shows "tok p \<noteq> RBRACK"
  using assms by (cases rule: fields_toks.cases) (auto simp: reads_one simp del: reads.simps(2))

theorem expr_complete:
  "expr_toks k ts e \<Longrightarrow> reads u p ts p' \<Longrightarrow> parses u k p e p'"
  "exprs_toks ts es \<Longrightarrow> reads u p ts p' \<Longrightarrow> parses_list u p es p'"
  "fields_toks ts fs \<Longrightarrow> reads u p ts p' \<Longrightarrow> parses_fields u p fs p'"
proof (induction arbitrary: p p' and p p' and p p' rule: expr_toks_exprs_toks_fields_toks.inducts)
  case (et_up k ts e)
  show ?case
  proof (rule parses_up [OF et_up.IH [OF et_up.prems] et_up.hyps(2,3)])
    assume "k = 8"
    then show "\<not> isUnaryOp (tok p)" using reads_starts [OF et_up.hyps(1) et_up.prems] by (auto simp: starts_def isUnaryOp_def)
  qed
next
  case (et_binary k a l b r t ps s)
  then have "\<not> postfix t" by (auto simp: postfix_def BinaryPrecedence_def LowestPrecedence_def)
  moreover obtain p1 p2 where "reads u p a p1" "tok p1 = t" "pos p1 = ps" "parser_next u p1 = Some p2" "reads u p2 b p'"
    using et_binary.prems by (auto simp: reads_append reads_one simp del: reads.simps(2))
  ultimately show ?case using parses_binary et_binary by blast
next
  case (et_pow a l b r ps s)
  then obtain p1 p2 where "reads u p a p1" "tok p1 = POW" "pos p1 = ps" "parser_next u p1 = Some p2" "reads u p2 b p'"
    by (auto simp: reads_append reads_one simp del: reads.simps(2))
  then show ?case using parses_pow et_pow.IH by blast
next
  case (et_unary t a e ps s)
  then show ?case using parses_unary by (fastforce simp: reads_one simp del: reads.simps(2))
next
  case (et_access a e dp s np name)
  then show ?case using parses_access by (fastforce simp: reads_append reads_one simp del: reads.simps(2))
next
  case (et_index a e b i lb s rb s')
  then obtain p1 p2 p3 where "reads u p a p1" "tok p1 = LBRACK" "pos p1 = lb" "parser_next u p1 = Some p2" "reads u p2 b p3"
    "tok p3 = RBRACK" "pos p3 = rb" "parser_next u p3 = Some p'"
    by (auto simp: reads_append reads_one simp del: reads.simps(2))
  then show ?case using parses_index et_index.IH by blast
next
  case (et_call a e b as lp s rp s')
  then obtain p1 p2 p3 where "reads u p a p1" "tok p1 = LPAREN" "pos p1 = lp" "parser_next u p1 = Some p2" "reads u p2 b p3"
    "tok p3 = RPAREN" "pos p3 = rp" "parser_next u p3 = Some p'"
    by (auto simp: reads_append reads_one simp del: reads.simps(2))
  then show ?case using parses_call et_call.IH by blast
next
  case (et_ident ps name)
  then show ?case using parses_atom(1) by (auto simp: reads_one simp del: reads.simps(2))
next
  case (et_literal t ps l)
  then show ?case using parses_atom(2) [of u p p'] by (auto simp: reads_one simp del: reads.simps(2))
next
  case (et_paren a e lp s rp s')
  then obtain p1 p2 where "tok p = LPAREN" "pos p = lp" "parser_next u p = Some p1" "reads u p1 a p2"
    "tok p2 = RPAREN" "pos p2 = rp" "parser_next u p2 = Some p'"
    by (auto simp: reads_append reads_one simp del: reads.simps(2))
  then show ?case using parses_paren et_paren.IH by blast
next
  case (et_array a es lb s rb s')
  then obtain p1 p2 where "tok p = LBRACK" "pos p = lb" "parser_next u p = Some p1" "reads u p1 a p2"
    "tok p2 = RBRACK" "pos p2 = rb" "parser_next u p2 = Some p'"
    by (auto simp: reads_append reads_one simp del: reads.simps(2))
  then show ?case using parses_array et_array.IH by blast
next
  case (et_object a fs lc s rc s')
  then obtain p1 p2 where "tok p = LCURLY" "pos p = lc" "parser_next u p = Some p1" "reads u p1 a p2"
    "tok p2 = RCURLY" "pos p2 = rc" "parser_next u p2 = Some p'"
    by (auto simp: reads_append reads_one simp del: reads.simps(2))
  then show ?case using parses_object et_object.IH fields_first [OF et_object.hyps] by blast
next
  case es_none
  then show ?case using exprs_none by simp
next
  case (es_last a e)
  then show ?case using exprs_last reads_open by blast
next
  case (es_more a e b es cp s)
  then obtain p1 p2 where "reads u p a p1" "tok p1 = COMMA" "parser_next u p1 = Some p2" "reads u p2 b p'"
    by (auto simp: reads_append reads_one simp del: reads.simps(2))
  then show ?case using exprs_more es_more.IH reads_open [OF es_more.hyps(1)] by blast
next
  case fs_none
  then show ?case using fields_none by simp
next
  case (fs_last t ps l i q a e ap s)
  then obtain p1 p2 where r: "tok p = t" "pos p = ps" "lit p = l" "parser_next u p = Some p1" "tok p1 = ASSIGN"
    "parser_next u p1 = Some p2" "reads u p2 a p'"
    by (auto simp: reads_one simp del: reads.simps(2))
  have "ev u (\<lambda>P. p_field P p) (ObjectField i q e, p')" if "tok p' = RCURLY"
    using field_parsed [OF _ r(4-6) fs_last.IH [OF r(7)]] fs_last.hyps that r(1-3) by (auto simp: closing_def)
  moreover have "\<not> closing (tok p)" using fs_last.hyps(1) r(1) by (auto simp: closing_def)
  ultimately show ?case using fields_last by (auto simp: parses_fields_def)
next
  case (fs_more t ps l i q a e b fs ap s cp s')
  then obtain p1 p2 p3 p4 where r: "tok p = t" "pos p = ps" "lit p = l" "parser_next u p = Some p1" "tok p1 = ASSIGN"
    "parser_next u p1 = Some p2" "reads u p2 a p3" "tok p3 = COMMA" "parser_next u p3 = Some p4" "reads u p4 b p'"
    by (auto simp: reads_one reads_append simp del: reads.simps(2))
  have "ev u (\<lambda>P. p_field P p) (ObjectField i q e, p3)"
    using field_parsed [OF _ r(4-6) fs_more.IH(1) [OF r(7)]] fs_more.hyps r(1-3,8) by (auto simp: closing_def)
  moreover have "\<not> closing (tok p)" using fs_more.hyps(1) r(1) by (auto simp: closing_def)
  ultimately show ?case using fields_more [OF _ _ r(8,9) fs_more.IH(2) [OF r(10)]] by blast
qed

section \<open>Statements\<close>

lemma reads_ok:
  assumes "reads u p ts p'" "parser_ok p" "\<forall>(_, t, _) \<in> set ts. t \<noteq> EOF"
  shows "parser_ok p' \<and> remaining p' + length ts \<le> remaining p"
  using assms
proof (induction ts arbitrary: p)
  case (Cons x ts)
  then obtain q where q: "parser_next u p = Some q" "reads u q ts p'" "tok p \<noteq> EOF" by (auto simp: current_def)
  have st: "stepped p q" by (rule parser_next_stepped [OF Cons.prems(2) q(1)])
  have "parser_ok p' \<and> remaining p' + length ts \<le> remaining q"
    using Cons.IH [OF q(2) onward_ok [OF stepped_onward [OF st]]] Cons.prems(3) by simp
  with stepped_less [OF st q(3)] show ?case by simp
qed simp

lemma fragments_complete:
  assumes "reads u p fts q" "fragment_toks fts fs" "tok q \<noteq> DOT" "length fts < 2 * n"
  shows "fragments_loop n u p = Some (fs, q)"
  using assms
proof (induction fts fs arbitrary: p n rule: fragment_toks.induct)
  case (1 fs)
  then obtain m where "n = Suc m" by (cases n) auto
  with 1 show ?case by (simp add: fragments_loop.simps(2) [of m])
next
  case (2 dp t ds fp t' f ts fs)
  then obtain gs m p1 p2 where "fs = f # gs" "n = Suc m" "tok p = DOT" "parser_next u p = Some p1" "tok p1 = IDENT" "lit p1 = f"
    "parser_next u p1 = Some p2" "reads u p2 ts q" "fragment_toks ts gs" "length ts < 2 * m"
    by (cases n) (auto simp: reads_one simp del: reads.simps(2))
  then show ?case using "2.IH" "2.prems"(3) by (simp add: Let_def fragments_loop.simps(2) [of m])
qed auto

lemma label_complete:
  assumes "reads u p lts q" "label_toks u lts l lp" "tok q = LCURLY \<or> tok q = ASSIGN \<and> lts = []"
  shows "(if tok p \<noteq> ASSIGN \<and> tok p \<noteq> LCURLY then
      do { ((l, lp), p) \<leftarrow> block_label u p; p \<leftarrow> parser_next u p; Some (f l lp, p) }
    else Some (f [] NoPos, p)) = Some (f l lp, q)"
proof (cases "(u, lts, l, lp)" rule: label_toks.cases)
  case 1
  with assms show ?thesis by auto
next
  case (2 u' ps t s l' lp')
  with assms obtain c r where p: "tok p = STRING" "lit p = c # r" "pos p = ps" "c = CHR 0x22" "parser_next u p = Some q"
    "if length (lit p) > 2 then l = unquote (lit p) \<and> IsValidIdentifier u l else l = []" "lp = ps"
    by (cases s) (auto simp: reads_one simp del: reads.simps(2) split: if_splits)
  then have "block_label u p = Some ((l, lp), p)" by (auto simp: block_label_def Let_def split: if_splits)
  with p(1,5) 2 show ?thesis by simp
qed (use assms in auto)

lemma fragment_toks_DOT:
  assumes "fragment_toks fts fs"
  shows "\<forall>(_, t, _) \<in> set fts. t \<noteq> EOF"
  using assms by (induction fts fs rule: fragment_toks.induct) fastforce+

lemma name_complete:
  assumes "parser_ok p" "reads u p ((ps, IDENT, f) # fts @ lts) q" "fragment_toks fts fs" "label_toks u lts l lp"
    "tok q = LCURLY \<or> tok q = ASSIGN \<and> lts = []"
  shows "parseBlockName u p = Some (Some \<lparr>Fragments = f # fs, bn_Label = l, Start = ps, bn_LabelPos = lp\<rparr>, q)"
proof -
  obtain p1 p2 where p: "tok p = IDENT" "pos p = ps" "lit p = f" "parser_next u p = Some p1" "reads u p1 fts p2" "reads u p2 lts q"
    using assms(2) by (auto simp: reads_one reads_append simp del: reads.simps(2))
  have "parser_ok p1" by (rule onward_ok [OF stepped_onward [OF parser_next_stepped [OF assms(1) p(4)]]])
  then have "length fts < 2 * (remaining p1 + 1)"
    using reads_ok [OF p(5)] fragment_toks_DOT [OF assms(3)] by fastforce
  moreover have "tok p2 \<noteq> DOT"
    using p(6) assms(4,5) by (cases "(u, lts, l, lp)" rule: label_toks.cases) (auto simp: reads_one simp del: reads.simps(2))
  ultimately have "fragments_loop (remaining p1 + 1) u p1 = Some (fs, p2)"
    by (intro fragments_complete [OF p(5) assms(3)])
  then show ?thesis
    using p(1-4) label_complete [OF p(6) assms(4,5), of "\<lambda>l lp. Some \<lparr>Fragments = f # fs, bn_Label = l, Start = ps, bn_LabelPos = lp\<rparr>"]
    by (simp add: parseBlockName_def Let_def del: fragments_loop.simps)
qed

text \<open>
  What follows a statement, and what ends a body; a consistent parser is needed for the fuel of the loops
  that skip tokens.
\<close>

definition parses_stmt :: "unicode \<Rightarrow> parser \<Rightarrow> Stmt \<Rightarrow> parser \<Rightarrow> bool" where
  "parses_stmt u p s p' \<longleftrightarrow> (parser_ok p \<and> closing (tok p') \<longrightarrow> ev u (\<lambda>P. p_statement P p) (Some s, p'))"

definition parses_body :: "unicode \<Rightarrow> parser \<Rightarrow> body \<Rightarrow> parser \<Rightarrow> bool" where
  "parses_body u p b p' \<longleftrightarrow>
     (parser_ok p \<and> (tok p' = RCURLY \<or> tok p' = EOF) \<longrightarrow> ev u (\<lambda>P. p_body P (tok p') p) (b, p'))"

lemma stmt_attribute_complete:
  assumes "reads u p [(ps, IDENT, name)] p1" "tok p1 = ASSIGN" "parser_next u p1 = Some p2" "parses u 1 p2 v p'"
  shows "parses_stmt u p (AttributeStmt (Ident name ps) v) p'"
  unfolding parses_stmt_def
proof (intro impI ev_calls, elim conjE)
  assume "parser_ok p" "closing (tok p')"
  moreover have "parseBlockName u p = Some (Some \<lparr>Fragments = [name], bn_Label = [], Start = ps, bn_LabelPos = NoPos\<rparr>, p1)"
    using name_complete [of p u ps name "[]" "[]" p1 "[]" "[]" NoPos] assms(1,2) \<open>parser_ok p\<close> by simp
  ultimately show "ev u (\<lambda>P. parseStatement u P p) (Some (AttributeStmt (Ident name ps) v), p')"
    using assms(2,3) expression_parsed [OF assms(4)] by (simp add: parseStatement_def attribute_checks_def ev_through ev_Some)
qed

lemma reads_ok_end: "parser_ok p \<Longrightarrow> reads u p ts p' \<Longrightarrow> parser_ok p'"
proof (induction ts arbitrary: p)
  case (Cons t ts)
  then show ?case using onward_ok [OF stepped_onward [OF parser_next_stepped]] by auto
qed simp

lemma stmt_block_complete:
  assumes "reads u p ((ps, IDENT, f) # fts @ lts) p1" "fragment_toks fts fs" "label_toks u lts l lp" "tok p1 = LCURLY"
    "parser_next u p1 = Some p2" "parses_body u p2 b p3" "tok p3 = RCURLY" "parser_next u p3 = Some p'"
  shows "parses_stmt u p (Block (BlockStmt (f # fs) ps l lp b (pos p1) (pos p3))) p'"
  unfolding parses_stmt_def
proof (intro impI ev_calls, elim conjE)
  assume ok: "parser_ok p"
  have "parser_ok p2" using reads_ok_end [OF ok assms(1)] assms(5) parser_next_stepped stepped_onward onward_ok by blast
  then have "ev u (\<lambda>P. p_body P RCURLY p2) (b, p3)" using assms(6,7) by (simp add: parses_body_def)
  moreover have "parseBlockName u p = Some (Some \<lparr>Fragments = f # fs, bn_Label = l, Start = ps, bn_LabelPos = lp\<rparr>, p1)"
    using name_complete [OF ok assms(1-3)] assms(4) by simp
  ultimately show "ev u (\<lambda>P. parseStatement u P p) (Some (Block (BlockStmt (f # fs) ps l lp b (pos p1) (pos p3))), p')"
    using assms(4,5,7,8) by (simp add: parseStatement_def expect_ok ev_through ev_Some)
qed

lemma stmt_first: "stmt_toks u ts s \<Longrightarrow> \<exists>ps l r. ts = (ps, IDENT, l) # r"
  by (auto elim: stmt_toks.cases)

lemma body_none_complete: "parses_body u p [] p"
  unfolding parses_body_def by (intro impI ev_calls ev_const) (auto simp: parseBody_def)

lemma body_last_complete:
  assumes "parses_stmt u p s p'" "tok p = IDENT"
  shows "parses_body u p [s] p'"
  unfolding parses_body_def
proof (intro impI ev_calls, elim conjE)
  assume p: "parser_ok p" "tok p' = RCURLY \<or> tok p' = EOF"
  then have "ev u (\<lambda>P. p_statement P p) (Some s, p')" using assms(1) by (auto simp: parses_stmt_def closing_def)
  moreover have "tok p \<noteq> tok p'" using p(2) assms(2) by auto
  ultimately show "ev u (\<lambda>P. parseBody u P (tok p') p) ([s], p')"
    using assms(2) by (simp add: parseBody_def ev_through ev_Some)
qed

lemma body_more_complete:
  assumes "parses_stmt u p s p1" "tok p = IDENT" "reads u p a p1" "tok p1 = TERMINATOR" "parser_next u p1 = Some p2"
    "parses_body u p2 b p'"
  shows "parses_body u p (s # b) p'"
  unfolding parses_body_def
proof (intro impI ev_calls, elim conjE)
  assume p: "parser_ok p" "tok p' = RCURLY \<or> tok p' = EOF"
  then have "ev u (\<lambda>P. p_statement P p) (Some s, p1)" using assms(1,4) by (auto simp: parses_stmt_def closing_def)
  moreover have "parser_ok p2" using reads_ok_end [OF p(1) assms(3)] assms(5) parser_next_stepped stepped_onward onward_ok by blast
  then have "ev u (\<lambda>P. p_body P (tok p') p2) (b, p')" using assms(6) p(2) by (simp add: parses_body_def)
  moreover have "tok p \<noteq> tok p'" "tok p1 \<noteq> tok p'" using p(2) assms(2,4) by auto
  ultimately show "ev u (\<lambda>P. parseBody u P (tok p') p) (s # b, p')"
    using assms(2,4,5) by (simp add: parseBody_def ev_through ev_Some)
qed

lemma body_complete:
  "stmt_toks u ts s \<Longrightarrow> reads u p ts p' \<Longrightarrow> parses_stmt u p s p'"
  "body_toks u ts b \<Longrightarrow> reads u p ts p' \<Longrightarrow> parses_body u p b p'"
proof (induction arbitrary: p p' and p p' rule: stmt_toks_body_toks.inducts)
  case (st_attribute a v ps name ap s)
  then obtain p1 p2 where "reads u p [(ps, IDENT, name)] p1" "tok p1 = ASSIGN" "parser_next u p1 = Some p2" "reads u p2 a p'"
    by (auto simp: reads_one simp del: reads.simps(2))
  then show ?case using stmt_attribute_complete expr_complete(1) [OF st_attribute.hyps] by blast
next
  case (st_block fts fs lts l lp a b ps f lc s rc s')
  have "reads u p (((ps, IDENT, f) # fts @ lts) @ (lc, LCURLY, s) # a @ [(rc, RCURLY, s')]) p'" using st_block.prems by simp
  then obtain p1 where p1: "reads u p ((ps, IDENT, f) # fts @ lts) p1" "reads u p1 ((lc, LCURLY, s) # a @ [(rc, RCURLY, s')]) p'"
    unfolding reads_append [of _ _ "(ps, IDENT, f) # fts @ lts"] by blast
  from p1(2) obtain p2 p3 where "tok p1 = LCURLY" "pos p1 = lc" "parser_next u p1 = Some p2"
    "reads u p2 a p3" "tok p3 = RCURLY" "pos p3 = rc" "parser_next u p3 = Some p'"
    by (auto simp: reads_one reads_append simp del: reads.simps(2))
  with p1(1) show ?case using stmt_block_complete [OF _ st_block(1,2)] st_block.IH by blast
next
  case bd_none
  then show ?case using body_none_complete by simp
next
  case (bd_last a s)
  then have "tok p = IDENT" using stmt_first [OF bd_last(1)] by (auto simp: reads_one simp del: reads.simps(2))
  with bd_last show ?case using body_last_complete by blast
next
  case (bd_more a s b ss tp l)
  then obtain p1 p2 where r: "reads u p a p1" "tok p1 = TERMINATOR" "parser_next u p1 = Some p2" "reads u p2 b p'"
    by (auto simp: reads_one reads_append simp del: reads.simps(2))
  have "tok p = IDENT" using stmt_first [OF bd_more(1)] r(1) by (auto simp: reads_one simp del: reads.simps(2))
  with r show ?case using body_more_complete bd_more.IH by blast
qed

section \<open>Files\<close>

lemma ParseFile_complete:
  assumes "file_read u name data ts" "body_toks u ts b"
  shows "\<exists>f. ParseFile u name data = Some (Inr f) \<and> File_Body f = b"
proof -
  obtain p p' where p: "newParser u name data = Some p" "reads u p ts p'" "tok p' = EOF" "diags p' = []"
    using assms(1) by (auto simp: file_read_def)
  have ok: "parser_ok p" using newParser_returns p(1) by (metis option.inject)
  then have "ev u (\<lambda>P. p_body P EOF p) (b, p')"
    using body_complete(2) [OF assms(2) p(2)] p(3) by (simp add: parses_body_def)
  then obtain N where N: "\<forall>n\<ge>N. p_body (parsers_at u n) EOF p = Some (b, p')" by (auto simp: ev_def)
  obtain r where r: "p_body (parsers_at u (parse_fuel p)) EOF p = Some r" using parseBody_returns [OF ok] by metis
  have "r = (b, p')" using body_fuel [OF r, of "max N (parse_fuel p)"] N by simp
  with p r show ?thesis by (simp add: ParseFile_def parse_file_def)
qed

end
