(* ===== verification/Parsed_File.thy ===== *)
theory Parsed_File
  imports Parser_Complete Ast_References
begin

text \<open>
  The parser and the scanner together: a file parses if and only if it scans without errors and its tokens,
  less the comments, are a word of the grammar. What follows for a parsed file: its references can be
  collected, and its blocks have names and valid labels.
\<close>

section \<open>The tokens of a file\<close>

text \<open>
  Scanning from \<open>s\<close> to the end of the file without reporting an error gives these tokens.
\<close>

inductive scans :: "unicode \<Rightarrow> Scanner \<Rightarrow> token_triple list \<Rightarrow> bool" for u where
  scans_end: "Scan u s = (k, EOF, l, s') \<Longrightarrow> length (errs s') \<le> length (errs s) \<Longrightarrow> scans u s []"
| scans_more: "Scan u s = (k, t, l, s') \<Longrightarrow> length (errs s') \<le> length (errs s) \<Longrightarrow> t \<noteq> EOF \<Longrightarrow> scans u s' ts \<Longrightarrow>
    scans u s ((offset_pos k, t, l) # ts)"

inductive_simps scans_simps: "scans u s ts"

definition no_comment :: "token_triple \<Rightarrow> bool" where
  "no_comment x \<longleftrightarrow> (case x of (_, t, _) \<Rightarrow> t \<noteq> COMMENT)"

text \<open>The tokens of a file that scans without errors, without its comments.\<close>

definition file_tokens :: "unicode \<Rightarrow> string \<Rightarrow> string \<Rightarrow> token_triple list \<Rightarrow> bool" where
  "file_tokens u name data ts \<longleftrightarrow>
     (let s = New (NewFile name) data True IncludeComments
      in errs s = [] \<and> (\<exists>all. scans u s all \<and> ts = filter no_comment all))"

text \<open>What is still to come, the current token included.\<close>

definition upcoming :: "unicode \<Rightarrow> parser \<Rightarrow> token_triple list \<Rightarrow> bool" where
  "upcoming u p all \<longleftrightarrow> (if tok p = EOF then all = [] else \<exists>r. all = current p # r \<and> scans u (scanner p) r)"

definition yields :: "unicode \<Rightarrow> parser \<Rightarrow> token_triple list \<Rightarrow> bool" where
  "yields u p ts \<longleftrightarrow> diags p = [] \<and> (\<exists>all. upcoming u p all \<and> filter no_comment all = ts)"

lemma yields_next0: "yields u (next0 u p) ts \<longleftrightarrow> diags p = [] \<and> (\<exists>all. scans u (scanner p) all \<and> filter no_comment all = ts)"
proof -
  obtain n t l s where sc: "Scan u (scanner p) = (n, t, l, s)" by (metis prod_cases4)
  have new: "scanner (next0 u p) = s" "current (next0 u p) = (offset_pos n, t, l)" "tok (next0 u p) = t"
    "diags (next0 u p) = [] \<longleftrightarrow> diags p = [] \<and> length (errs s) \<le> length (errs (scanner p))"
    by (simp_all add: next0_def sc Let_def current_def)
  have "scans u (scanner p) all \<longleftrightarrow> length (errs s) \<le> length (errs (scanner p)) \<and> upcoming u (next0 u p) all" for all
    unfolding scans_simps [of u "scanner p"] sc upcoming_def new by auto
  then show ?thesis unfolding yields_def new by blast
qed

lemma yields_comment:
  assumes "tok p = COMMENT"
  shows "yields u (next0 u p) ts \<longleftrightarrow> yields u p ts"
proof -
  have "\<not> no_comment (current p)" using assms by (simp add: no_comment_def current_def)
  then have "yields u p ts \<longleftrightarrow> diags p = [] \<and> (\<exists>all. scans u (scanner p) all \<and> filter no_comment all = ts)"
    using assms by (auto simp: yields_def upcoming_def)
  then show ?thesis unfolding yields_next0 by simp
qed

lemma yields_comments_field [simp]: "yields u (p\<lparr>comments := cs\<rparr>) ts \<longleftrightarrow> yields u p ts"
  by (simp add: yields_def upcoming_def current_def)

lemma comment_group_loop_yields:
  "comment_group_loop n u e p = Some (cs, q) \<Longrightarrow> yields u q ts \<longleftrightarrow> yields u p ts"
proof (induction n arbitrary: e p cs)
  case (Suc n)
  show ?case
  proof (cases "tok p = COMMENT \<and> Line (position p (pos p)) \<le> e + 1")
    case True
    with Suc.prems obtain e' cs' where "comment_group_loop n u e' (next0 u p) = Some (cs', q)"
      by (auto simp: consumeComment_def bind_eq_Some_conv split: list.splits)
    from Suc.IH [OF this] yields_comment show ?thesis using True by simp
  next
    case False
    with Suc.prems show ?thesis by auto
  qed
qed simp

lemma next_loop_yields: "next_loop n u p = Some q \<Longrightarrow> yields u q ts \<longleftrightarrow> yields u p ts"
proof (induction n arbitrary: p)
  case (Suc n)
  then show ?case
    using comment_group_loop_yields
    by (fastforce simp: consumeCommentGroup_def bind_eq_Some_conv split: if_splits)
qed simp

lemma parser_next_yields:
  "parser_next u p = Some q \<Longrightarrow> yields u q ts \<longleftrightarrow> diags p = [] \<and> (\<exists>all. scans u (scanner p) all \<and> filter no_comment all = ts)"
  unfolding parser_next_def Let_def yields_next0 [symmetric] by (rule next_loop_yields)

definition no_EOF :: "token_triple list \<Rightarrow> bool" where
  "no_EOF ts \<longleftrightarrow> (\<forall>(_, t, _) \<in> set ts. t \<noteq> EOF)"

text \<open>The parser reads exactly these tokens.\<close>

lemma yields_reads:
  assumes "parser_ok p" "tok p \<noteq> COMMENT"
  shows "yields u p ts \<longleftrightarrow> (\<exists>p'. reads u p ts p' \<and> tok p' = EOF \<and> diags p' = [] \<and> no_EOF ts)"
  using assms
proof (induction ts arbitrary: p)
  case Nil
  have "filter no_comment (current p # r) \<noteq> []" for r using Nil.prems(2) by (simp add: no_comment_def current_def)
  then show ?case by (auto simp: yields_def upcoming_def no_EOF_def split: if_splits)
next
  case (Cons t ts)
  obtain q where q: "parser_next u p = Some q" "stepped p q" "tok q \<noteq> COMMENT"
    using parser_next_returns [OF Cons.prems(1)] by metis
  have c: "no_comment (current p)" using Cons.prems(2) by (simp add: no_comment_def current_def)
  have "yields u p (t # ts) \<longleftrightarrow> tok p \<noteq> EOF \<and> t = current p \<and> yields u q ts"
    unfolding parser_next_yields [OF q(1)] using c by (auto simp: yields_def upcoming_def split: if_splits)
  moreover note Cons.IH [OF onward_ok [OF stepped_onward [OF q(2)]] q(3)]
  ultimately show ?case using q(1) by (auto simp: no_EOF_def current_def)
qed

lemma next_loop_not_comment: "next_loop n u p = Some q \<Longrightarrow> tok q \<noteq> COMMENT"
  by (induction n arbitrary: p) (auto simp: bind_eq_Some_conv split: if_splits)

lemma parser_next_not_comment: "parser_next u p = Some q \<Longrightarrow> tok q \<noteq> COMMENT"
  unfolding parser_next_def Let_def by (rule next_loop_not_comment)

lemma newParser_tokens:
  obtains p where "newParser u name data = Some p" "parser_ok p" "tok p \<noteq> COMMENT"
    "file_tokens u name data = yields u p"
proof -
  obtain p where p: "newParser u name data = Some p" "parser_ok p" by (rule newParser_returns)
  have "tok p \<noteq> COMMENT" using p(1) parser_next_not_comment unfolding newParser_def Let_def by blast
  moreover have "file_tokens u name data = yields u p"
  proof
    fix ts show "file_tokens u name data ts \<longleftrightarrow> yields u p ts"
    using p(1) parser_next_yields [of u _ p ts] by (auto simp: newParser_def Let_def file_tokens_def)
  qed
  ultimately show thesis using that [OF p] by blast
qed

lemma file_tokens_read: "file_tokens u name data ts \<longleftrightarrow> file_read u name data ts \<and> no_EOF ts"
proof -
  obtain p where p: "newParser u name data = Some p" "parser_ok p" "tok p \<noteq> COMMENT"
    "file_tokens u name data = yields u p"
    by (rule newParser_tokens [of u name data])
  show ?thesis unfolding p(4) yields_reads [OF p(2,3)] file_read_def p(1) by auto
qed

text \<open>Words of the grammar do not contain the end of the file.\<close>

lemma expr_no_EOF: "expr_toks k ts e \<Longrightarrow> no_EOF ts" "exprs_toks ts es \<Longrightarrow> no_EOF ts" "fields_toks ts fs \<Longrightarrow> no_EOF ts"
proof (induction rule: expr_toks_exprs_toks_fields_toks.inducts)
  case (et_binary k a l b r t ps s)
  then have "t \<noteq> EOF" by auto
  with et_binary.IH show ?case by (auto simp: no_EOF_def)
qed (auto simp: no_EOF_def isUnaryOp_def)

lemma label_no_EOF: "label_toks u ts l lp \<Longrightarrow> no_EOF ts"
  by (cases "(u, ts, l, lp)" rule: label_toks.cases) (auto simp: no_EOF_def)

lemma body_no_EOF: "stmt_toks u ts s \<Longrightarrow> no_EOF ts" "body_toks u ts b \<Longrightarrow> no_EOF ts"
proof (induction rule: stmt_toks_body_toks.inducts)
  case (st_block fts fs lts l lp a b ps f lc s rc s')
  then show ?case using fragment_toks_DOT [of fts fs] label_no_EOF [of u lts l lp] by (auto simp: no_EOF_def)
qed (use expr_no_EOF(1) in \<open>auto simp: no_EOF_def\<close>)

text \<open>
  C1: the parser accepts exactly the grammar that its comments give: parsing a file succeeds with a body
  if and only if the file scans without errors and its tokens, less the comments, derive this body.
\<close>

theorem ParseFile_grammar:
  "(\<exists>f. ParseFile u name data = Some (Inr f) \<and> File_Body f = b) \<longleftrightarrow>
     (\<exists>ts. file_tokens u name data ts \<and> body_toks u ts b)"
  using ParseFile_sound ParseFile_complete body_no_EOF(2) file_tokens_read by metis

section \<open>What a parsed file looks like\<close>

lemma expr_no_nil:
  "expr_toks k ts e \<Longrightarrow> NilExpr \<notin> set (subexprs e)" "exprs_toks ts es \<Longrightarrow> NilExpr \<notin> set (concat (map subexprs es))"
  "fields_toks ts fs \<Longrightarrow> NilExpr \<notin> set (concat (map field_subexprs fs))"
  by (induction rule: expr_toks_exprs_toks_fields_toks.inducts) auto

lemma body_no_nil:
  "stmt_toks u ts s \<Longrightarrow> NilExpr \<notin> set (concat (map subexprs (stmt_values s)))"
  "body_toks u ts b \<Longrightarrow> NilExpr \<notin> set (body_subexprs b)"
  by (induction rule: stmt_toks_body_toks.inducts) (auto simp: body_subexprs_def body_values_def dest: expr_no_nil(1))

text \<open>All blocks of a body, nested ones included.\<close>

fun stmt_blocks :: "Stmt \<Rightarrow> BlockStmt list" and nested_blocks :: "BlockStmt \<Rightarrow> BlockStmt list" where
  "stmt_blocks (AttributeStmt n v) = []"
| "stmt_blocks (Block b) = b # nested_blocks b"
| "nested_blocks (BlockStmt n np lab lp b lc rc) = concat (map stmt_blocks b)"

definition body_blocks :: "body \<Rightarrow> BlockStmt list" where
  "body_blocks b = concat (map stmt_blocks b)"

text \<open>A block has a name, and a label that is empty or an identifier.\<close>

definition block_named :: "unicode \<Rightarrow> BlockStmt \<Rightarrow> bool" where
  "block_named u b \<longleftrightarrow> Name b \<noteq> [] \<and> (Label b = [] \<or> IsValidIdentifier u (Label b))"

lemma label_valid: "label_toks u ts l lp \<Longrightarrow> l = [] \<or> IsValidIdentifier u l"
  by (cases "(u, ts, l, lp)" rule: label_toks.cases) (auto split: if_splits)

lemma body_named:
  "stmt_toks u ts s \<Longrightarrow> \<forall>b \<in> set (stmt_blocks s). block_named u b"
  "body_toks u ts bs \<Longrightarrow> \<forall>b \<in> set (body_blocks bs). block_named u b"
proof (induction rule: stmt_toks_body_toks.inducts)
  case (st_block fts fs lts l lp a b ps f lc s rc s')
  then show ?case using label_valid [of u lts l lp] by (auto simp: body_blocks_def block_named_def)
qed (auto simp: body_blocks_def)

text \<open>A file to try the definitions on.\<close>

fun scan_list :: "nat \<Rightarrow> unicode \<Rightarrow> Scanner \<Rightarrow> token_triple list option" where
  "scan_list 0 u s = None"
| "scan_list (Suc n) u s =
     (case Scan u s of (k, t, l, s') \<Rightarrow>
        if length (errs s) < length (errs s') then None
        else if t = EOF then Some [] else map_option ((#) (offset_pos k, t, l)) (scan_list n u s'))"

lemma scan_list_scans: "scan_list n u s = Some ts \<Longrightarrow> scans u s ts"
proof (induction n arbitrary: s ts)
  case (Suc n)
  then show ?case by (auto split: prod.splits if_splits intro: scans_end scans_more)
qed simp

abbreviation sample_text :: string where
  "sample_text \<equiv> ''b \"x\" {a = c.d}''"

lemma sample_scan:
  "scan_list 12 ascii_tables (New (NewFile ''f'') sample_text True IncludeComments) = Some
     [(offset_pos 0, IDENT, ''b''), (offset_pos 2, STRING, ''\"x\"''), (offset_pos 6, LCURLY, []), (offset_pos 7, IDENT, ''a''),
      (offset_pos 9, ASSIGN, []), (offset_pos 11, IDENT, ''c''), (offset_pos 12, DOT, []), (offset_pos 13, IDENT, ''d''),
      (offset_pos 14, RCURLY, []), (offset_pos 15, TERMINATOR, [CHR 0x0A])]"
  by code_simp

definition sample_body :: body where
  "sample_body =
     [Block (BlockStmt [''b''] (offset_pos 0) ''x'' (offset_pos 2)
        [AttributeStmt (Ident ''a'' (offset_pos 7))
           (AccessExpr (IdentifierExpr (Ident ''c'' (offset_pos 11)) False) (Ident ''d'' (offset_pos 13)) False)]
        (offset_pos 6) (offset_pos 14))]"

lemma sample_access: "expr_toks 1 [(offset_pos 11, IDENT, ''c''), (offset_pos 12, DOT, []), (offset_pos 13, IDENT, ''d'')]
    (AccessExpr (IdentifierExpr (Ident ''c'' (offset_pos 11)) False) (Ident ''d'' (offset_pos 13)) False)"
proof (rule expr_toks_lower)
  show "expr_toks 8 [(offset_pos 11, IDENT, ''c''), (offset_pos 12, DOT, []), (offset_pos 13, IDENT, ''d'')]
      (AccessExpr (IdentifierExpr (Ident ''c'' (offset_pos 11)) False) (Ident ''d'' (offset_pos 13)) False)"
    using et_access [OF lower_steps(1) [OF et_ident]] by fastforce
qed simp_all

lemma sample_valid: "IsValidIdentifier ascii_tables ''x''"
  by code_simp

lemma sample_derived:
  "body_toks ascii_tables [(offset_pos 0, IDENT, ''b''), (offset_pos 2, STRING, ''\"x\"''), (offset_pos 6, LCURLY, []), (offset_pos 7, IDENT, ''a''),
      (offset_pos 9, ASSIGN, []), (offset_pos 11, IDENT, ''c''), (offset_pos 12, DOT, []), (offset_pos 13, IDENT, ''d''),
      (offset_pos 14, RCURLY, []), (offset_pos 15, TERMINATOR, [CHR 0x0A])] sample_body"
proof -
  note attr = bd_last [OF st_attribute [OF sample_access, where u = ascii_tables and ps = "offset_pos 7" and name = "''a''" and ap = "offset_pos 9" and s = "[]"]]
  have label: "label_toks ascii_tables [(offset_pos 2, STRING, ''\"x\"'')] ''x'' (offset_pos 2)"
    by (simp add: unquote_def sample_valid offset_pos_def NoPos_def)
  show ?thesis
    using bd_more [OF st_block [of "[]" "[]", OF _ label attr, where ps = "offset_pos 0" and f = "''b''" and lc = "offset_pos 6" and s = "[]"
        and rc = "offset_pos 14" and s' = "[]"] bd_none, of "offset_pos 15" "[CHR 0x0A]"]
    by (simp add: sample_body_def)
qed

lemma sample_parsed: "\<exists>f. ParseFile ascii_tables ''f'' sample_text = Some (Inr f) \<and> File_Body f = sample_body"
proof -
  have "errs (New (NewFile ''f'') sample_text True IncludeComments) = []" by code_simp
  then have "\<exists>ts. file_tokens ascii_tables ''f'' sample_text ts \<and> body_toks ascii_tables ts sample_body"
    using scan_list_scans [OF sample_scan] sample_derived
    by (intro exI conjI) (auto simp: file_tokens_def Let_def no_comment_def)
  then show ?thesis using ParseFile_complete file_tokens_read by blast
qed

text \<open>
  The references of a parsed file can be collected: \<open>TraversalsFromBody\<close> does not panic on the body, finds
  one traversal for each identifier in the order of the text, and covers every field access.
\<close>

theorem parsed_file_references:
  assumes "ParseFile u name data = Some (Inr f)"
  shows "\<exists>ts. TraversalsFromBody (File_Body f) = Some ts \<and> map hd ts = body_identifiers (File_Body f) \<and> [] \<notin> set ts \<and>
    (\<forall>e \<in> set (body_subexprs (File_Body f)). \<forall>p. access_path e = Some p \<longrightarrow> covers ts p)"
proof -
  have "NilExpr \<notin> set (body_subexprs (File_Body f))" using ParseFile_sound [OF assms] body_no_nil(2) by blast
  from traversals_of_body [OF this] show ?thesis by metis
qed

theorem parsed_file_references_witness:
  "\<exists>f ts. ParseFile ascii_tables ''f'' sample_text = Some (Inr f) \<and> TraversalsFromBody (File_Body f) = Some ts \<and>
     map Ident_Name (map hd ts) = [''c'']"
proof -
  obtain f where f: "ParseFile ascii_tables ''f'' sample_text = Some (Inr f)" "File_Body f = sample_body"
    using sample_parsed by blast
  have "body_identifiers sample_body = [Ident ''c'' (offset_pos 11)]"
    by (simp add: body_identifiers_def body_values_def sample_body_def)
  with parsed_file_references [OF f(1)] f show ?thesis by auto
qed

text \<open>
  Every block of a parsed file has a name, and its label is empty or a valid identifier.
\<close>

theorem parsed_file_blocks:
  assumes "ParseFile u name data = Some (Inr f)" "b \<in> set (body_blocks (File_Body f))"
  shows "Name b \<noteq> [] \<and> (Label b = [] \<or> IsValidIdentifier u (Label b))"
proof -
  have "\<forall>b \<in> set (body_blocks (File_Body f)). block_named u b" using ParseFile_sound [OF assms(1)] body_named(2) by blast
  with assms(2) show ?thesis by (simp add: block_named_def)
qed

theorem parsed_file_blocks_witness:
  "\<exists>f b. ParseFile ascii_tables ''f'' sample_text = Some (Inr f) \<and> b \<in> set (body_blocks (File_Body f)) \<and>
     Label b = ''x'' \<and> Name b \<noteq> [] \<and> IsValidIdentifier ascii_tables (Label b)"
proof -
  obtain f where f: "ParseFile ascii_tables ''f'' sample_text = Some (Inr f)" "File_Body f = sample_body"
    using sample_parsed by blast
  obtain b where b: "b \<in> set (body_blocks (File_Body f))" "Label b = ''x''"
    unfolding f(2) by (auto simp: body_blocks_def sample_body_def)
  from parsed_file_blocks [OF f(1) b(1)] f(1) b show ?thesis by auto
qed

end
