(* ===== verification/Config_Source.thy ===== *)
theory Config_Source
  imports Parsed_File Controller_Nodes "HOL-Library.List_Lexorder" "HOL-Library.Char_ord"
begin

text \<open>
  From the text of configuration files to the blocks that the controller loads, \<^verbatim>\<open>internal/runtime/source.go\<close>
  and \<^verbatim>\<open>internal/static/config/encoder/encoder.go\<close>.

  The detection of byte order marks and the decoders are packages outside the repository: fields of a
  record that is an argument. A map of sources is an association list with distinct names in the order in
  which the map is ranged over. The diagnostic of an attribute keeps the positions of its name; the line
  table that turns them into lines stays with the file.
\<close>

section \<open>Encodings\<close>

text \<open>\<^verbatim>\<open>utf8.Valid\<close> of the Go library: no byte is decoded as an error.\<close>

function utf8_Valid :: "string \<Rightarrow> bool" where
  "utf8_Valid p = (if p = [] then True else if DecodeRune p = (RuneError, 1) then False else utf8_Valid (drop (snd (DecodeRune p)) p))"
  by pat_completeness auto
termination
proof (relation "measure length", goal_cases)
  case (2 p)
  then show ?case using DecodeRune_width [of p] by (cases p) auto
qed simp

declare utf8_Valid.simps [simp del]

datatype Encoding = UnknownEnc | UTF8Enc | UTF16BigEndian | UTF16LittleEndian | UTF32BigEndian | UTF32LittleEndian

record encodings =
  utfbom_Skip :: "string \<Rightarrow> string \<times> Encoding"
  decoder_Bytes :: "Encoding \<Rightarrow> string \<Rightarrow> string + string"

datatype encoding_error = UnknownEncoding | MustBeUTF8 Encoding | DecodingFailed string

definition EnsureUTF8 :: "encodings \<Rightarrow> string \<Rightarrow> bool \<Rightarrow> encoding_error + string" where
  "EnsureUTF8 X config useStrictUTF8 =
     (case utfbom_Skip X config of (skippedBytes, enc) \<Rightarrow>
        if enc = UTF8Enc then Inr config
        else if enc = UnknownEnc then if utf8_Valid config then Inr config else Inl UnknownEncoding
        else if useStrictUTF8 then Inl (MustBeUTF8 enc)
        else (case decoder_Bytes X enc skippedBytes of Inl failure \<Rightarrow> Inl (DecodingFailed failure) | Inr converted \<Rightarrow> Inr converted))"

lemma EnsureUTF8_strict: "EnsureUTF8 X config True = Inr bb \<Longrightarrow> bb = config"
  by (auto simp: EnsureUTF8_def split: prod.splits if_splits)

section \<open>Sources\<close>

record config_source =
  cs_sourceMap :: "string \<rightharpoonup> string"
  cs_fileMap :: "string \<rightharpoonup> ast_File"
  cs_components :: "BlockStmt list"
  cs_configBlocks :: "BlockStmt list"
  cs_declareBlocks :: "BlockStmt list"

datatype source_diag = ParserDiag parse_diag | UnrecognizedAttribute Pos Pos string

datatype source_error =
  EncodingError encoding_error
| ParseFailed "parse_diag list"
| BodyFailed source_diag
| MergedDiags "source_diag list"

text \<open>The diagnostics that \<^verbatim>\<open>errors.As\<close> finds in an error.\<close>

fun error_diags :: "source_error \<Rightarrow> source_diag list option" where
  "error_diags (EncodingError e) = None"
| "error_diags (ParseFailed ds) = Some (map ParserDiag ds)"
| "error_diags (BodyFailed d) = Some [d]"
| "error_diags (MergedDiags ds) = Some ds"

definition config_block_names :: "string list" where
  "config_block_names = [''logging'', ''tracing'', ''argument'', ''export'', ''foreach''] @ importBlockNames"

fun body_loop :: "body \<Rightarrow> BlockStmt list \<times> BlockStmt list \<times> BlockStmt list \<Rightarrow>
    source_diag + BlockStmt list \<times> BlockStmt list \<times> BlockStmt list" where
  "body_loop [] acc = Inr acc"
| "body_loop (AttributeStmt n v # ss) acc = Inl (UnrecognizedAttribute (Ident_StartPos n) (Ident_EndPos n) (Ident_Name n))"
| "body_loop (Block b # ss) (components, configs, declares) =
     (let fullName = join (Name b) ''.'' in
      body_loop ss
        (if fullName = ''declare'' then (components, configs, declares @ [b])
         else if fullName \<in> set config_block_names then (components, configs @ [b], declares)
         else (components @ [b], configs, declares)))"

definition sourceFromBody :: "body \<Rightarrow> source_diag + config_source" where
  "sourceFromBody b =
     (case body_loop b ([], [], []) of
        Inl d \<Rightarrow> Inl d
      | Inr (components, configs, declares) \<Rightarrow>
          Inr \<lparr>cs_sourceMap = Map.empty, cs_fileMap = Map.empty, cs_components = components, cs_configBlocks = configs,
               cs_declareBlocks = declares\<rparr>)"

definition ParseSource :: "encodings \<Rightarrow> unicode \<Rightarrow> string \<Rightarrow> string \<Rightarrow> (source_error + config_source) option" where
  "ParseSource X u name bb =
     (case EnsureUTF8 X bb True of
        Inl failure \<Rightarrow> Some (Inl (EncodingError failure))
      | Inr bb \<Rightarrow> do {
          r \<leftarrow> ParseFile u name bb;
          Some (case r of
              Inl ds \<Rightarrow> Inl (ParseFailed ds)
            | Inr node \<Rightarrow>
                (case sourceFromBody (File_Body node) of
                   Inl d \<Rightarrow> Inl (BodyFailed d)
                 | Inr source \<Rightarrow> Inr (source\<lparr>cs_sourceMap := [name \<mapsto> bb], cs_fileMap := [name \<mapsto> node]\<rparr>)))
        })"

definition merge_source :: "string \<Rightarrow> config_source \<Rightarrow> config_source \<Rightarrow> config_source" where
  "merge_source name fragment merged = merged
     \<lparr>cs_fileMap := (cs_fileMap merged)(name := cs_fileMap fragment name),
      cs_components := cs_components merged @ cs_components fragment,
      cs_configBlocks := cs_configBlocks merged @ cs_configBlocks fragment,
      cs_declareBlocks := cs_declareBlocks merged @ cs_declareBlocks fragment\<rparr>"

fun sources_loop :: "encodings \<Rightarrow> unicode \<Rightarrow> (string \<times> string) list \<Rightarrow> source_diag list \<Rightarrow> config_source \<Rightarrow>
    (source_error + source_diag list \<times> config_source) option" where
  "sources_loop X u [] mergedDiags mergedSource = Some (Inr (mergedDiags, mergedSource))"
| "sources_loop X u ((name, content) # others) mergedDiags mergedSource = do {
     r \<leftarrow> ParseSource X u name content;
     case r of
       Inl failure \<Rightarrow>
         (case error_diags failure of
            Some ds \<Rightarrow> sources_loop X u others (mergedDiags @ ds) mergedSource
          | None \<Rightarrow> Some (Inl failure))
     | Inr fragment \<Rightarrow> sources_loop X u others mergedDiags (merge_source name fragment mergedSource)
   }"

definition ParseSources :: "encodings \<Rightarrow> unicode \<Rightarrow> (string \<times> string) list \<Rightarrow> (source_error + config_source) option" where
  "ParseSources X u sources = do {
     r \<leftarrow> sources_loop X u (sort_key fst sources) []
       \<lparr>cs_sourceMap = map_of sources, cs_fileMap = Map.empty, cs_components = [], cs_configBlocks = [], cs_declareBlocks = []\<rparr>;
     Some (case r of
         Inl failure \<Rightarrow> Inl failure
       | Inr (mergedDiags, mergedSource) \<Rightarrow> if length mergedDiags > 0 then Inl (MergedDiags mergedDiags) else Inr mergedSource)
   }"

text \<open>The accessors; a nil source has no contents.\<close>

definition RawConfigs :: "config_source option \<Rightarrow> string \<rightharpoonup> string" where
  "RawConfigs s = (case s of None \<Rightarrow> Map.empty | Some s \<Rightarrow> cs_sourceMap s)"

definition SourceFiles :: "config_source option \<Rightarrow> string \<rightharpoonup> ast_File" where
  "SourceFiles s = (case s of None \<Rightarrow> Map.empty | Some s \<Rightarrow> cs_fileMap s)"

definition Source_Components :: "config_source \<Rightarrow> BlockStmt list" where
  "Source_Components s = cs_components s"

definition Source_Configs :: "config_source \<Rightarrow> BlockStmt list" where
  "Source_Configs s = cs_configBlocks s"

definition Source_Declares :: "config_source \<Rightarrow> BlockStmt list" where
  "Source_Declares s = cs_declareBlocks s"

section \<open>What a body gives\<close>

fun top_blocks :: "body \<Rightarrow> BlockStmt list option" where
  "top_blocks [] = Some []"
| "top_blocks (AttributeStmt n v # ss) = None"
| "top_blocks (Block b # ss) = map_option ((#) b) (top_blocks ss)"

definition declares_block :: "BlockStmt \<Rightarrow> bool" where
  "declares_block b \<longleftrightarrow> join (Name b) ''.'' = ''declare''"

definition configures_block :: "BlockStmt \<Rightarrow> bool" where
  "configures_block b \<longleftrightarrow> join (Name b) ''.'' \<in> set config_block_names"

definition component_block :: "BlockStmt \<Rightarrow> bool" where
  "component_block b \<longleftrightarrow> \<not> declares_block b \<and> \<not> configures_block b"

lemmas block_kinds = declares_block_def configures_block_def component_block_def

lemma declares_not_configures: "declares_block b \<Longrightarrow> \<not> configures_block b"
  by (simp add: block_kinds config_block_names_def importBlockNames_def)

lemma body_loop_eq:
  "body_loop ss (cs, fs, ds) = Inr r \<longleftrightarrow>
     (\<exists>bs. top_blocks ss = Some bs \<and> r = (cs @ filter component_block bs, fs @ filter configures_block bs, ds @ filter declares_block bs))"
proof (induction ss arbitrary: cs fs ds)
  case Nil
  then show ?case by auto
next
  case (Cons s ss)
  show ?case
  proof (cases s)
    case (Block b)
    consider "declares_block b" "\<not> configures_block b" "\<not> component_block b"
      | "\<not> declares_block b" "configures_block b" "\<not> component_block b"
      | "\<not> declares_block b" "\<not> configures_block b" "component_block b"
      using declares_not_configures [of b] unfolding component_block_def by blast
    then show ?thesis by cases (auto simp: Block Cons.IH block_kinds Let_def)
  qed simp
qed

text \<open>A file is accepted when its text is UTF-8, it parses, and it has blocks only.\<close>

definition accepts :: "encodings \<Rightarrow> unicode \<Rightarrow> string \<times> string \<Rightarrow> ast_File \<times> BlockStmt list \<Rightarrow> bool" where
  "accepts X u src r \<longleftrightarrow> EnsureUTF8 X (snd src) True = Inr (snd src) \<and> ParseFile u (fst src) (snd src) = Some (Inr (fst r)) \<and>
     top_blocks (File_Body (fst r)) = Some (snd r)"

lemma ParseSource_accepts:
  "ParseSource X u name bb = Some (Inr s) \<longleftrightarrow>
     (\<exists>f bs. accepts X u (name, bb) (f, bs) \<and>
       s = \<lparr>cs_sourceMap = [name \<mapsto> bb], cs_fileMap = [name \<mapsto> f], cs_components = filter component_block bs,
            cs_configBlocks = filter configures_block bs, cs_declareBlocks = filter declares_block bs\<rparr>)"
proof -
  have body: "sourceFromBody b = Inr s \<longleftrightarrow> (\<exists>bs. top_blocks b = Some bs \<and>
      s = \<lparr>cs_sourceMap = Map.empty, cs_fileMap = Map.empty, cs_components = filter component_block bs,
           cs_configBlocks = filter configures_block bs, cs_declareBlocks = filter declares_block bs\<rparr>)" for b s
    using body_loop_eq [of b "[]" "[]" "[]"] by (cases "body_loop b ([], [], [])") (fastforce simp: sourceFromBody_def)+
  show ?thesis
  proof (cases "EnsureUTF8 X bb True")
    case (Inl e)
    then show ?thesis by (simp add: ParseSource_def accepts_def)
  next
    case (Inr bb')
    then have "bb' = bb" by (rule EnsureUTF8_strict)
    with Inr have enc: "EnsureUTF8 X bb True = Inr bb" by simp
    obtain r where r: "ParseFile u name bb = Some r" using ParseFile_Some by blast
    show ?thesis
    proof (cases r)
      case (Inl ds)
      with r enc show ?thesis by (simp add: ParseSource_def accepts_def)
    next
      case (Inr f)
      show ?thesis
      proof (cases "sourceFromBody (File_Body f)")
        case (Inl d)
        then have "top_blocks (File_Body f) = None" using body [of "File_Body f"] by (cases "top_blocks (File_Body f)") auto
        with Inl Inr r enc show ?thesis by (simp add: ParseSource_def accepts_def)
      next
        case (Inr s')
        with \<open>r = Inr f\<close> r enc body [of "File_Body f" s'] show ?thesis by (auto simp: ParseSource_def accepts_def)
      qed
    qed
  qed
qed

lemma ParseSource_returns: "\<exists>r. ParseSource X u name bb = Some r"
proof (cases "EnsureUTF8 X bb True")
  case (Inr bb')
  obtain r where "ParseFile u name bb' = Some r" using ParseFile_Some by blast
  with Inr show ?thesis by (simp add: ParseSource_def)
qed (simp add: ParseSource_def)

section \<open>What a map of sources gives\<close>

lemma sources_loop_diags:
  "sources_loop X u srcs ds s = Some (Inr (ds', s')) \<Longrightarrow> ds' = [] \<Longrightarrow> ds = []"
proof (induction srcs arbitrary: ds s)
  case (Cons src srcs)
  obtain name bb where src: "src = (name, bb)" by fastforce
  obtain r where r: "ParseSource X u name bb = Some r" using ParseSource_returns by blast
  from Cons r src show ?case by (cases r) (fastforce split: option.splits)+
qed simp

lemma error_diags_nonempty: "ParseSource X u name bb = Some (Inl e) \<Longrightarrow> error_diags e \<noteq> Some []"
proof (cases "EnsureUTF8 X bb True")
  case (Inr bb')
  assume "ParseSource X u name bb = Some (Inl e)"
  moreover obtain r where "ParseFile u name bb' = Some r" "r \<noteq> Inl []" using ParseFile_Some by blast
  ultimately show ?thesis using Inr by (auto simp: ParseSource_def split: sum.splits)
qed (auto simp: ParseSource_def)

lemma accepts_unique: "accepts X u src r \<Longrightarrow> accepts X u src r' \<Longrightarrow> r = r'"
  by (auto simp: accepts_def prod_eq_iff)

text \<open>The source that is merged from accepted files.\<close>

definition merged_source :: "(string \<rightharpoonup> string) \<Rightarrow> string list \<Rightarrow> (ast_File \<times> BlockStmt list) list \<Rightarrow> config_source" where
  "merged_source m names rs =
     \<lparr>cs_sourceMap = m, cs_fileMap = Map.empty(names [\<mapsto>] map fst rs),
      cs_components = filter component_block (concat (map snd rs)),
      cs_configBlocks = filter configures_block (concat (map snd rs)),
      cs_declareBlocks = filter declares_block (concat (map snd rs))\<rparr>"

lemma sources_loop_accepts:
  "sources_loop X u srcs [] (merged_source m names rs) = Some (Inr ([], s)) \<longleftrightarrow>
     (\<exists>rs'. list_all2 (accepts X u) srcs rs' \<and> s = merged_source m (names @ map fst srcs) (rs @ rs'))"
  if "length names = length rs"
  using that
proof (induction srcs arbitrary: names rs)
  case (Cons src srcs)
  obtain name bb where src: "src = (name, bb)" by fastforce
  obtain r where r: "ParseSource X u name bb = Some r" using ParseSource_returns by blast
  show ?case
  proof (cases r)
    case (Inl e)
    have "\<not> accepts X u src x" for x
      using ParseSource_accepts [of X u name bb] r Inl src by (cases x) auto
    moreover have "sources_loop X u (src # srcs) [] (merged_source m names rs) \<noteq> Some (Inr ([], s))"
      using r Inl src error_diags_nonempty [of X u name bb e] sources_loop_diags [of X u srcs]
      by (auto split: option.splits)
    ultimately show ?thesis by (auto simp: list_all2_Cons1)
  next
    case (Inr fragment)
    then obtain f bs where f: "accepts X u src (f, bs)"
      "fragment = \<lparr>cs_sourceMap = [name \<mapsto> bb], cs_fileMap = [name \<mapsto> f], cs_components = filter component_block bs,
            cs_configBlocks = filter configures_block bs, cs_declareBlocks = filter declares_block bs\<rparr>"
      using r src ParseSource_accepts [of X u name bb fragment] by auto
    have merge: "merge_source name fragment (merged_source m names rs) = merged_source m (names @ [name]) (rs @ [(f, bs)])"
      using Cons.prems by (simp add: merge_source_def merged_source_def f(2) nth_append)
    have "list_all2 (accepts X u) (src # srcs) rs' \<longleftrightarrow> (\<exists>rs''. rs' = (f, bs) # rs'' \<and> list_all2 (accepts X u) srcs rs'')" for rs'
      unfolding list_all2_Cons1 using f(1) accepts_unique [of X u src] by blast
    then have split: "(\<exists>rs'. list_all2 (accepts X u) srcs rs' \<and> s = merged_source m ((names @ [name]) @ map fst srcs) ((rs @ [(f, bs)]) @ rs')) \<longleftrightarrow>
        (\<exists>rs'. list_all2 (accepts X u) (src # srcs) rs' \<and> s = merged_source m (names @ map fst (src # srcs)) (rs @ rs'))"
      by (auto simp: src)
    have "sources_loop X u (src # srcs) [] (merged_source m names rs) =
        sources_loop X u srcs [] (merged_source m (names @ [name]) (rs @ [(f, bs)]))"
      by (simp add: src r Inr merge)
    then show ?thesis
      using Cons.IH [of "names @ [name]" "rs @ [(f, bs)]"] Cons.prems unfolding split by simp
  qed
qed auto

lemma sources_from_start:
  "sources_loop X u srcs [] (merged_source m [] []) = Some (Inr ([], s)) \<longleftrightarrow>
     (\<exists>rs. list_all2 (accepts X u) srcs rs \<and> s = merged_source m (map fst srcs) rs)"
  using sources_loop_accepts [of "[]" "[]"] by simp

lemma ParseSources_loop:
  "ParseSources X u sources = Some (Inr s) \<longleftrightarrow>
     sources_loop X u (sort_key fst sources) [] (merged_source (map_of sources) [] []) = Some (Inr ([], s))"
proof -
  have start: "\<lparr>cs_sourceMap = map_of sources, cs_fileMap = Map.empty, cs_components = [], cs_configBlocks = [], cs_declareBlocks = []\<rparr> =
      merged_source (map_of sources) [] []"
    by (simp add: merged_source_def)
  show ?thesis
    unfolding ParseSources_def start
    by (cases "sources_loop X u (sort_key fst sources) [] (merged_source (map_of sources) [] [])")
      (auto split: sum.splits prod.splits if_splits)
qed

text \<open>
  C10: parsing a map of sources succeeds if and only if every source is UTF-8, parses, and has blocks only at
  its top level. The result then holds every top-level block once, in the order of the names of the sources
  and of the text: \<open>declare\<close> blocks, configuration blocks and component blocks apart.
\<close>

theorem ParseSources_exact:
  "ParseSources X u sources = Some (Inr s) \<longleftrightarrow>
     (\<exists>rs. list_all2 (accepts X u) (sort_key fst sources) rs \<and>
        s = merged_source (map_of sources) (map fst (sort_key fst sources)) rs)"
  unfolding ParseSources_loop by (rule sources_from_start)

end
