(* ===== verification/Desired_Tasks.thy ===== *)
theory Desired_Tasks
  imports Dag_Weak
begin

text \<open>
  The first half of the scheduler, \<^verbatim>\<open>internal/runtime/internal/controller/scheduler.go\<close>: which tasks it has to run
  for a graph. The nodes of a connected part of the graph form a group, and the order of a walk up from the
  leaves of the part gives their ranks.

  Whether a node can run is an argument: \<open>runnable\<close> stands for the type assertion.
\<close>

section \<open>Desired tasks\<close>

record desiredTask =
  dt_rank :: int
  dt_groupID :: int
  dt_runnable :: node

definition desired_visit :: "(node \<Rightarrow> bool) \<Rightarrow> int \<Rightarrow> (unit, int \<times> (string, desiredTask) gomap) walk_func" where
  "desired_visit runnable groupID n st = (case st of (rank, desiredTasks) \<Rightarrow>
     (None,
      if runnable n
      then (rank + 1, map_put (NodeID n) \<lparr>dt_rank = rank, dt_groupID = groupID, dt_runnable = n\<rparr> desiredTasks)
      else (rank, desiredTasks)))"

fun desired_loop :: "(node \<Rightarrow> bool) \<Rightarrow> graph \<Rightarrow> int \<Rightarrow> node list list \<Rightarrow> (string, desiredTask) gomap \<Rightarrow> (string, desiredTask) gomap" where
  "desired_loop runnable g groupID [] desiredTasks = desiredTasks"
| "desired_loop runnable g groupID (leaves # cs) desiredTasks =
     desired_loop runnable g (groupID + 1) cs
       (snd (snd (WalkTopological g leaves (desired_visit runnable groupID) (0, desiredTasks))))"

definition desiredTasksFromGraph :: "(node \<Rightarrow> bool) \<Rightarrow> graph \<Rightarrow> (string, desiredTask) gomap" where
  "desiredTasksFromGraph runnable g = desired_loop runnable g 0 (WeaklyConnectedComponents g FilterLeavesFunc) []"

subsection \<open>The parts of the graph\<close>

lemma distinct_concat_nth:
  "distinct (concat xss) \<Longrightarrow> k < length xss \<Longrightarrow> j < length xss \<Longrightarrow> k \<noteq> j \<Longrightarrow> set (xss ! k) \<inter> set (xss ! j) = {}"
proof (induction xss arbitrary: k j)
  case (Cons xs xss)
  have "set xs \<inter> set (xss ! i) = {}" if "i < length xss" for i
    using Cons.prems(1) nth_mem [OF that] by auto
  with Cons show ?case by (cases k; cases j) auto
qed simp

lemma part_class:
  "graph_inv g \<Longrightarrow> c \<in> set (WeaklyConnectedComponents g f) \<Longrightarrow> a \<in> set c \<Longrightarrow> set c = {b. f g b \<and> (a, b) \<in> (adjacent g)\<^sup>*}"
  using WeaklyConnectedComponents_inv [of g f] unfolding weak_inv_def by blast

text \<open>Walking up from the leaves of a connected part visits exactly that part.\<close>

lemma part_order:
  assumes g: "graph_inv g" and ac: "acyclic (edge_rel g)" and c: "c \<in> set (WeaklyConnectedComponents g FilterLeavesFunc)" "a \<in> set c"
  shows "set (topo_order g c) = (adjacent g)\<^sup>* `` {a}"
proof -
  let ?K = "(adjacent g)\<^sup>* `` {a}" and ?X = "set (topo_order g c)"
  have X: "?X = set c \<union> ready g ?X" using topo_order_props [OF g, of c] unfolding Let_def by blast
  have leaves: "set c = {n \<in> ?K. succs g n = []}"
    unfolding part_class [OF g c] by (auto simp: FilterLeavesFunc_def)
  have wf: "wf ((edge_rel g)\<inverse>)" using finite_edge_rel [OF g] ac by (rule finite_acyclic_wf_converse)
  have step: "n \<in> ?K \<longleftrightarrow> m \<in> ?K" if "(n, m) \<in> edge_rel g" for n m
  proof -
    have "(n, m) \<in> adjacent g" "(m, n) \<in> adjacent g" using that by (auto simp: adjacent_def)
    then show ?thesis by (auto intro: rtrancl_into_rtrancl)
  qed
  have "n \<in> ?X \<longleftrightarrow> n \<in> ?K" for n
    using wf
  proof (induction n rule: wf_induct_rule)
    case (less n)
    show ?case
    proof (cases "succs g n")
      case Nil
      then have "n \<notin> ready g ?X" by (simp add: ready_def)
      with X have "n \<in> ?X \<longleftrightarrow> n \<in> set c" by blast
      with leaves Nil show ?thesis by simp
    next
      case (Cons m ms)
      then have "n \<notin> set c" "n \<in> ready g ?X \<longleftrightarrow> set (succs g n) \<subseteq> ?X" using leaves by (simp_all add: ready_def)
      with X have "n \<in> ?X \<longleftrightarrow> set (succs g n) \<subseteq> ?X" by blast
      also have "\<dots> \<longleftrightarrow> n \<in> ?K"
      proof -
        have "m' \<in> ?X \<longleftrightarrow> n \<in> ?K" if "m' \<in> set (succs g n)" for m'
          using less.IH [of m'] step [of n m'] that by simp
        then show ?thesis using Cons by auto
      qed
      finally show ?thesis .
    qed
  qed
  then show ?thesis by blast
qed

lemma part_of:
  assumes g: "graph_inv g" and ac: "acyclic (edge_rel g)" and n: "n \<in> vertices g"
  obtains c a where "c \<in> set (WeaklyConnectedComponents g FilterLeavesFunc)" "a \<in> set c" "(a, n) \<in> (adjacent g)\<^sup>*"
proof -
  have wf: "wf ((edge_rel g)\<inverse>)" using finite_edge_rel [OF g] ac by (rule finite_acyclic_wf_converse)
  have "\<exists>a \<in> vertices g. succs g a = [] \<and> (n, a) \<in> (adjacent g)\<^sup>*"
    using wf n
  proof (induction n rule: wf_induct_rule)
    case (less n)
    show ?case
    proof (cases "succs g n")
      case Nil
      with less.prems show ?thesis by blast
    next
      case (Cons m ms)
      then have e: "(n, m) \<in> edge_rel g" by simp
      then obtain a where "a \<in> vertices g" "succs g a = []" "(m, a) \<in> (adjacent g)\<^sup>*"
        using less.IH graph_inv_endpoints [OF g e] by blast
      moreover have "(n, m) \<in> adjacent g" using e by (simp add: adjacent_def)
      ultimately show ?thesis by (meson converse_rtrancl_into_rtrancl)
    qed
  qed
  then obtain a where a: "a \<in> vertices g" "succs g a = []" "(n, a) \<in> (adjacent g)\<^sup>*" by blast
  then have "a \<in> set (concat (WeaklyConnectedComponents g FilterLeavesFunc))"
    using WeaklyConnectedComponents_inv [OF g, of FilterLeavesFunc] by (simp add: weak_inv_def FilterLeavesFunc_def)
  moreover have "(a, n) \<in> (adjacent g)\<^sup>*" using a(3) sym_rtrancl [OF sym_adjacent] by (auto dest: symD)
  ultimately show thesis using that by auto
qed

text \<open>The groups: for each connected part its runnable nodes in the order of the walk.\<close>

definition task_groups :: "(node \<Rightarrow> bool) \<Rightarrow> graph \<Rightarrow> node list list" where
  "task_groups runnable g = map (\<lambda>c. filter runnable (topo_order g c)) (WeaklyConnectedComponents g FilterLeavesFunc)"

lemma parts_disjoint:
  assumes g: "graph_inv g" and ac: "acyclic (edge_rel g)"
    and k: "k < length (WeaklyConnectedComponents g FilterLeavesFunc)" "j < length (WeaklyConnectedComponents g FilterLeavesFunc)" "k \<noteq> j"
  shows "set (topo_order g (WeaklyConnectedComponents g FilterLeavesFunc ! k)) \<inter>
    set (topo_order g (WeaklyConnectedComponents g FilterLeavesFunc ! j)) = {}"
proof -
  let ?cs = "WeaklyConnectedComponents g FilterLeavesFunc"
  have inv: "distinct (concat ?cs)" "\<forall>c \<in> set ?cs. c \<noteq> []"
    using WeaklyConnectedComponents_inv [OF g, of FilterLeavesFunc] by (simp_all add: weak_inv_def)
  obtain a b where ab: "a \<in> set (?cs ! k)" "b \<in> set (?cs ! j)" using inv(2) k nth_mem by (metis list.set_intros(1) neq_Nil_conv)
  have orders: "set (topo_order g (?cs ! k)) = (adjacent g)\<^sup>* `` {a}" "set (topo_order g (?cs ! j)) = (adjacent g)\<^sup>* `` {b}"
    using part_order [OF g ac] ab k nth_mem by blast+
  show ?thesis
  proof (rule ccontr)
    assume "\<not> ?thesis"
    then obtain x where "(a, x) \<in> (adjacent g)\<^sup>*" "(b, x) \<in> (adjacent g)\<^sup>*" unfolding orders by blast
    then have "(a, b) \<in> (adjacent g)\<^sup>*" using sym_rtrancl [OF sym_adjacent, of g] by (meson rtrancl_trans symD)
    moreover have "FilterLeavesFunc g b" using part_class [OF g nth_mem [OF k(2)] ab(2)] ab(2) by blast
    ultimately have "b \<in> set (?cs ! k)" using part_class [OF g nth_mem [OF k(1)] ab(1)] by blast
    then show False using ab(2) distinct_concat_nth [OF inv(1) k] by blast
  qed
qed

subsection \<open>What is desired\<close>

definition desired_at :: "int \<Rightarrow> int \<Rightarrow> node \<Rightarrow> desiredTask" where
  "desired_at k r n = \<lparr>dt_rank = r, dt_groupID = k, dt_runnable = n\<rparr>"

lemma desired_visit_all:
  assumes "distinct (map NodeID (filter runnable ns))"
  shows "\<exists>m'. visit_all (desired_visit runnable k) ns (r, m) = (None, r + int (length (filter runnable ns)), m') \<and>
    (\<forall>j < length (filter runnable ns). map_of m' (NodeID (filter runnable ns ! j)) = Some (desired_at k (r + int j) (filter runnable ns ! j))) \<and>
    (\<forall>i. i \<notin> NodeID ` set (filter runnable ns) \<longrightarrow> map_of m' i = map_of m i)"
  using assms
proof (induction ns arbitrary: r m)
  case (Cons n ns)
  show ?case
  proof (cases "runnable n")
    case True
    let ?m = "map_put (NodeID n) (desired_at k r n) m"
    obtain m' where m': "visit_all (desired_visit runnable k) ns (r + 1, ?m) = (None, r + 1 + int (length (filter runnable ns)), m')"
      "\<forall>j < length (filter runnable ns). map_of m' (NodeID (filter runnable ns ! j)) = Some (desired_at k (r + 1 + int j) (filter runnable ns ! j))"
      "\<forall>i. i \<notin> NodeID ` set (filter runnable ns) \<longrightarrow> map_of m' i = map_of ?m i"
      using Cons.IH [of "r + 1" ?m] Cons.prems True by auto
    have "map_of m' (NodeID n) = Some (desired_at k r n)" using m'(3) Cons.prems True by auto
    then have "\<forall>j < length (filter runnable (n # ns)).
        map_of m' (NodeID (filter runnable (n # ns) ! j)) = Some (desired_at k (r + int j) (filter runnable (n # ns) ! j))"
      using m'(2) True by (auto simp: nth_Cons less_Suc_eq_0_disj split: nat.split) (simp add: algebra_simps)
    moreover have "desired_visit runnable k n (r, m) = (None, r + 1, ?m)" using True by (simp add: desired_visit_def desired_at_def)
    ultimately show ?thesis using m'(1,3) True by (intro exI [of _ m']) auto
  next
    case False
    with Cons show ?thesis by (auto simp: desired_visit_def)
  qed
qed simp

lemma desired_loop_spec:
  assumes "distinct (map NodeID (concat (map (\<lambda>c. filter runnable (topo_order g c)) cs)))"
  shows "(\<forall>q < length cs. \<forall>j < length (filter runnable (topo_order g (cs ! q))).
      map_of (desired_loop runnable g k cs m) (NodeID (filter runnable (topo_order g (cs ! q)) ! j)) =
        Some (desired_at (k + int q) (int j) (filter runnable (topo_order g (cs ! q)) ! j))) \<and>
    (\<forall>i. i \<notin> NodeID ` set (concat (map (\<lambda>c. filter runnable (topo_order g c)) cs)) \<longrightarrow>
      map_of (desired_loop runnable g k cs m) i = map_of m i)"
  using assms
proof (induction cs arbitrary: k m)
  case (Cons c cs)
  let ?ns = "filter runnable (topo_order g c)" and ?rest = "concat (map (\<lambda>c. filter runnable (topo_order g c)) cs)"
  obtain m' where m': "visit_all (desired_visit runnable k) (topo_order g c) (0, m) = (None, int (length ?ns), m')"
    "\<forall>j < length ?ns. map_of m' (NodeID (?ns ! j)) = Some (desired_at k (int j) (?ns ! j))"
    "\<forall>i. i \<notin> NodeID ` set ?ns \<longrightarrow> map_of m' i = map_of m i"
    using desired_visit_all [of runnable "topo_order g c" k 0 m] Cons.prems by auto
  have loop: "desired_loop runnable g k (c # cs) m = desired_loop runnable g (k + 1) cs m'"
    using m'(1) by (simp add: WalkTopological_def topo_loop_eq topo_order_eq)
  note IH = Cons.IH [of "k + 1" m']
  have here: "map_of (desired_loop runnable g (k + 1) cs m') (NodeID (?ns ! j)) = Some (desired_at k (int j) (?ns ! j))"
    if "j < length ?ns" for j
  proof -
    have "NodeID (?ns ! j) \<in> NodeID ` set ?ns" using that nth_mem by blast
    then have "NodeID (?ns ! j) \<notin> NodeID ` set ?rest" using Cons.prems by auto
    with IH Cons.prems m'(2) that show ?thesis by auto
  qed
  show ?case
    unfolding loop
  proof (intro conjI allI impI)
    fix q j assume "q < length (c # cs)" "j < length (filter runnable (topo_order g ((c # cs) ! q)))"
    then show "map_of (desired_loop runnable g (k + 1) cs m') (NodeID (filter runnable (topo_order g ((c # cs) ! q)) ! j)) =
        Some (desired_at (k + int q) (int j) (filter runnable (topo_order g ((c # cs) ! q)) ! j))"
      using here IH Cons.prems by (cases q) (auto simp: algebra_simps)
  next
    fix i assume "i \<notin> NodeID ` set (concat (map (\<lambda>c. filter runnable (topo_order g c)) (c # cs)))"
    then show "map_of (desired_loop runnable g (k + 1) cs m') i = map_of m i" using IH Cons.prems m'(3) by (simp add: image_Un)
  qed
qed simp

lemma NodeID_inj_vertices: "graph_inv g \<Longrightarrow> inj_on NodeID (vertices g)"
  unfolding inj_on_def graph_inv_def ids_wf_def vertices_def by (metis option.inject)

lemma distinct_concat_nthI:
  assumes "\<And>k. k < length xss \<Longrightarrow> distinct (xss ! k)"
    "\<And>k j. k < length xss \<Longrightarrow> j < length xss \<Longrightarrow> k \<noteq> j \<Longrightarrow> set (xss ! k) \<inter> set (xss ! j) = {}"
  shows "distinct (concat xss)"
  using assms
proof (induction xss)
  case (Cons xs xss)
  have "distinct (concat xss)"
  proof (rule Cons.IH)
    show "distinct (xss ! k)" if "k < length xss" for k using Cons.prems(1) [of "Suc k"] that by simp
    show "set (xss ! k) \<inter> set (xss ! j) = {}" if "k < length xss" "j < length xss" "k \<noteq> j" for k j
      using Cons.prems(2) [of "Suc k" "Suc j"] that by simp
  qed
  moreover have "set xs \<inter> set (xss ! j) = {}" if "j < length xss" for j using Cons.prems(2) [of 0 "Suc j"] that by simp
  then have "set xs \<inter> set (concat xss) = {}" by (auto simp: in_set_conv_nth) (metis disjoint_iff nth_mem)
  moreover have "distinct xs" using Cons.prems(1) [of 0] by simp
  ultimately show ?case by simp
qed simp

lemma groups_nodes:
  assumes g: "graph_inv g" and ac: "acyclic (edge_rel g)"
  shows "distinct (concat (task_groups runnable g))" "set (concat (task_groups runnable g)) = {n \<in> vertices g. runnable n}"
proof -
  let ?cs = "WeaklyConnectedComponents g FilterLeavesFunc"
  have len: "length (task_groups runnable g) = length ?cs" by (simp add: task_groups_def)
  have nth: "task_groups runnable g ! k = filter runnable (topo_order g (?cs ! k))" if "k < length ?cs" for k
    using that by (simp add: task_groups_def)
  show "distinct (concat (task_groups runnable g))"
  proof (rule distinct_concat_nthI, unfold len)
    show "distinct (task_groups runnable g ! k)" if "k < length ?cs" for k
      using topo_order_props [OF g, of "?cs ! k"] that by (simp add: nth)
    show "set (task_groups runnable g ! k) \<inter> set (task_groups runnable g ! j) = {}" if "k < length ?cs" "j < length ?cs" "k \<noteq> j" for k j
      using parts_disjoint [OF g ac that] that by (auto simp: nth)
  qed
  have adj: "adjacent g `` vertices g \<subseteq> vertices g" using graph_inv_endpoints [OF g] by (auto simp: adjacent_def)
  have "set (topo_order g c) \<subseteq> vertices g" if c: "c \<in> set ?cs" for c
  proof -
    obtain a where a: "a \<in> set c" "a \<in> vertices g"
      using WeaklyConnectedComponents_inv [OF g, of FilterLeavesFunc] c unfolding weak_inv_def
      by (metis (no_types, lifting) UN_I list.set_intros(1) mem_Collect_eq neq_Nil_conv set_concat)
    have "(adjacent g)\<^sup>* `` {a} \<subseteq> vertices g" using adj a(2) by (intro Image_rtrancl_subset) auto
    then show ?thesis using part_order [OF g ac c a(1)] by simp
  qed
  moreover have "\<exists>c \<in> set ?cs. n \<in> set (topo_order g c)" if n: "n \<in> vertices g" for n
  proof -
    obtain c a where c: "c \<in> set ?cs" "a \<in> set c" "(a, n) \<in> (adjacent g)\<^sup>*" by (rule part_of [OF g ac n])
    then show ?thesis using part_order [OF g ac c(1,2)] by auto
  qed
  ultimately show "set (concat (task_groups runnable g)) = {n \<in> vertices g. runnable n}"
    by (auto simp: task_groups_def)
qed

lemma desired_lookup:
  assumes g: "graph_inv g" and ac: "acyclic (edge_rel g)"
  shows "map_of (desiredTasksFromGraph runnable g) i = Some d \<longleftrightarrow>
    (\<exists>q j. q < length (task_groups runnable g) \<and> j < length (task_groups runnable g ! q) \<and>
       NodeID (task_groups runnable g ! q ! j) = i \<and> d = desired_at (int q) (int j) (task_groups runnable g ! q ! j))"
proof -
  let ?cs = "WeaklyConnectedComponents g FilterLeavesFunc" and ?gs = "task_groups runnable g"
  have "distinct (map NodeID (concat ?gs))"
    using groups_nodes [OF g ac, of runnable] NodeID_inj_vertices [OF g] by (simp add: distinct_map inj_on_def)
  then have spec: "q < length ?gs \<Longrightarrow> j < length (?gs ! q) \<Longrightarrow>
      map_of (desiredTasksFromGraph runnable g) (NodeID (?gs ! q ! j)) = Some (desired_at (int q) (int j) (?gs ! q ! j))"
    "i \<notin> NodeID ` set (concat ?gs) \<Longrightarrow> map_of (desiredTasksFromGraph runnable g) i = None" for q j i
    using desired_loop_spec [of runnable g ?cs 0 "[]"] by (auto simp: desiredTasksFromGraph_def task_groups_def)
  show ?thesis
  proof (cases "i \<in> NodeID ` set (concat ?gs)")
    case True
    then obtain q j where q: "q < length ?gs" "j < length (?gs ! q)" "NodeID (?gs ! q ! j) = i"
      by (auto simp: in_set_conv_nth)
    have "q' = q \<and> j' = j" if "q' < length ?gs" "j' < length (?gs ! q')" "NodeID (?gs ! q' ! j') = i" for q' j'
      using spec(1) [OF q(1,2)] spec(1) [OF that(1,2)] q(3) that(3) by (simp add: desired_at_def)
    then have "(\<exists>q j. q < length ?gs \<and> j < length (?gs ! q) \<and> NodeID (?gs ! q ! j) = i \<and> d = desired_at (int q) (int j) (?gs ! q ! j)) \<longleftrightarrow>
        d = desired_at (int q) (int j) (?gs ! q ! j)"
      using q by blast
    then show ?thesis using spec(1) [OF q(1,2)] q(3) by auto
  next
    case False
    moreover have "NodeID (?gs ! q ! j) \<in> NodeID ` set (concat ?gs)" if "q < length ?gs" "j < length (?gs ! q)" for q j
      using nth_mem [OF that(1)] nth_mem [OF that(2)] by auto
    ultimately show ?thesis using spec(2) [OF False] by (metis option.distinct(1))
  qed
qed

lemma desired_dom:
  assumes g: "graph_inv g" and ac: "acyclic (edge_rel g)"
  shows "i \<in> dom (map_of (desiredTasksFromGraph runnable g)) \<longleftrightarrow> (\<exists>n \<in> vertices g. runnable n \<and> NodeID n = i)"
proof -
  let ?gs = "task_groups runnable g"
  have "i \<in> dom (map_of (desiredTasksFromGraph runnable g)) \<longleftrightarrow> (\<exists>q j. q < length ?gs \<and> j < length (?gs ! q) \<and> NodeID (?gs ! q ! j) = i)"
    unfolding dom_def using desired_lookup [OF g ac, of runnable i] by auto
  also have "\<dots> \<longleftrightarrow> (\<exists>n \<in> set (concat ?gs). NodeID n = i)" by (fastforce simp: in_set_conv_nth)
  also have "\<dots> \<longleftrightarrow> (\<exists>n \<in> vertices g. runnable n \<and> NodeID n = i)" using groups_nodes(2) [OF g ac, of runnable] by auto
  finally show ?thesis .
qed

lemma filter_before:
  assumes "xs = ys @ n # zs" "m \<in> set ys" "P n" "P m"
  shows "\<exists>j k. k < j \<and> j < length (filter P xs) \<and> filter P xs ! j = n \<and> filter P xs ! k = m"
proof -
  have xs: "filter P xs = filter P ys @ n # filter P zs" using assms(1,3) by simp
  obtain k where "k < length (filter P ys)" "filter P ys ! k = m" using assms(2,4) in_set_conv_nth [of m "filter P ys"] by auto
  then show ?thesis unfolding xs by (intro exI [of _ "length (filter P ys)"] exI [of _ k]) (simp add: nth_append)
qed

lemma desired_edge:
  assumes g: "graph_inv g" and ac: "acyclic (edge_rel g)" and e: "(n, m) \<in> edge_rel g" "runnable n" "runnable m"
  shows "\<exists>dn dm. map_of (desiredTasksFromGraph runnable g) (NodeID n) = Some dn \<and>
    map_of (desiredTasksFromGraph runnable g) (NodeID m) = Some dm \<and>
    dt_runnable dn = n \<and> dt_runnable dm = m \<and> dt_groupID dm = dt_groupID dn \<and> dt_rank dm < dt_rank dn"
proof -
  let ?cs = "WeaklyConnectedComponents g FilterLeavesFunc" and ?gs = "task_groups runnable g"
  obtain c a where c: "c \<in> set ?cs" "a \<in> set c" "(a, n) \<in> (adjacent g)\<^sup>*"
    using part_of [OF g ac] graph_inv_endpoints [OF g e(1)] by blast
  then obtain q where q: "q < length ?cs" "?cs ! q = c" by (auto simp: in_set_conv_nth)
  have "n \<in> set (topo_order g c)" using part_order [OF g ac c(1,2)] c(3) by simp
  then obtain ys zs where order: "topo_order g c = ys @ n # zs" by (meson split_list)
  have "n \<notin> set c" using part_class [OF g c(1,2)] e(1) by (auto simp: FilterLeavesFunc_def)
  then have "m \<in> set ys" using topo_order_props [OF g, of c] deps_first_split [of g "set c" "{}" ys n zs] order e(1) by auto
  from filter_before [OF order this e(2,3)] obtain j k where jk: "k < j" "j < length (?gs ! q)" "?gs ! q ! j = n" "?gs ! q ! k = m"
    using q by (auto simp: task_groups_def)
  have "q < length ?gs" using q(1) by (simp add: task_groups_def)
  then have "map_of (desiredTasksFromGraph runnable g) (NodeID n) = Some (desired_at (int q) (int j) n)"
    "map_of (desiredTasksFromGraph runnable g) (NodeID m) = Some (desired_at (int q) (int k) m)"
    using desired_lookup [OF g ac, of runnable] jk by (metis less_trans)+
  then show ?thesis using jk(1) by (auto simp: desired_at_def)
qed

subsection \<open>The contract of the ranks\<close>

text \<open>
  What the scheduler relies on: the tasks are those of the nodes that can run, and along an edge the group
  stays the same and the rank falls.
\<close>

locale task_ranking =
  fixes runnable :: "node \<Rightarrow> bool" and desired :: "graph \<Rightarrow> (string, desiredTask) gomap"
  assumes desired_nodes: "graph_inv g \<Longrightarrow> acyclic (edge_rel g) \<Longrightarrow>
      i \<in> dom (map_of (desired g)) \<longleftrightarrow> (\<exists>n \<in> vertices g. runnable n \<and> NodeID n = i)"
    and desired_along: "graph_inv g \<Longrightarrow> acyclic (edge_rel g) \<Longrightarrow> (n, m) \<in> edge_rel g \<Longrightarrow> runnable n \<Longrightarrow> runnable m \<Longrightarrow>
      \<exists>dn dm. map_of (desired g) (NodeID n) = Some dn \<and> map_of (desired g) (NodeID m) = Some dm \<and>
        dt_runnable dn = n \<and> dt_runnable dm = m \<and> dt_groupID dm = dt_groupID dn \<and> dt_rank dm < dt_rank dn"
begin

lemma along_edge:
  assumes "graph_inv g" "acyclic (edge_rel g)" "(n, m) \<in> edge_rel g" "runnable n" "runnable m"
    and "map_of (desired g) (NodeID n) = Some dn" "map_of (desired g) (NodeID m) = Some dm"
  shows "dt_groupID dm = dt_groupID dn" "dt_rank dm < dt_rank dn"
  using desired_along [OF assms(1-5)] assms(6,7) by auto

lemma present: "graph_inv g \<Longrightarrow> acyclic (edge_rel g) \<Longrightarrow> n \<in> vertices g \<Longrightarrow> runnable n \<Longrightarrow> NodeID n \<in> dom (map_of (desired g))"
  using desired_nodes by blast

lemma only_present:
  "graph_inv g \<Longrightarrow> acyclic (edge_rel g) \<Longrightarrow> i \<in> dom (map_of (desired g)) \<Longrightarrow> \<exists>n \<in> vertices g. runnable n \<and> NodeID n = i"
  using desired_nodes by blast

end

interpretation ranking: task_ranking runnable "desiredTasksFromGraph runnable" for runnable
  by unfold_locales (fact desired_dom, fact desired_edge)

text \<open>
  C14: the desired tasks of an acyclic graph are those of its nodes that can run, one for each. A node and a
  node it depends on are in one group, and the dependency has the lower rank.
\<close>

theorem desiredTasks_ordered:
  assumes "graph_inv g" "acyclic (edge_rel g)"
  shows "(\<forall>i. i \<in> dom (map_of (desiredTasksFromGraph runnable g)) \<longleftrightarrow> (\<exists>n \<in> vertices g. runnable n \<and> NodeID n = i)) \<and>
    (\<forall>n m. (n, m) \<in> edge_rel g \<longrightarrow> runnable n \<longrightarrow> runnable m \<longrightarrow>
      (\<exists>dn dm. map_of (desiredTasksFromGraph runnable g) (NodeID n) = Some dn \<and> map_of (desiredTasksFromGraph runnable g) (NodeID m) = Some dm \<and>
         dt_runnable dn = n \<and> dt_runnable dm = m \<and> dt_groupID dm = dt_groupID dn \<and> dt_rank dm < dt_rank dn))"
  using desired_dom [OF assms, where runnable = runnable] desired_edge [OF assms, where runnable = runnable] by blast

theorem desiredTasks_ordered_witness:
  "graph_inv chain_graph \<and> acyclic (edge_rel chain_graph) \<and> (na, nb) \<in> edge_rel chain_graph \<and>
   (\<exists>dn dm. map_of (desiredTasksFromGraph (\<lambda>_. True) chain_graph) (NodeID na) = Some dn \<and>
      map_of (desiredTasksFromGraph (\<lambda>_. True) chain_graph) (NodeID nb) = Some dm \<and> dt_rank dm < dt_rank dn)"
proof -
  have "(na, nb) \<in> edge_rel chain_graph" by (simp add: chain_graph_def edge_set_def edge_rel_def)
  with desiredTasks_ordered [OF chain_graph_inv chain_graph_acyclic, of "\<lambda>_. True"] chain_graph_inv chain_graph_acyclic
  show ?thesis by blast
qed

end
