(* ===== verification/Scheduler.thy ===== *)
theory Scheduler
  imports Desired_Tasks
begin

text \<open>
  The scheduler of running nodes, \<^verbatim>\<open>internal/runtime/internal/controller/scheduler.go\<close>. It keeps one task for
  each node that can run. \<open>Synchronize\<close> stops the tasks of nodes that left the graph and starts those of
  new ones, group by group. The goroutines are the steps of a relation, \<open>sched_step\<close>; the invariant
  \<open>sched_inv\<close> holds in every state that it reaches.
\<close>

section \<open>The scheduler\<close>

text \<open>
  Tasks are objects behind pointers: addresses of a store that grows. \<open>started\<close> says that \<open>Start\<close> has been
  called, \<open>exited\<close> that the goroutine of the task has returned from \<open>Run\<close> and closed its channel, \<open>done_called\<close>
  that \<open>onDone\<close> has been called, which \<^verbatim>\<open>sync.Once\<close> allows once.
\<close>

record task =
  task_id :: string
  task_group :: int
  task_rank :: int
  task_node :: node
  started :: bool
  cancelled :: bool
  exited :: bool
  done_called :: bool

text \<open>
  Where \<open>Synchronize\<close> or \<open>Stop\<close> is. While it stops or starts tasks, one goroutine for each group handles the
  tasks of the group one by one: \<open>sch_queues\<close> holds, by group, the tasks that the goroutine has still to
  handle. \<open>sch_graph\<close> and \<open>sch_prev\<close> are the graphs of the latest call of \<open>Synchronize\<close> and of the one before; the
  code does not keep them.
\<close>

datatype sync_phase = SyncIdle | SyncStopping | SyncStarting | SyncHalting | SyncHalted

record Scheduler =
  sch_tasks :: "(string, nat) gomap"
  sch_store :: "nat \<Rightarrow> task"
  sch_next :: nat
  sch_running :: int
  sch_phase :: sync_phase
  sch_queues :: "(int, nat list) gomap"
  sch_graph :: graph
  sch_prev :: graph

definition newTask :: "string \<Rightarrow> desiredTask \<Rightarrow> task" where
  "newTask i dt = \<lparr>task_id = i, task_group = dt_groupID dt, task_rank = dt_rank dt, task_node = dt_runnable dt,
     started = False, cancelled = False, exited = False, done_called = False\<rparr>"

definition NewScheduler :: Scheduler where
  "NewScheduler = \<lparr>sch_tasks = [], sch_store = (\<lambda>_. newTask [] (desired_at 0 0 (Node 0 []))), sch_next = 0, sch_running = 0,
     sch_phase = SyncIdle, sch_queues = [], sch_graph = empty_graph, sch_prev = empty_graph\<rparr>"

definition put_task :: "nat \<Rightarrow> task \<Rightarrow> Scheduler \<Rightarrow> Scheduler" where
  "put_task a t s = s\<lparr>sch_store := (sch_store s)(a := t)\<rparr>"

definition group_add :: "(nat \<Rightarrow> task) \<Rightarrow> nat \<Rightarrow> (int, nat list) gomap \<Rightarrow> (int, nat list) gomap" where
  "group_add st a m =
     (let k = task_group (st a) in map_put k ((case map_of m k of None \<Rightarrow> [] | Some as \<Rightarrow> as) @ [a]) m)"

definition stopOrder :: "(nat \<Rightarrow> task) \<Rightarrow> nat list \<Rightarrow> nat list" where
  "stopOrder st as = sort_key (\<lambda>a. - task_rank (st a)) as"

definition startOrder :: "(nat \<Rightarrow> task) \<Rightarrow> nat list \<Rightarrow> nat list" where
  "startOrder st as = sort_key (\<lambda>a. task_rank (st a)) as"

definition group_queues :: "(nat list \<Rightarrow> nat list) \<Rightarrow> (nat \<Rightarrow> task) \<Rightarrow> nat list \<Rightarrow> (int, nat list) gomap" where
  "group_queues order st as = map (\<lambda>(k, q). (k, order q)) (fold (group_add st) as [])"

text \<open>The first loop of \<open>Synchronize\<close>: a task that stays gets its new group and rank.\<close>

definition keep_task :: "(string, desiredTask) gomap \<Rightarrow> string \<times> nat \<Rightarrow> (nat \<Rightarrow> task) \<Rightarrow> nat \<Rightarrow> task" where
  "keep_task desired e st = (case e of (i, a) \<Rightarrow>
     case map_of desired i of
       Some dt \<Rightarrow> st(a := (st a)\<lparr>task_group := dt_groupID dt, task_rank := dt_rank dt\<rparr>)
     | None \<Rightarrow> st)"

definition sync_begin :: "(node \<Rightarrow> bool) \<Rightarrow> graph \<Rightarrow> Scheduler \<Rightarrow> Scheduler" where
  "sync_begin runnable g s =
     (let desired = desiredTasksFromGraph runnable g;
          st = fold (keep_task desired) (sch_tasks s) (sch_store s);
          leaving = map snd (filter (\<lambda>(i, a). map_of desired i = None) (sch_tasks s))
      in s\<lparr>sch_store := st, sch_queues := group_queues (stopOrder st) st leaving, sch_phase := SyncStopping,
           sch_graph := g, sch_prev := sch_graph s\<rparr>)"

definition launch_task :: "string \<Rightarrow> desiredTask \<Rightarrow> Scheduler \<Rightarrow> Scheduler" where
  "launch_task i dt s = s\<lparr>sch_running := sch_running s + 1, sch_store := (sch_store s)(sch_next s := newTask i dt),
     sch_tasks := map_put i (sch_next s) (sch_tasks s), sch_next := sch_next s + 1\<rparr>"

fun launch_loop :: "(string, desiredTask) gomap \<Rightarrow> Scheduler \<Rightarrow> nat list \<Rightarrow> Scheduler \<times> nat list" where
  "launch_loop [] s as = (s, as)"
| "launch_loop ((i, dt) # ds) s as =
     (if map_of (sch_tasks s) i \<noteq> None then launch_loop ds s as
      else launch_loop ds (launch_task i dt s) (as @ [sch_next s]))"

definition sync_launch :: "(node \<Rightarrow> bool) \<Rightarrow> Scheduler \<Rightarrow> Scheduler" where
  "sync_launch runnable s =
     (case launch_loop (desiredTasksFromGraph runnable (sch_graph s)) s [] of (s, toStart) \<Rightarrow>
        s\<lparr>sch_queues := group_queues (startOrder (sch_store s)) (sch_store s) toStart, sch_phase := SyncStarting\<rparr>)"

definition Stop_begin :: "Scheduler \<Rightarrow> Scheduler" where
  "Stop_begin s = s\<lparr>sch_queues := group_queues (stopOrder (sch_store s)) (sch_store s) (map snd (sch_tasks s)), sch_phase := SyncHalting\<rparr>"

definition onDone :: "nat \<Rightarrow> Scheduler \<Rightarrow> Scheduler" where
  "onDone a s = (put_task a ((sch_store s a)\<lparr>done_called := True\<rparr>) s)
     \<lparr>sch_running := sch_running s - 1, sch_tasks := map_del (task_id (sch_store s a)) (sch_tasks s)\<rparr>"

definition next_task :: "int \<Rightarrow> nat list \<Rightarrow> Scheduler \<Rightarrow> Scheduler" where
  "next_task k q s = s\<lparr>sch_queues := map_put k q (sch_queues s)\<rparr>"

definition queues_empty :: "Scheduler \<Rightarrow> bool" where
  "queues_empty s \<longleftrightarrow> (\<forall>e \<in> set (sch_queues s). map_of (sch_queues s) (fst e) = Some [])"

inductive sched_step :: "(node \<Rightarrow> bool) \<Rightarrow> Scheduler \<Rightarrow> Scheduler \<Rightarrow> bool" for runnable where
  synchronize: "sch_phase s = SyncIdle \<Longrightarrow> graph_inv g \<Longrightarrow> acyclic (edge_rel g) \<Longrightarrow> sched_step runnable s (sync_begin runnable g s)"
| stop_cancel: "sch_phase s = SyncStopping \<or> sch_phase s = SyncHalting \<Longrightarrow> map_of (sch_queues s) k = Some (a # q) \<Longrightarrow>
    \<not> cancelled (sch_store s a) \<Longrightarrow> sched_step runnable s (put_task a ((sch_store s a)\<lparr>cancelled := True\<rparr>) s)"
| stop_exited: "sch_phase s = SyncStopping \<or> sch_phase s = SyncHalting \<Longrightarrow> map_of (sch_queues s) k = Some (a # q) \<Longrightarrow>
    exited (sch_store s a) \<Longrightarrow> sched_step runnable s (next_task k q s)"
| stop_deadline: "sch_phase s = SyncStopping \<or> sch_phase s = SyncHalting \<Longrightarrow> map_of (sch_queues s) k = Some (a # q) \<Longrightarrow>
    cancelled (sch_store s a) \<Longrightarrow>
    sched_step runnable s (next_task k q (if done_called (sch_store s a) then s else onDone a s))"
| launch: "sch_phase s = SyncStopping \<Longrightarrow> queues_empty s \<Longrightarrow> sched_step runnable s (sync_launch runnable s)"
| start: "sch_phase s = SyncStarting \<Longrightarrow> map_of (sch_queues s) k = Some (a # q) \<Longrightarrow>
    sched_step runnable s (next_task k q (put_task a ((sch_store s a)\<lparr>started := True\<rparr>) s))"
| sync_end: "sch_phase s = SyncStarting \<Longrightarrow> queues_empty s \<Longrightarrow> sched_step runnable s (s\<lparr>sch_phase := SyncIdle\<rparr>)"
| halt: "sch_phase s = SyncIdle \<Longrightarrow> sched_step runnable s (Stop_begin s)"
| halted: "sch_phase s = SyncHalting \<Longrightarrow> sch_running s = 0 \<Longrightarrow> sched_step runnable s (s\<lparr>sch_phase := SyncHalted\<rparr>)"
| task_exit: "a < sch_next s \<Longrightarrow> started (sch_store s a) \<Longrightarrow> \<not> exited (sch_store s a) \<Longrightarrow>
    sched_step runnable s (put_task a ((sch_store s a)\<lparr>cancelled := True, exited := True\<rparr>) s)"
| task_done: "a < sch_next s \<Longrightarrow> exited (sch_store s a) \<Longrightarrow> \<not> done_called (sch_store s a) \<Longrightarrow> sched_step runnable s (onDone a s)"

definition sched_reach :: "(node \<Rightarrow> bool) \<Rightarrow> Scheduler \<Rightarrow> bool" where
  "sched_reach runnable s \<longleftrightarrow> (sched_step runnable)\<^sup>*\<^sup>* NewScheduler s"

section \<open>Groups\<close>

lemma map_of_groups: "map_of (fold (group_add st) as []) k =
    (if filter (\<lambda>a. task_group (st a) = k) as = [] then None else Some (filter (\<lambda>a. task_group (st a) = k) as))"
proof (induction as rule: rev_induct)
  case (snoc a as)
  then show ?case by (auto simp: group_add_def Let_def)
qed simp

lemma group_queues_Some:
  "map_of (group_queues order st as) k = Some q \<longleftrightarrow>
     (\<exists>a \<in> set as. task_group (st a) = k) \<and> q = order (filter (\<lambda>a. task_group (st a) = k) as)"
proof -
  have "map_of (group_queues order st as) = (\<lambda>k. map_option order (map_of (fold (group_add st) as []) k))"
    by (rule ext) (simp add: group_queues_def)
  then show ?thesis by (auto simp: map_of_groups filter_empty_conv)
qed

section \<open>Invariant\<close>

definition managed :: "Scheduler \<Rightarrow> nat \<Rightarrow> bool" where
  "managed s a \<longleftrightarrow> a < sch_next s \<and> \<not> done_called (sch_store s a)"

definition queued :: "Scheduler \<Rightarrow> nat \<Rightarrow> bool" where
  "queued s a \<longleftrightarrow> (\<exists>k q. map_of (sch_queues s) k = Some q \<and> a \<in> set q)"

text \<open>The group and the rank of a task are those of the graph.\<close>

definition ranked :: "(node \<Rightarrow> bool) \<Rightarrow> graph \<Rightarrow> task \<Rightarrow> bool" where
  "ranked runnable g t \<longleftrightarrow> (\<exists>n. map_of (desiredTasksFromGraph runnable g) (task_id t) = Some (desired_at (task_group t) (task_rank t) n))"

definition base_inv :: "Scheduler \<Rightarrow> bool" where
  "base_inv s \<longleftrightarrow> map_wf (sch_tasks s) \<and>
     (\<forall>i a. map_of (sch_tasks s) i = Some a \<longleftrightarrow> managed s a \<and> task_id (sch_store s a) = i) \<and>
     sch_running s = int (length (sch_tasks s)) \<and>
     (\<forall>a < sch_next s. exited (sch_store s a) \<longrightarrow> started (sch_store s a) \<and> cancelled (sch_store s a)) \<and>
     graph_inv (sch_graph s) \<and> acyclic (edge_rel (sch_graph s)) \<and> graph_inv (sch_prev s) \<and> acyclic (edge_rel (sch_prev s))"

definition queues_ordered :: "(task \<Rightarrow> int) \<Rightarrow> Scheduler \<Rightarrow> bool" where
  "queues_ordered key s \<longleftrightarrow> (\<forall>k q. map_of (sch_queues s) k = Some q \<longrightarrow>
     sorted (map (\<lambda>a. key (sch_store s a)) q) \<and> distinct q \<and> (\<forall>a \<in> set q. a < sch_next s \<and> task_group (sch_store s a) = k))"

abbreviation falling :: "task \<Rightarrow> int" where
  "falling t \<equiv> - task_rank t"

definition all_started :: "Scheduler \<Rightarrow> bool" where
  "all_started s \<longleftrightarrow> (\<forall>a < sch_next s. started (sch_store s a))"

definition managed_ranked :: "(node \<Rightarrow> bool) \<Rightarrow> Scheduler \<Rightarrow> bool" where
  "managed_ranked runnable s \<longleftrightarrow> (\<forall>a. managed s a \<longrightarrow> exited (sch_store s a) \<or> ranked runnable (sch_graph s) (sch_store s a))"

text \<open>
  While tasks are stopped, those of \<open>g\<close> are ranked by \<open>g\<close>, the others wait in the queues, by their old ranks,
  until they have exited.
\<close>

definition stop_inv :: "(node \<Rightarrow> bool) \<Rightarrow> (string \<Rightarrow> bool) \<Rightarrow> graph \<Rightarrow> Scheduler \<Rightarrow> bool" where
  "stop_inv runnable stays g s \<longleftrightarrow> all_started s \<and> queues_ordered falling s \<and>
     (\<forall>a. managed s a \<longrightarrow> stays (task_id (sch_store s a)) \<or> queued s a \<or> exited (sch_store s a)) \<and>
     (\<forall>a. queued s a \<longrightarrow> exited (sch_store s a) \<or> ranked runnable g (sch_store s a))"

definition desired_id :: "(node \<Rightarrow> bool) \<Rightarrow> graph \<Rightarrow> string \<Rightarrow> bool" where
  "desired_id runnable g i \<longleftrightarrow> map_of (desiredTasksFromGraph runnable g) i \<noteq> None"

definition phase_inv :: "(node \<Rightarrow> bool) \<Rightarrow> Scheduler \<Rightarrow> bool" where
  "phase_inv runnable s \<longleftrightarrow> (case sch_phase s of
     SyncIdle \<Rightarrow> all_started s \<and> managed_ranked runnable s
   | SyncStopping \<Rightarrow> stop_inv runnable (desired_id runnable (sch_graph s)) (sch_prev s) s \<and>
       (\<forall>a. managed s a \<longrightarrow> desired_id runnable (sch_graph s) (task_id (sch_store s a)) \<longrightarrow> ranked runnable (sch_graph s) (sch_store s a))
   | SyncStarting \<Rightarrow> queues_ordered task_rank s \<and> (\<forall>a < sch_next s. \<not> started (sch_store s a) \<longrightarrow> queued s a) \<and>
       (\<forall>a. queued s a \<longrightarrow> managed s a \<and> \<not> started (sch_store s a)) \<and> managed_ranked runnable s
   | SyncHalting \<Rightarrow> stop_inv runnable (\<lambda>_. False) (sch_graph s) s
   | SyncHalted \<Rightarrow> sch_tasks s = [])"

definition sched_inv :: "(node \<Rightarrow> bool) \<Rightarrow> Scheduler \<Rightarrow> bool" where
  "sched_inv runnable s \<longleftrightarrow> base_inv s \<and> phase_inv runnable s"

lemmas inv_defs = sched_inv_def base_inv_def phase_inv_def stop_inv_def managed_ranked_def all_started_def

section \<open>The steps keep the invariant\<close>

text \<open>Changes of the flags of a task.\<close>

definition same_place :: "task \<Rightarrow> task \<Rightarrow> bool" where
  "same_place t t' \<longleftrightarrow> task_id t' = task_id t \<and> task_group t' = task_group t \<and> task_rank t' = task_rank t \<and> done_called t' = done_called t"

lemma put_task_simps [simp]:
  "sch_tasks (put_task a t s) = sch_tasks s" "sch_next (put_task a t s) = sch_next s" "sch_running (put_task a t s) = sch_running s"
  "sch_phase (put_task a t s) = sch_phase s" "sch_queues (put_task a t s) = sch_queues s" "sch_graph (put_task a t s) = sch_graph s"
  "sch_prev (put_task a t s) = sch_prev s" "sch_store (put_task a t s) = (sch_store s)(a := t)" "queued (put_task a t s) b = queued s b"
  by (simp_all add: put_task_def queued_def)

lemma put_task_managed: "done_called t = done_called (sch_store s a) \<Longrightarrow> managed (put_task a t s) b = managed s b"
  by (auto simp: managed_def)

lemma put_task_queues_ordered: "same_place (sch_store s a) t \<Longrightarrow> queues_ordered key s \<Longrightarrow> (\<And>t t'. same_place t t' \<Longrightarrow> key t' = key t) \<Longrightarrow>
    queues_ordered key (put_task a t s)"
proof -
  assume a: "same_place (sch_store s a) t" "queues_ordered key s" "\<And>t t'. same_place t t' \<Longrightarrow> key t' = key t"
  have "(\<lambda>b. key (sch_store (put_task a t s) b)) = (\<lambda>b. key (sch_store s b))" using a(1,3) by (auto simp: fun_eq_iff)
  moreover have "task_group (sch_store (put_task a t s) b) = task_group (sch_store s b)" for b using a(1) by (simp add: same_place_def)
  ultimately show "queues_ordered key (put_task a t s)" using a(2) by (simp add: queues_ordered_def del: put_task_simps(8))
qed

lemma key_place: "same_place t t' \<Longrightarrow> falling t' = falling t" "same_place t t' \<Longrightarrow> task_rank t' = task_rank t"
  by (simp_all add: same_place_def)

text \<open>A flag is set that the phase does not depend on: cancelling, and the exit of a started task.\<close>

lemma put_task_inv:
  assumes inv: "sched_inv runnable s" and t: "same_place (sch_store s a) t" "started t = started (sch_store s a)"
    "exited (sch_store s a) \<longrightarrow> exited t" "exited t \<longrightarrow> cancelled t \<and> started t"
  shows "sched_inv runnable (put_task a t s)"
proof -
  have m: "managed (put_task a t s) b = managed s b" for b using t(1) by (intro put_task_managed) (simp add: same_place_def)
  have r: "ranked runnable g (sch_store (put_task a t s) b) = ranked runnable g (sch_store s b)" for g b
    using t(1) by (simp add: same_place_def ranked_def)
  have i: "task_id (sch_store (put_task a t s) b) = task_id (sch_store s b)" for b using t(1) by (simp add: same_place_def)
  have st: "started (sch_store (put_task a t s) b) = started (sch_store s b)" for b using t(2) by simp
  have e: "exited (sch_store s b) \<Longrightarrow> exited (sch_store (put_task a t s) b)" for b using t(3) by auto
  have b: "base_inv (put_task a t s)"
    using inv t(4) unfolding sched_inv_def base_inv_def m i by (simp add: put_task_simps)
  have q: "queues_ordered falling s \<Longrightarrow> queues_ordered falling (put_task a t s)" "queues_ordered task_rank s \<Longrightarrow> queues_ordered task_rank (put_task a t s)"
    using put_task_queues_ordered [OF t(1)] key_place by blast+
  have p: "phase_inv runnable s" using inv by (simp add: sched_inv_def)
  have "phase_inv runnable (put_task a t s)"
    using p e q unfolding phase_inv_def stop_inv_def managed_ranked_def all_started_def m r i st put_task_simps(1-7,9)
    by (cases "sch_phase s"; simp only: sync_phase.case; blast)
  with b show ?thesis by (simp add: sched_inv_def)
qed

lemma managed_unique:
  "base_inv s \<Longrightarrow> managed s a \<Longrightarrow> managed s b \<Longrightarrow> task_id (sch_store s a) = task_id (sch_store s b) \<Longrightarrow> a = b"
  unfolding base_inv_def by (metis option.inject)

lemma onDone_simps [simp]:
  "sch_next (onDone a s) = sch_next s" "sch_phase (onDone a s) = sch_phase s" "sch_queues (onDone a s) = sch_queues s"
  "sch_graph (onDone a s) = sch_graph s" "sch_prev (onDone a s) = sch_prev s" "queued (onDone a s) b = queued s b"
  "sch_store (onDone a s) = (sch_store s)(a := (sch_store s a)\<lparr>done_called := True\<rparr>)"
  "sch_tasks (onDone a s) = map_del (task_id (sch_store s a)) (sch_tasks s)" "sch_running (onDone a s) = sch_running s - 1"
  by (simp_all add: onDone_def queued_def)

lemma onDone_managed: "managed (onDone a s) b \<longleftrightarrow> managed s b \<and> b \<noteq> a"
  by (auto simp: managed_def)

lemma length_map_del: "map_wf m \<Longrightarrow> map_of m k \<noteq> None \<Longrightarrow> length (map_del k m) + 1 = length m"
proof (induction m)
  case (Cons e m)
  obtain k' v where e: "e = (k', v)" by fastforce
  show ?case
  proof (cases "k' = k")
    case True
    then have "map_del k m = m" using Cons.prems(1) e by (auto simp: map_del_def map_wf_def intro: delete_idem)
    with True e show ?thesis by (simp add: map_del_def)
  next
    case False
    with Cons e show ?thesis by (simp add: map_del_def map_wf_def)
  qed
qed simp

lemma onDone_inv:
  assumes inv: "sched_inv runnable s" and a: "managed s a" "started (sch_store s a)"
  shows "sched_inv runnable (onDone a s)"
proof -
  have flags: "task_id (sch_store (onDone a s) b) = task_id (sch_store s b)" "started (sch_store (onDone a s) b) = started (sch_store s b)"
    "exited (sch_store (onDone a s) b) = exited (sch_store s b)" "cancelled (sch_store (onDone a s) b) = cancelled (sch_store s b)"
    "ranked runnable g (sch_store (onDone a s) b) = ranked runnable g (sch_store s b)" for b g
    by (simp_all add: ranked_def)
  have base: "base_inv s" and p: "phase_inv runnable s" using inv by (simp_all add: sched_inv_def)
  have at: "map_of (sch_tasks s) (task_id (sch_store s a)) = Some a" using base a(1) by (simp add: base_inv_def)
  have "map_of (sch_tasks (onDone a s)) i = Some b \<longleftrightarrow> managed (onDone a s) b \<and> task_id (sch_store (onDone a s) b) = i" for i b
  proof (cases "i = task_id (sch_store s a)")
    case True
    then show ?thesis unfolding flags onDone_managed onDone_simps(8) using managed_unique [OF base a(1), of b] by auto
  next
    case False
    with base show ?thesis unfolding flags onDone_managed onDone_simps(8) by (auto simp: base_inv_def)
  qed
  moreover have "length (sch_tasks s) = length (sch_tasks (onDone a s)) + 1"
    using length_map_del [of "sch_tasks s" "task_id (sch_store s a)"] base at by (simp add: base_inv_def)
  ultimately have b: "base_inv (onDone a s)"
    using base unfolding base_inv_def flags by simp
  have q: "queues_ordered key (onDone a s)" if "queues_ordered key s" "\<And>t. key (t\<lparr>done_called := True\<rparr>) = key t" for key
  proof -
    have "(\<lambda>b. key (sch_store (onDone a s) b)) = (\<lambda>b. key (sch_store s b))" using that(2) by (auto simp: fun_eq_iff)
    moreover have "task_group (sch_store (onDone a s) b) = task_group (sch_store s b)" for b by simp
    ultimately show ?thesis using that(1) by (simp add: queues_ordered_def del: onDone_simps(7))
  qed
  have "phase_inv runnable (onDone a s)"
    using p a(2) q [of falling] q [of task_rank] at
    unfolding phase_inv_def stop_inv_def managed_ranked_def all_started_def flags onDone_managed onDone_simps(1-6,8)
    by (cases "sch_phase s") auto
  with b show ?thesis by (simp add: sched_inv_def)
qed


text \<open>The goroutine of a group takes its next task.\<close>

lemma next_task_simps [simp]:
  "sch_tasks (next_task k q s) = sch_tasks s" "sch_next (next_task k q s) = sch_next s" "sch_running (next_task k q s) = sch_running s"
  "sch_phase (next_task k q s) = sch_phase s" "sch_store (next_task k q s) = sch_store s" "sch_graph (next_task k q s) = sch_graph s"
  "sch_prev (next_task k q s) = sch_prev s" "managed (next_task k q s) b = managed s b" "base_inv (next_task k q s) = base_inv s"
  "sch_queues (next_task k q s) = map_put k q (sch_queues s)"
  by (simp_all add: next_task_def managed_def base_inv_def)

lemma next_task_queued:
  assumes "queues_ordered key s" "map_of (sch_queues s) k = Some (a # q)"
  shows "queued (next_task k q s) b \<longleftrightarrow> queued s b \<and> b \<noteq> a"
proof
  assume "queued (next_task k q s) b"
  then obtain k' q' where k': "(if k' = k then Some q else map_of (sch_queues s) k') = Some q'" "b \<in> set q'" by (auto simp: queued_def)
  show "queued s b \<and> b \<noteq> a"
  proof (cases "k' = k")
    case True
    with k' assms show ?thesis by (fastforce simp: queues_ordered_def queued_def)
  next
    case False
    with k' have "map_of (sch_queues s) k' = Some q'" by simp
    with False k'(2) assms show ?thesis unfolding queues_ordered_def queued_def by (metis list.set_intros(1))
  qed
next
  assume b: "queued s b \<and> b \<noteq> a"
  then obtain k' q' where "map_of (sch_queues s) k' = Some q'" "b \<in> set q'" by (auto simp: queued_def)
  with b assms(2) show "queued (next_task k q s) b"
    unfolding queued_def by (cases "k' = k") (auto intro: exI [of _ k] exI [of _ k'])
qed

lemma next_task_queues_ordered: "queues_ordered key s \<Longrightarrow> map_of (sch_queues s) k = Some (a # q) \<Longrightarrow> queues_ordered key (next_task k q s)"
  by (fastforce simp: queues_ordered_def)

lemma next_task_inv:
  assumes inv: "sched_inv runnable s" and q: "map_of (sch_queues s) k = Some (a # q)"
    and a: "exited (sch_store s a) \<or> \<not> managed s a" and p: "sch_phase s = SyncStopping \<or> sch_phase s = SyncHalting"
  shows "sched_inv runnable (next_task k q s)"
proof -
  have "stop_inv runnable stays g (next_task k q s)" if i: "stop_inv runnable stays g s" for stays g
  proof -
    have qi: "queues_ordered falling s" using i by (simp add: stop_inv_def)
    show ?thesis
      using i a next_task_queues_ordered [OF qi q] unfolding stop_inv_def all_started_def next_task_queued [OF qi q] next_task_simps by blast
  qed
  with inv p show ?thesis by (auto simp: sched_inv_def phase_inv_def)
qed

lemma start_inv:
  assumes inv: "sched_inv runnable s" and q: "map_of (sch_queues s) k = Some (a # q)" and p: "sch_phase s = SyncStarting"
  shows "sched_inv runnable (next_task k q (put_task a ((sch_store s a)\<lparr>started := True\<rparr>) s))"
proof -
  let ?t = "(sch_store s a)\<lparr>started := True\<rparr>"
  let ?s = "put_task a ?t s"
  have place: "same_place (sch_store s a) ?t" by (simp add: same_place_def)
  have qi: "queues_ordered task_rank s" and ph: "\<forall>a < sch_next s. \<not> started (sch_store s a) \<longrightarrow> queued s a"
    "\<forall>a. queued s a \<longrightarrow> managed s a \<and> \<not> started (sch_store s a)" "managed_ranked runnable s"
    using inv p by (simp_all add: sched_inv_def phase_inv_def)
  have m: "managed ?s b = managed s b" for b by (rule put_task_managed) simp
  have qi': "queues_ordered task_rank ?s" using put_task_queues_ordered [OF place qi] key_place(2) by blast
  have q': "map_of (sch_queues ?s) k = Some (a # q)" using q by simp
  have r: "ranked runnable g (sch_store ?s b) = ranked runnable g (sch_store s b)" "exited (sch_store ?s b) = exited (sch_store s b)"
    "task_id (sch_store ?s b) = task_id (sch_store s b)" "cancelled (sch_store ?s b) = cancelled (sch_store s b)"
    "started (sch_store ?s b) \<longleftrightarrow> started (sch_store s b) \<or> b = a" for g b
    by (simp_all add: ranked_def)
  have "base_inv ?s" using inv unfolding sched_inv_def base_inv_def m r put_task_simps(1-7) by blast
  moreover have "phase_inv runnable (next_task k q ?s)"
    using ph next_task_queues_ordered [OF qi' q'] p
    unfolding phase_inv_def managed_ranked_def next_task_queued [OF qi' q'] next_task_simps put_task_simps(1-7,9) m r
    by (simp only: sync_phase.case) blast
  ultimately show ?thesis by (simp add: sched_inv_def)
qed


text \<open>New queues.\<close>

lemma group_queues_inv:
  assumes "sch_queues s = group_queues (sort_key (\<lambda>a. key (sch_store s a))) (sch_store s) as" "distinct as" "\<forall>a \<in> set as. a < sch_next s"
  shows "queues_ordered key s" "queued s b \<longleftrightarrow> b \<in> set as"
  using assms by (auto simp: queues_ordered_def queued_def group_queues_Some)

lemma tasks_addresses:
  assumes "base_inv s"
  shows "(i, a) \<in> set (sch_tasks s) \<longleftrightarrow> managed s a \<and> task_id (sch_store s a) = i" "distinct (map snd (sch_tasks s))"
proof -
  have wf: "map_wf (sch_tasks s)" and at: "map_of (sch_tasks s) i = Some a \<longleftrightarrow> managed s a \<and> task_id (sch_store s a) = i" for i a
    using assms by (simp_all add: base_inv_def)
  show mem: "(i, a) \<in> set (sch_tasks s) \<longleftrightarrow> managed s a \<and> task_id (sch_store s a) = i" for i a
    using map_wf_in_set [OF wf] at by blast
  have "distinct (sch_tasks s)" using wf by (simp add: map_wf_def distinct_map)
  moreover have "inj_on snd (set (sch_tasks s))" unfolding inj_on_def using mem by auto
  ultimately show "distinct (map snd (sch_tasks s))" by (simp add: distinct_map)
qed

lemma Stop_begin_inv:
  assumes inv: "sched_inv runnable s" and p: "sch_phase s = SyncIdle"
  shows "sched_inv runnable (Stop_begin s)"
proof -
  let ?s = "Stop_begin s"
  have same: "sch_store ?s = sch_store s" "sch_next ?s = sch_next s" "sch_graph ?s = sch_graph s" "sch_phase ?s = SyncHalting"
    "managed ?s b = managed s b" "base_inv ?s = base_inv s" for b
    by (simp_all add: Stop_begin_def managed_def base_inv_def)
  have base: "base_inv s" and ph: "all_started s" "managed_ranked runnable s"
    using inv p by (simp_all add: sched_inv_def phase_inv_def)
  note tasks = tasks_addresses [OF base]
  have as: "b \<in> set (map snd (sch_tasks s)) \<longleftrightarrow> managed s b" for b
  proof -
    have "b \<in> set (map snd (sch_tasks s)) \<longleftrightarrow> (\<exists>i. (i, b) \<in> set (sch_tasks s))" by force
    then show ?thesis by (simp add: tasks(1))
  qed
  have below: "\<forall>a \<in> set (map snd (sch_tasks s)). a < sch_next ?s" unfolding Ball_def as same by (simp add: managed_def)
  have "sch_queues ?s = group_queues (sort_key (\<lambda>a. falling (sch_store ?s a))) (sch_store ?s) (map snd (sch_tasks s))"
    by (simp add: Stop_begin_def stopOrder_def [abs_def])
  from group_queues_inv [of ?s falling, OF this tasks(2) below] have q: "queues_ordered falling ?s" "queued ?s b \<longleftrightarrow> managed s b" for b
    unfolding as .
  show ?thesis
    using base ph q(1) unfolding sched_inv_def phase_inv_def stop_inv_def all_started_def managed_ranked_def same q(2)
    by (simp only: sync_phase.case) blast
qed

lemma fold_keep_task:
  assumes "distinct (map snd es)"
  shows "fold (keep_task desired) es st b =
    (case List.find (\<lambda>e. snd e = b) es of None \<Rightarrow> st b
     | Some e \<Rightarrow> (case map_of desired (fst e) of None \<Rightarrow> st b | Some dt \<Rightarrow> (st b)\<lparr>task_group := dt_groupID dt, task_rank := dt_rank dt\<rparr>))"
  using assms
proof (induction es arbitrary: st)
  case (Cons e es)
  obtain i a where e: "e = (i, a)" by fastforce
  have "List.find (\<lambda>e. snd e = a) es = None" using Cons.prems e by (force simp: find_None_iff)
  with Cons e show ?case by (auto simp: keep_task_def split: option.splits)
qed simp

lemma map_wf_desired_loop: "map_wf m \<Longrightarrow> map_wf (desired_loop runnable g k cs m)"
proof (induction cs arbitrary: k m)
  case (Cons c cs)
  have "map_wf (snd (snd (visit_all (desired_visit runnable k) ns (r, m))))" if "map_wf m" for ns r m
    using that by (induction ns arbitrary: r m) (auto simp: desired_visit_def split: prod.splits)
  with Cons show ?case by (simp add: WalkTopological_def topo_loop_eq)
qed simp

lemma map_wf_desired: "map_wf (desiredTasksFromGraph runnable g)"
  by (simp add: desiredTasksFromGraph_def map_wf_desired_loop)


lemma find_address:
  assumes "base_inv s"
  shows "List.find (\<lambda>e. snd e = b) (sch_tasks s) = (if managed s b then Some (task_id (sch_store s b), b) else None)"
proof (cases "List.find (\<lambda>e. snd e = b) (sch_tasks s)")
  case None
  then have "(task_id (sch_store s b), b) \<notin> set (sch_tasks s)" by (auto simp: find_None_iff)
  with None show ?thesis using tasks_addresses(1) [OF assms] by simp
next
  case (Some e)
  then have "e \<in> set (sch_tasks s)" "snd e = b" by (auto simp: find_Some_iff)
  with Some show ?thesis using tasks_addresses(1) [OF assms, of "fst e" b] by (cases e) auto
qed

definition kept :: "(string, desiredTask) gomap \<Rightarrow> task \<Rightarrow> task" where
  "kept desired t = (case map_of desired (task_id t) of None \<Rightarrow> t | Some dt \<Rightarrow> t\<lparr>task_group := dt_groupID dt, task_rank := dt_rank dt\<rparr>)"

lemma kept_simps [simp]:
  "task_id (kept d t) = task_id t" "started (kept d t) = started t" "cancelled (kept d t) = cancelled t" "exited (kept d t) = exited t"
  "done_called (kept d t) = done_called t" "map_of d (task_id t) = None \<Longrightarrow> kept d t = t"
  by (simp_all add: kept_def split: option.split)

lemma kept_ranked: "desired_id runnable g (task_id t) \<Longrightarrow> ranked runnable g (kept (desiredTasksFromGraph runnable g) t)"
proof -
  assume "desired_id runnable g (task_id t)"
  then obtain dt where "map_of (desiredTasksFromGraph runnable g) (task_id t) = Some dt" by (auto simp: desired_id_def)
  then show ?thesis unfolding ranked_def by (intro exI [of _ "dt_runnable dt"]) (simp add: kept_def desired_at_def)
qed

lemma sync_begin_fields [simp]:
  "sch_next (sync_begin runnable g s) = sch_next s" "sch_graph (sync_begin runnable g s) = g" "sch_prev (sync_begin runnable g s) = sch_graph s"
  "sch_phase (sync_begin runnable g s) = SyncStopping" "sch_tasks (sync_begin runnable g s) = sch_tasks s"
  "sch_running (sync_begin runnable g s) = sch_running s"
  by (simp_all add: sync_begin_def Let_def)

lemma sync_begin_view:
  assumes base: "base_inv s"
  shows "sch_store (sync_begin runnable g s) b =
      (if managed s b then kept (desiredTasksFromGraph runnable g) (sch_store s b) else sch_store s b)"
    and "queues_ordered falling (sync_begin runnable g s)"
    and "queued (sync_begin runnable g s) b \<longleftrightarrow> managed s b \<and> \<not> desired_id runnable g (task_id (sch_store s b))"
proof -
  let ?s = "sync_begin runnable g s" and ?d = "desiredTasksFromGraph runnable g"
  let ?as = "map snd (filter (\<lambda>(i, a). map_of ?d i = None) (sch_tasks s))"
  note tasks = tasks_addresses [OF base]
  show "sch_store ?s b = (if managed s b then kept ?d (sch_store s b) else sch_store s b)" for b
    by (simp add: sync_begin_def Let_def fold_keep_task [OF tasks(2)] find_address [OF base] kept_def)
  have as: "b \<in> set ?as \<longleftrightarrow> managed s b \<and> \<not> desired_id runnable g (task_id (sch_store s b))" for b
  proof -
    have "b \<in> set ?as \<longleftrightarrow> (\<exists>i. (i, b) \<in> set (sch_tasks s) \<and> map_of ?d i = None)" by force
    then show ?thesis by (simp add: tasks(1) desired_id_def)
  qed
  have dist: "distinct ?as" using tasks(2) by (rule distinct_map_filter)
  have below: "\<forall>a \<in> set ?as. a < sch_next ?s" unfolding Ball_def as sync_begin_fields by (simp add: managed_def)
  have "sch_queues ?s = group_queues (sort_key (\<lambda>a. falling (sch_store ?s a))) (sch_store ?s) ?as"
    by (simp add: sync_begin_def Let_def stopOrder_def [abs_def])
  from group_queues_inv [of ?s falling, OF this dist below]
  show "queues_ordered falling ?s" "queued ?s b \<longleftrightarrow> managed s b \<and> \<not> desired_id runnable g (task_id (sch_store s b))"
    unfolding as by blast+
qed

lemma sync_begin_inv:
  assumes inv: "sched_inv runnable s" and p: "sch_phase s = SyncIdle" and g: "graph_inv g" "acyclic (edge_rel g)"
  shows "sched_inv runnable (sync_begin runnable g s)"
proof -
  let ?s = "sync_begin runnable g s"
  have base: "base_inv s" and ph: "all_started s" "managed_ranked runnable s"
    using inv p by (simp_all add: sched_inv_def phase_inv_def)
  note view = sync_begin_view [OF base, of runnable g]
  have flags: "task_id (sch_store ?s b) = task_id (sch_store s b)" "started (sch_store ?s b) = started (sch_store s b)"
    "exited (sch_store ?s b) = exited (sch_store s b)" "cancelled (sch_store ?s b) = cancelled (sch_store s b)"
    "done_called (sch_store ?s b) = done_called (sch_store s b)" for b
    by (simp_all add: view(1))
  have m: "managed ?s b = managed s b" for b unfolding managed_def sync_begin_fields flags ..
  have leave: "ranked runnable h (sch_store ?s b) = ranked runnable h (sch_store s b)" if "\<not> desired_id runnable g (task_id (sch_store s b))" for h b
    using that by (simp add: view(1) desired_id_def)
  have stay: "ranked runnable g (sch_store ?s b)" if "managed s b" "desired_id runnable g (task_id (sch_store s b))" for b
    using that by (simp add: view(1) kept_ranked)
  have "base_inv ?s" using base g unfolding base_inv_def sync_begin_fields m flags by blast
  moreover have "stop_inv runnable (desired_id runnable g) (sch_graph s) ?s"
    using ph view(2) leave unfolding stop_inv_def all_started_def managed_ranked_def m sync_begin_fields flags view(3) by blast
  ultimately show ?thesis
    unfolding sched_inv_def phase_inv_def sync_begin_fields m flags using stay by simp
qed

text \<open>Launching: new tasks get new addresses.\<close>

lemma launch_task_simps [simp]:
  "sch_running (launch_task i dt s) = sch_running s + 1" "sch_store (launch_task i dt s) = (sch_store s)(sch_next s := newTask i dt)"
  "sch_tasks (launch_task i dt s) = map_put i (sch_next s) (sch_tasks s)" "sch_next (launch_task i dt s) = sch_next s + 1"
  "sch_graph (launch_task i dt s) = sch_graph s" "sch_prev (launch_task i dt s) = sch_prev s"
  by (simp_all add: launch_task_def)

lemma launch_task_inv:
  assumes base: "base_inv s" and i: "map_of (sch_tasks s) i = None"
  shows "base_inv (launch_task i dt s)"
proof -
  have m: "managed (launch_task i dt s) b \<longleftrightarrow> managed s b \<or> b = sch_next s" for b
    by (auto simp: managed_def newTask_def less_Suc_eq)
  have idle: "\<not> managed s (sch_next s)" by (simp add: managed_def)
  have at: "map_of (sch_tasks s) j = Some b \<longleftrightarrow> managed s b \<and> task_id (sch_store s b) = j" for j b using base by (simp add: base_inv_def)
  have none: "task_id (sch_store s b) \<noteq> i" if "managed s b" for b using at [of i b] i that by simp
  have "map_of (sch_tasks (launch_task i dt s)) j = Some b \<longleftrightarrow> managed (launch_task i dt s) b \<and> task_id (sch_store (launch_task i dt s) b) = j" for j b
    unfolding m using none idle at by (auto simp: newTask_def)
  moreover have "i \<notin> fst ` set (sch_tasks s)" using i by (simp add: map_of_eq_None_iff)
  then have "length (map_put i (sch_next s) (sch_tasks s)) = length (sch_tasks s) + 1" by (simp add: map_put_new)
  moreover have "exited (sch_store (launch_task i dt s) b) \<longrightarrow> started (sch_store (launch_task i dt s) b) \<and> cancelled (sch_store (launch_task i dt s) b)"
    if "b < sch_next (launch_task i dt s)" for b
    using that base by (auto simp: newTask_def base_inv_def less_Suc_eq)
  ultimately show ?thesis using base unfolding base_inv_def by simp
qed

lemma launch_loop_props:
  assumes "base_inv s" "launch_loop ds s as = (s', as')"
  shows "base_inv s' \<and> sch_next s \<le> sch_next s' \<and> as' = as @ [sch_next s ..< sch_next s'] \<and>
    (\<forall>b < sch_next s. sch_store s' b = sch_store s b) \<and>
    (\<forall>b. sch_next s \<le> b \<longrightarrow> b < sch_next s' \<longrightarrow> (\<exists>(i, dt) \<in> set ds. sch_store s' b = newTask i dt)) \<and>
    dom (map_of (sch_tasks s')) = dom (map_of (sch_tasks s)) \<union> fst ` set ds \<and> sch_graph s' = sch_graph s \<and> sch_prev s' = sch_prev s"
  using assms
proof (induction ds arbitrary: s as)
  case (Cons e ds)
  obtain i dt where e: "e = (i, dt)" by fastforce
  show ?case
  proof (cases "map_of (sch_tasks s) i")
    case (Some b)
    then have "launch_loop ds s as = (s', as')" using Cons.prems(2) e by simp
    from Cons.IH [OF Cons.prems(1) this] Some e show ?thesis by auto
  next
    case None
    let ?s = "launch_task i dt s"
    have run: "launch_loop ds ?s (as @ [sch_next s]) = (s', as')" using Cons.prems(2) None e by simp
    note IH = Cons.IH [OF launch_task_inv [OF Cons.prems(1) None] run]
    have "as' = as @ [sch_next s ..< sch_next s']" using IH by (simp add: upt_conv_Cons)
    moreover have "\<exists>(i, dt) \<in> set (e # ds). sch_store s' b = newTask i dt" if "sch_next s \<le> b" "b < sch_next s'" for b
    proof (cases "b = sch_next s")
      case True
      then have "sch_store s' b = newTask i dt" using IH by simp
      with e show ?thesis by auto
    next
      case False
      with IH that show ?thesis by simp
    qed
    ultimately show ?thesis using IH e by auto
  qed
qed auto

lemma queues_empty_not_queued: "queues_empty s \<Longrightarrow> \<not> queued s b"
  unfolding queues_empty_def queued_def by (metis empty_iff fst_conv list.set(1) map_of_SomeD option.inject)

lemma sync_launch_inv:
  assumes inv: "sched_inv runnable s" and p: "sch_phase s = SyncStopping" and e: "queues_empty s"
  shows "sched_inv runnable (sync_launch runnable s) \<and>
    fst ` set (desiredTasksFromGraph runnable (sch_graph s)) \<subseteq> dom (map_of (sch_tasks (sync_launch runnable s)))"
proof -
  let ?d = "desiredTasksFromGraph runnable (sch_graph s)" and ?s = "sync_launch runnable s"
  obtain s1 as where run: "launch_loop ?d s [] = (s1, as)" by fastforce
  have base: "base_inv s" using inv by (simp add: sched_inv_def)
  note L = launch_loop_props [OF base run, unfolded append_Nil]
  have st: "stop_inv runnable (desired_id runnable (sch_graph s)) (sch_prev s) s"
    "\<forall>a. managed s a \<longrightarrow> desired_id runnable (sch_graph s) (task_id (sch_store s a)) \<longrightarrow> ranked runnable (sch_graph s) (sch_store s a)"
    using inv p by (simp_all add: sched_inv_def phase_inv_def)
  note noq = queues_empty_not_queued [OF e]
  have s: "?s = s1\<lparr>sch_queues := group_queues (startOrder (sch_store s1)) (sch_store s1) as, sch_phase := SyncStarting\<rparr>"
    by (simp add: sync_launch_def run)
  have same: "sch_store ?s = sch_store s1" "sch_next ?s = sch_next s1" "sch_graph ?s = sch_graph s" "sch_phase ?s = SyncStarting"
    "sch_tasks ?s = sch_tasks s1" "managed ?s b = managed s1 b" "base_inv ?s = base_inv s1" for b
    using L by (simp_all add: s managed_def base_inv_def)
  have as: "b \<in> set as \<longleftrightarrow> sch_next s \<le> b \<and> b < sch_next s1" for b using L by auto
  have "sch_queues ?s = group_queues (sort_key (\<lambda>a. task_rank (sch_store ?s a))) (sch_store ?s) as"
    by (simp add: s startOrder_def [abs_def])
  from group_queues_inv [of ?s task_rank, OF this] L
  have q: "queues_ordered task_rank ?s" "queued ?s b \<longleftrightarrow> sch_next s \<le> b \<and> b < sch_next s1" for b unfolding same by simp_all
  have new: "managed s1 b \<and> \<not> started (sch_store s1 b) \<and> ranked runnable (sch_graph s) (sch_store s1 b)"
    if b: "sch_next s \<le> b" "b < sch_next s1" for b
  proof -
    obtain i dt where dt: "(i, dt) \<in> set ?d" "sch_store s1 b = newTask i dt" using L b by blast
    then have "map_of ?d i = Some dt" using map_wf_in_set [OF map_wf_desired] by blast
    then show ?thesis unfolding ranked_def using dt(2) b
      by (auto simp: managed_def newTask_def desired_at_def intro: exI [of _ "dt_runnable dt"])
  qed
  have old: "started (sch_store s1 b)" "managed s1 b \<Longrightarrow> exited (sch_store s1 b) \<or> ranked runnable (sch_graph s) (sch_store s1 b)"
    if b: "b < sch_next s" for b
  proof -
    have same_task: "sch_store s1 b = sch_store s b" using L b by blast
    show "started (sch_store s1 b)" using st(1) b by (simp add: same_task stop_inv_def all_started_def)
    assume "managed s1 b"
    then have "managed s b" using b by (simp add: managed_def same_task)
    with st noq show "exited (sch_store s1 b) \<or> ranked runnable (sch_graph s) (sch_store s1 b)"
      unfolding stop_inv_def same_task by blast
  qed
  have "phase_inv runnable ?s"
    using q(1) new old unfolding phase_inv_def managed_ranked_def same q(2)
    by (simp only: sync_phase.case) (metis linorder_not_less managed_def)
  then show ?thesis using L unfolding sched_inv_def same by auto
qed


lemma NewScheduler_inv: "sched_inv runnable NewScheduler"
proof -
  have "acyclic (edge_rel empty_graph)" by (simp add: empty_graph_def edge_rel_def acyclic_def)
  with graph_inv_empty show ?thesis by (auto simp: NewScheduler_def inv_defs managed_def)
qed

lemma sched_step_inv: "sched_step runnable s s' \<Longrightarrow> sched_inv runnable s \<Longrightarrow> sched_inv runnable s'"
proof (induction rule: sched_step.induct)
  case (synchronize s g)
  then show ?case by (blast intro: sync_begin_inv)
next
  case (stop_cancel s k a q)
  have "exited (sch_store s a) \<longrightarrow> started (sch_store s a)" if "a < sch_next s"
    using stop_cancel.prems that by (simp add: sched_inv_def base_inv_def)
  moreover have "a < sch_next s"
    using stop_cancel by (auto simp: sched_inv_def phase_inv_def stop_inv_def queues_ordered_def)
  ultimately show ?case using stop_cancel.prems by (intro put_task_inv) (simp_all add: same_place_def)
next
  case (stop_exited s k a q)
  then show ?case by (blast intro: next_task_inv)
next
  case (stop_deadline s k a q)
  have a: "a < sch_next s" "started (sch_store s a)"
    using stop_deadline by (auto simp: sched_inv_def phase_inv_def stop_inv_def queues_ordered_def all_started_def)
  show ?case
  proof (cases "done_called (sch_store s a)")
    case True
    then have "\<not> managed s a" by (simp add: managed_def)
    with True show ?thesis using next_task_inv stop_deadline by simp
  next
    case False
    then have "sched_inv runnable (onDone a s)" using onDone_inv stop_deadline.prems a by (simp add: managed_def)
    moreover have "\<not> managed (onDone a s) a" by (simp add: onDone_managed)
    ultimately show ?thesis using False stop_deadline.hyps next_task_inv [of runnable "onDone a s" k a q] by simp
  qed
next
  case (launch s)
  then show ?case by (blast dest: sync_launch_inv)
next
  case (start s k a q)
  then show ?case by (blast intro: start_inv)
next
  case (sync_end s)
  from sync_end have "all_started s" "managed_ranked runnable s" "base_inv s"
    using queues_empty_not_queued [of s] by (auto simp: sched_inv_def phase_inv_def all_started_def)
  then show ?case by (auto simp: inv_defs managed_def)
next
  case (halt s)
  then show ?case by (blast intro: Stop_begin_inv)
next
  case (halted s)
  then have base: "base_inv s" by (simp add: sched_inv_def)
  with halted have "sch_tasks s = []" by (simp add: base_inv_def)
  moreover from base have "base_inv (s\<lparr>sch_phase := SyncHalted\<rparr>)" by (simp add: base_inv_def managed_def)
  ultimately show ?case by (simp add: sched_inv_def phase_inv_def)
next
  case (task_exit a s)
  then show ?case by (intro put_task_inv) (simp_all add: same_place_def)
next
  case (task_done a s)
  then have "started (sch_store s a)" by (simp add: sched_inv_def base_inv_def)
  with task_done show ?case by (intro onDone_inv) (simp_all add: managed_def)
qed

lemma sched_reach_inv: "sched_reach runnable s \<Longrightarrow> sched_inv runnable s"
  unfolding sched_reach_def by (induction rule: rtranclp_induct) (blast intro: NewScheduler_inv sched_step_inv)+


subsection \<open>What a step leaves alone\<close>

text \<open>Tasks keep their addresses and their nodes.\<close>

lemma sched_step_frame:
  assumes "sched_step runnable s s'" "sched_inv runnable s"
  shows "sch_next s \<le> sch_next s' \<and> (\<forall>b < sch_next s. task_id (sch_store s' b) = task_id (sch_store s b) \<and>
    (exited (sch_store s b) \<longrightarrow> exited (sch_store s' b)))"
  using assms
proof (induction rule: sched_step.induct)
  case (synchronize s g)
  then show ?case using sync_begin_view(1) [of s] by (simp add: sched_inv_def)
next
  case (launch s)
  obtain s1 as where run: "launch_loop (desiredTasksFromGraph runnable (sch_graph s)) s [] = (s1, as)" by fastforce
  have "base_inv s" using launch.prems by (simp add: sched_inv_def)
  from launch_loop_props [OF this run] show ?case by (simp add: sync_launch_def run)
qed (auto simp: Stop_begin_def)

end
