(* ===== verification/Scheduler_Order.thy ===== *)
theory Scheduler_Order
  imports Scheduler
begin

text \<open>
  What the scheduler guarantees, from the invariant of its states: one task for each node, the order in which
  tasks are started and stopped, that \<open>Synchronize\<close> can always return, and when it does not restart a task that
  has exited. The last part runs it on a chain of three nodes.
\<close>

section \<open>What the scheduler guarantees\<close>

lemma ranked_edge:
  assumes g: "graph_inv g" "acyclic (edge_rel g)" and e: "(n, m) \<in> edge_rel g" "runnable n" "runnable m"
    and t: "ranked runnable g t" "task_id t = NodeID n" and u: "ranked runnable g u" "task_id u = NodeID m"
  shows "task_group u = task_group t" "task_rank u < task_rank t"
proof -
  obtain x y where "map_of (desiredTasksFromGraph runnable g) (NodeID n) = Some (desired_at (task_group t) (task_rank t) x)"
    "map_of (desiredTasksFromGraph runnable g) (NodeID m) = Some (desired_at (task_group u) (task_rank u) y)"
    using t u by (auto simp: ranked_def)
  from ranking.along_edge [OF g e this] show "task_group u = task_group t" "task_rank u < task_rank t"
    by (simp_all add: desired_at_def)
qed

text \<open>The task that the goroutine of a group takes is before every other of its group.\<close>

lemma head_queued: "map_of (sch_queues s) k = Some (a # q) \<Longrightarrow> queued s a"
  unfolding queued_def by (metis list.set_intros(1))

lemma head_first:
  assumes q: "queues_ordered key s" "map_of (sch_queues s) k = Some (a # q)" and b: "queued s b" "task_group (sch_store s b) = task_group (sch_store s a)"
  shows "key (sch_store s a) \<le> key (sch_store s b)"
proof -
  obtain k' q' where k': "map_of (sch_queues s) k' = Some q'" "b \<in> set q'" using b(1) by (auto simp: queued_def)
  have "task_group (sch_store s a) = k" using q by (simp add: queues_ordered_def)
  moreover have "task_group (sch_store s b) = k'" using q(1) k' by (simp add: queues_ordered_def)
  ultimately have "b \<in> set (a # q)" using k' q(2) b(2) by simp
  moreover have "sorted (map (\<lambda>a. key (sch_store s a)) (a # q))" using q unfolding queues_ordered_def by blast
  ultimately show ?thesis by auto
qed

text \<open>
  C13: in every state of a scheduler, whatever the order in which its goroutines run, a node has at most one
  task whose end has not been recorded, the tasks of the map are those, and the wait group counts them. When
  \<open>Stop\<close> has returned there are none.
\<close>

theorem scheduler_one_task:
  assumes "sched_reach runnable s"
  shows "(\<forall>a b. managed s a \<longrightarrow> managed s b \<longrightarrow> task_id (sch_store s a) = task_id (sch_store s b) \<longrightarrow> a = b) \<and>
    (\<forall>i a. map_of (sch_tasks s) i = Some a \<longleftrightarrow> managed s a \<and> task_id (sch_store s a) = i) \<and>
    sch_running s = int (length (sch_tasks s)) \<and> (sch_phase s = SyncHalted \<longrightarrow> (\<forall>a. \<not> managed s a))"
proof -
  have inv: "base_inv s" "phase_inv runnable s" using sched_reach_inv [OF assms] by (simp_all add: sched_inv_def)
  have at: "map_of (sch_tasks s) i = Some a \<longleftrightarrow> managed s a \<and> task_id (sch_store s a) = i" for i a using inv(1) by (simp add: base_inv_def)
  have "\<not> managed s a" if "sch_phase s = SyncHalted" for a
  proof -
    have "sch_tasks s = []" using inv(2) that by (simp add: phase_inv_def)
    with at [of "task_id (sch_store s a)" a] show ?thesis by simp
  qed
  moreover have "sch_running s = int (length (sch_tasks s))" using inv(1) by (simp add: base_inv_def)
  ultimately show ?thesis using at managed_unique [OF inv(1)] by blast
qed

text \<open>
  C6: tasks are started from the leaves up. When \<open>Synchronize\<close> comes to start the task of a node, the task of
  every node it depends on has been started.
\<close>

theorem scheduler_start_order:
  assumes "sched_reach runnable s" "sch_phase s = SyncStarting" "map_of (sch_queues s) k = Some (a # q)"
    "(n, m) \<in> edge_rel (sch_graph s)" "runnable n" "runnable m"
    "task_id (sch_store s a) = NodeID n" "managed s b" "task_id (sch_store s b) = NodeID m"
  shows "started (sch_store s b)"
proof (rule ccontr)
  assume nb: "\<not> started (sch_store s b)"
  have inv: "base_inv s" "phase_inv runnable s" using sched_reach_inv [OF assms(1)] by (simp_all add: sched_inv_def)
  from inv(2) assms(2) have q: "queues_ordered task_rank s" "\<forall>a < sch_next s. \<not> started (sch_store s a) \<longrightarrow> queued s a"
    "\<forall>a. queued s a \<longrightarrow> managed s a \<and> \<not> started (sch_store s a)" "managed_ranked runnable s"
    by (simp_all add: phase_inv_def)
  have "queued s a" by (rule head_queued [OF assms(3)])
  moreover have bq: "queued s b" using q(2) nb assms(8) by (simp add: managed_def)
  ultimately have ab: "managed s a" "\<not> started (sch_store s a)" using q(3) by blast+
  have "\<not> exited (sch_store s a)" "\<not> exited (sch_store s b)"
    using inv(1) ab nb assms(8) by (auto simp: base_inv_def managed_def)
  then have r: "ranked runnable (sch_graph s) (sch_store s a)" "ranked runnable (sch_graph s) (sch_store s b)"
    using q(4) ab(1) assms(8) by (auto simp: managed_ranked_def)
  have g: "graph_inv (sch_graph s)" "acyclic (edge_rel (sch_graph s))" using inv(1) by (simp_all add: base_inv_def)
  note e = ranked_edge [OF g assms(4-6) r(1) assms(7) r(2) assms(9)]
  show False using head_first [OF q(1) assms(3) bq e(1)] e(2) by simp
qed

text \<open>
  C7: tasks are stopped from the roots down. When \<open>Synchronize\<close> or \<open>Stop\<close> comes to cancel the task of a node,
  each task of a node that depends on it in the graph the tasks were started for, if it has to stop as well,
  has exited or has missed its deadline.
\<close>

theorem scheduler_stop_order:
  assumes "sched_reach runnable s" "sch_phase s = SyncStopping \<and> g = sch_prev s \<or> sch_phase s = SyncHalting \<and> g = sch_graph s"
    "map_of (sch_queues s) k = Some (a # q)" "\<not> cancelled (sch_store s a)"
    "(n, m) \<in> edge_rel g" "runnable n" "runnable m" "task_id (sch_store s a) = NodeID m"
    "b < sch_next s" "task_id (sch_store s b) = NodeID n"
    "sch_phase s = SyncStopping \<Longrightarrow> map_of (desiredTasksFromGraph runnable (sch_graph s)) (NodeID n) = None"
  shows "exited (sch_store s b) \<or> done_called (sch_store s b)"
proof (rule ccontr)
  assume "\<not> ?thesis"
  then have nb: "managed s b" "\<not> exited (sch_store s b)" using assms(9) by (simp_all add: managed_def)
  have inv: "base_inv s" "phase_inv runnable s" using sched_reach_inv [OF assms(1)] by (simp_all add: sched_inv_def)
  obtain stays where st: "stop_inv runnable stays g s" "\<not> stays (NodeID n)"
    using inv(2) assms(2,11) by (auto simp: phase_inv_def desired_id_def)
  then have q: "queues_ordered falling s" and bq: "queued s b" using nb assms(10) by (auto simp: stop_inv_def)
  have aq: "queued s a" by (rule head_queued [OF assms(3)])
  have "a < sch_next s" using q assms(3) by (auto simp: queues_ordered_def)
  then have "\<not> exited (sch_store s a)" using inv(1) assms(4) by (auto simp: base_inv_def)
  with st(1) aq bq nb have r: "ranked runnable g (sch_store s a)" "ranked runnable g (sch_store s b)" by (auto simp: stop_inv_def)
  have g: "graph_inv g" "acyclic (edge_rel g)" using inv(1) assms(2) by (auto simp: base_inv_def)
  note e = ranked_edge [OF g assms(5-7) r(2) assms(10) r(1) assms(8)]
  show False using head_first [OF q assms(3) bq e(1) [symmetric]] e(2) by simp
qed



subsection \<open>Synchronize returns\<close>

text \<open>How many tasks the goroutines of the groups have still to handle.\<close>

definition unhandled :: "Scheduler \<Rightarrow> nat" where
  "unhandled s = sum_list (map (\<lambda>e. length (snd e)) (sch_queues s))"

lemma unhandled_put: "map_of m k = Some (a # q) \<Longrightarrow>
    sum_list (map (\<lambda>e. length (snd e)) (map_put k q m)) < sum_list (map (\<lambda>e. length (snd e)) m)"
  by (induction m) (auto simp: map_put_def)

lemma unhandled_next: "map_of (sch_queues s) k = Some (a # q) \<Longrightarrow> sch_queues t = sch_queues s \<Longrightarrow> unhandled (next_task k q t) < unhandled s"
  by (simp add: unhandled_def unhandled_put)

lemma some_queue:
  assumes "\<not> queues_empty s"
  obtains k a q where "map_of (sch_queues s) k = Some (a # q)"
proof -
  obtain e where e: "e \<in> set (sch_queues s)" "map_of (sch_queues s) (fst e) \<noteq> Some []" using assms by (auto simp: queues_empty_def)
  then obtain q where "map_of (sch_queues s) (fst e) = Some q" by (cases "map_of (sch_queues s) (fst e)") (auto simp: map_of_eq_None_iff)
  with e(2) that show thesis by (cases q) auto
qed

text \<open>The steps while a call of \<open>Synchronize\<close> or \<open>Stop\<close> is in progress: no other call begins.\<close>

definition call_step :: "(node \<Rightarrow> bool) \<Rightarrow> Scheduler \<Rightarrow> Scheduler \<Rightarrow> bool" where
  "call_step runnable s s' \<longleftrightarrow> sched_step runnable s s' \<and> sch_phase s \<noteq> SyncIdle"

lemma sched_reach_step: "sched_reach runnable s \<Longrightarrow> sched_step runnable s s' \<Longrightarrow> sched_reach runnable s'"
  unfolding sched_reach_def by (rule rtranclp.rtrancl_into_rtrancl)

lemma sched_reach_calls: "(call_step runnable)\<^sup>*\<^sup>* s s' \<Longrightarrow> sched_reach runnable s \<Longrightarrow> sched_reach runnable s'"
  by (induction rule: rtranclp_induct) (auto simp: call_step_def intro: sched_reach_step)

lemma call_frame:
  assumes "(call_step runnable)\<^sup>*\<^sup>* s s'" "sched_reach runnable s"
  shows "sch_next s \<le> sch_next s' \<and> (\<forall>b < sch_next s. task_id (sch_store s' b) = task_id (sch_store s b) \<and>
    (exited (sch_store s b) \<longrightarrow> exited (sch_store s' b)))"
  using assms(1)
proof (induction rule: rtranclp_induct)
  case (step u v)
  have "sched_inv runnable u" using sched_reach_inv [OF sched_reach_calls [OF step.hyps(1) assms(2)]] .
  then have "sch_next u \<le> sch_next v \<and> (\<forall>b < sch_next u. task_id (sch_store v b) = task_id (sch_store u b) \<and>
      (exited (sch_store u b) \<longrightarrow> exited (sch_store v b)))"
    using sched_step_frame [of runnable u v] step.hyps(2) by (simp add: call_step_def)
  with step.IH show ?case by auto
qed simp

lemma next_task_dequeues: "map_of (sch_queues s) k = Some (a # q) \<Longrightarrow> queued (next_task k q s) b \<Longrightarrow> queued s b"
  unfolding queued_def by (auto split: if_splits) (metis list.set_intros(2))

text \<open>What the tasks of other nodes keep while the queues are emptied.\<close>

definition spared :: "Scheduler \<Rightarrow> Scheduler \<Rightarrow> bool" where
  "spared s s' \<longleftrightarrow> sch_graph s' = sch_graph s \<and> sch_next s' = sch_next s \<and>
     (\<forall>b. exited (sch_store s' b) = exited (sch_store s b)) \<and> (\<forall>b. queued s' b \<longrightarrow> queued s b) \<and>
     (\<forall>b. managed s b \<longrightarrow> \<not> queued s b \<longrightarrow> managed s' b \<and> sch_store s' b = sch_store s b)"

lemma spared_refl: "spared s s"
  by (simp add: spared_def)

lemma spared_trans: "spared s t \<Longrightarrow> spared t u \<Longrightarrow> spared s u"
  unfolding spared_def by metis

lemma stopping_ends:
  assumes "sch_phase s = SyncStopping"
  shows "\<exists>s'. (call_step runnable)\<^sup>*\<^sup>* s s' \<and> sch_phase s' = SyncStopping \<and> queues_empty s' \<and> spared s s'"
  using assms
proof (induction "unhandled s" arbitrary: s rule: less_induct)
  case less
  show ?case
  proof (cases "queues_empty s")
    case True
    with less.prems spared_refl show ?thesis by blast
  next
    case False
    then obtain k a q where q: "map_of (sch_queues s) k = Some (a # q)" by (rule some_queue)
    define u where "u = (if cancelled (sch_store s a) then s else put_task a ((sch_store s a)\<lparr>cancelled := True\<rparr>) s)"
    define v where "v = (if done_called (sch_store u a) then u else onDone a u)"
    have su: "(call_step runnable)\<^sup>*\<^sup>* s u"
      using stop_cancel [of s k a q runnable] less.prems q by (auto simp: u_def call_step_def)
    have u: "sch_phase u = SyncStopping" "map_of (sch_queues u) k = Some (a # q)" "cancelled (sch_store u a)" "sch_queues u = sch_queues s"
      using less.prems q by (simp_all add: u_def)
    have "sched_step runnable u (next_task k q v)" unfolding v_def using stop_deadline [of u k a q runnable] u by simp
    with su u(1) have run: "(call_step runnable)\<^sup>*\<^sup>* s (next_task k q v)" by (simp add: call_step_def rtranclp.rtrancl_into_rtrancl)
    have v: "sch_queues v = sch_queues s" "sch_phase v = SyncStopping" using u by (simp_all add: v_def)
    have aq: "queued s a" by (rule head_queued [OF q])
    have qv: "map_of (sch_queues v) k = Some (a # q)" "queued v b = queued s b" for b using q v(1) by (simp_all add: queued_def)
    have "managed v b \<and> sch_store v b = sch_store s b" if "managed s b" "b \<noteq> a" for b
      using that by (auto simp: v_def u_def managed_def)
    then have "spared s (next_task k q v)"
      unfolding spared_def next_task_simps using next_task_dequeues [OF qv(1)] qv(2) aq by (auto simp: v_def u_def)
    moreover have "unhandled (next_task k q v) < unhandled s" using unhandled_next [OF q v(1)] .
    from less.hyps [OF this] v obtain s' where "(call_step runnable)\<^sup>*\<^sup>* (next_task k q v) s'" "sch_phase s' = SyncStopping"
      "queues_empty s'" "spared (next_task k q v) s'" by auto
    ultimately show ?thesis using run spared_trans by (meson rtranclp_trans)
  qed
qed

lemma starting_ends:
  assumes "sch_phase s = SyncStarting"
  shows "\<exists>s'. (call_step runnable)\<^sup>*\<^sup>* s s' \<and> sch_phase s' = SyncStarting \<and> queues_empty s' \<and> sch_graph s' = sch_graph s \<and>
    sch_tasks s' = sch_tasks s \<and> sch_next s' = sch_next s \<and> (\<forall>b. exited (sch_store s' b) = exited (sch_store s b))"
  using assms
proof (induction "unhandled s" arbitrary: s rule: less_induct)
  case less
  show ?case
  proof (cases "queues_empty s")
    case True
    with less.prems show ?thesis by blast
  next
    case False
    then obtain k a q where q: "map_of (sch_queues s) k = Some (a # q)" by (rule some_queue)
    define u where "u = put_task a ((sch_store s a)\<lparr>started := True\<rparr>) s"
    have run: "call_step runnable s (next_task k q u)" using start [of s k a q runnable] less.prems q by (simp add: u_def call_step_def)
    have u: "sch_queues u = sch_queues s" "sch_phase u = SyncStarting" "sch_graph u = sch_graph s" "sch_tasks u = sch_tasks s" "sch_next u = sch_next s"
      "exited (sch_store u b) = exited (sch_store s b)" for b
      using less.prems by (simp_all add: u_def)
    have "unhandled (next_task k q u) < unhandled s" using unhandled_next [OF q u(1)] .
    from less.hyps [OF this] u obtain s' where "(call_step runnable)\<^sup>*\<^sup>* (next_task k q u) s'" "sch_phase s' = SyncStarting"
      "queues_empty s'" "sch_graph s' = sch_graph s" "sch_tasks s' = sch_tasks s" "sch_next s' = sch_next s" "\<forall>b. exited (sch_store s' b) = exited (sch_store s b)" by auto
    with run show ?thesis by (meson converse_rtranclp_into_rtranclp)
  qed
qed

text \<open>
  The rest of a call of \<open>Synchronize\<close> in its stopping phase, when every deadline passes: nodes that have a task
  which need not stop keep it, the others get a new one.
\<close>

lemma call_ends:
  assumes r: "sched_reach runnable s" and p: "sch_phase s = SyncStopping"
  obtains s' where "(call_step runnable)\<^sup>*\<^sup>* s s'" "sch_phase s' = SyncIdle" "sch_graph s' = sch_graph s"
    "\<And>i. i \<in> dom (map_of (desiredTasksFromGraph runnable (sch_graph s))) \<Longrightarrow> \<exists>a. map_of (sch_tasks s') i = Some a"
    "\<And>a. a < sch_next s' \<Longrightarrow> exited (sch_store s' a) \<longleftrightarrow> a < sch_next s \<and> exited (sch_store s a)"
    "\<And>a. managed s a \<Longrightarrow> \<not> queued s a \<Longrightarrow> map_of (sch_tasks s') (task_id (sch_store s a)) = Some a"
proof -
  obtain s1 where s1: "(call_step runnable)\<^sup>*\<^sup>* s s1" "sch_phase s1 = SyncStopping" "queues_empty s1" "spared s s1"
    using stopping_ends [OF p] by blast
  have r1: "sched_reach runnable s1" using sched_reach_calls [OF s1(1) r] .
  have base1: "base_inv s1" using sched_reach_inv [OF r1] by (simp add: sched_inv_def)
  let ?d = "desiredTasksFromGraph runnable (sch_graph s1)" and ?l = "sync_launch runnable s1"
  obtain s2 as where run: "launch_loop ?d s1 [] = (s2, as)" by fastforce
  note L = launch_loop_props [OF base1 run]
  have l: "sch_store ?l = sch_store s2" "sch_next ?l = sch_next s2" "sch_tasks ?l = sch_tasks s2" "sch_graph ?l = sch_graph s1"
    "sch_phase ?l = SyncStarting"
    using L by (simp_all add: sync_launch_def run)
  have step: "call_step runnable s1 ?l" using launch [OF s1(2,3)] s1(2) by (simp add: call_step_def)
  have g: "sch_graph s1 = sch_graph s" and n: "sch_next s1 = sch_next s" using s1(4) by (simp_all add: spared_def)
  obtain s3 where s3: "(call_step runnable)\<^sup>*\<^sup>* ?l s3" "sch_phase s3 = SyncStarting" "queues_empty s3" "sch_graph s3 = sch_graph ?l"
    "sch_tasks s3 = sch_tasks ?l" "sch_next s3 = sch_next ?l" "\<forall>b. exited (sch_store s3 b) = exited (sch_store ?l b)"
    using starting_ends [OF l(5)] by blast
  let ?s' = "s3\<lparr>sch_phase := SyncIdle\<rparr>"
  have last: "call_step runnable s3 ?s'" using sync_end [OF s3(2,3)] s3(2) by (simp add: call_step_def)
  have all: "(call_step runnable)\<^sup>*\<^sup>* s ?s'"
    using s1(1) step s3(1) last by (meson rtranclp.rtrancl_into_rtrancl rtranclp_trans)
  have inv: "base_inv ?l" using sched_reach_inv [OF sched_reach_step [OF r1]] step by (simp add: call_step_def sched_inv_def)
  have new: "\<not> exited (sch_store s2 a)" if "sch_next s1 \<le> a" "a < sch_next s2" for a
    using L that by (fastforce simp: newTask_def)
  have old: "sch_store s2 a = sch_store s1 a" if "a < sch_next s1" for a using L that by blast
  show thesis
  proof (rule that [of ?s'])
    show "(call_step runnable)\<^sup>*\<^sup>* s ?s'" by (fact all)
    show "sch_phase ?s' = SyncIdle" "sch_graph ?s' = sch_graph s" using s3(4) l(4) g by simp_all
    show "\<exists>a. map_of (sch_tasks ?s') i = Some a" if "i \<in> dom (map_of (desiredTasksFromGraph runnable (sch_graph s)))" for i
    proof -
      have "i \<in> dom (map_of (sch_tasks s2))" using that L by (simp add: g dom_map_of_conv_image_fst)
      then show ?thesis using s3(5) l(3) by auto
    qed
    show "exited (sch_store ?s' a) \<longleftrightarrow> a < sch_next s \<and> exited (sch_store s a)" if "a < sch_next ?s'" for a
    proof (cases "a < sch_next s1")
      case True
      then show ?thesis using old [OF True] s3(7) l(1) s1(4) n by (simp add: spared_def)
    next
      case False
      then show ?thesis using new [of a] that s3(6,7) l(1,2) n by simp
    qed
    show "map_of (sch_tasks ?s') (task_id (sch_store s a)) = Some a" if "managed s a" "\<not> queued s a" for a
    proof -
      have "managed s1 a" "sch_store s1 a = sch_store s a" using that s1(4) by (simp_all add: spared_def)
      then have "managed ?l a" "sch_store ?l a = sch_store s a" using old [of a] L l by (simp_all add: managed_def)
      then have "map_of (sch_tasks ?l) (task_id (sch_store s a)) = Some a" using inv unfolding base_inv_def by metis
      then show ?thesis using s3(5) by simp
    qed
  qed
qed

text \<open>
  C12: a call of \<open>Synchronize\<close> that is still stopping tasks can always finish without any other call, because a
  task that does not exit misses its deadline. Then each node of the graph that can run has a started task,
  which has not exited unless it was a task that had exited already, and every other task the scheduler still
  has is of a goroutine that has exited.
\<close>

theorem Synchronize_completes:
  assumes "sched_reach runnable s" "sch_phase s = SyncStopping"
  shows "\<exists>s'. (call_step runnable)\<^sup>*\<^sup>* s s' \<and> sch_phase s' = SyncIdle \<and> sch_graph s' = sch_graph s \<and>
    (\<forall>n \<in> vertices (sch_graph s). runnable n \<longrightarrow>
       (\<exists>a. map_of (sch_tasks s') (NodeID n) = Some a \<and> started (sch_store s' a) \<and>
          (exited (sch_store s' a) \<longrightarrow> a < sch_next s \<and> exited (sch_store s a)))) \<and>
    (\<forall>i a. map_of (sch_tasks s') i = Some a \<longrightarrow>
       exited (sch_store s' a) \<or> (\<exists>n \<in> vertices (sch_graph s). runnable n \<and> NodeID n = i))"
proof -
  obtain s' where s': "(call_step runnable)\<^sup>*\<^sup>* s s'" "sch_phase s' = SyncIdle" "sch_graph s' = sch_graph s"
    "\<And>i. i \<in> dom (map_of (desiredTasksFromGraph runnable (sch_graph s))) \<Longrightarrow> \<exists>a. map_of (sch_tasks s') i = Some a"
    "\<And>a. a < sch_next s' \<Longrightarrow> exited (sch_store s' a) \<longleftrightarrow> a < sch_next s \<and> exited (sch_store s a)"
    using call_ends [OF assms] by metis
  have inv: "base_inv s'" "all_started s'" "managed_ranked runnable s'"
    using sched_reach_inv [OF sched_reach_calls [OF s'(1) assms(1)]] s'(2) by (simp_all add: sched_inv_def phase_inv_def)
  have g: "graph_inv (sch_graph s)" "acyclic (edge_rel (sch_graph s))" using inv(1) s'(3) by (simp_all add: base_inv_def)
  have at: "map_of (sch_tasks s') i = Some a \<longleftrightarrow> managed s' a \<and> task_id (sch_store s' a) = i" for i a
    using inv(1) unfolding base_inv_def by blast
  have "\<exists>a. map_of (sch_tasks s') (NodeID n) = Some a \<and> started (sch_store s' a) \<and>
      (exited (sch_store s' a) \<longrightarrow> a < sch_next s \<and> exited (sch_store s a))" if n: "n \<in> vertices (sch_graph s)" "runnable n" for n
  proof -
    obtain a where a: "map_of (sch_tasks s') (NodeID n) = Some a"
      using s'(4) ranking.present [OF g n(1), where runnable = runnable, OF n(2)] by blast
    then have "a < sch_next s'" using at by (simp add: managed_def)
    with a s'(5) inv(2) show ?thesis unfolding all_started_def by blast
  qed
  moreover have "exited (sch_store s' a) \<or> (\<exists>n \<in> vertices (sch_graph s). runnable n \<and> NodeID n = i)"
    if "map_of (sch_tasks s') i = Some a" for i a
  proof -
    have "managed s' a" "task_id (sch_store s' a) = i" using at that by blast+
    with inv(3) s'(3) have "exited (sch_store s' a) \<or> i \<in> dom (map_of (desiredTasksFromGraph runnable (sch_graph s)))"
      by (auto simp: managed_ranked_def ranked_def)
    then show ?thesis using ranking.only_present [OF g] by blast
  qed
  ultimately show ?thesis using s'(1-3) by blast
qed

subsection \<open>A task that ends at the wrong moment\<close>

text \<open>
  C15: a task closes its channel before its end is recorded. When \<open>Synchronize\<close> is called in between, for any
  graph that has the node of the task, the task has stopped since the previous call but is still in the map. As
  long as its end is not recorded during the call, no task is made for its node; and the call can finish
  before that, so that the node is left without a task once the end is recorded.
\<close>

theorem exited_task_not_restarted:
  assumes "sched_reach runnable s" "sch_phase s = SyncIdle" "graph_inv g" "acyclic (edge_rel g)"
    "map_of (sch_tasks s) i = Some a" "exited (sch_store s a)" "map_of (desiredTasksFromGraph runnable g) i \<noteq> None"
  shows "(\<forall>s'. (call_step runnable)\<^sup>*\<^sup>* (sync_begin runnable g s) s' \<longrightarrow> \<not> done_called (sch_store s' a) \<longrightarrow>
      map_of (sch_tasks s') i = Some a) \<and>
    (\<exists>s'. (call_step runnable)\<^sup>*\<^sup>* (sync_begin runnable g s) s' \<and> sch_phase s' = SyncIdle \<and> map_of (sch_tasks s') i = Some a \<and>
      sched_step runnable s' (onDone a s') \<and> map_of (sch_tasks (onDone a s')) i = None)"
proof
  let ?b = "sync_begin runnable g s"
  have base: "base_inv s" using sched_reach_inv [OF assms(1)] by (simp add: sched_inv_def)
  then have a: "managed s a" "task_id (sch_store s a) = i" using assms(5) unfolding base_inv_def by blast+
  have rb: "sched_reach runnable ?b" using sched_reach_step [OF assms(1) synchronize [OF assms(2-4)]] .
  note view = sync_begin_view [OF base, of runnable g]
  have b: "managed ?b a" "task_id (sch_store ?b a) = i" "exited (sch_store ?b a)" "\<not> queued ?b a"
    using a assms(6,7) by (simp_all add: view(1,3) managed_def desired_id_def)
  have same: "a < sch_next s' \<and> task_id (sch_store s' a) = i \<and> exited (sch_store s' a)" if "(call_step runnable)\<^sup>*\<^sup>* ?b s'" for s'
    using call_frame [OF that rb] b by (auto simp: managed_def)
  have at: "map_of (sch_tasks s') i = Some a" if "(call_step runnable)\<^sup>*\<^sup>* ?b s'" "\<not> done_called (sch_store s' a)" for s'
  proof -
    have "base_inv s'" using sched_reach_inv [OF sched_reach_calls [OF that(1) rb]] by (simp add: sched_inv_def)
    with same [OF that(1)] that(2) show ?thesis unfolding base_inv_def managed_def by blast
  qed
  then show "\<forall>s'. (call_step runnable)\<^sup>*\<^sup>* ?b s' \<longrightarrow> \<not> done_called (sch_store s' a) \<longrightarrow> map_of (sch_tasks s') i = Some a" by blast
  obtain s' where s': "(call_step runnable)\<^sup>*\<^sup>* ?b s'" "sch_phase s' = SyncIdle" "map_of (sch_tasks s') i = Some a"
    using call_ends [OF rb sync_begin_fields(4)] b by metis
  have "base_inv s'" using sched_reach_inv [OF sched_reach_calls [OF s'(1) rb]] by (simp add: sched_inv_def)
  then have "managed s' a" using s'(3) unfolding base_inv_def by blast
  then have "sched_step runnable s' (onDone a s')" using same [OF s'(1)] by (intro task_done) (simp_all add: managed_def)
  moreover have "map_of (sch_tasks (onDone a s')) i = None" using same [OF s'(1)] by simp
  ultimately show "\<exists>s'. (call_step runnable)\<^sup>*\<^sup>* ?b s' \<and> sch_phase s' = SyncIdle \<and> map_of (sch_tasks s') i = Some a \<and>
      sched_step runnable s' (onDone a s') \<and> map_of (sch_tasks (onDone a s')) i = None"
    using s' by blast
qed

section \<open>A run\<close>

text \<open>The tasks of the chain a, b, c are started and then stopped.\<close>

abbreviation any_node :: "node \<Rightarrow> bool" where
  "any_node \<equiv> (\<lambda>_. True)"

definition start_next :: "nat \<Rightarrow> nat list \<Rightarrow> Scheduler \<Rightarrow> Scheduler" where
  "start_next a q s = next_task 0 q (put_task a ((sch_store s a)\<lparr>started := True\<rparr>) s)"

definition chain_stopping :: Scheduler where
  "chain_stopping = sync_begin any_node chain_graph NewScheduler"

definition chain_launched :: Scheduler where
  "chain_launched = sync_launch any_node chain_stopping"

definition chain_starting :: Scheduler where
  "chain_starting = start_next 0 [1, 2] chain_launched"

definition chain_running :: Scheduler where
  "chain_running = (start_next 2 [] (start_next 1 [2] chain_starting))\<lparr>sch_phase := SyncIdle\<rparr>"

definition chain_halting :: Scheduler where
  "chain_halting = (let s = Stop_begin chain_running; u = put_task 2 ((sch_store s 2)\<lparr>cancelled := True\<rparr>) s
     in next_task 0 [1, 0] (onDone 2 u))"

lemma chain_launched_queue: "sch_phase chain_launched = SyncStarting \<and> sch_queues chain_launched = [(0, [0, 1, 2])]"
  by code_simp

lemma chain_stopping_empty: "sch_phase chain_stopping = SyncStopping \<and> queues_empty chain_stopping"
  by code_simp

lemma chain_stopping_reach: "sched_reach any_node chain_stopping"
proof -
  have "sched_reach any_node NewScheduler" by (simp add: sched_reach_def)
  moreover have "sched_step any_node NewScheduler chain_stopping"
    unfolding chain_stopping_def by (rule synchronize) (simp_all add: NewScheduler_def chain_graph_inv chain_graph_acyclic)
  ultimately show ?thesis by (rule sched_reach_step)
qed

lemma chain_launched_reach: "sched_reach any_node chain_launched"
  unfolding chain_launched_def using chain_stopping_reach launch chain_stopping_empty by (blast intro: sched_reach_step)

lemma start_next_reach:
  assumes "sched_reach runnable s" "sch_phase s = SyncStarting" "sch_queues s = [(0, a # q)]"
  shows "sched_reach runnable (start_next a q s)"
proof -
  have "sched_step runnable s (start_next a q s)" unfolding start_next_def using assms by (intro start) auto
  with assms(1) show ?thesis by (rule sched_reach_step)
qed

lemma start_next_simps [simp]: "sch_phase (start_next a q s) = sch_phase s" "sch_queues s = [(0, p)] \<Longrightarrow> sch_queues (start_next a q s) = [(0, q)]"
  by (simp_all add: start_next_def map_put_def)

lemma chain_starting_reach: "sched_reach any_node chain_starting \<and> sch_phase chain_starting = SyncStarting \<and> sch_queues chain_starting = [(0, [1, 2])]"
  unfolding chain_starting_def using start_next_reach [OF chain_launched_reach] chain_launched_queue by simp

lemma chain_running_reach: "sched_reach any_node chain_running"
proof -
  let ?s = "start_next 1 [2] chain_starting"
  have "sched_reach any_node ?s" "sch_phase ?s = SyncStarting" "sch_queues ?s = [(0, [2])]"
    using chain_starting_reach start_next_reach by simp_all
  then have t: "sched_reach any_node (start_next 2 [] ?s)" "sch_phase (start_next 2 [] ?s) = SyncStarting" "queues_empty (start_next 2 [] ?s)"
    using start_next_reach by (simp_all add: queues_empty_def)
  show ?thesis unfolding chain_running_def using t(1) sync_end [OF t(2,3)] by (rule sched_reach_step)
qed

lemma chain_halting_reach: "sched_reach any_node chain_halting"
proof -
  define s where "s = Stop_begin chain_running"
  define u where "u = put_task 2 ((sch_store s 2)\<lparr>cancelled := True\<rparr>) s"
  have "sch_phase chain_running = SyncIdle" by (simp add: chain_running_def)
  then have s: "sched_reach any_node s" unfolding s_def using chain_running_reach halt by (blast intro: sched_reach_step)
  have q: "sch_phase s = SyncHalting" "sch_queues s = [(0, [2, 1, 0])]" "\<not> cancelled (sch_store s 2)" "\<not> done_called (sch_store s 2)"
    unfolding s_def by code_simp+
  then have "sched_step any_node s u" unfolding u_def by (intro stop_cancel) auto
  with s have r: "sched_reach any_node u" by (rule sched_reach_step)
  have "sched_step any_node u (next_task 0 [1, 0] (if done_called (sch_store u 2) then u else onDone 2 u))"
    using q by (intro stop_deadline) (auto simp: u_def)
  with r have "sched_reach any_node (next_task 0 [1, 0] (if done_called (sch_store u 2) then u else onDone 2 u))" by (rule sched_reach_step)
  moreover have "\<not> done_called (sch_store u 2)" using q(4) by (simp add: u_def)
  ultimately show ?thesis unfolding chain_halting_def s_def u_def Let_def by simp
qed


theorem scheduler_one_task_witness:
  "sched_reach any_node chain_starting \<and> sch_running chain_starting = int (length (sch_tasks chain_starting)) \<and>
   sch_running chain_starting = 3 \<and> managed chain_starting 0 \<and> map_of (sch_tasks chain_starting) (NodeID nc) = Some 0"
proof -
  have r: "sched_reach any_node chain_starting" using chain_starting_reach by blast
  have "managed chain_starting 0 \<and> task_id (sch_store chain_starting 0) = NodeID nc \<and> sch_running chain_starting = 3" by code_simp
  with r show ?thesis using scheduler_one_task [OF r] by blast
qed

theorem scheduler_start_order_witness:
  "sched_reach any_node chain_starting \<and> map_of (sch_queues chain_starting) 0 = Some [1, 2] \<and>
   task_id (sch_store chain_starting 1) = NodeID nb \<and> task_id (sch_store chain_starting 0) = NodeID nc \<and> started (sch_store chain_starting 0)"
proof -
  have r: "sched_reach any_node chain_starting" "sch_phase chain_starting = SyncStarting" "map_of (sch_queues chain_starting) 0 = Some [1, 2]"
    using chain_starting_reach by simp_all
  have t: "sch_graph chain_starting = chain_graph" "task_id (sch_store chain_starting 1) = NodeID nb" "managed chain_starting 0"
    "task_id (sch_store chain_starting 0) = NodeID nc"
    by code_simp+
  have "(nb, nc) \<in> edge_rel (sch_graph chain_starting)" by (simp add: t(1) chain_graph_edges)
  from scheduler_start_order [OF r this TrueI TrueI t(2-4)] r t show ?thesis by blast
qed

theorem scheduler_stop_order_witness:
  "sched_reach any_node chain_halting \<and> map_of (sch_queues chain_halting) 0 = Some [1, 0] \<and>
   task_id (sch_store chain_halting 1) = NodeID nb \<and> task_id (sch_store chain_halting 2) = NodeID na \<and>
   (exited (sch_store chain_halting 2) \<or> done_called (sch_store chain_halting 2))"
proof -
  have t: "sch_phase chain_halting = SyncHalting" "map_of (sch_queues chain_halting) 0 = Some [1, 0]" "\<not> cancelled (sch_store chain_halting 1)"
    "sch_graph chain_halting = chain_graph" "task_id (sch_store chain_halting 1) = NodeID nb" "2 < sch_next chain_halting"
    "task_id (sch_store chain_halting 2) = NodeID na"
    by code_simp+
  have e: "(na, nb) \<in> edge_rel (sch_graph chain_halting)" by (simp add: t(4) chain_graph_edges)
  have p: "sch_phase chain_halting = SyncStopping \<and> sch_graph chain_halting = sch_prev chain_halting \<or>
      sch_phase chain_halting = SyncHalting \<and> sch_graph chain_halting = sch_graph chain_halting" using t(1) by simp
  have "exited (sch_store chain_halting 2) \<or> done_called (sch_store chain_halting 2)"
    by (rule scheduler_stop_order [OF chain_halting_reach p t(2,3) e TrueI TrueI t(5-7)]) (simp add: t(1))
  with chain_halting_reach t show ?thesis by blast
qed

theorem Synchronize_completes_witness:
  "sched_reach any_node chain_stopping \<and> sch_phase chain_stopping = SyncStopping \<and>
   (\<exists>s' a. sched_reach any_node s' \<and> sch_phase s' = SyncIdle \<and> map_of (sch_tasks s') (NodeID nb) = Some a \<and> started (sch_store s' a))"
proof -
  have p: "sch_phase chain_stopping = SyncStopping" using chain_stopping_empty by blast
  have "sch_graph chain_stopping = chain_graph" by code_simp
  then have "nb \<in> vertices (sch_graph chain_stopping)" by (simp add: chain_graph_vertices)
  with Synchronize_completes [OF chain_stopping_reach p] chain_stopping_reach p show ?thesis by (blast intro: sched_reach_calls)
qed

text \<open>The task of c exits while the others run.\<close>

definition chain_exited :: Scheduler where
  "chain_exited = put_task 0 ((sch_store chain_running 0)\<lparr>cancelled := True, exited := True\<rparr>) chain_running"

lemma chain_exited_reach: "sched_reach any_node chain_exited"
proof -
  have "0 < sch_next chain_running" "started (sch_store chain_running 0)" "\<not> exited (sch_store chain_running 0)" by code_simp+
  then have "sched_step any_node chain_running chain_exited" unfolding chain_exited_def by (rule task_exit)
  with chain_running_reach show ?thesis by (rule sched_reach_step)
qed

theorem exited_task_not_restarted_witness:
  "sched_reach any_node chain_exited \<and> exited (sch_store chain_exited 0) \<and> map_of (sch_tasks chain_exited) (NodeID nc) = Some 0 \<and>
   (\<exists>s'. (call_step any_node)\<^sup>*\<^sup>* (sync_begin any_node chain_graph chain_exited) s' \<and> sch_phase s' = SyncIdle \<and>
      map_of (sch_tasks (onDone 0 s')) (NodeID nc) = None)"
proof -
  have t: "sch_phase chain_exited = SyncIdle" "map_of (sch_tasks chain_exited) (NodeID nc) = Some 0" "exited (sch_store chain_exited 0)"
    by code_simp+
  have "nc \<in> vertices chain_graph" by (simp add: chain_graph_vertices)
  then have "map_of (desiredTasksFromGraph any_node chain_graph) (NodeID nc) \<noteq> None"
    using ranking.present [OF chain_graph_inv chain_graph_acyclic, of nc any_node] by auto
  from exited_task_not_restarted [OF chain_exited_reach t(1) chain_graph_inv chain_graph_acyclic t(2,3) this] t chain_exited_reach
  show ?thesis by blast
qed

end
