(* ===== verification/Loader_Blocks.thy ===== *)
theory Loader_Blocks
  imports Loader_Graph
begin

text \<open>
  Where the blocks of the nodes come from: loading a configuration only gives the nodes blocks of that
  configuration, and evaluating them keeps the blocks. So the walk for references, which panics on a nil
  expression, does not panic when the loaded blocks have none.
\<close>

section \<open>Results without the panic of a nil expression\<close>

fun nil_panic :: "loader_panic \<Rightarrow> bool" where
  "nil_panic (NilExpression i) = True"
| "nil_panic _ = False"

definition safe :: "('a \<Rightarrow> bool) \<Rightarrow> loader_panic + 'a \<Rightarrow> bool" where
  "safe Q r \<longleftrightarrow> (case r of Inl p \<Rightarrow> \<not> nil_panic p | Inr x \<Rightarrow> Q x)"

lemma safe_simps [simp]: "safe Q (Inr x) = Q x" "safe Q (Inl p) = (\<not> nil_panic p)"
  by (simp_all add: safe_def)

lemma safe_bind: "safe P r \<Longrightarrow> (\<And>x. P x \<Longrightarrow> safe Q (f x)) \<Longrightarrow> safe Q (res_bind r f)"
  by (cases r) simp_all

lemma safe_fold:
  assumes "Q s" "\<And>x s. x \<in> set xs \<Longrightarrow> Q s \<Longrightarrow> safe Q (f x s)"
  shows "safe Q (res_fold f xs s)"
  using assms
proof (induction xs arbitrary: s)
  case (Cons x xs)
  show ?case unfolding res_fold.simps by (rule safe_bind [of Q]) (use Cons in auto)
qed simp

lemma safe_mono: "safe P r \<Longrightarrow> (\<And>x. P x \<Longrightarrow> Q x) \<Longrightarrow> safe Q r"
  by (cases r) simp_all

lemma safe_graph_res: "safe (\<lambda>_. True) (graph_res r)"
  by (cases r) (simp_all add: graph_res_def)

section \<open>Blocks of the nodes\<close>

text \<open>Every node has a block of \<open>B\<close> or none.\<close>

definition blocks_in :: "BlockStmt set \<Rightarrow> ('v, 'w) Loader \<Rightarrow> bool" where
  "blocks_in B l \<longleftrightarrow> (\<forall>n b. block (heap l n) = Some b \<longrightarrow> b \<in> B)"

lemma blocks_in_mono: "blocks_in B l \<Longrightarrow> B \<subseteq> C \<Longrightarrow> blocks_in C l"
  by (auto simp: blocks_in_def)

lemma blocks_in_updates [simp]:
  "blocks_in B (l\<lparr>next_addr := a\<rparr>) = blocks_in B l" "blocks_in B (l\<lparr>declareNodes := d\<rparr>) = blocks_in B l"
  "blocks_in B (l\<lparr>importConfigNodes := m\<rparr>) = blocks_in B l" "blocks_in B (l\<lparr>forEachNodes := m\<rparr>) = blocks_in B l"
  "blocks_in B (l\<lparr>customComponentReg := r\<rparr>) = blocks_in B l" "blocks_in B (l\<lparr>cache := c\<rparr>) = blocks_in B l"
  "blocks_in B (l\<lparr>world := w\<rparr>) = blocks_in B l" "blocks_in B (l\<lparr>componentNodes := ns\<rparr>) = blocks_in B l"
  "blocks_in B (l\<lparr>serviceNodes := ns\<rparr>) = blocks_in B l" "blocks_in B (l\<lparr>l_graph := g\<rparr>) = blocks_in B l"
  "blocks_in B (l\<lparr>blocks := bs\<rparr>) = blocks_in B l" "blocks_in B (l\<lparr>moduleExportIndex := i\<rparr>) = blocks_in B l"
  "blocks_in B (l\<lparr>exports_sent := e\<rparr>) = blocks_in B l"
  by (simp_all add: blocks_in_def)

lemma blocks_in_put:
  "blocks_in B l \<Longrightarrow> (\<And>b. block obj = Some b \<Longrightarrow> b \<in> B) \<Longrightarrow> blocks_in B (set_obj n obj l)"
  by (simp add: blocks_in_def)

lemma blocks_in_same_block: "blocks_in B l \<Longrightarrow> block obj = block (heap l n) \<Longrightarrow> blocks_in B (set_obj n obj l)"
  by (rule blocks_in_put) (simp_all add: blocks_in_def)

lemma blocks_in_alloc:
  "blocks_in B l \<Longrightarrow> (\<And>b. block obj = Some b \<Longrightarrow> b \<in> B) \<Longrightarrow> blocks_in B (snd (alloc i obj l))"
  by (simp add: alloc_def Let_def blocks_in_put)

lemma alloc_in:
  "alloc i obj l = (n, l') \<Longrightarrow> blocks_in B l \<Longrightarrow> block obj = Some b \<Longrightarrow> b \<in> B \<Longrightarrow> blocks_in B l'"
  using blocks_in_alloc [of B l obj i] by simp

lemma set_block_in:
  assumes "blocks_in B l" "\<And>x. b = Some x \<Longrightarrow> x \<in> B"
  shows "safe (blocks_in B) (set_block n b l)"
  using assms
  by (auto simp: set_block_def UpdateBlock_def Let_def intro!: blocks_in_put split: option.splits node_type.splits if_splits)

lemma reuse_node_in:
  assumes "blocks_in B l" "\<And>x. b = Some x \<Longrightarrow> x \<in> B"
  shows "safe (blocks_in B) (reuse_node ok i b n l)"
  using set_block_in [OF assms] by (simp add: reuse_node_def)

lemma block_new_obj [simp]: "block (new_obj ty lab b) = b"
  by (simp add: new_obj_def)

section \<open>Filling the graph\<close>

lemma safe_node:
  assumes "blocks_in B l" "\<And>x. b = Some x \<Longrightarrow> x \<in> B" "\<And>x. block obj = Some x \<Longrightarrow> x \<in> B"
    "\<And>n l. blocks_in B l \<Longrightarrow> safe Q (f (n, l))"
  shows "safe Q (res_bind (case x of Some n \<Rightarrow> res_bind (reuse_node ok i b n l) (\<lambda>l. Inr (n, l)) | None \<Rightarrow> Inr (alloc i obj l)) f)"
proof (cases x)
  case None
  then show ?thesis using assms(4) blocks_in_alloc [OF assms(1), of obj i] assms(3) by (cases "alloc i obj l") simp
next
  case (Some n)
  have "safe (blocks_in B) (reuse_node ok i b n l)" using assms(1,2) by (rule reuse_node_in)
  with Some assms(4) show ?thesis by (cases "reuse_node ok i b n l") simp_all
qed

lemma declare_step_in:
  assumes "blocks_in B l" "b \<in> B"
  shows "safe (\<lambda>(ds, bm, g, l). blocks_in B l) (declare_step b (ds, bm, g, l))"
proof -
  have "safe (\<lambda>(ds, bm, g, l). blocks_in B l) (res_bind (graph_res r)
      (\<lambda>g. Inr (ds, bm, g, l\<lparr>customComponentReg := c l, declareNodes := d l\<rparr>)))" if "blocks_in B l" for ds :: Diagnostics and bm :: "(string, BlockStmt) gomap" and r l c d
    by (rule safe_bind [OF safe_graph_res]) (use that in simp)
  with assms show ?thesis
    by (auto simp: declare_step_def Let_def split: sum.split intro!: safe_node)
qed

lemma service_step_in:
  assumes "blocks_in B l"
  shows "safe (\<lambda>(ds, g, l). blocks_in B l) (service_step svc (ds, g, l))"
proof -
  have "safe (\<lambda>(ds, g, l). blocks_in B l) (res_bind (graph_res r) (\<lambda>g. Inr (ds, g, l)))" if "blocks_in B l" for ds :: Diagnostics and r l
    by (rule safe_bind [OF safe_graph_res]) (use that in simp)
  with assms show ?thesis
    by (auto simp: service_step_def Let_def intro!: safe_node)
qed

lemma service_block_step_in:
  assumes "blocks_in B l" "b \<in> B"
  shows "safe (\<lambda>(ds, g, l). blocks_in B l) (service_block_step G b (ds, g, l))"
proof -
  have "safe (blocks_in B) (set_block n (Some b) l)" for n using assms by (intro set_block_in) auto
  then have "safe (\<lambda>(ds, g, l). blocks_in B l) (res_bind (set_block n (Some b) l) (\<lambda>l. Inr (ds, g, l)))" for n
    by (rule safe_bind) simp
  with assms(1) show ?thesis by (auto simp: service_block_step_def Let_def split: option.split)
qed

lemma config_node_in:
  assumes "blocks_in B (l :: ('a, 'b) Loader)" "b \<in> B"
  shows "safe (\<lambda>r. case r of Inl _ \<Rightarrow> True | Inr (n, l) \<Rightarrow> blocks_in B l) (config_node G b ds l)"
proof -
  have "safe (blocks_in B) (set_block n (Some b) l)" for n using assms by (intro set_block_in) auto
  then have "safe (\<lambda>r. case r of Inl _ \<Rightarrow> True | Inr (n, l) \<Rightarrow> blocks_in B l)
      (res_bind (set_block n (Some b) l) (\<lambda>l. Inr (Inr (n, l))))" for n
    by (rule safe_bind) simp
  moreover have "block obj = Some b" if "NewConfigNode b st = Inr obj" for obj :: "'a node_obj" and st
    using that by (auto simp: NewConfigNode_def Let_def split: option.splits if_splits)
  ultimately show ?thesis
    using alloc_in [OF _ assms(1) _ assms(2)]
    by (cases "GetByID (l_graph l) (block_id b)"; cases "NewConfigNode b (MinStability G) :: Diagnostic + 'a node_obj")
      (auto simp: config_node_def split: prod.split)
qed

lemma config_step_in:
  assumes "blocks_in B l" "b \<in> B"
  shows "safe (\<lambda>(ds, m, bm, g, l). blocks_in B l) (config_step G b (ds, m, bm, g, l))"
proof -
  have add: "safe (\<lambda>(ds, m, bm, g, l). blocks_in B l) (res_bind (graph_res r) (\<lambda>g. Inr (ds, m, bm, g, l)))" if "blocks_in B l"
    for ds :: Diagnostics and m :: ConfigNodeMap and bm :: "(string, BlockStmt) gomap" and r l
    by (rule safe_bind [OF safe_graph_res]) (use that in simp)
  show ?thesis
    unfolding config_step_def Let_def
    by (auto split: sum.split prod.split intro!: safe_bind [OF config_node_in [OF assms]] add assms(1))
qed

lemma component_step_in:
  assumes "blocks_in B l" "b \<in> B"
  shows "safe (\<lambda>(ds, bm, g, l). blocks_in B l) (component_step G b (ds, bm, g, l))"
proof -
  have add: "safe (\<lambda>(ds, bm, g, l). blocks_in B l) (res_bind (graph_res r) (\<lambda>g. Inr (ds, bm, g, l)))" if "blocks_in B l"
    for ds :: Diagnostics and bm :: "(string, BlockStmt) gomap" and r l
    by (rule safe_bind [OF safe_graph_res]) (use that in simp)
  have reuse: "safe (blocks_in B) (reuse_node ok i (Some b) n l)" for ok i n using assms by (intro reuse_node_in) auto
  have new: "block obj = Some b" if "createComponentNode G reg name b = Inr obj" for obj reg name
    using that by (auto simp: createComponentNode_def split: sum.splits if_splits prod.splits)
  show ?thesis
    unfolding component_step_def Let_def
    using alloc_in [OF _ assms(1) new assms(2)] assms
    by (auto split: sum.split prod.split option.split intro!: safe_bind [OF reuse] add)
qed

lemma populate_in:
  assumes "blocks_in B l" "set bs \<subseteq> B"
  shows "safe (\<lambda>(ds, g, l). blocks_in B l) (populateServiceNodes G bs g l)"
    "safe (\<lambda>(ds, g, l). blocks_in B l) (populateDeclareNodes bs g l)"
    "safe (\<lambda>(ds, g, l). blocks_in B l) (populateComponentNodes G bs g l)"
proof -
  have "safe (\<lambda>(ds, g, l). blocks_in B l) (res_fold (service_block_step G) bs st)"
    if "(\<lambda>(ds, g, l). blocks_in B l) st" for st
    using that assms(2) by (intro safe_fold) (auto intro!: service_block_step_in)
  moreover have "safe (\<lambda>(ds, g, l). blocks_in B l) (res_fold service_step ss ([], g, l))" for ss
    using assms(1) by (intro safe_fold) (auto intro!: service_step_in)
  ultimately show "safe (\<lambda>(ds, g, l). blocks_in B l) (populateServiceNodes G bs g l)"
    unfolding populateServiceNodes_def by (blast intro: safe_bind)
next
  have "safe (\<lambda>(ds, bm, g, l). blocks_in B l) (res_fold declare_step bs ([], [], g, l\<lparr>declareNodes := []\<rparr>))"
    using assms by (intro safe_fold) (auto intro!: declare_step_in)
  then show "safe (\<lambda>(ds, g, l). blocks_in B l) (populateDeclareNodes bs g l)"
    unfolding populateDeclareNodes_def by (rule safe_bind) (auto split: prod.splits)
next
  have "safe (\<lambda>(ds, bm, g, l). blocks_in B l) (res_fold (component_step G) bs ([], [], g, l))"
    using assms by (intro safe_fold) (auto intro!: component_step_in)
  then show "safe (\<lambda>(ds, g, l). blocks_in B l) (populateComponentNodes G bs g l)"
    unfolding populateComponentNodes_def by (rule safe_bind) (auto split: prod.splits)
qed

lemma default_node_in:
  assumes "blocks_in B l"
  shows "safe (\<lambda>(g, l). blocks_in B l) (default_node G present ty i g l)"
proof -
  obtain n l1 where a: "alloc i (new_obj ty [] None) l = (n, l1)" by fastforce
  have "blocks_in B l1" using blocks_in_alloc [OF assms, of "new_obj ty [] None" i] a by simp
  then have "safe (\<lambda>(g, l). blocks_in B l) (res_bind (graph_res (Add n g)) (\<lambda>g. Inr (g, l1)))"
    by (intro safe_bind [OF safe_graph_res]) simp
  with a assms show ?thesis by (simp add: default_node_def)
qed

lemma populateConfigBlockNodes_in:
  assumes "blocks_in B l" "set bs \<subseteq> B"
  shows "safe (\<lambda>(ds, g, l). blocks_in B l) (populateConfigBlockNodes G args bs g l)"
proof -
  have fill: "safe (\<lambda>(ds, m, bm, g, l). blocks_in B l) (res_fold (config_step G) bs ([], NewConfigNodeMap, [], g, l))"
    using assms by (intro safe_fold) (auto intro!: config_step_in)
  have defaults: "safe (\<lambda>(ds, g, l). blocks_in B l) (res_bind (default_node G a ty i g l) (\<lambda>(g, l). res_bind (default_node G b ty' i' g l)
      (\<lambda>(g, l). Inr (ds, g, l\<lparr>importConfigNodes := im, forEachNodes := fm\<rparr>))))" if "blocks_in B l"
    for a b ty ty' i i' g l im fm and ds :: Diagnostics
    by (rule safe_bind [OF default_node_in [OF that]], clarsimp, rule safe_bind [OF default_node_in]) auto
  show ?thesis
    unfolding populateConfigBlockNodes_def Let_def
    by (rule safe_bind [OF fill]) (auto intro!: defaults)
qed

section \<open>Wiring and evaluation\<close>

definition no_nil :: "BlockStmt \<Rightarrow> bool" where
  "no_nil b \<longleftrightarrow> NilExpr \<notin> set (body_subexprs (Body b))"

lemma same_loader_blocks: "same_loader l l' \<Longrightarrow> blocks_in B l \<Longrightarrow> blocks_in B l'"
  unfolding same_loader_def blocks_in_def by (metis same_obj_fields(1))

lemma safe_add_edges: "safe (\<lambda>_. True) (add_edges n ts g)"
  unfolding add_edges_def by (rule safe_fold) (simp_all add: safe_graph_res)

lemma safe_wire_kind: "safe (\<lambda>_. True) (wire_kind l n st)"
proof -
  obtain ds g where st: "st = (ds, g)" by fastforce
  have edges: "safe (\<lambda>_. True) (res_bind (add_edges n ts g) (\<lambda>g. Inr (ds, g)))" for ts
    by (rule safe_bind [OF safe_add_edges]) simp
  have "safe (\<lambda>_. True) (service_dep_step n d st)" for d and st :: "Diagnostics \<times> graph"
    by (cases st) (auto simp: service_dep_step_def split: option.split intro!: safe_bind [OF safe_graph_res])
  then have deps: "safe (\<lambda>_. True) (res_fold (service_dep_step n) xs (ds, g))" for xs by (intro safe_fold) auto
  have "safe (\<lambda>_. True) (wireCustomComponentNode l n g)"
    by (auto simp: wireCustomComponentNode_def safe_graph_res safe_add_edges split: option.split)
  then have custom: "safe (\<lambda>_. True) (res_bind (wireCustomComponentNode l n g) (\<lambda>g. Inr (ds, g)))"
    by (rule safe_bind) simp
  show ?thesis
    using edges deps custom by (simp add: st wire_kind_def wireForEachNode_def split: node_type.split)
qed

lemma wire_node_in:
  assumes "blocks_in B l" "\<forall>b \<in> B. no_nil b"
  shows "safe (\<lambda>(ds, g, l). blocks_in B l) (wire_node G n (ds, g, l))"
proof -
  have "TraversalsFromBody (Body b) \<noteq> None" if "block (heap l n) = Some b" for b
  proof -
    have "NilExpr \<notin> set (body_subexprs (Body b))" using assms that by (auto simp: blocks_in_def no_nil_def)
    from traversals_of_body [OF this] show ?thesis by (metis option.distinct(1))
  qed
  then have refs: "ComponentReferences G g' sc (heap l n) \<noteq> None" for g' sc
    by (cases "block (heap l n)") (auto simp: ComponentReferences_def split: option.split)
  have edges: "safe (\<lambda>(ds, g, l). blocks_in B l) (res_bind (add_edges n ts g') (\<lambda>g'. Inr (ds, g', setDataFlowEdges G n rs l)))"
    for ds :: Diagnostics and ts g' rs
    by (rule safe_bind [OF safe_add_edges]) (use assms(1) same_loader_blocks [OF same_setDataFlowEdges] in auto)
  show ?thesis
    unfolding wire_node_def prod.case
    by (rule safe_bind [OF safe_wire_kind]) (use assms(1) edges in \<open>auto simp: refs split: prod.split option.split\<close>)
qed

lemma loadNewGraph_in:
  assumes "blocks_in B l" "set cs \<subseteq> B" "set fs \<subseteq> B" "set ds \<subseteq> B" "\<forall>b \<in> B. no_nil b"
  shows "safe (\<lambda>(diags, g, l). blocks_in B l) (loadNewGraph G args cs fs ds l)"
proof -
  obtain cs1 ss where split: "splitComponentBlocks G cs = (cs1, ss)" by fastforce
  then have sub: "set cs1 \<subseteq> B" "set ss \<subseteq> B" using assms(2) by (auto simp: splitComponentBlocks_def Let_def)
  have wire: "safe (\<lambda>(ds, g, l). blocks_in B l) (wireGraphEdges G g l)" if "blocks_in B l" for g l
    unfolding wireGraphEdges_def
    using that same_loader_blocks [OF same_ResetDataFlowEdgeTo] assms(5) by (intro safe_fold) (auto intro!: wire_node_in)
  show ?thesis
    unfolding loadNewGraph_def split Let_def prod.case
    apply (rule safe_bind [OF populate_in(1) [OF assms(1) sub(2)]], clarsimp)
    apply (rule safe_bind [OF populate_in(2) [OF _ assms(4)]], assumption, clarsimp)
    apply (rule safe_bind [OF populateConfigBlockNodes_in [OF _ assms(3)]], assumption, clarsimp)
    apply (rule safe_bind [OF populate_in(3) [OF _ sub(1)]], assumption, clarsimp)
    apply (rule safe_bind [OF wire], assumption)
    apply (auto split: option.split)
    done
qed

text \<open>Evaluation keeps the blocks and walks no block.\<close>

lemma Evaluate_in: "blocks_in B l \<Longrightarrow> Evaluate G n sc l = (e, l') \<Longrightarrow> blocks_in B l'"
  by (auto simp: Evaluate_def Let_def intro!: blocks_in_same_block split: node_type.splits sum.splits prod.splits)

lemma postEvaluate_in: "blocks_in B l \<Longrightarrow> safe (\<lambda>(e, l). blocks_in B l) (postEvaluate G n e l)"
  by (auto simp: postEvaluate_def Let_def split: option.split prod.split)

lemma apply_node_in:
  assumes "blocks_in B (as_loader st)"
  shows "(case apply_node G n st of (None, st') \<Rightarrow> blocks_in B (as_loader st') | (Some p, _) \<Rightarrow> \<not> nil_panic p)"
proof -
  have "safe (\<lambda>(e, l). blocks_in B l) (evaluate G n (as_loader st))"
    using assms Evaluate_in postEvaluate_in by (fastforce simp: evaluate_def split: prod.split)
  moreover have "blocks_in B l \<Longrightarrow> blocks_in B (cache_export_value G n l)" for l
    by (simp add: cache_export_value_def)
  ultimately show ?thesis by (auto simp: apply_node_def Let_def safe_def split: sum.splits prod.splits)
qed

lemma visit_all_in:
  assumes "blocks_in B (as_loader st)"
  shows "(case visit_all (apply_node G) ns st of (None, st') \<Rightarrow> blocks_in B (as_loader st') | (Some p, _) \<Rightarrow> \<not> nil_panic p)"
  using assms
proof (induction ns arbitrary: st)
  case (Cons n ns)
  obtain r st' where r: "apply_node G n st = (r, st')" by fastforce
  from Cons.IH [of st'] apply_node_in [OF Cons.prems, of G n] r show ?case by (cases r) auto
qed simp

lemma Apply_in:
  assumes "blocks_in B l" "set (ComponentBlocks opts) \<subseteq> B" "set (ConfigBlocks opts) \<subseteq> B" "set (DeclareBlocks opts) \<subseteq> B"
    "\<forall>b \<in> B. no_nil b"
  shows "safe (\<lambda>(ds, l). blocks_in B l) (Apply G opts l)"
proof -
  have "blocks_in B (prepare opts l)" using assms(1) by (simp add: prepare_def Let_def)
  note load = loadNewGraph_in [OF this assms(2-5)]
  have eval: "safe (\<lambda>(ds, l). blocks_in B l) (evaluate_graph G opts ds g l)" if "blocks_in B l" for ds g l
  proof -
    have "blocks_in B (as_loader (apply_start ds l))" using that by (simp add: apply_start_def)
    from visit_all_in [OF this] have "case WalkTopological g (Leaves g) (apply_node G) (apply_start ds l) of
        (None, st') \<Rightarrow> blocks_in B (as_loader st') | (Some p, _) \<Rightarrow> \<not> nil_panic p"
      by (simp add: WalkTopological_def topo_loop_eq)
    then show ?thesis
      by (auto simp: evaluate_graph_def send_exports_def Let_def split: option.splits prod.splits)
  qed
  show ?thesis
    unfolding Apply_def by (rule safe_bind [OF load]) (auto intro!: eval)
qed

end
