(* ===== verification/Runtime_Load.thy ===== *)
theory Runtime_Load
  imports Config_Source Loader_Blocks Loader_Update Scheduler_Order
begin

text \<open>
  Loading a configuration into the running system, \<^verbatim>\<open>internal/runtime/alloy.go\<close>: a source goes to the loader,
  and the loop of \<open>Run\<close> gives the loaded graph to the scheduler, hands updated nodes to the loader, and stops
  the scheduler at the end. Here the parser, the loader, the workers and the scheduler meet.

  The file system is an argument, \<open>stat\<close>: an error, or whether the path is a directory. The embedding of strings
  in the values of the expression language is the argument \<open>str_value\<close>. The steps that the worker pool and the
  update queue allow are taken for any node: what they choose is the subject of their own theories.
\<close>

section \<open>Loading\<close>

text \<open>\<^verbatim>\<open>filepath.Dir\<close> on Unix: all but the last element, cleaned.\<close>

definition filepath_Dir :: "string \<Rightarrow> string" where
  "filepath_Dir p = path_Clean (rev (dropWhile (\<lambda>c. c \<noteq> CHR ''/'') (rev p)))"

definition ExtractDirPath :: "(string \<Rightarrow> string + bool) \<Rightarrow> string \<Rightarrow> string option \<times> string" where
  "ExtractDirPath stat p =
     (case stat p of
        Inl failure \<Rightarrow> (Some failure, [])
      | Inr isDir \<Rightarrow> if \<not> isDir then (None, filepath_Dir p) else (None, p))"

text \<open>
  Where \<open>Run\<close> is: in its \<open>select\<close>, in a call of \<open>Synchronize\<close>, or in the deferred function at its end. The channel
  \<open>loadFinished\<close> has room for one message.
\<close>

datatype run_mode = RunSelect | RunSync | RunExit

record ('v, 'w) Runtime =
  rt_loader :: "('v, 'w) Loader"
  rt_sched :: Scheduler
  rt_loadFinished :: bool
  rt_loadedOnce :: bool
  rt_loadComplete :: bool
  rt_mode :: run_mode

definition newController :: "'w \<Rightarrow> ('v, 'w) Runtime" where
  "newController w = \<lparr>rt_loader = NewLoader w, rt_sched = NewScheduler, rt_loadFinished = False, rt_loadedOnce = False,
     rt_loadComplete = False, rt_mode = RunSelect\<rparr>"

definition applyLoaderConfig ::
  "('v, 'w) Globals \<Rightarrow> 'v ApplyOptions \<Rightarrow> ('v, 'w) Runtime \<Rightarrow> loader_panic + Diagnostics option \<times> ('v, 'w) Runtime" where
  "applyLoaderConfig G applyOptions f =
     (let f = f\<lparr>rt_loadComplete := False\<rparr> in
      res_bind (Apply G applyOptions (rt_loader f)) (\<lambda>(diags, l).
        let f = f\<lparr>rt_loader := l\<rparr> in
        if \<not> rt_loadedOnce f \<and> HasErrors diags then Inr (Some diags, f)
        else Inr (ErrorOrNil diags, f\<lparr>rt_loadedOnce := True, rt_loadFinished := True\<rparr>)))"

definition LoadSource ::
  "(string \<Rightarrow> string + bool) \<Rightarrow> (string \<Rightarrow> 'v) \<Rightarrow> ('v, 'w) Globals \<Rightarrow> config_source \<Rightarrow> 'v vmap \<Rightarrow> string \<Rightarrow> ('v, 'w) Runtime \<Rightarrow>
   loader_panic + Diagnostics option \<times> ('v, 'w) Runtime" where
  "LoadSource stat str_value G source args configPath f =
     (case ExtractDirPath stat configPath of (failure, modulePath) \<Rightarrow>
        applyLoaderConfig G
          \<lparr>Args = args, ComponentBlocks = Source_Components source, ConfigBlocks = Source_Configs source,
           DeclareBlocks = Source_Declares source, opt_CustomComponentRegistry = None,
           ArgScope = Some (NewScope [(''module_path'', Plain (str_value modulePath))])\<rparr> f)"

definition module_loadSource ::
  "('v, 'w) Globals \<Rightarrow> config_source \<Rightarrow> 'v vmap \<Rightarrow> 'v registry \<Rightarrow> ('v, 'w) Runtime \<Rightarrow>
   loader_panic + Diagnostics option \<times> ('v, 'w) Runtime" where
  "module_loadSource G source args customComponentRegistry f =
     applyLoaderConfig G
       \<lparr>Args = args, ComponentBlocks = Source_Components source, ConfigBlocks = Source_Configs source,
        DeclareBlocks = Source_Declares source, opt_CustomComponentRegistry = Some customComponentRegistry,
        ArgScope = reg_scope customComponentRegistry\<rparr> f"

definition Ready :: "('v, 'w) Runtime \<Rightarrow> bool" where
  "Ready f = rt_loadedOnce f"

definition LoadComplete :: "('v, 'w) Runtime \<Rightarrow> bool" where
  "LoadComplete f = rt_loadComplete f"

section \<open>Running\<close>

text \<open>
  The steps of \<open>Run\<close>, of the goroutines of the scheduler, of the workers, and of the callers that load. A step of
  the scheduler that is not begun by \<open>Run\<close> leaves it idle when it was idle.
\<close>

inductive run_step :: "('v, 'w) Globals \<Rightarrow> (node \<Rightarrow> bool) \<Rightarrow> ('v, 'w) Runtime \<Rightarrow> ('v, 'w) Runtime \<Rightarrow> bool"
  for G runnable where
  run_load: "applyLoaderConfig G opts f = Inr (failure, f') \<Longrightarrow> run_step G runnable f f'"
| run_update: "rt_mode f = RunSelect \<Longrightarrow> EvaluateDependants G wait alive updated (rt_loader f) p = Inr (l, p') \<Longrightarrow>
    run_step G runnable f (f\<lparr>rt_loader := l\<rparr>)"
| run_worker: "concurrentEvalFn G n (rt_loader f) = Inr (failure, l) \<Longrightarrow> run_step G runnable f (f\<lparr>rt_loader := l\<rparr>)"
| run_sync: "rt_mode f = RunSelect \<Longrightarrow> rt_loadFinished f \<Longrightarrow>
    run_step G runnable f
      (f\<lparr>rt_loadFinished := False, rt_mode := RunSync, rt_sched := sync_begin runnable (loader_Graph (rt_loader f)) (rt_sched f)\<rparr>)"
| run_sched: "sched_step runnable (rt_sched f) s \<Longrightarrow> (sch_phase (rt_sched f) = SyncIdle \<longrightarrow> sch_phase s = SyncIdle) \<Longrightarrow>
    run_step G runnable f (f\<lparr>rt_sched := s\<rparr>)"
| run_synced: "rt_mode f = RunSync \<Longrightarrow> sch_phase (rt_sched f) = SyncIdle \<Longrightarrow>
    run_step G runnable f (f\<lparr>rt_loadComplete := True, rt_mode := RunSelect\<rparr>)"
| run_exit: "rt_mode f = RunSelect \<Longrightarrow> run_step G runnable f (f\<lparr>rt_mode := RunExit, rt_sched := Stop_begin (rt_sched f)\<rparr>)"

definition run_reach :: "('v, 'w) Globals \<Rightarrow> (node \<Rightarrow> bool) \<Rightarrow> ('v, 'w) Runtime \<Rightarrow> bool" where
  "run_reach G runnable f \<longleftrightarrow> (\<exists>w. (run_step G runnable)\<^sup>*\<^sup>* (newController w) f)"

section \<open>The graph of the loader\<close>

definition graph_ok :: "graph \<Rightarrow> bool" where
  "graph_ok g \<longleftrightarrow> graph_inv g \<and> acyclic (edge_rel g)"

lemma Apply_graph_ok:
  assumes "Apply G opts l = Inr (ds, l')" "graph_ok (l_graph l)"
  shows "graph_ok (l_graph l')"
proof -
  obtain diags g l1 where load: "load G opts l = Inr (diags, g, l1)" using assms(1) by (auto simp: Apply_load res_bind_Inr)
  show ?thesis
  proof (cases "HasErrors diags")
    case True
    then have "l' = l1" using assms(1) load by (auto simp: Apply_load)
    moreover have "l_graph l1 = l_graph l"
      using loadNewGraph_inv(2) [OF load [unfolded load_def]] by (simp add: keeps_def core_def prepare_def Let_def)
    ultimately show ?thesis using assms(2) by simp
  next
    case False
    then have "l_graph l' = g" using Apply_accepted [OF assms(1) load] by metis
    with load_ok(1,2) [OF load False] show ?thesis by (simp add: graph_ok_def)
  qed
qed

lemma concurrentEvalFn_graph:
  assumes "concurrentEvalFn G n l = Inr (failure, l')"
  shows "l_graph l' = l_graph l"
proof -
  obtain e1 l1 where E: "Evaluate G n (GetContext (cache l)) l = (e1, l1)" by fastforce
  obtain e2 l2 where P: "postEvaluate G n e1 l1 = Inr (e2, l2)" "l' = send_exports G (cache_export_value G n l2)"
    using assms by (auto simp: concurrentEvalFn_def evaluate_def E res_bind_Inr)
  have "l_graph l' = l_graph l2" by (simp add: P(2) send_exports_def cache_export_value_def)
  then show ?thesis using Evaluate_fields(1) [OF E] postEvaluate_fields(1) [OF P(1)] by simp
qed

lemma collect_parents_graph: "res_fold collect_parent qs (deps, l) = Inr (deps', l') \<Longrightarrow> l_graph l' = l_graph l"
proof (induction qs arbitrary: deps l)
  case (Cons q qs)
  from Cons.prems obtain deps1 l1 where step: "collect_parent q (deps, l) = Inr (deps1, l1)" "res_fold collect_parent qs (deps1, l1) = Inr (deps', l')"
    by (auto simp: res_bind_Inr)
  then have "l_graph l1 = l_graph l"
    by (auto simp: collect_parent_def Let_def res_bind_Inr split: if_splits option.splits)
  with Cons.IH [OF step(2)] show ?case by simp
qed simp

lemma EvaluateDependants_graph: "EvaluateDependants G wait alive qs l p = Inr (l', p') \<Longrightarrow> l_graph l' = l_graph l"
  by (auto simp: EvaluateDependants_def res_bind_Inr dest: collect_parents_graph split: if_splits)

section \<open>Invariant of the running system\<close>

definition run_inv :: "(node \<Rightarrow> bool) \<Rightarrow> ('v, 'w) Runtime \<Rightarrow> bool" where
  "run_inv runnable f \<longleftrightarrow> graph_ok (l_graph (rt_loader f)) \<and> sched_reach runnable (rt_sched f) \<and>
     (rt_mode f = RunSelect \<longrightarrow> sch_phase (rt_sched f) = SyncIdle) \<and>
     (rt_mode f = RunSync \<longrightarrow> sch_phase (rt_sched f) \<in> {SyncIdle, SyncStopping, SyncStarting}) \<and>
     (rt_mode f = RunExit \<longrightarrow> sch_phase (rt_sched f) \<in> {SyncHalting, SyncHalted}) \<and>
     (\<not> rt_loadedOnce f \<longrightarrow> \<not> rt_loadFinished f \<and> rt_mode f \<noteq> RunSync \<and> sch_next (rt_sched f) = 0)"

lemma run_inv_start: "run_inv runnable (newController w)"
  by (simp add: run_inv_def newController_def NewLoader_def NewScheduler_def graph_ok_def graph_inv_empty sched_reach_def)
    (simp add: empty_graph_def edge_rel_def acyclic_def)

lemma sched_step_phase:
  assumes "sched_step runnable s s'" "sch_phase s = SyncIdle \<longrightarrow> sch_phase s' = SyncIdle"
  shows "sch_phase s = SyncIdle \<Longrightarrow> sch_phase s' = SyncIdle"
    "sch_phase s \<in> {SyncIdle, SyncStopping, SyncStarting} \<Longrightarrow> sch_phase s' \<in> {SyncIdle, SyncStopping, SyncStarting}"
    "sch_phase s \<in> {SyncHalting, SyncHalted} \<Longrightarrow> sch_phase s' \<in> {SyncHalting, SyncHalted}"
    "sch_phase s \<noteq> SyncStopping \<Longrightarrow> sch_next s' = sch_next s"
  using assms by (auto simp: sync_begin_def Stop_begin_def sync_launch_def Let_def split: prod.splits if_splits elim!: sched_step.cases)

lemma run_step_inv: "run_step G runnable f f' \<Longrightarrow> run_inv runnable f \<Longrightarrow> run_inv runnable f'"
proof (induction rule: run_step.induct)
  case (run_load opts f failure f')
  then obtain ds l where A: "Apply G opts (rt_loader f) = Inr (ds, l)" by (auto simp: applyLoaderConfig_def Let_def res_bind_Inr)
  have g: "graph_ok (l_graph l)" using Apply_graph_ok [OF A] run_load.prems by (simp add: run_inv_def)
  have "f' = f\<lparr>rt_loadComplete := False, rt_loader := l\<rparr> \<or>
      f' = f\<lparr>rt_loadComplete := False, rt_loader := l, rt_loadedOnce := True, rt_loadFinished := True\<rparr>"
    using run_load.hyps by (simp add: applyLoaderConfig_def A Let_def split: if_splits)
  with g run_load.prems show ?case by (elim disjE) (simp_all add: run_inv_def)
next
  case (run_update f wait alive updated p l p')
  then show ?case using EvaluateDependants_graph by (fastforce simp: run_inv_def)
next
  case (run_worker n f failure l)
  then show ?case using concurrentEvalFn_graph by (fastforce simp: run_inv_def)
next
  case (run_sync f)
  let ?g = "loader_Graph (rt_loader f)"
  have "graph_ok ?g" using run_sync.prems by (simp add: run_inv_def graph_ok_def loader_Graph_def Clone_eq)
  then have "sched_reach runnable (sync_begin runnable ?g (rt_sched f))"
    using sched_reach_step [OF _ synchronize] run_sync by (simp add: run_inv_def graph_ok_def)
  with run_sync show ?case by (auto simp: run_inv_def sync_begin_def Let_def)
next
  case (run_sched f s)
  have "sched_reach runnable s" using run_sched by (auto simp: run_inv_def intro: sched_reach_step)
  moreover have "sch_phase (rt_sched f) \<noteq> SyncStopping" if "\<not> rt_loadedOnce f"
    using that run_sched.prems by (cases "rt_mode f") (auto simp: run_inv_def)
  ultimately show ?case using run_sched.prems sched_step_phase [OF run_sched.hyps] by (auto simp: run_inv_def)
next
  case (run_synced f)
  then show ?case by (auto simp: run_inv_def)
next
  case (run_exit f)
  then have "sched_reach runnable (Stop_begin (rt_sched f))" using sched_reach_step [OF _ halt] by (simp add: run_inv_def)
  with run_exit show ?case by (auto simp: run_inv_def Stop_begin_def)
qed

lemma run_reach_inv:
  assumes "run_reach G runnable f"
  shows "run_inv runnable f"
proof -
  obtain w where "(run_step G runnable)\<^sup>*\<^sup>* (newController w) f" using assms by (auto simp: run_reach_def)
  then show ?thesis by (induction rule: rtranclp_induct) (auto intro: run_inv_start run_step_inv)
qed

text \<open>
  C8: the running system only gives graphs to its scheduler that the scheduler can order. Whatever is loaded,
  updated and evaluated meanwhile, the states of the scheduler are those it reaches on well-formed acyclic
  graphs, and the graph of the loader is such a graph; no task is made before the system is ready, and it
  becomes ready by a load without errors only; after the end of \<open>Run\<close> no task is left.
\<close>

theorem runtime_schedules_loaded_graphs:
  assumes "run_reach G runnable f"
  shows "sched_reach runnable (rt_sched f) \<and> graph_inv (l_graph (rt_loader f)) \<and> acyclic (edge_rel (l_graph (rt_loader f))) \<and>
    (\<not> Ready f \<longrightarrow> sch_next (rt_sched f) = 0) \<and>
    (\<forall>opts failure f'. applyLoaderConfig G opts f = Inr (failure, f') \<longrightarrow> \<not> Ready f \<longrightarrow> Ready f' \<longrightarrow>
       (\<exists>ds l. Apply G opts (rt_loader f) = Inr (ds, l) \<and> \<not> HasErrors ds)) \<and>
    (sch_phase (rt_sched f) = SyncHalted \<longrightarrow> rt_mode f = RunExit \<and> sch_tasks (rt_sched f) = [])"
proof -
  have inv: "run_inv runnable f" by (rule run_reach_inv [OF assms])
  then have "phase_inv runnable (rt_sched f)" using sched_reach_inv by (auto simp: run_inv_def sched_inv_def)
  then have "sch_tasks (rt_sched f) = []" if "sch_phase (rt_sched f) = SyncHalted" using that by (simp add: phase_inv_def)
  moreover have "rt_mode f = RunExit" if "sch_phase (rt_sched f) = SyncHalted" using that inv by (cases "rt_mode f") (auto simp: run_inv_def)
  moreover have "\<exists>ds l. Apply G opts (rt_loader f) = Inr (ds, l) \<and> \<not> HasErrors ds"
    if "applyLoaderConfig G opts f = Inr (failure, f')" "\<not> Ready f" "Ready f'" for opts failure f'
    using that by (auto simp: applyLoaderConfig_def Let_def res_bind_Inr Ready_def split: if_splits)
  ultimately show ?thesis using inv by (simp add: run_inv_def graph_ok_def Ready_def)
qed

section \<open>Loading parsed sources\<close>

text \<open>Sources are loaded one after the other; an error leaves the system running.\<close>

fun load_sources ::
  "(string \<Rightarrow> string + bool) \<Rightarrow> (string \<Rightarrow> 'v) \<Rightarrow> ('v, 'w) Globals \<Rightarrow> config_source list \<Rightarrow> 'v vmap \<Rightarrow> string \<Rightarrow> ('v, 'w) Runtime \<Rightarrow>
   loader_panic + ('v, 'w) Runtime" where
  "load_sources stat str_value G [] args path f = Inr f"
| "load_sources stat str_value G (source # sources) args path f =
     res_bind (LoadSource stat str_value G source args path f) (\<lambda>(failure, f). load_sources stat str_value G sources args path f)"

definition source_blocks :: "config_source \<Rightarrow> BlockStmt list" where
  "source_blocks s = cs_components s @ cs_configBlocks s @ cs_declareBlocks s"

lemma top_blocks_mem: "top_blocks ss = Some bs \<Longrightarrow> b \<in> set bs \<Longrightarrow> Block b \<in> set ss"
  by (induction ss arbitrary: bs rule: top_blocks.induct) auto

lemma block_subexprs: "Block b \<in> set ss \<Longrightarrow> set (body_subexprs (Body b)) \<subseteq> set (body_subexprs ss)"
proof -
  assume b: "Block b \<in> set ss"
  have "stmt_values (Block b) = concat (map stmt_values (Body b))" by (cases b) simp
  moreover have "set (stmt_values (Block b)) \<subseteq> set (concat (map stmt_values ss))" unfolding set_concat set_map using b by blast
  ultimately have "set (concat (map stmt_values (Body b))) \<subseteq> set (concat (map stmt_values ss))" by simp
  then show ?thesis by (auto simp: body_subexprs_def body_values_def)
qed

lemma parsed_blocks_no_nil:
  assumes "ParseSources X u srcs = Some (Inr s)" "b \<in> set (source_blocks s)"
  shows "no_nil b"
proof -
  obtain rs where rs: "list_all2 (accepts X u) (sort_key fst srcs) rs" "s = merged_source (map_of srcs) (map fst (sort_key fst srcs)) rs"
    using assms(1) unfolding ParseSources_loop sources_from_start by blast
  then have "b \<in> set (concat (map snd rs))" using assms(2) by (auto simp: source_blocks_def merged_source_def)
  then obtain f bs where f: "(f, bs) \<in> set rs" "b \<in> set bs" by auto
  then obtain src where "accepts X u src (f, bs)" using rs(1) by (metis in_set_conv_nth list_all2_conv_all_nth)
  then have p: "ParseFile u (fst src) (snd src) = Some (Inr f)" "top_blocks (File_Body f) = Some bs" by (simp_all add: accepts_def)
  have "NilExpr \<notin> set (body_subexprs (File_Body f))" using ParseFile_sound [OF p(1)] body_no_nil(2) by blast
  with block_subexprs [OF top_blocks_mem [OF p(2) f(2)]] show ?thesis by (auto simp: no_nil_def)
qed

lemma LoadSource_in:
  assumes "blocks_in B (rt_loader f)" "set (source_blocks source) \<subseteq> B" "\<forall>b \<in> B. no_nil b"
  shows "safe (\<lambda>(failure, f). blocks_in B (rt_loader f)) (LoadSource stat str_value G source args path f)"
proof -
  have config: "safe (\<lambda>(failure, f). blocks_in B (rt_loader f)) (applyLoaderConfig G opts f)"
    if "set (ComponentBlocks opts) \<subseteq> B" "set (ConfigBlocks opts) \<subseteq> B" "set (DeclareBlocks opts) \<subseteq> B" for opts
    unfolding applyLoaderConfig_def Let_def
    by (rule safe_bind [OF Apply_in [OF _ that assms(3)]]) (use assms(1) in \<open>auto simp: Let_def\<close>)
  show ?thesis
    using assms(2) by (auto simp: LoadSource_def source_blocks_def Source_Components_def Source_Configs_def Source_Declares_def
        split: prod.split intro!: config)
qed

lemma load_sources_in:
  assumes "blocks_in B (rt_loader f)" "\<forall>s \<in> set ss. set (source_blocks s) \<subseteq> B" "\<forall>b \<in> B. no_nil b"
  shows "safe (\<lambda>f. blocks_in B (rt_loader f)) (load_sources stat str_value G ss args path f)"
  using assms
proof (induction ss arbitrary: f)
  case (Cons s ss)
  have "safe (\<lambda>(failure, f). blocks_in B (rt_loader f)) (LoadSource stat str_value G s args path f)"
    using Cons.prems by (intro LoadSource_in) simp_all
  then show ?case unfolding load_sources.simps by (rule safe_bind) (use Cons in auto)
qed simp

text \<open>
  C9: a configuration that was parsed never makes the loader panic on a missing expression, whatever was
  loaded before: no sequence of parsed sources does, with or without errors in them.
\<close>

theorem parsed_sources_load_safely:
  assumes "\<forall>s \<in> set ss. \<exists>srcs. ParseSources X u srcs = Some (Inr s)"
  shows "load_sources stat str_value G ss args path (newController w) \<noteq> Inl (NilExpression i)"
proof -
  let ?B = "\<Union>s \<in> set ss. set (source_blocks s)"
  have "blocks_in ?B (rt_loader (newController w))" by (simp add: newController_def blocks_in_def new_obj_def)
  moreover have "\<forall>b \<in> ?B. no_nil b" using assms parsed_blocks_no_nil by blast
  ultimately have "safe (\<lambda>f. blocks_in ?B (rt_loader f)) (load_sources stat str_value G ss args path (newController w))"
    by (intro load_sources_in) auto
  then show ?thesis by auto
qed


section \<open>Examples\<close>

theorem runtime_schedules_loaded_graphs_witness:
  "\<exists>f. run_reach sample_globals any_node f \<and> Ready f \<and> rt_mode f = RunSync \<and> sched_reach any_node (rt_sched f)"
proof -
  let ?f = "newController () :: (nat, unit) Runtime"
  obtain ds l where A: "Apply sample_globals sample_opts (NewLoader ()) = Inr (ds, l)" "ds = []"
    using sample_Apply_value by (cases "Apply sample_globals sample_opts (NewLoader ())") auto
  define f where "f = ?f\<lparr>rt_loader := l, rt_loadedOnce := True, rt_loadFinished := True\<rparr>"
  have "applyLoaderConfig sample_globals sample_opts ?f = Inr (None, f)"
    by (simp add: applyLoaderConfig_def newController_def A ErrorOrNil_def f_def)
  then have first: "run_step sample_globals any_node ?f f" by (rule run_load)
  have m: "rt_mode f = RunSelect" "rt_loadFinished f" by (simp_all add: f_def newController_def)
  define f' where "f' = f\<lparr>rt_loadFinished := False, rt_mode := RunSync, rt_sched := sync_begin any_node (loader_Graph (rt_loader f)) (rt_sched f)\<rparr>"
  have "run_step sample_globals any_node f f'" unfolding f'_def using m by (rule run_sync)
  with first have "(run_step sample_globals any_node)\<^sup>*\<^sup>* ?f f'" by (meson converse_rtranclp_into_rtranclp r_into_rtranclp)
  then have f': "run_reach sample_globals any_node f'" "rt_mode f' = RunSync" "rt_loadedOnce f'"
    unfolding run_reach_def by (blast, simp_all add: f_def f'_def)
  from runtime_schedules_loaded_graphs [OF f'(1)] f' show ?thesis by (auto simp: Ready_def)
qed

definition plain_encodings :: encodings where
  "plain_encodings = \<lparr>utfbom_Skip = (\<lambda>b. (b, UnknownEnc)), decoder_Bytes = (\<lambda>e b. Inr b)\<rparr>"

lemma sample_source: "\<exists>s. ParseSources plain_encodings ascii_tables [(''f'', sample_text)] = Some (Inr s)"
proof -
  obtain f where f: "ParseFile ascii_tables ''f'' sample_text = Some (Inr f)" "File_Body f = sample_body" using sample_parsed by blast
  have "utf8_Valid sample_text" by code_simp
  then have enc: "EnsureUTF8 plain_encodings sample_text True = Inr sample_text" by (simp add: EnsureUTF8_def plain_encodings_def)
  obtain bs where "top_blocks sample_body = Some bs" by (simp add: sample_body_def)
  with f enc have "accepts plain_encodings ascii_tables (''f'', sample_text) (f, bs)" by (simp add: accepts_def)
  then have "list_all2 (accepts plain_encodings ascii_tables) (sort_key fst [(''f'', sample_text)]) [(f, bs)]" by simp
  then show ?thesis unfolding ParseSources_loop sources_from_start by blast
qed

theorem parsed_sources_load_safely_witness:
  "\<exists>s. ParseSources plain_encodings ascii_tables [(''f'', sample_text)] = Some (Inr s) \<and>
     load_sources (\<lambda>_. Inr True) length sample_globals [s, s] [] ''/etc'' (newController ()) \<noteq> Inl (NilExpression ''b.x'')"
proof -
  obtain s where s: "ParseSources plain_encodings ascii_tables [(''f'', sample_text)] = Some (Inr s)" using sample_source by blast
  then have "\<forall>s' \<in> set [s, s]. \<exists>srcs. ParseSources plain_encodings ascii_tables srcs = Some (Inr s')" by auto
  then have "load_sources (\<lambda>_. Inr True) length sample_globals [s, s] [] ''/etc'' (newController ()) \<noteq> Inl (NilExpression ''b.x'')"
    by (rule parsed_sources_load_safely)
  with s show ?thesis by blast
qed

end
