(* ===== verification/Spec2Isabelle.thy ===== *)
theory Spec2Isabelle
  imports Dag_Graph Dag_Walk Dag_Tarjan Dag_Weak Token Token_File Utf8 Scanner Scanner_Scan Identifier Worker_Pool Controller_Queue Value_Cache
    Wildcard Feature_Gate Health Split_Path
    Target Distributed_Targets Relabel Target_Builder Label_Store Series_Ref
    Syntax_Ast Ast_References Controller_Nodes Loader Loader_Graph Loader_Apply Loader_Update
    Scanner_Text Parser Parser_Progress Parser_Grammar Parser_Complete Parsed_File Config_Source
    Desired_Tasks Scheduler Scheduler_Order Loader_Blocks Runtime_Load
begin

text \<open>
  A verification of the core of Grafana Alloy, the telemetry collector whose Go sources are under
  \<^verbatim>\<open>src/upstream\<close>. Paths below are relative to that directory.

  \<^bold>\<open>The program.\<close> A configuration file is split into tokens and parsed into blocks. The component
  controller turns the blocks into nodes of a directed graph, in which a node has an edge to every
  node its expressions refer to. It refuses cyclic graphs, evaluates the nodes of an accepted graph so
  that a node comes after the nodes it depends on, and keeps the exports of every component in a cache
  that is the scope of later evaluations. A scheduler runs the nodes of the loaded graph, one task for each,
  and stops those that a later configuration leaves out. A running component that changes its exports is
  queued; the controller drains the queue and has a pool of workers evaluate the nodes that depend on it.
  Components then pass data to each other: discovery components pass targets, which are relabelled and
  distributed over a cluster, and Prometheus components append samples under series references that
  are mapped for every receiver.

  \<^bold>\<open>Configuration language.\<close>
  \<^item> \<open>Token\<close>, \<open>Token_File\<close>: tokens with their names and precedences, files with their line tables and
    positions (\<^verbatim>\<open>syntax/token\<close>). The line search is the binary search of Go's \<^verbatim>\<open>sort.Search\<close>.
  \<^item> \<open>Utf8\<close>, \<open>Scanner\<close>, \<open>Scanner_Scan\<close>: decoding of UTF-8 and every routine of \<^verbatim>\<open>syntax/scanner/scanner.go\<close>
    on its whole state, errors included. Every call of \<open>Scan\<close> makes progress, tokenising ends within
    \<open>2n + 4\<close> calls for \<open>n\<close> bytes, literals are the text of the input, positions are exact.
  \<^item> \<open>Parser\<close>: every routine of \<^verbatim>\<open>syntax/parser/internal.go\<close> on the state of the scanner, with diagnostics and
    recovery, and the entry points of \<^verbatim>\<open>parser.go\<close>. The routines call each other through a record of functions
    that is built for an amount of fuel; \<open>Parser_Progress\<close> shows, on the texts of \<open>Scanner_Text\<close>, that the fuel of
    \<open>ParseFile\<close>, eight units for each byte and eight more, is enough for every file, so that parsing returns.
    \<open>Parser_Grammar\<close> has the grammar of the language as inductive relations between tokens and trees, and that
    what is parsed without errors is derived; \<open>Parser_Complete\<close> that what is derived is parsed. \<open>Parsed_File\<close>
    joins both with the tokens of a text and shows that the references of a parsed file can be collected.
  \<^item> \<open>Identifier\<close>: valid and sanitised identifiers (\<^verbatim>\<open>syntax/scanner/identifier.go\<close>).
  \<^item> \<open>Syntax_Ast\<close>, \<open>Ast_References\<close>: the syntax tree with its positions (\<^verbatim>\<open>syntax/ast\<close>), the walk that
    collects the field accesses of a body and their resolution to nodes (\<^verbatim>\<open>internal/util/ast\<close>).

  \<^item> \<open>Config_Source\<close>: from the contents of files to the blocks that are loaded (\<^verbatim>\<open>internal/runtime/source.go\<close> and the
    check of encodings): what is accepted, and that no block is lost.

  \<^bold>\<open>Component graph.\<close>
  \<^item> \<open>Dag_Graph\<close>: the graph with its four maps and all operations (\<^verbatim>\<open>internal/dag/dag.go\<close>), panics as
    values, refining an abstract graph of vertices and edges.
  \<^item> \<open>Dag_Walk\<close>: the three walks with an arbitrary callback (\<^verbatim>\<open>internal/dag/walk.go\<close>).
  \<^item> \<open>Dag_Tarjan\<close>: strongly connected components and \<open>Validate\<close> (\<^verbatim>\<open>tarjan.go\<close>, \<^verbatim>\<open>ops.go\<close>). The depth of the
    recursive search is bounded by fuel, one unit per node, which is proved to be enough.
  \<^item> \<open>Dag_Weak\<close>: weakly connected components (\<^verbatim>\<open>weak.go\<close>).

  \<^bold>\<open>Controller\<close> (\<^verbatim>\<open>internal/runtime/internal\<close>).
  \<^item> \<open>Controller_Nodes\<close>: component IDs, diagnostics, node objects and their \<open>UpdateBlock\<close>, the registry of
    declared and imported custom components, creation and validation of configuration blocks.
  \<^item> \<open>Loader\<close>: \<^verbatim>\<open>controller/loader.go\<close> and \<^verbatim>\<open>component_references.go\<close>: from blocks to a wired and validated
    graph, evaluation of the graph, reuse of the nodes of the graph loaded before. Node objects live in
    a heap that grows, since a reload updates nodes that the running graph shares. \<open>Loader_Graph\<close> shows
    what building the graph keeps and that references become edges; \<open>Loader_Apply\<close> what a rejected
    configuration leaves as it was (the graph, the objects and their exports, but not the scope, which is
    replaced before the errors are known), that an accepted one is evaluated once per node and in
    order of dependency, that a node sees the current exports of what it depends on, that the loader
    stays well formed, and that a reload can panic after an error. A node finds the exports of another only
    when component IDs are not parts of each other; the theorems say so. Maps that the loader itself builds
    are iterated in the order of insertion.
  \<^item> \<open>Loader_Update\<close>: \<open>EvaluateDependants\<close> and \<open>concurrentEvalFn\<close>, over the model of the worker pool. The
    code retries a refused submission 20 times (\<open>MaxRetries\<close>); the loop recurses on that number. The loader itself does not change during the waits, in which the
    code would let a reload in, and a worker's evaluation, with its two checks under the read and the write
    lock, is one step.
  \<^item> \<open>Desired_Tasks\<close>, \<open>Scheduler\<close>, \<open>Scheduler_Order\<close>: \<^verbatim>\<open>controller/scheduler.go\<close>. \<open>Synchronize\<close>, \<open>Stop\<close> and the goroutines of
    groups and tasks are steps of a relation, in any order; deadlines may pass. An invariant of the reachable
    states gives at most one task for each node, the order of starts and stops along the edges, and that
    a call of \<open>Synchronize\<close> can always finish by itself. A task that exits at the wrong moment is not restarted.
    Deleting a task from the map and counting down the wait group, which the code does right after it, are one
    step, and a deadline may pass at any time, also where none is configured (the code then waits 100 years).
  \<^item> \<open>Runtime_Load\<close>: \<^verbatim>\<open>internal/runtime/alloy.go\<close>: loading a source and the loop of \<open>Run\<close>, as a system of loader,
    workers and scheduler. The scheduler only gets graphs it can order, nothing runs before a load without
    errors, and parsed sources never make the loader panic on a missing expression; \<open>Loader_Blocks\<close> follows the
    blocks through the loader for that. At the end of a run the loader's \<open>Cleanup\<close>, which stops the workers, is
    left out.
  \<^item> \<open>Value_Cache\<close>: \<^verbatim>\<open>controller/value_cache.go\<close> on nested maps, which are values: that a component could
    change a map it has exported is not modelled. What the cache returns is given by the history of the calls.
  \<^item> \<open>Controller_Queue\<close>: \<^verbatim>\<open>controller/queue.go\<close> with the part of the run loop that drains it (without
    the branches of its \<open>select\<close> for the end of the context and finished loads); no notification is lost.
  \<^item> \<open>Worker_Pool\<close>: \<^verbatim>\<open>worker/worker_pool.go\<close> as a state machine: tasks of one key exclude each other, none is
    lost, and work progresses.

  \<^bold>\<open>Data.\<close>
  \<^item> \<open>Target\<close>, \<open>Target_Builder\<close>, \<open>Distributed_Targets\<close>: \<^verbatim>\<open>internal/component/discovery\<close>: targets as label maps,
    hashing, regrouping, the builder, and the distribution over a cluster.
  \<^item> \<open>Relabel\<close>: \<^verbatim>\<open>internal/component/common/relabel\<close>. Go does not fix the order in which a map is ranged over
    while it is changed, so ranging is a relation and rules relate the builder before and after.
  \<^item> \<open>Series_Ref\<close>: \<^verbatim>\<open>internal/component/prometheus/appenders/seriesrefmapping.go\<close>; \<open>Label_Store\<close>:
    \<^verbatim>\<open>internal/service/labelstore\<close>: references are not mixed up, and not reused unless the
    label store is cleared.
  \<^item> \<open>Wildcard\<close>, \<open>Feature_Gate\<close>, \<open>Health\<close>, \<open>Split_Path\<close>: \<^verbatim>\<open>internal/util/wildcard\<close>, \<^verbatim>\<open>internal/featuregate\<close>,
    \<^verbatim>\<open>internal/component/component_health.go\<close>, \<^verbatim>\<open>internal/service/http/split_path.go\<close>.

  \<^bold>\<open>Conventions.\<close> A struct is a record, a pointer that is compared or shared is an address in a heap, an
  error is a value of a sum or option type, and a panic is a value after which nothing is run. A map
  that is ranged over is an association list with distinct keys in an arbitrary order, so that a theorem
  about it holds for every iteration order (\<open>Prelude\<close>). Integers whose width matters are words. Loops
  recurse structurally or with a measure; where the search of Tarjan and the tokeniser take fuel, a
  lemma shows that it is enough; so for the parser.

  \<^bold>\<open>Interfaces.\<close> \<open>set_interface\<close> is the contract of node sets, interpreted for the sets of the graph;
  \<open>forward_routine\<close> that of a scanner routine that only moves ahead, interpreted for each routine;
  \<open>parse_calls\<close> and \<open>parse_sound\<close> those of the calls between the routines of the parser (progress, and
  derivation in the grammar), interpreted for the routines at every amount of fuel;
  \<open>task_ranking\<close> what the scheduler relies on in the groups and ranks of tasks, interpreted for those of a graph;
  \<open>ordered_set_queue\<close> that of the update queue; \<open>label_builder\<close> that of the builder which relabelling
  works on, interpreted for the builder of targets.

  \<^bold>\<open>Parameters\<close> for code outside the repository or outside the model: the Unicode tables; the xxhash and
  MD5 functions and the regular expression engine; the answers of the cluster; label hashes and
  staleness of samples; the comparison \<^verbatim>\<open>equality.DeepEqual\<close>; the registry of built-in components, the
  decoding of block bodies, the evaluation of components, services, imports and foreach blocks, and the
  names of the standard library; what the workers do while the loader waits for room in the pool; the
  detection of byte order marks and the decoders of encodings; which nodes can run; the file system.

  \<^bold>\<open>Not modelled.\<close> The expression evaluator and struct decoder, which work by reflection; the printer;
  nested module controllers and import sources; network services and the wrappers of Prometheus, OpenTelemetry, Loki, profiling and database
  packages; the converters of static mode; generated code and the command line. Logs, metrics, tracing
  spans and mutexes have no counterpart: an operation that holds a lock is one atomic step.
\<close>

end
